(* ===== verification/Prelude.thy ===== *)
theory Prelude
  imports Main "HOL-Library.Word" "HOL-Library.Monad_Syntax" "HOL-Library.Sublist"
begin

text \<open>
  Shared vocabulary of the development: the types that stand for the program's byte strings and
  machine integers, the Rust slice operations the components call (\<open>split\<close>, \<open>join\<close>, \<open>position\<close>,
  \<open>strip_prefix\<close>, \<open>windows\<close>), and the generic lemmas on lists, words and options that the component
  theories use. Nothing here models a file of the repository; every definition is an operation of
  the Rust standard library in the form the sources use it.
\<close>

unbundle bit_operations_syntax

section \<open>Types and fact collections\<close>

text \<open>
  \<open>&[u8]\<close>, \<open>Vec<u8>\<close>, \<open>JsString\<close> and \<open>&str\<close> are byte lists; a \<^typ>\<open>char\<close> of HOL is exactly one
  byte. \<open>isize\<close> is the 64-bit signed integer of the supported targets.
\<close>

type_synonym byte = char
type_synonym bytes = "char list"
type_synonym isize = "64 word"
type_synonym u32 = "32 word"

text \<open>A Rust panic (a failed \<open>assert!\<close>, an index out of bounds) is the value \<^term>\<open>None\<close>.\<close>

type_synonym 'a panicking = "'a option"

named_theorems std_simps \<open>equations of the modelled standard-library operations\<close>
named_theorems signed_simps \<open>the signed order of machine integers, read through sint\<close>

lemmas [signed_simps] = word_sless_alt word_sle_eq

abbreviation byte_val :: "byte \<Rightarrow> nat" where
  "byte_val c \<equiv> of_char c"

section \<open>Slice operations\<close>

text \<open>\<open>iter().position(p)\<close>\<close>

fun position :: "('a \<Rightarrow> bool) \<Rightarrow> 'a list \<Rightarrow> nat option" where
  "position p [] = None"
| "position p (x # xs) = (if p x then Some 0 else map_option Suc (position p xs))"

text \<open>\<open>iter().rposition(p)\<close>: the last index whose element satisfies the predicate.\<close>

fun rposition :: "('a \<Rightarrow> bool) \<Rightarrow> 'a list \<Rightarrow> nat option" where
  "rposition p [] = None"
| "rposition p (x # xs) =
     (case rposition p xs of
        Some i \<Rightarrow> Some (Suc i)
      | None \<Rightarrow> if p x then Some 0 else None)"

text \<open>\<open>slice::split(p)\<close> and \<open>str::split\<close> on one character: always at least one part.\<close>

fun split_by :: "('a \<Rightarrow> bool) \<Rightarrow> 'a list \<Rightarrow> 'a list list" where
  "split_by p [] = [[]]"
| "split_by p (x # xs) =
     (if p x then [] # split_by p xs
      else (x # hd (split_by p xs)) # tl (split_by p xs))"

text \<open>\<open>[Vec<T>]::join(&sep)\<close>\<close>

fun join_with :: "'a \<Rightarrow> 'a list list \<Rightarrow> 'a list" where
  "join_with s [] = []"
| "join_with s [x] = x"
| "join_with s (x # y # zs) = x @ s # join_with s (y # zs)"

definition starts_with :: "'a list \<Rightarrow> 'a list \<Rightarrow> bool" where
  "starts_with xs p \<longleftrightarrow> take (length p) xs = p"

definition ends_with :: "'a list \<Rightarrow> 'a list \<Rightarrow> bool" where
  "ends_with xs p \<longleftrightarrow> length p \<le> length xs \<and> drop (length xs - length p) xs = p"

definition strip_prefix :: "'a list \<Rightarrow> 'a list \<Rightarrow> 'a list option" where
  "strip_prefix xs p = (if starts_with xs p then Some (drop (length p) xs) else None)"

definition strip_suffix :: "'a list \<Rightarrow> 'a list \<Rightarrow> 'a list option" where
  "strip_suffix xs p = (if ends_with xs p then Some (take (length xs - length p) xs) else None)"

text \<open>\<open>windows(w.len()).any(|s| s == w)\<close>, for a nonempty pattern.\<close>

fun has_window :: "'a list \<Rightarrow> 'a list \<Rightarrow> bool" where
  "has_window [] w = (w = [])"
| "has_window (x # xs) w = (starts_with (x # xs) w \<or> has_window xs w)"

text \<open>\<open>windows(w.len()).position(|s| s == w)\<close>, for a nonempty pattern.\<close>

fun window_position :: "'a list \<Rightarrow> 'a list \<Rightarrow> nat option" where
  "window_position [] w = (if w = [] then Some 0 else None)"
| "window_position (x # xs) w =
     (if starts_with (x # xs) w then Some 0 else map_option Suc (window_position xs w))"

section \<open>Lemmas on the slice operations\<close>

lemma starts_with_Nil [simp]: "starts_with xs []"
  by (simp add: starts_with_def)

lemma starts_with_Cons [simp]:
  "starts_with (x # xs) (y # ys) \<longleftrightarrow> x = y \<and> starts_with xs ys"
  by (simp add: starts_with_def)

lemma starts_with_Nil_Cons [simp]: "\<not> starts_with [] (y # ys)"
  by (simp add: starts_with_def)

lemma starts_with_prefix: "starts_with xs p \<longleftrightarrow> prefix p xs"
  by (metis append_eq_conv_conj prefix_def starts_with_def append_take_drop_id)

lemma starts_with_append [simp]: "starts_with (p @ xs) p"
  by (simp add: starts_with_def)

lemma ends_with_suffix: "ends_with xs p \<longleftrightarrow> suffix p xs"
proof
  assume "ends_with xs p"
  then have "xs = take (length xs - length p) xs @ p"
    by (metis append_take_drop_id ends_with_def)
  then show "suffix p xs" by (metis suffix_def)
next
  assume "suffix p xs"
  then obtain ys where "xs = ys @ p" by (auto simp: suffix_def)
  then show "ends_with xs p" by (simp add: ends_with_def)
qed

lemma strip_prefix_Some: "strip_prefix xs p = Some ys \<longleftrightarrow> xs = p @ ys"
  by (auto simp: strip_prefix_def starts_with_def)
     (metis append_take_drop_id)

lemma strip_suffix_Some: "strip_suffix xs p = Some ys \<longleftrightarrow> xs = ys @ p"
  by (auto simp: strip_suffix_def ends_with_def)
     (metis append_take_drop_id)

lemma position_Some:
  "position p xs = Some i \<longleftrightarrow> i < length xs \<and> p (xs ! i) \<and> (\<forall>j<i. \<not> p (xs ! j))"
proof (induction xs arbitrary: i)
  case (Cons x xs)
  show ?case
    by (cases i) (auto simp: Cons.IH All_less_Suc2)
qed simp

lemma position_None: "position p xs = None \<longleftrightarrow> (\<forall>x\<in>set xs. \<not> p x)"
  by (induction xs) auto

lemma position_append:
  "position p (xs @ ys) =
     (case position p xs of Some i \<Rightarrow> Some i | None \<Rightarrow> map_option (\<lambda>i. length xs + i) (position p ys))"
  by (induction xs; cases "position p ys") (auto split: option.splits)

lemma position_split:
  "position p xs = Some i \<Longrightarrow> xs = take i xs @ xs ! i # drop (Suc i) xs"
  by (simp add: position_Some id_take_nth_drop)

lemma rposition_None: "rposition p xs = None \<longleftrightarrow> (\<forall>x\<in>set xs. \<not> p x)"
  by (induction xs) (auto split: option.splits if_splits)

lemma rposition_Some_less: "rposition p xs = Some i \<Longrightarrow> i < length xs \<and> p (xs ! i)"
  by (induction xs arbitrary: i) (auto split: option.splits if_splits)

lemma split_by_not_Nil [simp]: "split_by p xs \<noteq> []"
  by (cases xs) auto

text \<open>The equation to evaluate with: one recursive call.\<close>

lemma split_by_code [code]:
  "split_by p [] = [[]]"
  "split_by p (x # xs) =
     (if p x then [] # split_by p xs
      else case split_by p xs of y # ys \<Rightarrow> (x # y) # ys | [] \<Rightarrow> [[x]])"
  by (simp_all split: list.split)

lemma split_by_no_sep: "ys \<in> set (split_by p xs) \<Longrightarrow> y \<in> set ys \<Longrightarrow> \<not> p y"
proof (induction xs arbitrary: ys y)
  case (Cons x xs)
  obtain z zs where z: "split_by p xs = z # zs" by (cases "split_by p xs") auto
  have "w \<in> set (z # zs) \<Longrightarrow> y \<in> set w \<Longrightarrow> \<not> p y" for w
    using Cons.IH z by simp
  with Cons.prems show ?case by (auto simp: z split: if_splits) blast
qed simp

lemma split_by_none: "(\<forall>x\<in>set xs. \<not> p x) \<Longrightarrow> split_by p xs = [xs]"
  by (induction xs) auto

lemma split_by_append:
  "p s \<Longrightarrow> (\<forall>x\<in>set xs. \<not> p x) \<Longrightarrow> split_by p (xs @ s # ys) = xs # split_by p ys"
  by (induction xs) auto

lemma split_by_snoc: "p s \<Longrightarrow> split_by p (xs @ [s]) = split_by p xs @ [[]]"
proof (induction xs)
  case (Cons x xs)
  then show ?case by (cases "split_by p xs") auto
qed simp

lemma join_with_Cons: "xs \<noteq> [] \<Longrightarrow> join_with s (x # xs) = x @ s # join_with s xs"
  by (cases xs) auto

lemma set_join_with: "set (join_with s xss) \<subseteq> insert s (\<Union>(set ` set xss))"
  by (induction s xss rule: join_with.induct) auto

lemma join_with_eq_Nil: "join_with s xss = [] \<longleftrightarrow> xss = [] \<or> xss = [[]]"
  by (cases "(s, xss)" rule: join_with.cases) auto

lemma join_split: "join_with s (split_by (\<lambda>x. x = s) xs) = xs"
proof (induction xs)
  case (Cons x xs)
  obtain y ys where yy: "split_by (\<lambda>x. x = s) xs = y # ys"
    by (cases "split_by (\<lambda>x. x = s) xs") auto
  show ?case
    using Cons.IH yy by (cases ys) auto
qed simp

lemma split_join_by:
  "xss \<noteq> [] \<Longrightarrow> p s \<Longrightarrow> \<forall>xs\<in>set xss. \<forall>x\<in>set xs. \<not> p x \<Longrightarrow> split_by p (join_with s xss) = xss"
proof (induction s xss rule: join_with.induct)
  case (2 s x)
  then show ?case by (auto intro: split_by_none)
next
  case (3 s x y zs)
  then have "split_by p (join_with s (y # zs)) = y # zs" by simp
  moreover have "\<forall>z\<in>set x. \<not> p z" using 3 by auto
  ultimately show ?case
    using split_by_append [of p s x "join_with s (y # zs)"] 3 by simp
qed simp

lemma split_join:
  "xss \<noteq> [] \<Longrightarrow> \<forall>xs\<in>set xss. s \<notin> set xs \<Longrightarrow>
   split_by (\<lambda>x. x = s) (join_with s xss) = xss"
  by (rule split_join_by) auto

lemma length_split_by_le: "length (split_by p xs) \<le> Suc (length xs)"
  by (induction xs) auto

section \<open>Option and arithmetic helpers\<close>

lemma bind_Some_iff: "Option.bind m f = Some y \<longleftrightarrow> (\<exists>x. m = Some x \<and> f x = Some y)"
  by (cases m) auto

lemma sint_bounds64: "- (2 ^ 63) \<le> sint (w :: isize) \<and> sint w < 2 ^ 63"
  using sint_range_size [of w] by (simp add: word_size)

lemma sint_word_of_int64:
  "- (2 ^ 63) \<le> k \<Longrightarrow> k < 2 ^ 63 \<Longrightarrow> sint (word_of_int k :: isize) = k"
  by (simp add: int_word_sint)

lemma sint_of_nat64: "n < 2 ^ 63 \<Longrightarrow> sint (of_nat n :: isize) = int n"
  using sint_word_of_int64 [of "int n"] by simp

lemma sint_eq_iff: "sint (a :: 'a::len word) = sint b \<longleftrightarrow> a = b"
  by (metis of_int_sint scast_id)

section \<open>Bytes as numbers\<close>

lemma byte_val_less: "(of_char c :: nat) < 256"
proof -
  have "(of_char c :: nat) mod 256 < 256" by simp
  then show ?thesis by (simp only: of_char_mod_256)
qed

lemma unat_of_char: "unat (of_char c :: u32) = of_char c"
proof -
  have "(of_char c :: nat) < 2 ^ 32" by (rule less_trans [OF byte_val_less]) simp
  then have "unat (of_nat (of_char c) :: u32) = of_char c"
    by (simp only: unat_of_nat len_num1 len_bit0 mult_2 mod_less) simp
  then show ?thesis by (simp only: of_nat_of_char)
qed

lemma take_bit_of_char: "8 \<le> n \<Longrightarrow> take_bit n (of_char c :: u32) = of_char c"
proof -
  assume n: "8 \<le> n"
  have "(256 :: nat) \<le> 2 ^ n" using power_increasing [OF n, of "2::nat"] by simp
  then have "(of_char c :: nat) < 2 ^ n" by (rule less_le_trans [OF byte_val_less])
  then have "take_bit n (of_char c :: nat) = of_char c" by (rule take_bit_nat_eq_self)
  then show ?thesis by (metis of_nat_of_char of_nat_take_bit)
qed

lemma bit_of_char: "bit (of_char c :: u32) n \<Longrightarrow> n < 8"
  using take_bit_of_char [of 8 c] by (metis bit_take_bit_iff order_refl)

section \<open>Wrap-around written out\<close>

text \<open>
  Where a component mixes sizes (\<open>i32\<close> positions, \<open>isize\<close> offsets, \<open>usize\<close> lengths) the numbers are
  \<^typ>\<open>int\<close>, and every operation of the source that can wrap (\<open>wrapping_add\<close>, an \<open>as\<close> cast) goes
  through one of these.
\<close>

definition wrap32 :: "int \<Rightarrow> int" where
  "wrap32 k = (k + 2 ^ 31) mod 2 ^ 32 - 2 ^ 31"

definition wrap64 :: "int \<Rightarrow> int" where
  "wrap64 k = (k + 2 ^ 63) mod 2 ^ 64 - 2 ^ 63"

lemma wrap32_id: "- (2 ^ 31) \<le> k \<Longrightarrow> k < 2 ^ 31 \<Longrightarrow> wrap32 k = k"
  by (simp add: wrap32_def mod_pos_pos_trivial)

lemma wrap64_id: "- (2 ^ 63) \<le> k \<Longrightarrow> k < 2 ^ 63 \<Longrightarrow> wrap64 k = k"
  by (simp add: wrap64_def mod_pos_pos_trivial)

lemma wrap32_range: "- (2 ^ 31) \<le> wrap32 k \<and> wrap32 k < 2 ^ 31"
  using pos_mod_bound [of "2 ^ 32" "k + 2 ^ 31"] pos_mod_sign [of "2 ^ 32" "k + 2 ^ 31"]
  by (simp add: wrap32_def)

end
