(* ===== verification/Source_Map_Vlq.thy ===== *)
theory Source_Map_Vlq
  imports Prelude
begin

text \<open>
  The base64 VLQ numbers of a source map's \<open>mappings\<close> string: the digit tables
  (\<open>base64_format_encode\<close> of \<open>generator.rs\<close>, \<open>base64_format_decode\<close> of \<open>decoder.rs\<close>), the loop of
  \<open>Generator::append_base64_vlq\<close> and the loop of \<open>MappingsDecoder::base64_vlq_format_decode\<close>, both
  on 64-bit signed words with the shifts of the source. The main result is that reading back what
  was written gives the number written, for every number below \<open>2 ^ 62\<close> in absolute value.
\<close>

section \<open>Digits\<close>

definition base64_format_encode :: "isize \<Rightarrow> byte panicking" where
  "base64_format_encode value =
     (if 0 \<le>s value \<and> value \<le>s 25 then Some (char_of (65 + unat value))
      else if 26 \<le>s value \<and> value \<le>s 51 then Some (char_of (97 + unat value - 26))
      else if 52 \<le>s value \<and> value \<le>s 61 then Some (char_of (48 + unat value - 52))
      else if value = 62 then Some CHR ''+''
      else if value = 63 then Some CHR ''/''
      else None)"

definition base64_format_decode :: "byte \<Rightarrow> isize" where
  "base64_format_decode ch =
     (let b = byte_val ch in
      if 65 \<le> b \<and> b \<le> 90 then of_nat (b - 65)
      else if 97 \<le> b \<and> b \<le> 122 then of_nat (b - 97 + 26)
      else if 48 \<le> b \<and> b \<le> 57 then of_nat (b - 48 + 52)
      else if ch = CHR ''+'' then 62
      else if ch = CHR ''/'' then 63
      else - 1)"

section \<open>Writing a number\<close>

text \<open>
  One round of the \<open>loop\<close> of \<open>append_base64_vlq\<close>: the five low bits, with the continuation bit set
  when more remain. The digit text is returned rather than pushed byte by byte.
\<close>

function vlq_digits :: "isize \<Rightarrow> bytes panicking" where
  "vlq_digits in_value =
     (let current_digit = in_value AND 31;
          rest = signed_drop_bit 5 in_value;
          digit = (if 0 <s rest then current_digit OR 32 else current_digit)
      in case base64_format_encode digit of
           None \<Rightarrow> None
         | Some c \<Rightarrow>
             (if rest \<le>s 0 then Some [c]
              else map_option ((#) c) (vlq_digits rest)))"
  by pat_completeness auto
termination
  by (relation "measure (\<lambda>v. nat (sint v))")
     (auto simp: signed_simps sint_signed_drop_bit_eq drop_bit_eq_div not_le)

declare vlq_digits.simps [simp del]

text \<open>The sign moves to the lowest bit before the digits are written.\<close>

definition vlq_zigzag :: "isize \<Rightarrow> isize" where
  "vlq_zigzag in_value =
     (if in_value <s 0 then push_bit 1 (- in_value) + 1 else push_bit 1 in_value)"

definition append_base64_vlq :: "bytes \<Rightarrow> isize \<Rightarrow> bytes panicking" where
  "append_base64_vlq mappings in_value =
     map_option ((@) mappings) (vlq_digits (vlq_zigzag in_value))"

section \<open>Reading a number\<close>

text \<open>
  The loop of \<open>base64_vlq_format_decode\<close> from a byte position: an error message, or the value with
  its sign still in the lowest bit; and the position after the last byte consumed.
\<close>

function vlq_read :: "bytes \<Rightarrow> nat \<Rightarrow> nat \<Rightarrow> isize \<Rightarrow> (bytes + isize) \<times> nat" where
  "vlq_read mappings pos shift_count value =
     (if length mappings \<le> pos
      then (Inl ''Error in decoding base64VLQFormatDecode, past the mapping string'', pos)
      else
        let current_byte = base64_format_decode (mappings ! pos) in
        if current_byte = - 1 then (Inl ''Invalid character in VLQ'', pos)
        else
          let more_digits = (current_byte AND 32 \<noteq> 0);
              value = value OR
                (if shift_count < 64 then push_bit shift_count (current_byte AND 31) else 0);
              shift_count = min (shift_count + 5) 4294967295;
              pos = Suc pos
          in if more_digits then vlq_read mappings pos shift_count value
             else (Inr value, pos))"
  by pat_completeness auto
termination
  by (relation "measure (\<lambda>(mappings, pos, _). length mappings - pos)") auto

declare vlq_read.simps [simp del]

text \<open>For evaluation, the saturation bound is compared with as an integer.\<close>

lemma vlq_read_code [code]:
  "vlq_read mappings pos shift_count value =
     (if length mappings \<le> pos
      then (Inl ''Error in decoding base64VLQFormatDecode, past the mapping string'', pos)
      else
        let current_byte = base64_format_decode (mappings ! pos) in
        if current_byte = - 1 then (Inl ''Invalid character in VLQ'', pos)
        else
          let value = value OR
                (if shift_count < 64 then push_bit shift_count (current_byte AND 31) else 0)
          in if current_byte AND 32 \<noteq> 0
             then vlq_read mappings (Suc pos)
               (if int shift_count + 5 \<le> 4294967295 then shift_count + 5 else nat 4294967295) value
             else (Inr value, Suc pos))"
  by (subst vlq_read.simps) (auto simp: Let_def min_def)

definition vlq_unzigzag :: "isize \<Rightarrow> isize" where
  "vlq_unzigzag value =
     (if value AND 1 = 0 then signed_drop_bit 1 value else - signed_drop_bit 1 value)"

section \<open>Digits round-trip\<close>

lemma sint_and_31: "sint ((v :: isize) AND 31) = sint v mod 32"
proof -
  have "(v AND 31) = take_bit 5 v"
    by (simp add: take_bit_eq_mask mask_eq_exp_minus_1)
  moreover have "sint (take_bit 5 v) = take_bit 5 (sint v)"
    by (rule bit_eqI) (auto simp: bit_simps min_def)
  ultimately show ?thesis by (simp add: take_bit_eq_mod)
qed

lemma digit_range:
  fixes d :: isize
  assumes "0 \<le> sint d" "sint d < 64"
  shows "\<exists>n<64. d = of_nat n"
proof -
  have "d = of_nat (nat (sint d))"
    using assms(1) by (simp add: of_nat_nat)
  then show ?thesis using assms by (intro exI [of _ "nat (sint d)"]) auto
qed

lemma base64_format_roundtrip:
  assumes "n < 64"
  shows "\<exists>c. base64_format_encode (of_nat n) = Some c \<and> base64_format_decode c = of_nat n"
proof -
  have s: "sint (of_nat n :: isize) = int n"
    using assms sint_word_of_int64 [of "int n"] by simp
  have u: "unat (of_nat n :: isize) = n"
    using assms by (simp add: unat_of_nat)
  consider "n \<le> 25" | "26 \<le> n" "n \<le> 51" | "52 \<le> n" "n \<le> 61" | "n = 62" | "n = 63"
    using assms by linarith
  then show ?thesis
    by cases (auto simp: base64_format_encode_def base64_format_decode_def signed_simps s u Let_def)
qed

text \<open>The digit written in one round: its value, and that the writer does not panic on it.\<close>

definition vlq_digit :: "isize \<Rightarrow> isize" where
  "vlq_digit v = (if 0 <s signed_drop_bit 5 v then (v AND 31) OR 32 else v AND 31)"

lemma sint_or_32:
  assumes "0 \<le> sint d" "sint d < 32"
  shows "sint ((d :: isize) OR 32) = sint d + 32"
proof -
  obtain n where n: "n < 64" "d = of_nat n" using digit_range assms by fastforce
  have "sint (of_nat n :: isize) = int n"
    using n(1) sint_word_of_int64 [of "int n"] by simp
  with n assms have "n < 32" by simp
  have "(d AND 32) = 0"
  proof (rule bit_word_eqI)
    fix k assume "k < LENGTH(64)"
    show "bit (d AND 32) k = bit (0 :: isize) k"
    proof (cases "k = 5")
      case True
      have "\<not> bit n 5" using \<open>n < 32\<close> by (simp add: bit_iff_odd)
      then show ?thesis using True n by (simp add: bit_simps)
    next
      case False
      have "\<not> bit (32 :: isize) k"
        using False bit_exp_iff [where 'a = "64 word", of 5 k] by auto
      then show ?thesis by (simp add: bit_simps)
    qed
  qed
  then have "d OR 32 = d + 32" by (simp add: disjunctive_add_eq_or)
  moreover have "d + 32 = of_nat (n + 32)" using n by simp
  moreover have "sint (of_nat (n + 32) :: isize) = int (n + 32)"
    using \<open>n < 32\<close> by (intro sint_of_nat64) simp
  moreover have "sint d = int n" using n(2) \<open>sint (of_nat n :: isize) = int n\<close> by simp
  ultimately show ?thesis by simp
qed

lemma vlq_digit_range: "0 \<le> sint (vlq_digit v) \<and> sint (vlq_digit v) < 64"
proof -
  have "0 \<le> sint v mod 32" "sint v mod 32 < 32" by simp_all
  then show ?thesis
    by (auto simp: vlq_digit_def sint_and_31 sint_or_32)
qed

lemma vlq_digit_Some:
  obtains c where "base64_format_encode (vlq_digit v) = Some c"
    "base64_format_decode c = vlq_digit v" "base64_format_decode c \<noteq> - 1"
proof -
  obtain n where "n < 64" "vlq_digit v = of_nat n"
    using vlq_digit_range digit_range by blast
  moreover from this obtain c where "base64_format_encode (of_nat n) = Some c"
    "base64_format_decode c = of_nat n"
    using base64_format_roundtrip by blast
  moreover have "vlq_digit v \<noteq> - 1" using vlq_digit_range [of v] by auto
  ultimately show ?thesis using that by metis
qed

lemma vlq_digit_bits:
  "vlq_digit v AND 31 = v AND 31"
  "vlq_digit v AND 32 \<noteq> 0 \<longleftrightarrow> 0 <s signed_drop_bit 5 v"
proof -
  have m: "(32 :: isize) AND 31 = 0" "(31 :: isize) AND 32 = 0" by simp_all
  have "(v AND 31 OR 32) AND 31 = v AND 31"
    by (simp add: and.assoc m bit.conj_disj_distrib2)
  moreover have "(v AND 31 OR 32) AND 32 \<noteq> 0" "v AND 31 AND 32 = 0"
    by (simp_all add: and.assoc m bit.conj_disj_distrib2)
  ultimately show "vlq_digit v AND 31 = v AND 31"
    "vlq_digit v AND 32 \<noteq> 0 \<longleftrightarrow> 0 <s signed_drop_bit 5 v"
    by (auto simp: vlq_digit_def and.assoc)
qed

lemma push_bit_split:
  "push_bit s (v AND 31) OR push_bit (s + 5) (signed_drop_bit 5 v) = push_bit s (v :: isize)"
proof (rule bit_word_eqI)
  fix n assume "n < LENGTH(64)"
  have "(v AND 31) = take_bit 5 v" by (simp add: take_bit_eq_mask mask_eq_exp_minus_1)
  then show "bit (push_bit s (v AND 31) OR push_bit (s + 5) (signed_drop_bit 5 v)) n =
      bit (push_bit s v) n"
    using \<open>n < LENGTH(64)\<close>
    by (cases "n < s + 5") (auto simp: bit_simps not_le le_diff_conv2 algebra_simps)
qed

section \<open>Numbers round-trip\<close>

lemma vlq_digits_Some: "\<exists>t. vlq_digits v = Some t"
proof (induction v rule: vlq_digits.induct)
  case (1 v)
  obtain c where c: "base64_format_encode (vlq_digit v) = Some c"
    by (rule vlq_digit_Some)
  show ?case
  proof (cases "signed_drop_bit 5 v \<le>s 0")
    case True
    then show ?thesis
      using c by (subst vlq_digits.simps) (simp add: vlq_digit_def Let_def)
  next
    case False
    then obtain t where "vlq_digits (signed_drop_bit 5 v) = Some t"
      using "1.IH" [OF refl refl refl c [unfolded vlq_digit_def] False] by blast
    then show ?thesis
      using c False by (subst vlq_digits.simps) (simp add: vlq_digit_def Let_def)
  qed
qed

text \<open>The text written for a number, now that the writer is known not to panic.\<close>

definition vlq_text :: "isize \<Rightarrow> bytes" where
  "vlq_text v = the (vlq_digits (vlq_zigzag v))"

lemma append_base64_vlq_eq: "append_base64_vlq m v = Some (m @ vlq_text v)"
  using vlq_digits_Some [of "vlq_zigzag v"]
  by (auto simp: append_base64_vlq_def vlq_text_def)

text \<open>A shift count past the width gives zero whether or not it saturated.\<close>

definition same_shift :: "nat \<Rightarrow> nat \<Rightarrow> bool" where
  "same_shift s t \<longleftrightarrow> s = t \<or> 64 \<le> s \<and> 64 \<le> t"

lemma push_bit_same_shift:
  "same_shift s t \<Longrightarrow> (if s < 64 then push_bit s (w :: isize) else 0) = push_bit t w"
  by (rule bit_word_eqI) (auto simp: same_shift_def bit_simps)

lemma same_shift_step: "same_shift s t \<Longrightarrow> same_shift (min (s + 5) 4294967295) (t + 5)"
  by (auto simp: same_shift_def)

lemma vlq_read_digits:
  assumes "vlq_digits v = Some t" "0 \<le> sint v" "drop pos m = t @ rest" "same_shift s k"
  shows "vlq_read m pos s a = (Inr (a OR push_bit k v), pos + length t)"
  using assms
proof (induction v arbitrary: t pos s k a rule: vlq_digits.induct)
  case (1 v)
  let ?r = "signed_drop_bit 5 v"
  obtain c where c: "base64_format_encode (vlq_digit v) = Some c"
    "base64_format_decode c = vlq_digit v" "base64_format_decode c \<noteq> - 1"
    by (rule vlq_digit_Some)
  have r0: "0 \<le> sint ?r"
    using "1.prems"(2) by (simp add: sint_signed_drop_bit_eq drop_bit_eq_div)
  let ?a = "a OR push_bit k (v AND 31)" and ?s = "min (s + 5) 4294967295"
  have step: "vlq_read m pos s a =
      (if 0 <s ?r then vlq_read m (Suc pos) ?s ?a else (Inr ?a, Suc pos))"
    if "drop pos m = c # ys" for ys
  proof -
    have "pos < length m" "m ! pos = c"
      using that by (auto simp: nth_via_drop intro: ccontr)
    then show ?thesis
      using c(2,3)
      by (subst vlq_read.simps)
         (simp add: Let_def vlq_digit_bits push_bit_same_shift [OF "1.prems"(4)]
            del: push_bit_and split del: if_split)
  qed
  show ?case
  proof (cases "?r \<le>s 0")
    case True
    then have "?r = 0" using r0 by (simp add: signed_simps sint_eq_iff [symmetric])
    then have "push_bit k (v AND 31) = push_bit k v"
      using push_bit_split [of k v] by simp
    moreover have "t = [c]"
      using "1.prems"(1) c(1) True
      by (subst (asm) vlq_digits.simps) (simp add: vlq_digit_def Let_def)
    ultimately show ?thesis
      using step [of rest] "1.prems"(3) True by (simp add: \<open>?r = 0\<close>)
  next
    case False
    then obtain t' where t': "vlq_digits ?r = Some t'" "t = c # t'"
      using "1.prems"(1) c(1)
      by (subst (asm) vlq_digits.simps) (auto simp: vlq_digit_def Let_def)
    have "drop (Suc pos) m = t' @ rest"
      using "1.prems"(3) t'(2) by (metis append_Cons drop_Suc list.sel(3) tl_drop)
    then have "vlq_read m (Suc pos) ?s ?a =
        (Inr (?a OR push_bit (k + 5) ?r), Suc pos + length t')"
      by (rule "1.IH" [OF refl refl refl c(1) [unfolded vlq_digit_def] False t'(1) r0 _
            same_shift_step [OF "1.prems"(4)]])
    moreover have "?a OR push_bit (k + 5) ?r = a OR push_bit k v"
      using push_bit_split [of k v] by (simp add: or.assoc)
    ultimately show ?thesis
      using step [of "t' @ rest"] "1.prems"(3) t'(2) False
      by (simp add: signed_simps not_le)
  qed
qed

text \<open>The numbers for which moving the sign to the lowest bit loses nothing.\<close>

definition vlq_range :: "isize \<Rightarrow> bool" where
  "vlq_range v \<longleftrightarrow> - (2 ^ 62) < sint v \<and> sint v < 2 ^ 62"

lemma sint_vlq_zigzag:
  assumes "vlq_range v"
  shows "sint (vlq_zigzag v) = (if sint v < 0 then - 2 * sint v + 1 else 2 * sint v)"
proof -
  have p: "push_bit 1 v = word_of_int (2 * sint v)"
    "push_bit 1 (- v) + 1 = word_of_int (- 2 * sint v + 1)"
    by (simp_all add: push_bit_eq_mult scast_id)
  have "sint (word_of_int (- 2 * sint v + 1) :: isize) = - 2 * sint v + 1" if "sint v < 0"
    using that assms by (intro sint_word_of_int64) (auto simp: vlq_range_def)
  moreover have "sint (word_of_int (2 * sint v) :: isize) = 2 * sint v" if "\<not> sint v < 0"
    using that assms by (intro sint_word_of_int64) (auto simp: vlq_range_def)
  ultimately show ?thesis
    unfolding vlq_zigzag_def p by (simp add: signed_simps)
qed

lemma sint_minus64: "- (2 ^ 63) < sint v \<Longrightarrow> sint (- (v :: isize)) = - sint v"
proof -
  assume a: "- (2 ^ 63) < sint v"
  have "- v = word_of_int (- sint v)" by (simp add: scast_id)
  then show ?thesis using a sint_bounds64 [of v] sint_word_of_int64 [of "- sint v"] by simp
qed

lemma and_one_zero_iff: "(v :: isize) AND 1 = 0 \<longleftrightarrow> even (sint v)"
proof -
  have "v AND 1 = 0 \<longleftrightarrow> \<not> bit v 0" by (simp add: and_one_eq bit_0 odd_iff_mod_2_eq_one)
  also have "\<dots> \<longleftrightarrow> \<not> bit (sint v) 0" by (simp add: bit_sint_iff)
  finally show ?thesis by (simp add: bit_0)
qed

lemma sint_vlq_unzigzag:
  "0 \<le> sint w \<Longrightarrow>
   sint (vlq_unzigzag w) = (if even (sint w) then sint w div 2 else - (sint w div 2))"
  by (auto simp: vlq_unzigzag_def and_one_zero_iff sint_signed_drop_bit_eq drop_bit_eq_div
      sint_minus64)

lemma vlq_unzigzag_zigzag: "vlq_range v \<Longrightarrow> vlq_unzigzag (vlq_zigzag v) = v"
proof -
  assume r: "vlq_range v"
  then have "0 \<le> sint (vlq_zigzag v)" by (simp add: sint_vlq_zigzag)
  then have "sint (vlq_unzigzag (vlq_zigzag v)) = sint v"
    using r by (auto simp: sint_vlq_unzigzag sint_vlq_zigzag)
  then show ?thesis by (simp add: sint_eq_iff)
qed

text \<open>Reading at the position where a number was written gives the number and moves past it.\<close>

lemma vlq_read_text:
  assumes "vlq_range v" "drop pos m = vlq_text v @ rest"
  shows "vlq_read m pos 0 0 = (Inr (vlq_zigzag v), pos + length (vlq_text v))"
proof -
  obtain t where t: "vlq_digits (vlq_zigzag v) = Some t" using vlq_digits_Some by blast
  have "0 \<le> sint (vlq_zigzag v)" using assms(1) by (simp add: sint_vlq_zigzag)
  from vlq_read_digits [OF t this, of pos m rest 0 0 0] show ?thesis
    using assms(2) t by (simp add: vlq_text_def same_shift_def)
qed

lemma vlq_text_not_Nil: "vlq_text v \<noteq> []"
proof -
  obtain t where t: "vlq_digits (vlq_zigzag v) = Some t" using vlq_digits_Some by blast
  then show ?thesis
    by (subst (asm) vlq_digits.simps)
       (auto simp: vlq_text_def t Let_def split: option.splits if_splits)
qed

lemma vlq_text_hd: "hd (vlq_text v) \<noteq> CHR '','' \<and> hd (vlq_text v) \<noteq> CHR '';''"
proof -
  obtain t where t: "vlq_digits (vlq_zigzag v) = Some t" using vlq_digits_Some by blast
  obtain c where c: "base64_format_encode (vlq_digit (vlq_zigzag v)) = Some c"
    "base64_format_decode c \<noteq> - 1" by (rule vlq_digit_Some)
  have "hd t = c"
    using t c(1) by (subst (asm) vlq_digits.simps)
      (auto simp: vlq_digit_def Let_def split: option.splits if_splits)
  moreover have "base64_format_decode CHR '','' = - 1" "base64_format_decode CHR '';'' = - 1"
    by (simp_all add: base64_format_decode_def)
  ultimately show ?thesis using c(2) t by (auto simp: vlq_text_def)
qed

section \<open>Properties\<close>

text \<open>
  Writing a number and reading it back. For every value below \<open>2 ^ 62\<close> in absolute value,
  \<open>append_base64_vlq\<close> extends the mappings by a text from which \<open>base64_vlq_format_decode\<close>, started
  where the text begins, recovers the value, leaving the position right after the text whatever
  follows it.
\<close>

theorem vlq_roundtrip:
  assumes "vlq_range v"
  shows "\<exists>t w. append_base64_vlq m v = Some (m @ t) \<and>
    vlq_read (m @ t @ rest) (length m) 0 0 = (Inr w, length m + length t) \<and> vlq_unzigzag w = v"
  using vlq_read_text [OF assms, of "length m" "m @ vlq_text v @ rest" rest]
    vlq_unzigzag_zigzag [OF assms] append_base64_vlq_eq by auto

theorem vlq_roundtrip_witness:
  "\<exists>t w. append_base64_vlq ''AA'' (- 1234) = Some (''AA'' @ t) \<and>
    vlq_read (''AA'' @ t @ '',C'') (length ''AA'') 0 0 = (Inr w, length ''AA'' + length t) \<and>
    vlq_unzigzag w = - 1234"
  by (rule vlq_roundtrip) (simp add: vlq_range_def)

end
