(* ===== verification/Source_Map_Decoder.thy ===== *)
theory Source_Map_Decoder
  imports Source_Map_Vlq
begin

text \<open>
  \<open>crates/tsr_sourcemap/src/decoder.rs\<close>: the iterator over the segments of a \<open>mappings\<close> string. The
  decoder's fields are a record, \<open>next\<close> is a function from the state to the segment (if any) and
  the next state, and \<open>values\<close> collects the iteration. Errors are the source's messages. Lines and
  columns are 64-bit words, so the wrapping additions of the source are the word additions.
\<close>

section \<open>Mappings\<close>

record mapping =
  generated_line :: isize
  generated_character :: isize
  source_index :: isize
  source_line :: isize
  source_character :: isize
  name_index :: isize

definition MISSING_SOURCE :: isize where "MISSING_SOURCE = - 1"
definition MISSING_NAME :: isize where "MISSING_NAME = - 1"
definition MISSING_LINE_OR_COLUMN :: isize where "MISSING_LINE_OR_COLUMN = - 1"
definition MISSING_UTF16_COLUMN :: isize where "MISSING_UTF16_COLUMN = - 1"

lemmas missing_defs =
  MISSING_SOURCE_def MISSING_NAME_def MISSING_LINE_OR_COLUMN_def MISSING_UTF16_COLUMN_def

definition is_source_mapping :: "mapping \<Rightarrow> bool" where
  "is_source_mapping m \<longleftrightarrow>
     source_index m \<noteq> MISSING_SOURCE \<and>
     source_line m \<noteq> MISSING_LINE_OR_COLUMN \<and>
     source_character m \<noteq> MISSING_UTF16_COLUMN"

section \<open>The decoder\<close>

record mappings_decoder =
  d_mappings :: bytes
  d_done :: bool
  d_pos :: nat
  d_generated_line :: isize
  d_generated_character :: isize
  d_source_index :: isize
  d_source_line :: isize
  d_source_character :: isize
  d_name_index :: isize
  d_error :: "bytes option"

definition decode_mappings :: "bytes \<Rightarrow> mappings_decoder" where
  "decode_mappings mappings =
     \<lparr>d_mappings = mappings, d_done = False, d_pos = 0, d_generated_line = 0,
      d_generated_character = 0, d_source_index = 0, d_source_line = 0, d_source_character = 0,
      d_name_index = 0, d_error = None\<rparr>"

definition capture_mapping :: "mappings_decoder \<Rightarrow> bool \<Rightarrow> bool \<Rightarrow> mapping" where
  "capture_mapping d has_source has_name =
     \<lparr>generated_line = d_generated_line d,
      generated_character = d_generated_character d,
      source_index = (if has_source then d_source_index d else MISSING_SOURCE),
      source_line = (if has_source then d_source_line d else MISSING_LINE_OR_COLUMN),
      source_character = (if has_source then d_source_character d else MISSING_UTF16_COLUMN),
      name_index = (if has_name then d_name_index d else MISSING_NAME)\<rparr>"

definition decoder_state :: "mappings_decoder \<Rightarrow> mapping" where
  "decoder_state d = capture_mapping d True True"

type_synonym next_result = "mapping option \<times> mappings_decoder"

definition stop_iterating :: "mappings_decoder \<Rightarrow> next_result" where
  "stop_iterating d = (None, d\<lparr>d_done := True\<rparr>)"

definition set_error :: "bytes \<Rightarrow> mappings_decoder \<Rightarrow> mappings_decoder" where
  "set_error err d = d\<lparr>d_error := Some err\<rparr>"

definition set_error_and_stop_iterating :: "bytes \<Rightarrow> mappings_decoder \<Rightarrow> next_result" where
  "set_error_and_stop_iterating err d = stop_iterating (set_error err d)"

definition has_reported_error :: "mappings_decoder \<Rightarrow> bool" where
  "has_reported_error d \<longleftrightarrow> d_error d \<noteq> None"

definition is_source_mapping_segment_end :: "mappings_decoder \<Rightarrow> bool" where
  "is_source_mapping_segment_end d \<longleftrightarrow>
     d_pos d = length (d_mappings d) \<or> d_mappings d ! d_pos d = CHR '','' \<or>
     d_mappings d ! d_pos d = CHR '';''"

definition base64_vlq_format_decode :: "mappings_decoder \<Rightarrow> isize \<times> mappings_decoder" where
  "base64_vlq_format_decode d =
     (case vlq_read (d_mappings d) (d_pos d) 0 0 of
        (Inl err, pos) \<Rightarrow> (- 1, set_error err (d\<lparr>d_pos := pos\<rparr>))
      | (Inr value, pos) \<Rightarrow> (vlq_unzigzag value, d\<lparr>d_pos := pos\<rparr>))"

text \<open>
  The part of \<open>next\<close> after the optional name: the fifth field, if the segment goes on.
\<close>

definition next_name :: "mappings_decoder \<Rightarrow> next_result" where
  "next_name d =
     (if is_source_mapping_segment_end d then (Some (capture_mapping d True False), d)
      else let (v, d) = base64_vlq_format_decode d;
               d = d\<lparr>d_name_index := d_name_index d + v\<rparr> in
           if has_reported_error d then stop_iterating d
           else if d_name_index d <s 0
           then set_error_and_stop_iterating ''Invalid nameIndex found'' d
           else if \<not> is_source_mapping_segment_end d
           then set_error_and_stop_iterating ''Unsupported Error Format: Entries after nameIndex'' d
           else (Some (capture_mapping d True True), d))"

definition next_source_character :: "mappings_decoder \<Rightarrow> next_result" where
  "next_source_character d =
     (let (v, d) = base64_vlq_format_decode d;
          d = d\<lparr>d_source_character := d_source_character d + v\<rparr> in
      if has_reported_error d then stop_iterating d
      else if d_source_character d <s 0
      then set_error_and_stop_iterating ''Invalid sourceCharacter found'' d
      else next_name d)"

definition next_source_line :: "mappings_decoder \<Rightarrow> next_result" where
  "next_source_line d =
     (let (v, d) = base64_vlq_format_decode d;
          d = d\<lparr>d_source_line := d_source_line d + v\<rparr> in
      if has_reported_error d then stop_iterating d
      else if d_source_line d <s 0
      then set_error_and_stop_iterating ''Invalid sourceLine found'' d
      else if is_source_mapping_segment_end d
      then set_error_and_stop_iterating ''Unsupported Format: No entries after sourceLine'' d
      else next_source_character d)"

definition next_source_index :: "mappings_decoder \<Rightarrow> next_result" where
  "next_source_index d =
     (let (v, d) = base64_vlq_format_decode d;
          d = d\<lparr>d_source_index := d_source_index d + v\<rparr> in
      if has_reported_error d then stop_iterating d
      else if d_source_index d <s 0
      then set_error_and_stop_iterating ''Invalid sourceIndex found'' d
      else if is_source_mapping_segment_end d
      then set_error_and_stop_iterating ''Unsupported Format: No entries after sourceIndex'' d
      else next_source_line d)"

definition next_segment :: "mappings_decoder \<Rightarrow> next_result" where
  "next_segment d =
     (let (v, d) = base64_vlq_format_decode d;
          d = d\<lparr>d_generated_character := d_generated_character d + v\<rparr> in
      if has_reported_error d then stop_iterating d
      else if d_generated_character d <s 0
      then set_error_and_stop_iterating ''Invalid generatedCharacter found'' d
      else if is_source_mapping_segment_end d
      then (Some (capture_mapping d False False), d)
      else next_source_index d)"

function decoder_next :: "mappings_decoder \<Rightarrow> next_result" where
  "decoder_next d =
     (if \<not> d_done d \<and> d_pos d < length (d_mappings d)
      then let ch = d_mappings d ! d_pos d in
        if ch = CHR '';''
        then decoder_next (d\<lparr>d_generated_line := d_generated_line d + 1,
               d_generated_character := 0, d_pos := Suc (d_pos d)\<rparr>)
        else if ch = CHR '','' then decoder_next (d\<lparr>d_pos := Suc (d_pos d)\<rparr>)
        else next_segment d
      else stop_iterating d)"
  by pat_completeness auto
termination
  by (relation "measure (\<lambda>d. length (d_mappings d) - d_pos d)") auto

declare decoder_next.simps [simp del]

section \<open>Progress and the iteration\<close>

lemma vlq_read_pos:
  "vlq_read m pos s a = (r, pos') \<Longrightarrow>
   pos \<le> pos' \<and> (pos \<le> length m \<longrightarrow> pos' \<le> length m) \<and> (\<forall>v. r = Inr v \<longrightarrow> pos < pos')"
proof (induction m pos s a rule: vlq_read.induct)
  case (1 m pos s a)
  let ?c = "base64_format_decode (m ! pos)"
  consider "length m \<le> pos" | "pos < length m" "?c = - 1"
    | "pos < length m" "?c \<noteq> - 1" "?c AND 32 = 0" | "pos < length m" "?c \<noteq> - 1" "?c AND 32 \<noteq> 0"
    by linarith
  then show ?case
  proof cases
    case 4
    then show ?thesis
      using "1.IH" [OF _ refl _ refl refl refl refl] "1.prems" vlq_read.simps [of m pos s a]
      by (auto simp: Let_def split del: if_split)
  qed (use "1.prems" vlq_read.simps [of m pos s a] in \<open>auto simp: Let_def split del: if_split\<close>)
qed

text \<open>
  What every call of the decoder keeps: the text, and that the position stays inside it and only
  moves forward. A segment that is returned consumed at least one byte.
\<close>

definition advances :: "mappings_decoder \<Rightarrow> mappings_decoder \<Rightarrow> bool" where
  "advances d d' \<longleftrightarrow>
     d_mappings d' = d_mappings d \<and> d_pos d \<le> d_pos d' \<and>
     (d_pos d \<le> length (d_mappings d) \<longrightarrow> d_pos d' \<le> length (d_mappings d))"

lemma advances_refl [simp]: "advances d d"
  by (simp add: advances_def)

lemma advances_trans: "advances a b \<Longrightarrow> advances b c \<Longrightarrow> advances a c"
  by (auto simp: advances_def)

definition reads :: "mappings_decoder \<Rightarrow> isize \<Rightarrow> nat \<Rightarrow> bytes option \<Rightarrow> bool" where
  "reads d v p err \<longleftrightarrow>
     base64_vlq_format_decode d = (v, d\<lparr>d_pos := p, d_error := err\<rparr>) \<and>
     d_pos d \<le> p \<and> (d_pos d \<le> length (d_mappings d) \<longrightarrow> p \<le> length (d_mappings d)) \<and>
     (err = None \<longrightarrow> d_error d = None \<and> d_pos d < p)"

lemma base64_vlq_format_decode_reads: obtains v p err where "reads d v p err"
proof -
  obtain r p where rp: "vlq_read (d_mappings d) (d_pos d) 0 0 = (r, p)" by fastforce
  note pos = vlq_read_pos [OF rp]
  show thesis
  proof (cases r)
    case (Inl e)
    then have "reads d (- 1) p (Some e)"
      using pos rp by (auto simp: base64_vlq_format_decode_def set_error_def reads_def)
    then show ?thesis by (rule that)
  next
    case (Inr w)
    then have "reads d (vlq_unzigzag w) p (d_error d)"
      using pos rp by (auto simp: base64_vlq_format_decode_def reads_def)
    then show ?thesis by (rule that)
  qed
qed

text \<open>
  A segment as the decoder promises it: a column that is not negative, and source fields that are
  all missing or all present and not negative, with a name only next to a source.
\<close>

definition mapping_wf :: "mapping \<Rightarrow> bool" where
  "mapping_wf m \<longleftrightarrow>
     0 \<le>s generated_character m \<and>
     (source_index m = - 1 \<and> source_line m = - 1 \<and> source_character m = - 1 \<and> name_index m = - 1 \<or>
      0 \<le>s source_index m \<and> 0 \<le>s source_line m \<and> 0 \<le>s source_character m \<and>
      (name_index m = - 1 \<or> 0 \<le>s name_index m))"

definition yields :: "mappings_decoder \<Rightarrow> mapping \<Rightarrow> mappings_decoder \<Rightarrow> bool" where
  "yields d m d' \<longleftrightarrow> advances d d' \<and> d_error d = None \<and> d_error d' = None \<and> mapping_wf m"

lemmas next_defs =
  next_name_def next_source_character_def next_source_line_def next_source_index_def
  next_segment_def stop_iterating_def set_error_and_stop_iterating_def set_error_def
  has_reported_error_def Let_def capture_mapping_def missing_defs

lemmas stop_defs =
  stop_iterating_def set_error_and_stop_iterating_def has_reported_error_def Let_def
  signed.not_less

lemma next_name_yields:
  assumes "next_name d = (Some m, d')" "d_error d = None" "0 \<le>s d_generated_character d"
    "0 \<le>s d_source_index d" "0 \<le>s d_source_line d" "0 \<le>s d_source_character d"
  shows "yields d m d'"
proof -
  obtain v p err where "reads d v p err" by (rule base64_vlq_format_decode_reads)
  with assms show ?thesis
    by (auto simp: next_defs yields_def mapping_wf_def advances_def reads_def signed.not_less
        split: if_splits)
qed

lemma next_source_character_yields:
  assumes "next_source_character d = (Some m, d')" "d_error d = None"
    "0 \<le>s d_generated_character d" "0 \<le>s d_source_index d" "0 \<le>s d_source_line d"
  shows "yields d m d'"
proof -
  obtain v p err where r: "reads d v p err" by (rule base64_vlq_format_decode_reads)
  let ?d = "d\<lparr>d_pos := p, d_error := err, d_source_character := d_source_character d + v\<rparr>"
  have "next_name ?d = (Some m, d')" "err = None" "0 \<le>s d_source_character d + v"
    using assms(1) r by (auto simp: next_source_character_def stop_defs reads_def split: if_splits)
  then have "yields ?d m d'" by (intro next_name_yields) (use assms in auto)
  then show ?thesis using r assms(2) by (auto simp: yields_def advances_def reads_def)
qed

lemma next_source_line_yields:
  assumes "next_source_line d = (Some m, d')" "d_error d = None"
    "0 \<le>s d_generated_character d" "0 \<le>s d_source_index d"
  shows "yields d m d'"
proof -
  obtain v p err where r: "reads d v p err" by (rule base64_vlq_format_decode_reads)
  let ?d = "d\<lparr>d_pos := p, d_error := err, d_source_line := d_source_line d + v\<rparr>"
  have "next_source_character ?d = (Some m, d')" "err = None" "0 \<le>s d_source_line d + v"
    using assms(1) r by (auto simp: next_source_line_def stop_defs reads_def split: if_splits)
  then have "yields ?d m d'" by (intro next_source_character_yields) (use assms in auto)
  then show ?thesis using r assms(2) by (auto simp: yields_def advances_def reads_def)
qed

lemma next_source_index_yields:
  assumes "next_source_index d = (Some m, d')" "d_error d = None"
    "0 \<le>s d_generated_character d"
  shows "yields d m d'"
proof -
  obtain v p err where r: "reads d v p err" by (rule base64_vlq_format_decode_reads)
  let ?d = "d\<lparr>d_pos := p, d_error := err, d_source_index := d_source_index d + v\<rparr>"
  have "next_source_line ?d = (Some m, d')" "err = None" "0 \<le>s d_source_index d + v"
    using assms(1) r by (auto simp: next_source_index_def stop_defs reads_def split: if_splits)
  then have "yields ?d m d'" by (intro next_source_line_yields) (use assms in auto)
  then show ?thesis using r assms(2) by (auto simp: yields_def advances_def reads_def)
qed

lemma next_segment_yields:
  assumes "next_segment d = (Some m, d')"
  shows "yields d m d' \<and> d_pos d < d_pos d'"
proof -
  obtain v p err where r: "reads d v p err" by (rule base64_vlq_format_decode_reads)
  let ?d = "d\<lparr>d_pos := p, d_error := err, d_generated_character := d_generated_character d + v\<rparr>"
  have err: "err = None" and nn: "0 \<le>s d_generated_character d + v"
    using assms r by (auto simp: next_segment_def stop_defs reads_def split: if_splits)
  show ?thesis
  proof (cases "is_source_mapping_segment_end ?d")
    case True
    then show ?thesis
      using assms r err nn by (auto simp: next_segment_def next_defs reads_def yields_def
          advances_def mapping_wf_def split: if_splits)
  next
    case False
    then have "next_source_index ?d = (Some m, d')"
      using assms r err by (auto simp: next_segment_def stop_defs reads_def split: if_splits)
    then have "yields ?d m d'" by (intro next_source_index_yields) (use err nn in auto)
    then show ?thesis using r err by (auto simp: yields_def advances_def reads_def)
  qed
qed

definition live :: "mappings_decoder \<Rightarrow> bool" where
  "live d \<longleftrightarrow> \<not> d_done d \<and> d_pos d < length (d_mappings d)"

definition new_line :: "mappings_decoder \<Rightarrow> mappings_decoder" where
  "new_line d = d\<lparr>d_generated_line := d_generated_line d + 1, d_generated_character := 0,
     d_pos := Suc (d_pos d)\<rparr>"

lemma decoder_next_unfold:
  "live d \<Longrightarrow> d_mappings d ! d_pos d = CHR '';'' \<Longrightarrow> decoder_next d = decoder_next (new_line d)"
  "live d \<Longrightarrow> d_mappings d ! d_pos d = CHR '','' \<Longrightarrow>
   decoder_next d = decoder_next (d\<lparr>d_pos := Suc (d_pos d)\<rparr>)"
  "live d \<Longrightarrow> d_mappings d ! d_pos d \<noteq> CHR '';'' \<Longrightarrow> d_mappings d ! d_pos d \<noteq> CHR '','' \<Longrightarrow>
   decoder_next d = next_segment d"
  "\<not> live d \<Longrightarrow> decoder_next d = stop_iterating d"
  using decoder_next.simps [of d] by (auto simp: live_def new_line_def Let_def)

lemma decoder_next_yields:
  "decoder_next d = (Some m, d') \<Longrightarrow> yields d m d' \<and> d_pos d < d_pos d' \<and> live d"
proof (induction d rule: decoder_next.induct)
  case (1 d)
  let ?c = "d_mappings d ! d_pos d"
  have live: "live d"
    using "1.prems" decoder_next_unfold(4) [of d] by (auto simp: stop_iterating_def)
  consider "?c = CHR '';''" | "?c = CHR '',''" | "?c \<noteq> CHR '';''" "?c \<noteq> CHR '',''" by blast
  then show ?case
  proof cases
    case 1
    then have "decoder_next (new_line d) = (Some m, d')"
      using "1.prems" live decoder_next_unfold(1) by simp
    then have "yields (new_line d) m d' \<and> d_pos (new_line d) < d_pos d'"
      using "1.IH"(1) live 1 by (auto simp: live_def new_line_def)
    then show ?thesis using live by (auto simp: yields_def advances_def new_line_def live_def)
  next
    case 2
    then have "decoder_next (d\<lparr>d_pos := Suc (d_pos d)\<rparr>) = (Some m, d')"
      using "1.prems" live decoder_next_unfold(2) by simp
    then have "yields (d\<lparr>d_pos := Suc (d_pos d)\<rparr>) m d' \<and> Suc (d_pos d) < d_pos d'"
      using "1.IH"(2) live 2 by (auto simp: live_def)
    then show ?thesis using live by (auto simp: yields_def advances_def live_def)
  next
    case 3
    then show ?thesis
      using "1.prems" live decoder_next_unfold(3) next_segment_yields by auto
  qed
qed

text \<open>\<open>values\<close> collected: the segments in order and the decoder where the iteration ended.\<close>

function decoder_values :: "mappings_decoder \<Rightarrow> mapping list \<times> mappings_decoder" where
  "decoder_values d =
     (case decoder_next d of
        (None, d') \<Rightarrow> ([], d')
      | (Some m, d') \<Rightarrow> (let (ms, d'') = decoder_values d' in (m # ms, d'')))"
  by pat_completeness auto
termination
proof (relation "measure (\<lambda>d. length (d_mappings d) - d_pos d)", simp, goal_cases)
  case (1 d r d' m)
  then have "decoder_next d = (Some m, d')" by auto
  from decoder_next_yields [OF this] show ?case
    by (auto simp: yields_def advances_def live_def)
qed

declare decoder_values.simps [simp del]

section \<open>What the iteration gives\<close>

lemma base64_vlq_format_decode_keeps:
  "base64_vlq_format_decode d = (v, d') \<Longrightarrow>
   d_generated_line d' = d_generated_line d \<and> d_done d' = d_done d"
  by (auto simp: base64_vlq_format_decode_def set_error_def split: prod.splits sum.splits)

text \<open>
  One decoding of a segment on line \<open>l\<close>: the line is untouched, and a decoder that gives no segment
  has recorded an error. The flag \<open>b\<close> is that of the decoder before.
\<close>

definition segment_result :: "isize \<Rightarrow> bool \<Rightarrow> next_result \<Rightarrow> bool" where
  "segment_result l b r \<longleftrightarrow>
     d_generated_line (snd r) = l \<and>
     (case fst r of
        None \<Rightarrow> d_done (snd r) \<and> d_error (snd r) \<noteq> None
      | Some m \<Rightarrow> generated_line m = l \<and> d_done (snd r) = b)"

lemma segment_result_simps [simp]:
  "segment_result l b (None, d) \<longleftrightarrow> d_generated_line d = l \<and> d_done d \<and> d_error d \<noteq> None"
  "segment_result l b (Some (capture_mapping e x y), d) \<longleftrightarrow>
     d_generated_line d = l \<and> d_done d = b \<and> d_generated_line e = l"
  by (auto simp: segment_result_def capture_mapping_def)

lemma next_name_result: "segment_result (d_generated_line d) (d_done d) (next_name d)"
proof -
  obtain v d' where d': "base64_vlq_format_decode d = (v, d')" by fastforce
  with base64_vlq_format_decode_keeps [OF d'] show ?thesis
    by (simp add: next_name_def stop_defs set_error_def)
qed

lemma next_source_character_result: "segment_result (d_generated_line d) (d_done d) (next_source_character d)"
proof -
  obtain v d' where d': "base64_vlq_format_decode d = (v, d')" by fastforce
  with base64_vlq_format_decode_keeps [OF d']
    next_name_result [of "d'\<lparr>d_source_character := d_source_character d' + v\<rparr>"] show ?thesis
    by (simp add: next_source_character_def stop_defs set_error_def)
qed

lemma next_source_line_result: "segment_result (d_generated_line d) (d_done d) (next_source_line d)"
proof -
  obtain v d' where d': "base64_vlq_format_decode d = (v, d')" by fastforce
  with base64_vlq_format_decode_keeps [OF d']
    next_source_character_result [of "d'\<lparr>d_source_line := d_source_line d' + v\<rparr>"] show ?thesis
    by (simp add: next_source_line_def stop_defs set_error_def)
qed

lemma next_source_index_result: "segment_result (d_generated_line d) (d_done d) (next_source_index d)"
proof -
  obtain v d' where d': "base64_vlq_format_decode d = (v, d')" by fastforce
  with base64_vlq_format_decode_keeps [OF d']
    next_source_line_result [of "d'\<lparr>d_source_index := d_source_index d' + v\<rparr>"] show ?thesis
    by (simp add: next_source_index_def stop_defs set_error_def)
qed

lemma next_segment_result: "segment_result (d_generated_line d) (d_done d) (next_segment d)"
proof -
  obtain v d' where d': "base64_vlq_format_decode d = (v, d')" by fastforce
  with base64_vlq_format_decode_keeps [OF d']
    next_source_index_result [of "d'\<lparr>d_generated_character := d_generated_character d' + v\<rparr>"]
  show ?thesis
    by (simp add: next_segment_def stop_defs set_error_def)
qed

text \<open>The line counter is at most the number of bytes read, so it does not wrap.\<close>

definition line_inv :: "mappings_decoder \<Rightarrow> bool" where
  "line_inv d \<longleftrightarrow> 0 \<le> sint (d_generated_line d) \<and> sint (d_generated_line d) \<le> int (d_pos d) \<and>
     d_pos d \<le> length (d_mappings d) \<and> length (d_mappings d) < 2 ^ 63"

lemma line_inv_new_line:
  "line_inv d \<Longrightarrow> live d \<Longrightarrow>
   line_inv (new_line d) \<and> sint (d_generated_line (new_line d)) = sint (d_generated_line d) + 1"
proof -
  assume "line_inv d" "live d"
  moreover from this have "sint (d_generated_line d + 1) = sint (d_generated_line d) + 1"
    using sint_word_of_int64 [of "sint (d_generated_line d) + 1"]
    by (simp add: line_inv_def live_def scast_id)
  ultimately show ?thesis by (simp add: line_inv_def live_def new_line_def)
qed

lemma decoder_next_line:
  "decoder_next d = (r, d') \<Longrightarrow> line_inv d \<Longrightarrow>
   sint (d_generated_line d) \<le> sint (d_generated_line d') \<and>
   (case r of
      None \<Rightarrow> d_done d' \<and> (d_done d \<or> d_error d' \<noteq> None \<or> d_pos d' = length (d_mappings d))
    | Some m \<Rightarrow> generated_line m = d_generated_line d' \<and> \<not> d_done d' \<and> line_inv d')"
proof (induction d rule: decoder_next.induct)
  case (1 d)
  let ?c = "d_mappings d ! d_pos d"
  consider "\<not> live d" | "live d" "?c = CHR '';''" | "live d" "?c = CHR '',''"
    | "live d" "?c \<noteq> CHR '';''" "?c \<noteq> CHR '',''" by blast
  then show ?case
  proof cases
    case 1
    then show ?thesis
      using "1.prems" decoder_next_unfold(4) [of d]
      by (auto simp: stop_iterating_def live_def line_inv_def)
  next
    case 2
    then have "decoder_next (new_line d) = (r, d')"
      using "1.prems" decoder_next_unfold(1) by simp
    with "1.IH"(1) 2 line_inv_new_line [OF "1.prems"(2) 2(1)] show ?thesis
      by (auto simp: live_def new_line_def split: option.splits)
  next
    case 3
    let ?d = "d\<lparr>d_pos := Suc (d_pos d)\<rparr>"
    have "decoder_next ?d = (r, d')"
      using "1.prems" 3 decoder_next_unfold(2) by simp
    moreover have "line_inv ?d" using "1.prems"(2) 3 by (simp add: line_inv_def live_def)
    ultimately show ?thesis
      using "1.IH"(2) 3 by (auto simp: live_def split: option.splits)
  next
    case 4
    then show ?thesis
      using "1.prems" decoder_next_unfold(3) next_segment_result [of d] next_segment_yields [of d]
      by (auto simp: segment_result_def live_def line_inv_def yields_def advances_def
          split: option.splits)
  qed
qed

lemma decoder_values_facts:
  "decoder_values d = (ms, d') \<Longrightarrow> line_inv d \<Longrightarrow> \<not> d_done d \<Longrightarrow>
   (\<forall>m\<in>set ms. mapping_wf m \<and> sint (d_generated_line d) \<le> sint (generated_line m)) \<and>
   sorted (map (\<lambda>m. sint (generated_line m)) ms) \<and>
   d_done d' \<and> (d_error d' \<noteq> None \<or> d_pos d' = length (d_mappings d))"
proof (induction d arbitrary: ms rule: decoder_values.induct)
  case (1 d)
  obtain r e where re: "decoder_next d = (r, e)" by fastforce
  note line = decoder_next_line [OF re "1.prems"(2)]
  show ?case
  proof (cases r)
    case None
    then show ?thesis using "1.prems" re line by (auto simp: decoder_values.simps [of d])
  next
    case (Some m)
    then have y: "yields d m e" using decoder_next_yields re by blast
    obtain ns where ns: "decoder_values e = (ns, d')" "ms = m # ns"
      using "1.prems"(1) re Some by (auto simp: decoder_values.simps [of d] split: prod.splits)
    with "1.IH" [OF re [symmetric] Some] line Some y show ?thesis
      by (fastforce simp: yields_def advances_def)
  qed
qed

lemma line_inv_start: "length t < 2 ^ 63 \<Longrightarrow> line_inv (decode_mappings t)"
  by (simp add: line_inv_def decode_mappings_def)

section \<open>Properties\<close>

text \<open>
  The decoder on arbitrary text. Whatever bytes the \<open>mappings\<close> string holds, the iteration ends,
  and it ends for one of two reasons: an error was recorded, or every byte was consumed.
\<close>

theorem decoder_stops:
  assumes "length t < 2 ^ 63" "decoder_values (decode_mappings t) = (ms, d)"
  shows "d_done d \<and> (d_pos d = length t \<or> (\<exists>err. d_error d = Some err))"
  using decoder_values_facts [OF assms(2) line_inv_start [OF assms(1)]]
  by (auto simp: decode_mappings_def)

theorem decoder_stops_witness:
  "d_done (snd (decoder_values (decode_mappings ''AAAA;!''))) \<and>
   (d_pos (snd (decoder_values (decode_mappings ''AAAA;!''))) = length ''AAAA;!'' \<or>
    (\<exists>err. d_error (snd (decoder_values (decode_mappings ''AAAA;!''))) = Some err))"
  by (rule decoder_stops [of _ "fst (decoder_values (decode_mappings ''AAAA;!''))"]) simp_all

text \<open>
  Well-formed segments only. Every segment the decoder hands out, from any text, has a
  column that is not negative and source fields that are all missing or all present and not
  negative, a name only beside a source; and the segments come in order of their generated line.
\<close>

theorem decoder_segments_wf:
  assumes "length t < 2 ^ 63" "decoder_values (decode_mappings t) = (ms, d)"
  shows "list_all mapping_wf ms \<and> sorted (map (\<lambda>m. sint (generated_line m)) ms)"
  using decoder_values_facts [OF assms(2) line_inv_start [OF assms(1)]]
  by (simp add: decode_mappings_def list_all_iff)

theorem decoder_segments_wf_witness:
  "list_all mapping_wf (fst (decoder_values (decode_mappings ''AAAA;CACA''))) \<and>
   sorted (map (\<lambda>m. sint (generated_line m)) (fst (decoder_values (decode_mappings ''AAAA;CACA''))))"
  by (rule decoder_segments_wf [of _ _ "snd (decoder_values (decode_mappings ''AAAA;CACA''))"]) simp_all

end
