(* ===== verification/Interfaces.thy ===== *)
theory Interfaces
  imports Prelude
begin

text \<open>
  The contracts that several components share, as locales: a codec (what is decoded is what was
  encoded), a stream codec (an item is read back from the front of a longer text), and a three-way
  comparison. The component theories interpret them on the model of the code that provides them.
\<close>

section \<open>Codecs\<close>

locale codec =
  fixes encode :: "'a \<Rightarrow> 'b"
    and decode :: "'b \<Rightarrow> 'a option"
    and valid :: "'a \<Rightarrow> bool"
  assumes decode_encode: "valid a \<Longrightarrow> decode (encode a) = Some a"
begin

lemma encode_inj: "valid a \<Longrightarrow> valid b \<Longrightarrow> encode a = encode b \<Longrightarrow> a = b"
  by (metis decode_encode option.inject)

lemma inj_on_encode: "inj_on encode (Collect valid)"
  by (auto intro!: inj_onI encode_inj)

end

locale stream_codec =
  fixes emit :: "'a \<Rightarrow> 'b list"
    and parse :: "'b list \<Rightarrow> ('a \<times> 'b list) option"
    and valid :: "'a \<Rightarrow> bool"
  assumes parse_emit: "valid a \<Longrightarrow> parse (emit a @ rest) = Some (a, rest)"
    and parse_Nil: "parse [] = None"
begin

lemma emit_not_Nil: "valid a \<Longrightarrow> emit a \<noteq> []"
  by (metis append_Nil option.distinct(1) parse_Nil parse_emit)

text \<open>No written item is a prefix of another.\<close>

lemma emit_prefix_free:
  assumes "valid a" "valid b" "emit a @ s = emit b @ t"
  shows "a = b" "s = t"
proof -
  have "Some (a, s) = Some (b, t)"
    using parse_emit [OF assms(1), of s] parse_emit [OF assms(2), of t] unfolding assms(3) by (rule trans [OF sym])
  then show "a = b" "s = t" by simp_all
qed

text \<open>A text is the concatenation of at most one list of items.\<close>

lemma emit_list_unique:
  "\<forall>a\<in>set as. valid a \<Longrightarrow> \<forall>b\<in>set bs. valid b \<Longrightarrow>
   concat (map emit as) = concat (map emit bs) \<Longrightarrow> as = bs"
proof (induction as arbitrary: bs)
  case Nil
  show ?case
  proof (cases bs)
    case (Cons b bs')
    with Nil have "emit b = []" "valid b" by simp_all
    then show ?thesis using emit_not_Nil by blast
  qed simp
next
  case (Cons a as)
  show ?case
  proof (cases bs)
    case Nil
    with Cons.prems have "emit a = []" "valid a" by simp_all
    then show ?thesis using emit_not_Nil by blast
  next
    case bs: (Cons b bs')
    have e: "emit a @ concat (map emit as) = emit b @ concat (map emit bs')" "valid a" "valid b"
      using Cons.prems bs by simp_all
    note pf = emit_prefix_free [OF e(2,3,1)]
    have "as = bs'" using Cons.IH [OF _ _ pf(2)] Cons.prems bs by simp
    with pf(1) bs show ?thesis by simp
  qed
qed

end

sublocale stream_codec \<subseteq> whole: codec emit
  "\<lambda>s. case parse s of Some (a, []) \<Rightarrow> Some a | _ \<Rightarrow> None" valid
proof
  show "(case parse (emit a) of Some (b, []) \<Rightarrow> Some b | _ \<Rightarrow> None) = Some a" if "valid a" for a
    using parse_emit [OF that, of "[]"] by simp
qed

section \<open>Three-way comparisons\<close>

text \<open>
  Rust's \<open>Ordering\<close> is the sign of an integer here: the comparison functions of the program return
  \<open>i32\<close> or \<open>Ordering\<close>, and the callers look at the sign only.
\<close>

locale comparison =
  fixes cmp :: "'a \<Rightarrow> 'a \<Rightarrow> int"
  assumes cmp_refl: "cmp a a = 0"
    and cmp_flip: "cmp a b \<le> 0 \<longleftrightarrow> 0 \<le> cmp b a"
    and cmp_trans: "cmp a b \<le> 0 \<Longrightarrow> cmp b c \<le> 0 \<Longrightarrow> cmp a c \<le> 0"
begin

lemma cmp_less_flip: "cmp a b < 0 \<longleftrightarrow> 0 < cmp b a"
  using cmp_flip [of b a] by linarith

lemma cmp_eq_sym: "cmp a b = 0 \<longleftrightarrow> cmp b a = 0"
  using cmp_flip [of a b] cmp_flip [of b a] by linarith

lemma cmp_less_trans: "cmp a b < 0 \<Longrightarrow> cmp b c \<le> 0 \<Longrightarrow> cmp a c < 0"
  using cmp_trans [of b c a] cmp_flip [of c a] cmp_flip [of b a] by linarith

lemma cmp_le_less_trans: "cmp a b \<le> 0 \<Longrightarrow> cmp b c < 0 \<Longrightarrow> cmp a c < 0"
  using cmp_trans [of c a b] cmp_flip [of c a] cmp_flip [of c b] by linarith

lemma cmp_eq_trans: "cmp a b = 0 \<Longrightarrow> cmp b c = 0 \<Longrightarrow> cmp a c = 0"
  using cmp_trans [of a b c] cmp_trans [of c b a] cmp_flip [of c a] cmp_flip [of b a] cmp_flip [of c b]
  by linarith

end

text \<open>Comparing lists element by element, a proper prefix first (\<open>Ord\<close> of slices and vectors).\<close>

fun compare_lists :: "('a \<Rightarrow> 'a \<Rightarrow> int) \<Rightarrow> 'a list \<Rightarrow> 'a list \<Rightarrow> int" where
  "compare_lists cmp (a # as) (b # bs) =
     (if cmp a b \<noteq> 0 then cmp a b else compare_lists cmp as bs)"
| "compare_lists cmp as bs = sgn (int (length as) - int (length bs))"

lemma compare_lists_Nil [simp]:
  "compare_lists cmp [] bs = (if bs = [] then 0 else - 1)"
  "compare_lists cmp as [] = (if as = [] then 0 else 1)"
  by (cases bs; simp) (cases as; simp)

lemma compare_lists_zero:
  assumes "\<And>a b. cmp a b = 0 \<longleftrightarrow> a = b"
  shows "compare_lists cmp as bs = 0 \<longleftrightarrow> as = bs"
proof (induction as arbitrary: bs)
  case (Cons a as)
  then show ?case by (cases bs) (auto simp: assms)
qed auto

context comparison
begin

lemma lists_refl: "compare_lists cmp as as = 0"
  by (induction as) (simp_all add: cmp_refl)

lemma lists_flip: "compare_lists cmp as bs \<le> 0 \<longleftrightarrow> 0 \<le> compare_lists cmp bs as"
proof (induction as arbitrary: bs)
  case (Cons a as)
  show ?case
  proof (cases bs)
    case (Cons b bs')
    then show ?thesis using Cons.IH [of bs'] cmp_eq_sym [of a b] cmp_flip [of a b] by auto
  qed simp
qed simp

lemma lists_trans:
  "compare_lists cmp as bs \<le> 0 \<Longrightarrow> compare_lists cmp bs cs \<le> 0 \<Longrightarrow> compare_lists cmp as cs \<le> 0"
proof (induction as arbitrary: bs cs)
  case (Cons a as)
  obtain b bs' where b: "bs = b # bs'" using Cons.prems(1) by (cases bs) auto
  then obtain c cs' where c: "cs = c # cs'" using Cons.prems(2) by (cases cs) auto
  have ab: "cmp a b \<le> 0" and bc: "cmp b c \<le> 0"
    using Cons.prems b c by (auto split: if_splits)
  show ?case
  proof (cases "cmp a b = 0 \<and> cmp b c = 0")
    case True
    then show ?thesis using Cons b c cmp_eq_trans [of a b c] by simp
  next
    case False
    then have "cmp a c < 0"
      using ab bc cmp_less_trans [of a b c] cmp_le_less_trans [of a b c] by linarith
    then show ?thesis using b c by simp
  qed
qed simp

lemma comparison_lists: "comparison (compare_lists cmp)"
  by unfold_locales (rule lists_refl lists_flip lists_trans; assumption)+

end

text \<open>Comparing by a key, and by one comparison after another (\<open>Ordering::then_with\<close>).\<close>

lemma comparison_key: "comparison cmp \<Longrightarrow> comparison (\<lambda>a b. cmp (f a) (f b))"
  unfolding comparison_def by blast

definition then_with :: "int \<Rightarrow> int \<Rightarrow> int" where
  "then_with a b = (if a = 0 then b else a)"

lemma then_with_zero: "then_with a b = 0 \<longleftrightarrow> a = 0 \<and> b = 0"
  by (simp add: then_with_def)

lemma comparison_then:
  assumes "comparison c1" "comparison c2"
  shows "comparison (\<lambda>a b. then_with (c1 a b) (c2 a b))"
proof
  fix a b c
  note laws = comparison.cmp_refl [OF assms(1)] comparison.cmp_refl [OF assms(2)]
    comparison.cmp_flip [OF assms(1)] comparison.cmp_flip [OF assms(2)]
  show "then_with (c1 a a) (c2 a a) = 0" by (simp add: then_with_def laws)
  have e: "c1 a b = 0 \<longleftrightarrow> c1 b a = 0" by (rule comparison.cmp_eq_sym [OF assms(1)])
  show "then_with (c1 a b) (c2 a b) \<le> 0 \<longleftrightarrow> 0 \<le> then_with (c1 b a) (c2 b a)"
    using e laws(3,4) [of a b] by (simp add: then_with_def)
  assume ab: "then_with (c1 a b) (c2 a b) \<le> 0" and bc: "then_with (c1 b c) (c2 b c) \<le> 0"
  then have le: "c1 a b \<le> 0" "c1 b c \<le> 0" by (auto simp: then_with_def split: if_splits)
  show "then_with (c1 a c) (c2 a c) \<le> 0"
  proof (cases "c1 a b = 0 \<and> c1 b c = 0")
    case True
    then show ?thesis
      using ab bc comparison.cmp_eq_trans [OF assms(1), of a b c] comparison.cmp_trans [OF assms(2), of a b c]
      by (simp add: then_with_def)
  next
    case False
    then have "c1 a c < 0"
      using le comparison.cmp_less_trans [OF assms(1), of a b c]
        comparison.cmp_le_less_trans [OF assms(1), of a b c] by linarith
    then show ?thesis by (simp add: then_with_def)
  qed
qed

lemma sgn_int_le: "sgn (k :: int) \<le> 0 \<longleftrightarrow> k \<le> 0" "0 \<le> sgn k \<longleftrightarrow> 0 \<le> k"
  by (simp_all add: sgn_if)

lemma comparison_int: "comparison (\<lambda>a b. sgn (f a - f b :: int))"
  by unfold_locales (auto simp: sgn_if split: if_splits)

end
