(* ===== verification/Wtf8.thy ===== *)
theory Wtf8
  imports Interfaces
begin

text \<open>
  \<open>crates/tsr_jsstring/src/wtf8.rs\<close>: decoding and encoding of code points. A rune is the source's
  \<open>i32\<close>, as an \<^typ>\<open>int\<close> (no operation here leaves the range). Strict UTF-8 decoding replaces each
  malformed byte by \<open>RUNE_ERROR\<close>; the JavaScript decoding accepts the three-byte forms of lone
  surrogates as well.
\<close>

section \<open>Decoding\<close>

definition RUNE_ERROR :: int where "RUNE_ERROR = 0xfffd"

text \<open>The table of lead bytes: width, range of the second byte, mask of the first.\<close>

definition utf8_lead :: "nat \<Rightarrow> (nat \<times> nat \<times> nat \<times> int) option" where
  "utf8_lead first =
     (if 0xc2 \<le> first \<and> first \<le> 0xdf then Some (2, 0x80, 0xbf, 0x1f)
      else if first = 0xe0 then Some (3, 0xa0, 0xbf, 0x0f)
      else if 0xe1 \<le> first \<and> first \<le> 0xec \<or> 0xee \<le> first \<and> first \<le> 0xef
      then Some (3, 0x80, 0xbf, 0x0f)
      else if first = 0xed then Some (3, 0x80, 0x9f, 0x0f)
      else if first = 0xf0 then Some (4, 0x90, 0xbf, 0x07)
      else if 0xf1 \<le> first \<and> first \<le> 0xf3 then Some (4, 0x80, 0xbf, 0x07)
      else if first = 0xf4 then Some (4, 0x80, 0x8f, 0x07)
      else None)"

definition is_continuation :: "byte \<Rightarrow> bool" where
  "is_continuation b \<longleftrightarrow> 0x80 \<le> byte_val b \<and> byte_val b \<le> 0xbf"

definition shift_in :: "int \<Rightarrow> byte \<Rightarrow> int" where
  "shift_in rune b = push_bit 6 rune OR (of_char b AND 0x3f)"

definition decode_utf8 :: "bytes \<Rightarrow> int \<times> nat" where
  "decode_utf8 bs =
     (case bs of
        [] \<Rightarrow> (RUNE_ERROR, 0)
      | first # rest \<Rightarrow>
          if byte_val first < 0x80 then (of_char first, 1)
          else case utf8_lead (byte_val first) of
            None \<Rightarrow> (RUNE_ERROR, 1)
          | Some (width, second_min, second_max, lead_mask) \<Rightarrow>
              if length bs < width \<or>
                 \<not> (second_min \<le> byte_val (bs ! 1) \<and> byte_val (bs ! 1) \<le> second_max)
              then (RUNE_ERROR, 1)
              else if list_ex (\<lambda>b. \<not> is_continuation b) (drop 2 (take width bs))
              then (RUNE_ERROR, 1)
              else (foldl shift_in (of_char first AND lead_mask) (take (width - 1) rest), width))"

definition decode_rune :: "bytes \<Rightarrow> int \<times> nat" where
  "decode_rune bs =
     (if 3 \<le> length bs \<and> byte_val (bs ! 0) = 0xed \<and>
         0xa0 \<le> byte_val (bs ! 1) \<and> byte_val (bs ! 1) \<le> 0xbf \<and> is_continuation (bs ! 2)
      then (0xd000 OR push_bit 6 (of_char (bs ! 1) AND 0x3f) OR (of_char (bs ! 2) AND 0x3f), 3)
      else decode_utf8 bs)"

section \<open>Surrogates\<close>

definition is_surrogate :: "int \<Rightarrow> bool" where
  "is_surrogate rune \<longleftrightarrow> 0xd800 \<le> rune \<and> rune \<le> 0xdfff"

definition is_high_surrogate :: "int \<Rightarrow> bool" where
  "is_high_surrogate rune \<longleftrightarrow> 0xd800 \<le> rune \<and> rune \<le> 0xdbff"

definition is_low_surrogate :: "int \<Rightarrow> bool" where
  "is_low_surrogate rune \<longleftrightarrow> 0xdc00 \<le> rune \<and> rune \<le> 0xdfff"

definition surrogate_pair_to_code_point :: "int \<Rightarrow> int \<Rightarrow> int" where
  "surrogate_pair_to_code_point high low =
     (if is_high_surrogate high \<and> is_low_surrogate low
      then push_bit 10 (high - 0xd800) + low - 0xdc00 + 0x10000
      else RUNE_ERROR)"

definition code_point_to_surrogate_pair :: "int \<Rightarrow> int \<times> int" where
  "code_point_to_surrogate_pair rune =
     (if 0x10000 \<le> rune \<and> rune \<le> 0x10ffff
      then let value = rune - 0x10000 in (0xd800 + drop_bit 10 value, 0xdc00 + (value AND 0x3ff))
      else (RUNE_ERROR, RUNE_ERROR))"

section \<open>Encoding\<close>

text \<open>\<open>char::encode_utf8\<close> of the standard library, on a Unicode scalar value.\<close>

definition encode_utf8 :: "int \<Rightarrow> bytes" where
  "encode_utf8 c =
     (if c < 0x80 then [char_of c]
      else if c < 0x800 then [char_of (0xc0 + c div 64), char_of (0x80 + c mod 64)]
      else if c < 0x10000
      then [char_of (0xe0 + c div 4096), char_of (0x80 + c div 64 mod 64), char_of (0x80 + c mod 64)]
      else [char_of (0xf0 + c div 262144), char_of (0x80 + c div 4096 mod 64),
            char_of (0x80 + c div 64 mod 64), char_of (0x80 + c mod 64)])"

text \<open>\<open>char::from_u32(rune as u32)\<close>: a scalar value, or nothing (a negative \<open>i32\<close> is a huge \<open>u32\<close>).\<close>

definition char_from_u32 :: "int \<Rightarrow> int option" where
  "char_from_u32 rune =
     (if 0 \<le> rune \<and> rune \<le> 0x10ffff \<and> \<not> is_surrogate rune then Some rune else None)"

definition append_rune :: "bytes \<Rightarrow> int \<Rightarrow> bytes" where
  "append_rune output rune =
     (if is_surrogate rune
      then output @ [char_of (0xed :: nat), char_of (0x80 OR (take_bit 8 (drop_bit 6 rune) AND 0x3f)),
                     char_of (0x80 OR (take_bit 8 rune AND 0x3f))]
      else output @ encode_utf8 (case char_from_u32 rune of Some c \<Rightarrow> c | None \<Rightarrow> 0xfffd))"

definition encode_rune :: "int \<Rightarrow> bytes" where
  "encode_rune rune = append_rune [] rune"

section \<open>Progress of the decoders\<close>

lemma decode_utf8_width:
  "snd (decode_utf8 bs) \<le> length bs \<and> (bs \<noteq> [] \<longrightarrow> 0 < snd (decode_utf8 bs)) \<and> snd (decode_utf8 bs) \<le> 4"
  by (auto simp: decode_utf8_def utf8_lead_def Suc_le_eq split: list.splits option.splits)

lemma decode_utf8_progress:
  "decode_utf8 bs = (r, w) \<Longrightarrow> bs \<noteq> [] \<Longrightarrow> 0 < w \<and> w \<le> length bs \<and> w \<le> 4"
  using decode_utf8_width [of bs] by auto

lemma decode_rune_width:
  "snd (decode_rune bs) \<le> length bs \<and> (bs \<noteq> [] \<longrightarrow> 0 < snd (decode_rune bs)) \<and> snd (decode_rune bs) \<le> 4"
  using decode_utf8_width by (auto simp: decode_rune_def)

lemma decode_rune_progress:
  "decode_rune bs = (r, w) \<Longrightarrow> bs \<noteq> [] \<Longrightarrow> 0 < w \<and> w \<le> length bs \<and> w \<le> 4"
  using decode_rune_width [of bs] by auto

lemma decode_rune_Nil [simp]: "decode_rune [] = (RUNE_ERROR, 0)" "decode_utf8 [] = (RUNE_ERROR, 0)"
  by (simp_all add: decode_rune_def decode_utf8_def)

section \<open>Iteration over code points\<close>

text \<open>The iterator \<open>CodePoints\<close>, collected.\<close>

function code_points :: "bytes \<Rightarrow> int list" where
  "code_points remaining =
     (let (rune, width) = decode_rune remaining in
      if width = 0 then [] else rune # code_points (drop width remaining))"
  by pat_completeness auto
termination
proof (relation "measure length", simp, goal_cases)
  case (1 r x rune width)
  then show ?case using decode_rune_width [of r] by (cases r) auto
qed

declare code_points.simps [simp del]

text \<open>The loop of \<open>combine_surrogate_pairs\<close> on the bytes from the offset on.\<close>

function combine_from :: "bytes \<Rightarrow> bytes" where
  "combine_from bs =
     (if bs = [] then []
      else let (rune, width) = decode_rune bs in
        if is_high_surrogate rune
        then let (low, low_width) = decode_rune (drop width bs) in
          if is_low_surrogate low
          then append_rune [] (surrogate_pair_to_code_point rune low) @
               combine_from (drop (width + low_width) bs)
          else take width bs @ combine_from (drop width bs)
        else take width bs @ combine_from (drop width bs))"
  by pat_completeness auto
termination
proof (relation "measure length", simp, goal_cases)
  case (1 bs x rune width y low low_width)
  then show ?case using decode_rune_progress [of bs rune width] by simp
next
  case (2 bs x rune width y low low_width)
  then show ?case using decode_rune_progress [of bs rune width] by simp
next
  case (3 bs x rune width)
  then show ?case using decode_rune_progress [of bs rune width] by simp
qed

declare combine_from.simps [simp del]

definition combine_surrogate_pairs :: "bytes \<Rightarrow> bytes" where
  "combine_surrogate_pairs bs =
     (if char_of (0xed :: nat) \<notin> set bs then bs else combine_from bs)"

section \<open>Encoding and decoding\<close>

lemma byte_val_char_of [simp]: "byte_val (char_of (k :: int)) = nat (k mod 256)"
  by (metis nat_of_char of_char_of)

lemma and_masks:
  "(k :: int) AND 63 = k mod 64" "(k :: int) AND 31 = k mod 32" "(k :: int) AND 15 = k mod 16"
  "(k :: int) AND 7 = k mod 8" "(k :: int) AND 1023 = k mod 1024"
  using take_bit_eq_mod [of 6 k] take_bit_eq_mod [of 5 k] take_bit_eq_mod [of 4 k]
    take_bit_eq_mod [of 3 k] take_bit_eq_mod [of 10 k]
  by (simp_all add: take_bit_eq_mask mask_eq_exp_minus_1)

lemma or_disjoint: "0 \<le> b \<Longrightarrow> b < 2 ^ n \<Longrightarrow> push_bit n (a :: int) OR b = a * 2 ^ n + b"
  using concat_bit_eq [of n b a] by (simp add: concat_bit_def push_bit_eq_mult or.commute take_bit_int_eq_self)

lemma shift_in_eq: "shift_in r b = r * 64 + of_char b mod 64"
  using or_disjoint [of "of_char b mod 64" 6 r] by (simp add: shift_in_def and_masks)

lemma foldl_shift_in:
  "foldl shift_in r [a] = r * 64 + of_char a mod 64"
  "foldl shift_in r [a, b] = (r * 64 + of_char a mod 64) * 64 + of_char b mod 64"
  "foldl shift_in r [a, b, c] =
     ((r * 64 + of_char a mod 64) * 64 + of_char b mod 64) * 64 + of_char c mod 64"
  by (simp_all add: shift_in_eq)

lemma decode_utf8_2:
  assumes "utf8_lead (byte_val a) = Some (2, lo, hi, m)" "lo \<le> byte_val b" "byte_val b \<le> hi"
    "0x80 \<le> byte_val a"
  shows "decode_utf8 (a # b # rest) = ((of_char a AND m) * 64 + of_char b mod 64, 2)"
  using assms by (simp add: decode_utf8_def shift_in_eq)

lemma decode_utf8_3:
  assumes "utf8_lead (byte_val a) = Some (3, lo, hi, m)" "lo \<le> byte_val b" "byte_val b \<le> hi"
    "is_continuation c" "0x80 \<le> byte_val a"
  shows "decode_utf8 (a # b # c # rest) =
    (((of_char a AND m) * 64 + of_char b mod 64) * 64 + of_char c mod 64, 3)"
  using assms by (simp add: decode_utf8_def shift_in_eq numeral_3_eq_3 numeral_2_eq_2)

lemma decode_utf8_4:
  assumes "utf8_lead (byte_val a) = Some (4, lo, hi, m)" "lo \<le> byte_val b" "byte_val b \<le> hi"
    "is_continuation c" "is_continuation d" "0x80 \<le> byte_val a"
  shows "decode_utf8 (a # b # c # d # rest) =
    ((((of_char a AND m) * 64 + of_char b mod 64) * 64 + of_char c mod 64) * 64 + of_char d mod 64, 4)"
proof -
  have "(4::nat) = Suc (Suc (Suc (Suc 0)))" "(2::nat) = Suc (Suc 0)" by simp_all
  then show ?thesis using assms by (simp add: decode_utf8_def shift_in_eq)
qed

lemma mod_offset: "0 \<le> x \<Longrightarrow> x < m \<Longrightarrow> m dvd a \<Longrightarrow> (a + x) mod m = (x :: int)"
  by (metis add_0 dvd_imp_mod_0 mod_add_left_eq mod_pos_pos_trivial)

lemma continuation_byte:
  "is_continuation (char_of (0x80 + (k :: int) mod 64))"
  "of_char (char_of (0x80 + (k :: int) mod 64)) mod 64 = k mod (64 :: int)"
  "byte_val (char_of (0x80 + (k :: int) mod 64)) = nat (0x80 + k mod 64)"
proof -
  have "0 \<le> k mod 64" "k mod 64 < 64" by simp_all
  then have m: "(0x80 + k mod 64) mod 256 = 0x80 + k mod 64" by (intro mod_pos_pos_trivial) simp_all
  then show v: "byte_val (char_of (0x80 + (k :: int) mod 64)) = nat (0x80 + k mod 64)" by simp
  have "0x80 \<le> nat (0x80 + k mod 64)" "nat (0x80 + k mod 64) \<le> 0xbf"
    using \<open>0 \<le> k mod 64\<close> \<open>k mod 64 < 64\<close> by linarith+
  then show "is_continuation (char_of (0x80 + k mod 64))" unfolding is_continuation_def v by simp
  have "(0x80 + k mod 64) mod 64 = k mod 64" by (rule mod_offset) simp_all
  with m show "of_char (char_of (0x80 + (k :: int) mod 64)) mod 64 = k mod (64 :: int)" by simp
qed

lemma utf8_lead_ranges:
  "0xc2 \<le> n \<Longrightarrow> n \<le> 0xdf \<Longrightarrow> utf8_lead n = Some (2, 0x80, 0xbf, 0x1f)"
  "0xe0 < n \<Longrightarrow> n \<le> 0xef \<Longrightarrow> n \<noteq> 0xed \<Longrightarrow> utf8_lead n = Some (3, 0x80, 0xbf, 0x0f)"
  "0xf0 < n \<Longrightarrow> n < 0xf4 \<Longrightarrow> utf8_lead n = Some (4, 0x80, 0xbf, 0x07)"
  by (auto simp: utf8_lead_def)

lemma lead_byte:
  assumes "0 \<le> (k :: int)" "k < 256"
  shows "byte_val (char_of k) = nat k" "of_char (char_of k) = k"
  using assms by (simp_all add: mod_pos_pos_trivial)

text \<open>The three multi-byte forms, one lemma each.\<close>

lemma div_mult2_64: "(c :: int) div 4096 = c div 64 div 64"
  using zdiv_zmult2_eq [of 64 c 64] by simp

lemma div_mult2_4096: "(c :: int) div 262144 = c div 4096 div 64"
  using zdiv_zmult2_eq [of 64 c 4096] by simp

lemma decode_encode_2:
  assumes "0x80 \<le> c" "c < 0x800"
  shows "decode_utf8 (encode_utf8 c @ rest) = (c, 2)"
proof -
  let ?k = "0xc0 + c div 64"
  have k: "0xc2 \<le> ?k" "?k \<le> 0xdf" using assms by linarith+
  then have "utf8_lead (nat ?k) = Some (2, 0x80, 0xbf, 0x1f)"
    by (intro utf8_lead_ranges) linarith+
  moreover have "?k mod 32 = c div 64" using k by (intro mod_offset) auto
  moreover have e: "encode_utf8 c = [char_of ?k, char_of (0x80 + c mod 64)]"
    using assms by (simp add: encode_utf8_def)
  moreover have "0x80 \<le> nat (0x80 + c mod 64)" "nat (0x80 + c mod 64) \<le> 0xbf" "0x80 \<le> nat ?k"
    using pos_mod_bound [of 64 c] pos_mod_sign [of 64 c] k by linarith+
  ultimately show ?thesis
    using k div_mult_mod_eq [of c 64]
    by (simp only: append_Cons append_Nil decode_utf8_2 [of "char_of ?k"] lead_byte
        continuation_byte and_masks)
qed

lemma second_byte_3:
  assumes "0x800 \<le> c" "c < 0x10000" "\<not> is_surrogate c"
  obtains lo hi where "utf8_lead (nat (0xe0 + c div 4096)) = Some (3, lo, hi, 0x0f)"
    "lo \<le> nat (0x80 + c div 64 mod 64)" "nat (0x80 + c div 64 mod 64) \<le> hi"
proof -
  let ?k = "0xe0 + c div 4096" and ?b = "c div 64 mod 64"
  have k: "0xe0 \<le> ?k" "?k \<le> 0xef" using assms by linarith+
  have s: "0xd800 \<le> c \<Longrightarrow> 0xe000 \<le> c" using assms(3) by (auto simp: is_surrogate_def)
  have d: "c div 64 = c div 4096 * 64 + ?b"
    using div_mult2_64 [of c] div_mult_mod_eq [of "c div 64" 64] by simp
  have b: "0 \<le> ?b" "?b < 64" by simp_all
  consider "?k = 0xe0" | "?k = 0xed" | "?k \<noteq> 0xe0" "?k \<noteq> 0xed" by blast
  then show thesis
  proof cases
    case 1
    then have "32 \<le> ?b" using assms d by linarith
    with 1 b show ?thesis by (intro that [of 160 191]) (simp add: utf8_lead_def, linarith+)
  next
    case 2
    then have "?b < 32" using assms s d by linarith
    with 2 b show ?thesis by (intro that [of 128 159]) (simp add: utf8_lead_def, linarith+)
  next
    case 3
    have "utf8_lead (nat ?k) = Some (3, 0x80, 0xbf, 0x0f)"
      using 3 k by (intro utf8_lead_ranges) linarith+
    with b show ?thesis by (intro that [of 128 191]) (simp, linarith+)
  qed
qed

lemma decode_encode_3:
  assumes "0x800 \<le> c" "c < 0x10000" "\<not> is_surrogate c"
  shows "decode_utf8 (encode_utf8 c @ rest) = (c, 3)"
proof -
  let ?k = "0xe0 + c div 4096"
  have k: "0xe0 \<le> ?k" "?k \<le> 0xef" using assms by linarith+
  obtain lo hi where l: "utf8_lead (nat ?k) = Some (3, lo, hi, 0x0f)"
    "lo \<le> nat (0x80 + c div 64 mod 64)" "nat (0x80 + c div 64 mod 64) \<le> hi"
    using second_byte_3 [OF assms] by blast
  have "?k mod 16 = c div 4096" using k by (intro mod_offset) auto
  moreover have "c div 4096 * 64 + c div 64 mod 64 = c div 64"
    using div_mult2_64 [of c] div_mult_mod_eq [of "c div 64" 64] by simp
  moreover have "encode_utf8 c =
      [char_of ?k, char_of (0x80 + c div 64 mod 64), char_of (0x80 + c mod 64)]"
    using assms by (simp add: encode_utf8_def)
  moreover have "0x80 \<le> nat ?k" using k by linarith
  ultimately show ?thesis
    using k l div_mult_mod_eq [of c 64]
    by (simp only: append_Cons append_Nil decode_utf8_3 [of "char_of ?k"] lead_byte
        continuation_byte and_masks)
qed

lemma second_byte_4:
  assumes "0x10000 \<le> c" "c \<le> 0x10ffff"
  obtains lo hi where "utf8_lead (nat (0xf0 + c div 262144)) = Some (4, lo, hi, 0x07)"
    "lo \<le> nat (0x80 + c div 4096 mod 64)" "nat (0x80 + c div 4096 mod 64) \<le> hi"
proof -
  let ?k = "0xf0 + c div 262144" and ?b = "c div 4096 mod 64"
  have k: "0xf0 \<le> ?k" "?k \<le> 0xf4" using assms by linarith+
  have d: "c div 4096 = c div 262144 * 64 + ?b"
    using div_mult2_4096 [of c] div_mult_mod_eq [of "c div 4096" 64] by simp
  have b: "0 \<le> ?b" "?b < 64" by simp_all
  consider "?k = 0xf0" | "?k = 0xf4" | "?k \<noteq> 0xf0" "?k \<noteq> 0xf4" by blast
  then show thesis
  proof cases
    case 1
    then have "16 \<le> ?b" using assms d by linarith
    with 1 b show ?thesis by (intro that [of 144 191]) (simp add: utf8_lead_def, linarith+)
  next
    case 2
    then have "?b < 16" using assms d by linarith
    with 2 b show ?thesis by (intro that [of 128 143]) (simp add: utf8_lead_def, linarith+)
  next
    case 3
    have "utf8_lead (nat ?k) = Some (4, 0x80, 0xbf, 0x07)"
      using 3 k by (intro utf8_lead_ranges) linarith+
    with b show ?thesis by (intro that [of 128 191]) (simp, linarith+)
  qed
qed

lemma decode_encode_4:
  assumes "0x10000 \<le> c" "c \<le> 0x10ffff"
  shows "decode_utf8 (encode_utf8 c @ rest) = (c, 4)"
proof -
  let ?k = "0xf0 + c div 262144"
  have k: "0xf0 \<le> ?k" "?k \<le> 0xf4" using assms by linarith+
  obtain lo hi where l: "utf8_lead (nat ?k) = Some (4, lo, hi, 0x07)"
    "lo \<le> nat (0x80 + c div 4096 mod 64)" "nat (0x80 + c div 4096 mod 64) \<le> hi"
    using second_byte_4 [OF assms] by blast
  have "?k mod 8 = c div 262144" using k by (intro mod_offset) auto
  moreover have "c div 262144 * 64 + c div 4096 mod 64 = c div 4096"
    using div_mult2_4096 [of c] div_mult_mod_eq [of "c div 4096" 64] by simp
  moreover have "c div 4096 * 64 + c div 64 mod 64 = c div 64"
    using div_mult2_64 [of c] div_mult_mod_eq [of "c div 64" 64] by simp
  moreover have "encode_utf8 c = [char_of ?k, char_of (0x80 + c div 4096 mod 64),
      char_of (0x80 + c div 64 mod 64), char_of (0x80 + c mod 64)]"
    using assms by (simp add: encode_utf8_def)
  moreover have "0x80 \<le> nat ?k" using k by linarith
  ultimately show ?thesis
    using k l div_mult_mod_eq [of c 64]
    by (simp only: append_Cons append_Nil decode_utf8_4 [of "char_of ?k"] lead_byte
        continuation_byte and_masks)
qed

lemma decode_utf8_encode:
  assumes "0 \<le> c" "c \<le> 0x10ffff" "\<not> is_surrogate c"
  shows "decode_utf8 (encode_utf8 c @ rest) = (c, length (encode_utf8 c))"
proof -
  consider "c < 0x80" | "0x80 \<le> c" "c < 0x800" | "0x800 \<le> c" "c < 0x10000" | "0x10000 \<le> c"
    by linarith
  then show ?thesis
  proof cases
    case 1
    then show ?thesis
      using assms(1) lead_byte [of c] by (simp add: encode_utf8_def decode_utf8_def nat_less_iff)
  qed (use assms in \<open>simp_all add: decode_encode_2 decode_encode_3 decode_encode_4, simp_all add: encode_utf8_def\<close>)
qed

section \<open>JavaScript strings\<close>

definition valid_rune :: "int \<Rightarrow> bool" where
  "valid_rune r \<longleftrightarrow> 0 \<le> r \<and> r \<le> 0x10ffff"

text \<open>Where the surrogate form applies, strict decoding sees a malformed byte.\<close>

lemma decode_rune_utf8:
  assumes "decode_utf8 bs \<noteq> (RUNE_ERROR, 1)"
  shows "decode_rune bs = decode_utf8 bs"
proof (cases "3 \<le> length bs \<and> byte_val (bs ! 0) = 0xed \<and> 0xa0 \<le> byte_val (bs ! 1) \<and>
    byte_val (bs ! 1) \<le> 0xbf \<and> is_continuation (bs ! 2)")
  case True
  then obtain a rest where "bs = a # rest" by (cases bs) auto
  with True have "decode_utf8 bs = (RUNE_ERROR, 1)" by (simp add: decode_utf8_def utf8_lead_def)
  with assms show ?thesis by simp
next
  case False
  then show ?thesis unfolding decode_rune_def by (simp only: if_False)
qed

lemma or_0x80: "0 \<le> x \<Longrightarrow> x < 64 \<Longrightarrow> (0x80 :: int) OR x = 0x80 + x"
  using or_disjoint [of x 7 1] by simp

lemma take_bit_8_mod_64: "take_bit 8 (k :: int) mod 64 = k mod 64"
  by (simp add: take_bit_eq_mod mod_mod_cancel)

lemma encode_surrogate:
  assumes "is_surrogate r"
  shows "encode_rune r = [char_of (0xed :: nat), char_of (0x80 + r div 64 mod 64),
    char_of (0x80 + r mod 64)]"
  using assms or_0x80 [of "r div 64 mod 64"] or_0x80 [of "r mod 64"]
  by (simp add: encode_rune_def append_rune_def and_masks take_bit_8_mod_64 drop_bit_eq_div)

lemma or_surrogate:
  assumes "0 \<le> a" "a < 64" "0 \<le> b" "b < 64"
  shows "(0xd000 :: int) OR push_bit 6 a OR b = 0xd000 + a * 64 + b"
proof -
  have "push_bit 6 a OR b = a * 64 + b" using or_disjoint [of b 6 a] assms by simp
  then show ?thesis
    using or_disjoint [of "a * 64 + b" 12 13] assms by (simp add: or.assoc)
qed

lemma decode_surrogate:
  assumes "is_surrogate r"
  shows "decode_rune (encode_rune r @ rest) = (r, 3)"
proof -
  let ?a = "r div 64 mod 64" and ?b = "r mod 64"
  have "0 \<le> ?a" "?a < 64" "0 \<le> ?b" "?b < 64" by simp_all
  have "r div 4096 = 13" using assms unfolding is_surrogate_def by linarith
  then have d: "r div 64 = 13 * 64 + ?a"
    using div_mult2_64 [of r] div_mult_mod_eq [of "r div 64" 64] by simp
  then have "32 \<le> ?a" using assms unfolding is_surrogate_def by linarith
  have a: "byte_val (char_of (0x80 + ?a)) = nat (0x80 + ?a)" by (rule continuation_byte)
  have "0xa0 \<le> nat (0x80 + ?a)" "nat (0x80 + ?a) \<le> 0xbf"
    using \<open>32 \<le> ?a\<close> \<open>?a < 64\<close> by linarith+
  moreover have "0xd000 + ?a * 64 + ?b = r" using d div_mult_mod_eq [of r 64] by linarith
  then have "(0xd000 :: int) OR push_bit 6 ?a OR ?b = r" by (subst or_surrogate) simp_all
  moreover have "byte_val (char_of (0xed :: nat)) = 0xed" by simp
  ultimately show ?thesis
    unfolding encode_surrogate [OF assms] decode_rune_def
    by (simp only: append_Cons append_Nil list.size nth_Cons_0 nth_Cons_Suc One_nat_def
        numeral_2_eq_2 a continuation_byte and_masks) simp
qed

lemma encode_rune_scalar:
  "valid_rune r \<Longrightarrow> \<not> is_surrogate r \<Longrightarrow> encode_rune r = encode_utf8 r"
  by (simp add: encode_rune_def append_rune_def char_from_u32_def valid_rune_def)

lemma decode_rune_encode:
  assumes "valid_rune r"
  shows "decode_rune (encode_rune r @ rest) = (r, length (encode_rune r))"
proof (cases "is_surrogate r")
  case True
  then show ?thesis by (simp add: decode_surrogate) (simp add: encode_surrogate)
next
  case False
  have "decode_utf8 (encode_utf8 r @ rest) = (r, length (encode_utf8 r))"
    using decode_utf8_encode assms False by (simp add: valid_rune_def)
  moreover have "(r, length (encode_utf8 r)) \<noteq> (RUNE_ERROR, 1)"
    by (auto simp: RUNE_ERROR_def encode_utf8_def)
  ultimately show ?thesis
    using encode_rune_scalar [OF assms False] decode_rune_utf8 by simp
qed

text \<open>The reader of one rune from the front of a text, in the form the iterator uses.\<close>

definition read_rune :: "bytes \<Rightarrow> (int \<times> bytes) option" where
  "read_rune bs = (let (rune, width) = decode_rune bs in
     if width = 0 then None else Some (rune, drop width bs))"

lemma encode_rune_not_Nil: "encode_rune r \<noteq> []"
  by (simp add: encode_rune_def append_rune_def encode_utf8_def)

interpretation rune: stream_codec encode_rune read_rune valid_rune
  by unfold_locales (auto simp: read_rune_def decode_rune_encode encode_rune_not_Nil)

definition encode_runes :: "int list \<Rightarrow> bytes" where
  "encode_runes rs = concat (map encode_rune rs)"

lemma encode_runes_simps [simp]:
  "encode_runes [] = []" "encode_runes (r # rs) = encode_rune r @ encode_runes rs"
  by (simp_all add: encode_runes_def)

lemma code_points_encode: "list_all valid_rune rs \<Longrightarrow> code_points (encode_runes rs) = rs"
proof (induction rs)
  case Nil
  show ?case by (simp add: code_points.simps)
next
  case (Cons r rs)
  then show ?case
    using decode_rune_encode [of r "encode_runes rs"] encode_rune_not_Nil [of r]
    by (subst code_points.simps) simp
qed

text \<open>Joining surrogate pairs, on code points.\<close>

fun merge_pairs :: "int list \<Rightarrow> int list" where
  "merge_pairs (h # l # rs) =
     (if is_high_surrogate h \<and> is_low_surrogate l
      then surrogate_pair_to_code_point h l # merge_pairs rs
      else h # merge_pairs (l # rs))"
| "merge_pairs rs = rs"

lemma pair_not_surrogate:
  "is_high_surrogate h \<Longrightarrow> is_low_surrogate l \<Longrightarrow>
   0x10000 \<le> surrogate_pair_to_code_point h l \<and> surrogate_pair_to_code_point h l \<le> 0x10ffff"
  by (simp add: surrogate_pair_to_code_point_def is_high_surrogate_def is_low_surrogate_def
      push_bit_eq_mult)

lemma combine_from_step:
  assumes "valid_rune r" "\<not> is_high_surrogate r \<or>
    \<not> is_low_surrogate (fst (decode_rune rest))"
  shows "combine_from (encode_rune r @ rest) = encode_rune r @ combine_from rest"
  using decode_rune_encode [OF assms(1), of rest] assms(2) encode_rune_not_Nil [of r]
  by (subst combine_from.simps) (auto split: prod.splits)

lemma combine_from_pair:
  assumes "valid_rune h" "valid_rune l" "is_high_surrogate h" "is_low_surrogate l"
  shows "combine_from (encode_rune h @ encode_rune l @ rest) =
    encode_rune (surrogate_pair_to_code_point h l) @ combine_from rest"
  using decode_rune_encode [OF assms(1), of "encode_rune l @ rest"]
    decode_rune_encode [OF assms(2), of rest] assms(3,4) encode_rune_not_Nil [of h]
  by (subst combine_from.simps) (simp add: encode_rune_def)

lemma not_low_RUNE_ERROR: "\<not> is_low_surrogate RUNE_ERROR"
  by (simp add: is_low_surrogate_def RUNE_ERROR_def)

lemma combine_from_encode:
  "list_all valid_rune rs \<Longrightarrow> combine_from (encode_runes rs) = encode_runes (merge_pairs rs)"
proof (induction rs rule: merge_pairs.induct)
  case (1 h l rs)
  show ?case
  proof (cases "is_high_surrogate h \<and> is_low_surrogate l")
    case True
    then show ?thesis using 1 combine_from_pair [of h l] by simp
  next
    case False
    then show ?thesis
      using 1 combine_from_step [of h "encode_runes (l # rs)"] decode_rune_encode [of l "encode_runes rs"]
      by auto
  qed
next
  case "2_1"
  show ?case by (simp add: combine_from.simps)
next
  case "2_2"
  then show ?case
    by (subst encode_runes_simps) (use combine_from_step [of _ "[]"] not_low_RUNE_ERROR in
      \<open>auto simp: combine_from.simps [of "[]"]\<close>)
qed

lemma merge_pairs_id: "\<forall>r\<in>set rs. \<not> is_high_surrogate r \<Longrightarrow> merge_pairs rs = rs"
  by (induction rs rule: merge_pairs.induct) auto

lemma combine_surrogate_pairs_encode:
  assumes "list_all valid_rune rs"
  shows "combine_surrogate_pairs (encode_runes rs) = encode_runes (merge_pairs rs)"
proof (cases "char_of (0xed :: nat) \<in> set (encode_runes rs)")
  case True
  then show ?thesis using combine_from_encode [OF assms] by (simp add: combine_surrogate_pairs_def)
next
  case False
  have "\<not> is_high_surrogate r" if "r \<in> set rs" for r
  proof
    assume "is_high_surrogate r"
    then have "is_surrogate r" by (simp add: is_high_surrogate_def is_surrogate_def)
    then have "char_of (0xed :: nat) \<in> set (encode_rune r)" by (simp add: encode_surrogate)
    with that False show False by (auto simp: encode_runes_def)
  qed
  then show ?thesis using False merge_pairs_id by (simp add: combine_surrogate_pairs_def)
qed

text \<open>The UTF-16 code units of a code point, by \<open>code_point_to_surrogate_pair\<close>.\<close>

definition utf16_units :: "int \<Rightarrow> int list" where
  "utf16_units r =
     (if 0x10000 \<le> r then let (h, l) = code_point_to_surrogate_pair r in [h, l] else [r])"

lemma pair_roundtrip:
  assumes "is_high_surrogate h" "is_low_surrogate l"
  shows "code_point_to_surrogate_pair (surrogate_pair_to_code_point h l) = (h, l)"
proof -
  let ?v = "(h - 0xd800) * 1024 + (l - 0xdc00)"
  have "surrogate_pair_to_code_point h l = ?v + 0x10000"
    using assms by (simp add: surrogate_pair_to_code_point_def push_bit_eq_mult)
  moreover have "?v div 1024 = h - 0xd800" "?v mod 1024 = l - 0xdc00"
    using assms(2) div_mult_self3 [of 1024 "l - 0xdc00" "h - 0xd800"]
      mod_mult_self3 [of "h - 0xd800" 1024 "l - 0xdc00"] unfolding is_low_surrogate_def
    by (simp_all del: div_mult_self3 mod_mult_self3 add: div_pos_pos_trivial mod_pos_pos_trivial)
  ultimately show ?thesis
    using pair_not_surrogate [OF assms]
    by (simp add: code_point_to_surrogate_pair_def drop_bit_eq_div and_masks Let_def)
qed

lemma code_point_roundtrip:
  assumes "0x10000 \<le> r" "r \<le> 0x10ffff"
  shows "\<exists>h l. code_point_to_surrogate_pair r = (h, l) \<and> is_high_surrogate h \<and>
    is_low_surrogate l \<and> surrogate_pair_to_code_point h l = r"
proof -
  let ?v = "r - 0x10000"
  have "0 \<le> ?v div 1024" "?v div 1024 < 1024" using assms by linarith+
  moreover have "0 \<le> ?v mod 1024" "?v mod 1024 < 1024" by simp_all
  ultimately have hl: "is_high_surrogate (0xd800 + ?v div 1024)" "is_low_surrogate (0xdc00 + ?v mod 1024)"
    unfolding is_high_surrogate_def is_low_surrogate_def by linarith+
  moreover have "code_point_to_surrogate_pair r = (0xd800 + ?v div 1024, 0xdc00 + ?v mod 1024)"
    using assms by (simp add: code_point_to_surrogate_pair_def Let_def drop_bit_eq_div and_masks)
  moreover have "?v div 1024 * 1024 + ?v mod 1024 = ?v" by (rule div_mult_mod_eq)
  then have "surrogate_pair_to_code_point (0xd800 + ?v div 1024) (0xdc00 + ?v mod 1024) = r"
    using hl by (simp add: surrogate_pair_to_code_point_def push_bit_eq_mult)
  ultimately show ?thesis by blast
qed

lemma utf16_units_merge:
  "list_all valid_rune rs \<Longrightarrow> concat (map utf16_units (merge_pairs rs)) = concat (map utf16_units rs)"
proof (induction rs rule: merge_pairs.induct)
  case (1 h l rs)
  show ?case
  proof (cases "is_high_surrogate h \<and> is_low_surrogate l")
    case True
    then have "utf16_units (surrogate_pair_to_code_point h l) = [h, l]"
      using pair_roundtrip [of h l] pair_not_surrogate [of h l] by (simp add: utf16_units_def)
    moreover have "utf16_units h = [h]" "utf16_units l = [l]"
      using True by (simp_all add: utf16_units_def is_high_surrogate_def is_low_surrogate_def)
    ultimately show ?thesis using 1 True by simp
  qed (use 1 in auto)
qed simp_all

fun has_pair :: "int list \<Rightarrow> bool" where
  "has_pair (h # l # rs) \<longleftrightarrow> is_high_surrogate h \<and> is_low_surrogate l \<or> has_pair (l # rs)"
| "has_pair _ \<longleftrightarrow> False"

lemma merge_pairs_hd:
  "merge_pairs (l # rs) = x # xs \<Longrightarrow> is_low_surrogate x \<Longrightarrow> is_low_surrogate l"
  using pair_not_surrogate [of l "hd rs"]
  by (cases rs) (auto simp: is_low_surrogate_def split: if_splits)

lemma merge_pairs_no_pair: "\<not> has_pair (merge_pairs rs)"
proof (induction rs rule: merge_pairs.induct)
  case (1 h l rs)
  show ?case
  proof (cases "is_high_surrogate h \<and> is_low_surrogate l")
    case True
    then have "\<not> is_high_surrogate (surrogate_pair_to_code_point h l)"
      using pair_not_surrogate [of h l] by (auto simp: is_high_surrogate_def)
    then show ?thesis using 1(1) True by (cases "merge_pairs rs") auto
  next
    case False
    then show ?thesis
      using 1(2) merge_pairs_hd [of l rs] by (cases "merge_pairs (l # rs)") auto
  qed
qed simp_all

lemma merge_pairs_valid: "list_all valid_rune rs \<Longrightarrow> list_all valid_rune (merge_pairs rs)"
  using pair_not_surrogate
  by (induction rs rule: merge_pairs.induct) (force simp: valid_rune_def)+

section \<open>Properties\<close>

text \<open>
  C26. WTF-8 round trip. Any list of code points, lone surrogates included, is read back by the
  code point iterator from the concatenation of the \<open>encode_rune\<close> texts; so a text is the encoding
  of at most one list of code points.
\<close>

theorem wtf8_roundtrip:
  assumes "list_all valid_rune rs" "list_all valid_rune rs'"
  shows "code_points (encode_runes rs) = rs \<and> (encode_runes rs = encode_runes rs') = (rs = rs')"
  using code_points_encode [OF assms(1)] rune.emit_list_unique [of rs rs'] assms
  by (auto simp: encode_runes_def list_all_iff)

theorem wtf8_roundtrip_witness:
  "code_points (encode_runes [0x41, 0xd800, 0x1f600]) = [0x41, 0xd800, 0x1f600] \<and>
   (encode_runes [0x41, 0xd800, 0x1f600] = encode_runes [0xe9]) = ([0x41, 0xd800, 0x1f600] = [0xe9 :: int])"
  by (rule wtf8_roundtrip) (simp_all add: valid_rune_def)

text \<open>
  Joining surrogate pairs. On the encoding of any code points \<open>combine_surrogate_pairs\<close> gives a
  well-formed encoding of code points again, in which no high surrogate is followed by a low one,
  and which reads as the same sequence of UTF-16 code units.
\<close>

theorem combine_surrogate_pairs_utf16:
  assumes "list_all valid_rune rs"
  shows "\<exists>ns. combine_surrogate_pairs (encode_runes rs) = encode_runes ns \<and>
    code_points (encode_runes ns) = ns \<and> \<not> has_pair ns \<and>
    concat (map utf16_units ns) = concat (map utf16_units rs)"
  using combine_surrogate_pairs_encode [OF assms] utf16_units_merge [OF assms]
    merge_pairs_no_pair [of rs] code_points_encode [OF merge_pairs_valid [OF assms]] by blast

theorem combine_surrogate_pairs_utf16_witness:
  "\<exists>ns. combine_surrogate_pairs (encode_runes [0xd83d, 0xde00]) = encode_runes ns \<and>
    code_points (encode_runes ns) = ns \<and> \<not> has_pair ns \<and>
    concat (map utf16_units ns) = concat (map utf16_units [0xd83d, 0xde00])"
  by (rule combine_surrogate_pairs_utf16) (simp add: valid_rune_def)

end
