(* ===== verification/Line_Map.thy ===== *)
theory Line_Map
  imports Wtf8
begin

text \<open>
  \<open>crates/tsr_jsstring/src/line_map.rs\<close> and the line search of \<open>scanner_positions.rs\<close>: the byte
  offsets at which the lines of a text start, for ECMAScript (which also breaks lines at U+2028 and
  U+2029) and for the language server protocol (which does not), the search for the line of a
  position, and UTF-16 lengths. Positions are the source's \<open>i32\<close>, as integers with the
  wrap-around written out; \<^term>\<open>None\<close> is a panic (an index outside the text).
\<close>

section \<open>Classification of runes\<close>

definition is_ascii :: "byte \<Rightarrow> bool" where
  "is_ascii b \<longleftrightarrow> byte_val b < 0x80"

definition is_line_break :: "int \<Rightarrow> bool" where
  "is_line_break rune \<longleftrightarrow> rune = 0x0a \<or> rune = 0x0d \<or> rune = 0x2028 \<or> rune = 0x2029"

definition CR :: byte where "CR = char_of (13 :: nat)"
definition LF :: byte where "LF = char_of (10 :: nat)"

section \<open>ECMAScript line starts\<close>

text \<open>\<open>text[byte_offset as usize]\<close>\<close>

definition byte_at :: "bytes \<Rightarrow> int \<Rightarrow> byte panicking" where
  "byte_at text i = (if 0 \<le> i \<and> i < int (length text) then Some (text ! nat i) else None)"

text \<open>One round of the \<open>while\<close> loop: whether a line ended, and the offset after it.\<close>

definition ecma_step :: "bytes \<Rightarrow> int \<Rightarrow> int \<Rightarrow> (bool \<times> int) panicking" where
  "ecma_step text text_len byte_offset = do {
     b \<leftarrow> byte_at text byte_offset;
     if is_ascii b then do {
       let byte_offset = wrap32 (byte_offset + 1);
       if b = CR \<and> byte_offset < text_len
       then do {
         next \<leftarrow> byte_at text byte_offset;
         Some (True, if next = LF then wrap32 (byte_offset + 1) else byte_offset)
       }
       else Some (b = CR \<or> b = LF, byte_offset)
     }
     else let (rune, width) = decode_utf8 (drop (nat byte_offset) text) in
       Some (is_line_break rune, wrap32 (byte_offset + int width))
   }"

text \<open>
  The iterator of \<open>ecma_line_starts_with_source_length\<close>, collected. The narrowing of the source
  length to \<open>i32\<close> is part of it.
\<close>

lemma byte_at_Some: "byte_at text i = Some b \<longleftrightarrow> 0 \<le> i \<and> i < int (length text) \<and> b = text ! nat i"
  by (auto simp: byte_at_def)

lemma decode_utf8_at:
  assumes "0 \<le> i" "i < int (length text)" "decode_utf8 (drop (nat i) text) = (r, w)"
  shows "0 < w" "i + int w \<le> int (length text)" "w \<le> 4"
proof -
  have "0 < w \<and> w \<le> length text - nat i \<and> w \<le> 4"
    using decode_utf8_progress [OF assms(3)] assms(1,2) by (simp add: nat_less_iff not_le)
  then show "0 < w" "i + int w \<le> int (length text)" "w \<le> 4" using assms(1,2) by linarith+
qed

lemma wrap32_step:
  assumes "0 \<le> i" "i < 2 ^ 31" "0 < k" "k \<le> 4"
  shows "wrap32 (i + k) = i + k \<and> i + k < 2 ^ 31 \<or> wrap32 (i + k) < 0"
proof (cases "i + k < 2 ^ 31")
  case True
  then show ?thesis using assms by (auto intro: wrap32_id)
next
  case False
  have "(i + k + 2 ^ 31) mod 2 ^ 32 = (i + k + 2 ^ 31 - 2 ^ 32) mod 2 ^ 32"
    by (rule minus_mod_self2 [symmetric])
  also have "\<dots> = i + k + 2 ^ 31 - 2 ^ 32"
    using assms False by (intro mod_pos_pos_trivial) simp_all
  finally have "wrap32 (i + k) = i + k - 2 ^ 32" by (simp add: wrap32_def)
  then show ?thesis using assms by simp
qed

lemma ecma_step_forward:
  assumes "ecma_step text text_len i = Some (b, j)" "i < text_len" "text_len < 2 ^ 31"
  shows "0 \<le> i \<and> (j < 0 \<or> i < j \<and> j < 2 ^ 31)"
proof -
  from assms(1) obtain c where "byte_at text i = Some c"
    by (auto simp: ecma_step_def bind_eq_Some_conv)
  then have i: "0 \<le> i" "i < int (length text)" by (auto simp: byte_at_Some)
  have w1: "wrap32 (i + 1) = i + 1"
    using assms(2,3) i wrap32_id [of "i + 1"] by simp
  have w2: "i + 1 < text_len \<Longrightarrow> wrap32 (i + 1 + 1) = i + 2"
    using assms(2,3) i wrap32_id [of "i + 2"] by (simp add: add.assoc)
  obtain r w where rw: "decode_utf8 (drop (nat i) text) = (r, w)" by fastforce
  note w = decode_utf8_at [OF i rw]
  show ?thesis
    using assms i w1 w2 wrap32_step [of i "int w"] w(1,3) rw
    by (auto simp: ecma_step_def bind_eq_Some_conv Let_def split: if_splits)
qed

function ecma_line_starts_from :: "bytes \<Rightarrow> nat \<Rightarrow> int \<Rightarrow> int \<Rightarrow> int list panicking" where
  "ecma_line_starts_from text source_length byte_offset line_start =
     (if byte_offset < wrap32 (int source_length)
      then case ecma_step text (wrap32 (int source_length)) byte_offset of
             None \<Rightarrow> None
           | Some (line_break, next) \<Rightarrow>
               if line_break
               then map_option ((#) line_start) (ecma_line_starts_from text source_length next next)
               else ecma_line_starts_from text source_length next line_start
      else Some [line_start])"
  by pat_completeness auto
termination
proof (relation "measure (\<lambda>(_, _, i, _). if i < 0 then 0 else Suc (nat (2 ^ 31 - i)))", simp, goal_cases)
  case (1 t n i start a b j)
  then show ?case using ecma_step_forward [of t _ i b j] wrap32_range [of "int n"] by auto
next
  case (2 t n i start a b j)
  then show ?case using ecma_step_forward [of t _ i b j] wrap32_range [of "int n"] by auto
qed

declare ecma_line_starts_from.simps [simp del]

definition compute_ecma_line_starts :: "bytes \<Rightarrow> int list panicking" where
  "compute_ecma_line_starts text = ecma_line_starts_from text (length text) 0 0"

section \<open>Line starts of the language server protocol\<close>

record lsp_line_map =
  line_starts :: "int list"
  ascii_only :: bool

definition lsp_step :: "bytes \<Rightarrow> int \<Rightarrow> int \<Rightarrow> (bool \<times> int \<times> bool) panicking" where
  "lsp_step text text_len byte_offset = do {
     b \<leftarrow> byte_at text byte_offset;
     if is_ascii b then do {
       let byte_offset = wrap32 (byte_offset + 1);
       if b = CR then
         (if byte_offset < text_len
          then do {
            next \<leftarrow> byte_at text byte_offset;
            Some (True, if next = LF then wrap32 (byte_offset + 1) else byte_offset, True)
          }
          else Some (True, byte_offset, True))
       else Some (b = LF, byte_offset, True)
     }
     else Some (False, wrap32 (byte_offset + int (snd (decode_utf8 (drop (nat byte_offset) text)))), False)
   }"

text \<open>
  The two scans step alike: the ECMAScript one only adds the line breaks outside ASCII.
\<close>

lemma ecma_step_lsp:
  "ecma_step text text_len i = map_option (\<lambda>(b, j, ascii). (b \<or>
     \<not> ascii \<and> is_line_break (fst (decode_utf8 (drop (nat i) text))), j)) (lsp_step text text_len i)"
  by (cases "byte_at text i"; cases "byte_at text (wrap32 (i + 1))")
     (auto simp: ecma_step_def lsp_step_def Let_def bind_eq_Some_conv split: option.splits prod.splits)

lemma lsp_step_forward:
  assumes "lsp_step text text_len i = Some (b, j, ascii)" "i < text_len" "text_len < 2 ^ 31"
  shows "0 \<le> i \<and> (j < 0 \<or> i < j \<and> j < 2 ^ 31)"
  using ecma_step_forward [OF _ assms(2,3), of "text" _ j] assms(1) by (auto simp: ecma_step_lsp)

function lsp_line_starts_from :: "bytes \<Rightarrow> nat \<Rightarrow> int \<Rightarrow> int \<Rightarrow> (int list \<times> bool) panicking" where
  "lsp_line_starts_from text source_length byte_offset line_start =
     (if byte_offset < wrap32 (int source_length)
      then case lsp_step text (wrap32 (int source_length)) byte_offset of
             None \<Rightarrow> None
           | Some (line_break, next, ascii) \<Rightarrow>
               if line_break
               then map_option (\<lambda>(starts, a). (line_start # starts, a \<and> ascii))
                      (lsp_line_starts_from text source_length next next)
               else map_option (\<lambda>(starts, a). (starts, a \<and> ascii))
                      (lsp_line_starts_from text source_length next line_start)
      else Some ([line_start], True))"
  by pat_completeness auto
termination
proof (relation "measure (\<lambda>(_, _, i, _). if i < 0 then 0 else Suc (nat (2 ^ 31 - i)))", simp, goal_cases)
  case (1 t n i start a b x j ascii)
  then show ?case using lsp_step_forward [of t _ i b j ascii] wrap32_range [of "int n"] by auto
next
  case (2 t n i start a b x j ascii)
  then show ?case using lsp_step_forward [of t _ i b j ascii] wrap32_range [of "int n"] by auto
qed

declare lsp_line_starts_from.simps [simp del]

definition lsp_line_map_new :: "bytes \<Rightarrow> lsp_line_map panicking" where
  "lsp_line_map_new text = map_option (\<lambda>(starts, ascii). \<lparr>line_starts = starts, ascii_only = ascii\<rparr>)
     (lsp_line_starts_from text (length text) 0 0)"

section \<open>The line of a position\<close>

text \<open>\<open>slice::partition_point\<close> on a slice that is partitioned by the predicate.\<close>

definition partition_point :: "('a \<Rightarrow> bool) \<Rightarrow> 'a list \<Rightarrow> nat" where
  "partition_point p xs = length (takeWhile p xs)"

definition compute_index_of_line_start :: "lsp_line_map \<Rightarrow> int \<Rightarrow> nat" where
  "compute_index_of_line_start m target =
     (let index = partition_point (\<lambda>start. start < target) (line_starts m) in
      if \<not> (index < length (line_starts m) \<and> line_starts m ! index = target) \<and> 0 < index
      then index - 1 else index)"

function line_search :: "int list \<Rightarrow> int \<Rightarrow> int \<Rightarrow> int \<Rightarrow> int panicking" where
  "line_search starts pos low high =
     (if low \<le> high
      then let middle = low + drop_bit 1 (high - low) in
        if middle < 0 \<or> int (length starts) \<le> middle then None
        else let value = starts ! nat middle in
          if value < pos then line_search starts pos (middle + 1) high
          else if pos < value then line_search starts pos low (middle - 1)
          else Some middle
      else Some (low - 1))"
  by pat_completeness auto
termination
  by (relation "measure (\<lambda>(_, _, low, high). nat (high - low + 1))") (auto simp: drop_bit_eq_div)

declare line_search.simps [simp del]

definition compute_line_of_position :: "int list \<Rightarrow> int \<Rightarrow> int panicking" where
  "compute_line_of_position starts pos =
     line_search starts pos 0 (int (length starts) - 1)"

definition position_to_line_and_byte_offset :: "int \<Rightarrow> int list \<Rightarrow> (int \<times> int) panicking" where
  "position_to_line_and_byte_offset pos starts =
     (let line = partition_point (\<lambda>start. start \<le> pos) starts - 1 in
      if line < length starts then Some (int line, wrap64 (pos - starts ! line)) else None)"

section \<open>UTF-16 lengths\<close>

definition utf16_rune_len :: "int \<Rightarrow> int" where
  "utf16_rune_len rune = (if 0x10000 \<le> rune then 2 else 1)"

text \<open>The loop of \<open>utf16_len\<close>, on the bytes from the offset on.\<close>

function utf16_count :: "bytes \<Rightarrow> int" where
  "utf16_count bs =
     (if bs = [] then 0
      else let (rune, width) = decode_utf8 bs in utf16_rune_len rune + utf16_count (drop width bs))"
  by pat_completeness auto
termination
proof (relation "measure length", simp, goal_cases)
  case (1 bs x rune width)
  then show ?case using decode_utf8_progress [of bs rune width] by simp
qed

declare utf16_count.simps [simp del]

definition utf16_len :: "bytes \<Rightarrow> int" where
  "utf16_len text =
     (case position (\<lambda>b. \<not> is_ascii b) text of
        None \<Rightarrow> int (length text)
      | Some byte_offset \<Rightarrow> int byte_offset + utf16_count (drop byte_offset text))"

lemma utf16_count_Nil [simp]: "utf16_count [] = 0"
  by (simp add: utf16_count.simps)

lemma decode_utf8_ascii: "is_ascii b \<Longrightarrow> decode_utf8 (b # bs) = (of_char b, 1)"
  by (simp add: decode_utf8_def is_ascii_def)

lemma int_of_char: "(of_char c :: int) = int (of_char c)"
  by (simp add: of_nat_of_char)

lemma utf16_count_ascii: "is_ascii b \<Longrightarrow> utf16_count (b # bs) = 1 + utf16_count bs"
  by (subst utf16_count.simps) (simp add: decode_utf8_ascii utf16_rune_len_def int_of_char is_ascii_def
      del: of_nat_of_char)

text \<open>The fast path over the leading ASCII bytes does not change the count.\<close>

lemma utf16_len_count: "utf16_len t = utf16_count t"
proof (induction t)
  case (Cons b bs)
  show ?case
  proof (cases "is_ascii b")
    case True
    then show ?thesis
      using Cons by (auto simp: utf16_len_def utf16_count_ascii split: option.splits)
  qed (simp add: utf16_len_def)
qed (simp add: utf16_len_def)

section \<open>The starts are increasing positions of the text\<close>

text \<open>A text whose length fits an \<open>i32\<close>.\<close>

definition fits_i32 :: "bytes \<Rightarrow> bool" where
  "fits_i32 t \<longleftrightarrow> int (length t) < 2 ^ 31"

lemma fits_wrap: "fits_i32 t \<Longrightarrow> wrap32 (int (length t)) = int (length t)"
  by (rule wrap32_id) (simp_all add: fits_i32_def)

lemma ecma_step_Some:
  assumes "fits_i32 t" "0 \<le> i" "i < int (length t)"
  shows "\<exists>b j. ecma_step t (int (length t)) i = Some (b, j) \<and> i < j \<and> j \<le> int (length t)"
proof -
  let ?n = "int (length t)"
  have w: "0 \<le> k \<Longrightarrow> k \<le> ?n \<Longrightarrow> wrap32 k = k" for k
    using assms(1) by (intro wrap32_id) (auto simp: fits_i32_def)
  have b: "byte_at t k = Some (t ! nat k)" if "0 \<le> k" "k < ?n" for k
    using that by (simp add: byte_at_def)
  obtain r v where rv: "decode_utf8 (drop (nat i) t) = (r, v)" by fastforce
  note v = decode_utf8_at [OF assms(2,3) rv]
  show ?thesis
  proof (cases "is_ascii (t ! nat i)")
    case True
    then show ?thesis
      using assms(2,3) b [of i] b [of "i + 1"] w [of "i + 1"] w [of "i + 1 + 1"]
      by (auto simp: ecma_step_def Let_def)
  next
    case False
    then show ?thesis
      using assms(2,3) b [of i] w [of "i + int v"] v rv by (auto simp: ecma_step_def Let_def)
  qed
qed

definition starts_ok :: "bytes \<Rightarrow> int \<Rightarrow> int list \<Rightarrow> bool" where
  "starts_ok t start ss \<longleftrightarrow>
     ss \<noteq> [] \<and> hd ss = start \<and> sorted_wrt (<) ss \<and> (\<forall>s\<in>set ss. 0 \<le> s \<and> s \<le> int (length t))"

lemma starts_ok_Cons:
  assumes "starts_ok t j ss" "start < j" "0 \<le> start"
  shows "starts_ok t start (start # ss)"
proof -
  obtain rs where ss: "ss = j # rs" using assms(1) by (cases ss) (auto simp: starts_ok_def)
  then have "j \<le> int (length t)" "\<forall>s\<in>set ss. start < s" using assms by (auto simp: starts_ok_def)
  then show ?thesis using assms by (auto simp: starts_ok_def)
qed

lemma ecma_line_starts_ok:
  assumes "fits_i32 t"
  shows "0 \<le> start \<Longrightarrow> start \<le> i \<Longrightarrow> i \<le> int (length t) \<Longrightarrow>
    \<exists>ss. ecma_line_starts_from t (length t) i start = Some ss \<and> starts_ok t start ss"
proof (induction "nat (int (length t) - i)" arbitrary: i start rule: less_induct)
  case less
  let ?n = "int (length t)"
  show ?case
  proof (cases "i < ?n")
    case True
    obtain b j where j: "ecma_step t ?n i = Some (b, j)" "i < j" "j \<le> ?n"
      using ecma_step_Some [OF assms _ True] less.prems by auto
    have IH: "\<exists>ss. ecma_line_starts_from t (length t) j s = Some ss \<and> starts_ok t s ss"
      if "0 \<le> s" "s \<le> j" for s
      using less.hyps [of j s] j True that by simp
    have "\<exists>ss. ecma_line_starts_from t (length t) j j = Some ss \<and> starts_ok t j ss"
      "\<exists>ss. ecma_line_starts_from t (length t) j start = Some ss \<and> starts_ok t start ss"
      using IH [of j] IH [of start] less.prems j by auto
    moreover have "start < j" using less.prems j by linarith
    ultimately show ?thesis
      using True j less.prems starts_ok_Cons [of t j _ start]
      by (subst (1) ecma_line_starts_from.simps) (auto simp: fits_wrap [OF assms])
  next
    case False
    then show ?thesis
      using less.prems by (subst ecma_line_starts_from.simps) (simp add: fits_wrap [OF assms] starts_ok_def)
  qed
qed

section \<open>The search\<close>

lemma line_search_correct:
  "sorted_wrt (<) starts \<Longrightarrow> 0 \<le> low \<Longrightarrow> high < int (length starts) \<Longrightarrow> low \<le> high + 1 \<Longrightarrow>
    (\<forall>k<length starts. int k < low \<longrightarrow> starts ! k < pos) \<Longrightarrow>
    (\<forall>k<length starts. high < int k \<longrightarrow> pos < starts ! k) \<Longrightarrow>
    \<exists>r. line_search starts pos low high = Some r \<and> - 1 \<le> r \<and> r < int (length starts) \<and>
      (\<forall>k<length starts. starts ! k \<le> pos \<longleftrightarrow> int k \<le> r)"
proof (induction starts pos low high rule: line_search.induct)
  case (1 starts pos low high)
  let ?m = "low + drop_bit 1 (high - low)" and ?n = "length starts"
  note sorted = "1.prems"(1)
  show ?case
  proof (cases "low \<le> high")
    case False
    then have "high = low - 1" using "1.prems"(4) by simp
    then have "starts ! k \<le> pos \<longleftrightarrow> int k \<le> low - 1" if "k < ?n" for k
      using "1.prems"(5,6) that by (cases "int k < low") (force, force)
    then show ?thesis
      using False "1.prems"(2,3,4) by (subst line_search.simps) simp
  next
    case True
    then have m: "low \<le> ?m" "?m \<le> high" by (auto simp: drop_bit_eq_div)
    then have idx: "\<not> (?m < 0 \<or> int ?n \<le> ?m)" "nat ?m < ?n" using "1.prems"(2,3) by linarith+
    have lt: "starts ! k < starts ! nat ?m" if "int k < ?m" for k
      using sorted_wrt_nth_less [OF sorted, of k "nat ?m"] that idx by simp
    have gt: "starts ! nat ?m < starts ! k" if "?m < int k" "k < ?n" for k
    proof -
      have "nat ?m < k" using that(1) m(1) "1.prems"(2) by linarith
      then show ?thesis using sorted_wrt_nth_less [OF sorted _ that(2)] by blast
    qed
    have eq: "int k = ?m \<Longrightarrow> starts ! k = starts ! nat ?m" for k by (metis nat_int)
    consider "starts ! nat ?m < pos" | "pos < starts ! nat ?m" | "starts ! nat ?m = pos" by linarith
    then show ?thesis
    proof cases
      case 1
      have "starts ! k < pos" if "int k < ?m + 1" for k
        using lt [of k] eq [of k] 1 that by (cases "int k = ?m") auto
      then show ?thesis
        using "1.IH"(1) [OF True refl idx(1) refl 1 sorted] "1.prems" m True idx(1) 1
        by (subst line_search.simps) (simp add: Let_def)
    next
      case 2
      have "pos < starts ! k" if "?m - 1 < int k" "k < ?n" for k
        using gt [of k] eq [of k] 2 that by (cases "int k = ?m") auto
      moreover have n: "\<not> starts ! nat ?m < pos" using 2 by simp
      ultimately show ?thesis
        using "1.IH"(2) [OF True refl idx(1) refl n 2 sorted] "1.prems" m True idx(1) 2 n
        by (subst line_search.simps) (simp add: Let_def)
    next
      case 3
      have "starts ! k \<le> pos \<longleftrightarrow> int k \<le> ?m" if "k < ?n" for k
        using lt [of k] gt [of k] eq [of k] 3 that by (cases "int k" ?m rule: linorder_cases) auto
      then show ?thesis
        using 3 True idx m "1.prems"(2,3) by (subst line_search.simps) (simp add: Let_def)
    qed
  qed
qed

lemma compute_line_of_position_correct:
  assumes "sorted_wrt (<) starts"
  shows "\<exists>r. compute_line_of_position starts pos = Some r \<and> - 1 \<le> r \<and> r < int (length starts) \<and>
    (\<forall>k<length starts. starts ! k \<le> pos \<longleftrightarrow> int k \<le> r)"
  unfolding compute_line_of_position_def
  by (rule line_search_correct [OF assms]) auto

lemma partition_point_sorted:
  assumes "sorted_wrt (<) (starts :: int list)" "k < length starts"
  shows "starts ! k \<le> pos \<longleftrightarrow> k < partition_point (\<lambda>s. s \<le> pos) starts"
  using assms
proof (induction starts arbitrary: k)
  case (Cons s starts)
  then show ?case
  proof (cases k)
    case (Suc l)
    then have "s < starts ! l" "l < length starts" using Cons.prems by auto
    then have "starts ! l \<le> pos \<Longrightarrow> s \<le> pos" by linarith
    then show ?thesis
      using Cons.IH [of l] Cons.prems Suc by (cases "s \<le> pos") (auto simp: partition_point_def)
  qed (auto simp: partition_point_def)
qed simp

text \<open>The scanner's search and the core helper agree from the first line start on.\<close>

lemma line_helpers_agree:
  assumes "sorted_wrt (<) starts" "starts \<noteq> []" "hd starts \<le> pos"
  shows "position_to_line_and_byte_offset pos starts =
    map_option (\<lambda>line. (line, wrap64 (pos - starts ! nat line))) (compute_line_of_position starts pos)"
proof -
  let ?p = "partition_point (\<lambda>s. s \<le> pos) starts"
  obtain r where r: "compute_line_of_position starts pos = Some r" "- 1 \<le> r" "r < int (length starts)"
    "\<And>k. k < length starts \<Longrightarrow> starts ! k \<le> pos \<longleftrightarrow> int k \<le> r"
    using compute_line_of_position_correct [OF assms(1)] by blast
  have le: "?p \<le> length starts" by (simp add: partition_point_def length_takeWhile_le)
  have iff: "k < ?p \<longleftrightarrow> int k \<le> r" if "k < length starts" for k
    using partition_point_sorted [OF assms(1) that] r(4) [OF that] by simp
  have 0: "0 < ?p" using assms(2,3) partition_point_sorted [OF assms(1), of 0] by (simp add: hd_conv_nth)
  then have "0 \<le> r" using iff [of 0] assms(2) by simp
  have "?p - 1 < length starts" "?p - 1 < ?p" "nat r < length starts"
    using le 0 r(3) \<open>0 \<le> r\<close> by linarith+
  then have "int (?p - 1) \<le> r" "nat r < ?p" using iff [of "?p - 1"] iff [of "nat r"] \<open>0 \<le> r\<close> by simp_all
  then have "r = int (?p - 1)" using \<open>0 \<le> r\<close> by linarith
  then show ?thesis
    using r(1,3) by (simp add: position_to_line_and_byte_offset_def Let_def)
qed

section \<open>Both scans\<close>

lemma lsp_starts_subseq:
  "lsp_line_starts_from t n i s' = Some (ss', a) \<Longrightarrow>
   \<exists>ss rest. ecma_line_starts_from t n i s = Some (s # ss) \<and> ss' = s' # rest \<and> subseq rest ss"
proof (induction t n i s' arbitrary: s ss' a rule: lsp_line_starts_from.induct)
  case (1 t n i s')
  let ?n = "wrap32 (int n)"
  show ?case
  proof (cases "i < ?n")
    case True
    obtain b j c where step: "lsp_step t ?n i = Some (b, j, c)"
      using "1.prems" True by (auto simp: lsp_line_starts_from.simps [of t n i] split: option.splits)
    then obtain b' where step': "ecma_step t ?n i = Some (b', j)" "b \<Longrightarrow> b'"
      by (auto simp: ecma_step_lsp)
    show ?thesis
    proof (cases b)
      case True
      then obtain ts a' where ts: "lsp_line_starts_from t n j j = Some (ts, a')" "ss' = s' # ts"
        using "1.prems" \<open>i < ?n\<close> step by (auto simp: lsp_line_starts_from.simps [of t n i])
      from "1.IH"(1) [OF \<open>i < ?n\<close> step refl refl True ts(1), of j] ts(2) \<open>i < ?n\<close> step' True
      show ?thesis by (auto simp: ecma_line_starts_from.simps [of t n i])
    next
      case False
      then obtain a' where ts: "lsp_line_starts_from t n j s' = Some (ss', a')"
        using "1.prems" \<open>i < ?n\<close> step by (auto simp: lsp_line_starts_from.simps [of t n i])
      note IH = "1.IH"(2) [OF \<open>i < ?n\<close> step refl refl False ts]
      show ?thesis
        using IH [of s] IH [of j] \<open>i < ?n\<close> step'
        by (cases b') (auto simp: ecma_line_starts_from.simps [of t n i])
    qed
  next
    case False
    then show ?thesis
      using "1.prems" by (auto simp: lsp_line_starts_from.simps [of t n i] ecma_line_starts_from.simps [of t n i])
  qed
qed

lemma lsp_line_starts_Some:
  "ecma_line_starts_from t n i s = Some ss \<Longrightarrow> \<exists>ss' a. lsp_line_starts_from t n i s' = Some (ss', a)"
proof (induction t n i s arbitrary: s' ss rule: ecma_line_starts_from.induct)
  case (1 t n i s)
  let ?n = "wrap32 (int n)"
  show ?case
  proof (cases "i < ?n")
    case True
    obtain b' j where step': "ecma_step t ?n i = Some (b', j)"
      using "1.prems" True by (auto simp: ecma_line_starts_from.simps [of t n i] split: option.splits)
    then obtain b c where step: "lsp_step t ?n i = Some (b, j, c)" by (auto simp: ecma_step_lsp)
    have "\<exists>ss' a. lsp_line_starts_from t n j s'' = Some (ss', a)" for s''
      using "1.IH" [OF True step' refl] "1.prems" True step'
      by (cases b') (auto simp: ecma_line_starts_from.simps [of t n i])
    from this [of j] this [of s'] show ?thesis
      using True step by (cases b) (auto simp: lsp_line_starts_from.simps [of t n i])
  qed (auto simp: lsp_line_starts_from.simps [of t n i])
qed

lemma sorted_wrt_subseq:
  "subseq xs ys \<Longrightarrow> sorted_wrt P ys \<Longrightarrow> sorted_wrt P xs \<and> set xs \<subseteq> set ys"
  by (induction rule: list_emb.induct) auto

lemma starts_ok_subseq: "starts_ok t s (s # ss) \<Longrightarrow> subseq rest ss \<Longrightarrow> starts_ok t s (s # rest)"
  using sorted_wrt_subseq [of rest ss "(<)"] by (auto simp: starts_ok_def)

lemma line_maps:
  assumes "fits_i32 t"
  obtains ss rest a where "compute_ecma_line_starts t = Some (0 # ss)" "starts_ok t 0 (0 # ss)"
    "lsp_line_starts_from t (length t) 0 0 = Some (0 # rest, a)" "starts_ok t 0 (0 # rest)"
    "subseq rest ss"
proof -
  obtain xs where xs: "ecma_line_starts_from t (length t) 0 0 = Some xs" "starts_ok t 0 xs"
    using ecma_line_starts_ok [OF assms, of 0 0] by auto
  obtain ys a where ys: "lsp_line_starts_from t (length t) 0 0 = Some (ys, a)"
    using lsp_line_starts_Some [OF xs(1)] by blast
  obtain ss rest where sr: "xs = 0 # ss" "ys = 0 # rest" "subseq rest ss"
    using lsp_starts_subseq [OF ys, of 0] xs(1) by auto
  show thesis
  proof (rule that)
    show "compute_ecma_line_starts t = Some (0 # ss)" "starts_ok t 0 (0 # ss)"
      using xs sr(1) by (simp_all add: compute_ecma_line_starts_def)
    then show "starts_ok t 0 (0 # rest)" using starts_ok_subseq sr(3) by blast
  qed (use ys sr in auto)
qed

section \<open>Properties\<close>

text \<open>
  Line starts. For every text whose length fits an \<open>i32\<close> both line maps are computed without
  a panic; the ECMAScript starts begin with 0, increase strictly and stay inside the text; and the
  starts of the language server protocol are some of them, again beginning with 0.
\<close>

theorem line_starts_increasing:
  assumes "fits_i32 t"
  shows "\<exists>ss m. compute_ecma_line_starts t = Some (0 # ss) \<and> sorted_wrt (<) (0 # ss) \<and>
    last (0 # ss) \<le> int (length t) \<and>
    lsp_line_map_new t = Some m \<and> hd (line_starts m) = 0 \<and> subseq (line_starts m) (0 # ss)"
proof -
  obtain ss rest a where *: "compute_ecma_line_starts t = Some (0 # ss)" "starts_ok t 0 (0 # ss)"
    "lsp_line_starts_from t (length t) 0 0 = Some (0 # rest, a)" "subseq rest ss"
    using line_maps [OF assms] by metis
  moreover have "last (0 # ss) \<le> int (length t)"
    using *(2) last_in_set [of "0 # ss"] unfolding starts_ok_def by blast
  ultimately show ?thesis by (auto simp: lsp_line_map_new_def starts_ok_def)
qed

theorem line_starts_increasing_witness:
  "\<exists>ss m. compute_ecma_line_starts (''ab'' @ [LF] @ ''c'') = Some (0 # ss) \<and> sorted_wrt (<) (0 # ss) \<and>
    last (0 # ss) \<le> int (length (''ab'' @ [LF] @ ''c'')) \<and>
    lsp_line_map_new (''ab'' @ [LF] @ ''c'') = Some m \<and> hd (line_starts m) = 0 \<and>
    subseq (line_starts m) (0 # ss)"
  by (rule line_starts_increasing) (simp add: fits_i32_def)

text \<open>
  The line of a position. On increasing line starts the scanner's binary search gives the last
  line that starts at or before the position (\<open>-1\<close> when there is none), and from the first start on
  the core helper \<open>position_to_line_and_byte_offset\<close> gives the same line.
\<close>

theorem line_of_position:
  assumes "sorted_wrt (<) starts" "starts \<noteq> []"
  shows "\<exists>r. compute_line_of_position starts pos = Some r \<and> - 1 \<le> r \<and> r < int (length starts) \<and>
    (\<forall>k<length starts. starts ! k \<le> pos \<longleftrightarrow> int k \<le> r) \<and>
    (hd starts \<le> pos \<longrightarrow> position_to_line_and_byte_offset pos starts =
       Some (r, wrap64 (pos - starts ! nat r)))"
  using compute_line_of_position_correct [OF assms(1), of pos] line_helpers_agree [OF assms, of pos]
  by auto

theorem line_of_position_witness:
  "compute_line_of_position [0, 4, 9] 5 = Some 1 \<and>
   position_to_line_and_byte_offset 5 [0, 4, 9] = Some (1, wrap64 (5 - 4))"
proof -
  let ?s = "[0, 4, 9] :: int list"
  obtain r where r: "compute_line_of_position ?s 5 = Some r"
    "\<forall>k<length ?s. ?s ! k \<le> 5 \<longleftrightarrow> int k \<le> r"
    "position_to_line_and_byte_offset 5 ?s = Some (r, wrap64 (5 - ?s ! nat r))"
    using line_of_position [of ?s 5] by auto
  have "?s ! 1 \<le> 5 \<longleftrightarrow> int 1 \<le> r" "?s ! 2 \<le> 5 \<longleftrightarrow> int 2 \<le> r" using r(2) by auto
  then have "r = 1" by simp
  with r show ?thesis by simp
qed

end
