(* ===== verification/Paths.thy ===== *)
theory Paths
  imports Wtf8 Line_Map
begin

text \<open>
  Byte-preserving compiler paths: \<open>crates/tsr_core/src/path.rs\<close> (roots, normalisation), and
  \<open>crates/tsr_tspath/src/lib.rs\<close>, \<open>roots.rs\<close> and \<open>typed.rs\<close> (combination, parents, separators).
  A path is a byte list; \<open>Cow\<close> is the value it holds. Case conversion uses the generated Unicode
  tables of \<open>tsr_jsstring\<close>, so the operations that fold case take the rune mapping \<open>lower\<close> as an
  argument.
\<close>

section \<open>Roots\<close>

abbreviation SLASH :: byte where "SLASH \<equiv> CHR ''/''"
definition BACKSLASH :: byte where "BACKSLASH = CHR 0x5C"

definition is_any_directory_separator :: "byte \<Rightarrow> bool" where
  "is_any_directory_separator b \<longleftrightarrow> b = SLASH \<or> b = BACKSLASH"

definition is_volume_character :: "byte \<Rightarrow> bool" where
  "is_volume_character b \<longleftrightarrow>
     65 \<le> byte_val b \<and> byte_val b \<le> 90 \<or> 97 \<le> byte_val b \<and> byte_val b \<le> 122"

text \<open>The end of the volume of a file URL, where \<open>c:\<close> may be spelt \<open>c%3a\<close>.\<close>

definition url_volume_end :: "bytes \<Rightarrow> nat \<Rightarrow> nat option" where
  "url_volume_end path start =
     (if path ! start = CHR '':'' then Some (start + 1)
      else if start + 3 \<le> length path \<and> take 3 (drop start path) \<in> {''%3a'', ''%3A''}
      then Some (start + 3) else None)"

text \<open>The length of a URL root, before it is complemented.\<close>

definition url_root_length :: "bytes \<Rightarrow> nat option" where
  "url_root_length path =
     (case window_position path ''://'' of
        None \<Rightarrow> None
      | Some scheme_end \<Rightarrow>
          let authority_start = scheme_end + 3 in
          case position (\<lambda>b. b = SLASH) (drop authority_start path) of
            None \<Rightarrow> Some (length path)
          | Some n \<Rightarrow>
              let authority_end = authority_start + n;
                  authority = take n (drop authority_start path)
              in if take scheme_end path = ''file'' \<and> (authority = [] \<or> authority = ''localhost'') \<and>
                    authority_end + 2 < length path \<and> is_volume_character (path ! (authority_end + 1))
                 then case url_volume_end path (authority_end + 2) of
                        None \<Rightarrow> Some (authority_end + 1)
                      | Some e \<Rightarrow>
                          if e = length path then Some e
                          else if path ! e = SLASH then Some (e + 1)
                          else Some (authority_end + 1)
                 else Some (authority_end + 1))"

definition encoded_root_length :: "bytes \<Rightarrow> int" where
  "encoded_root_length path =
     (case path of
        [] \<Rightarrow> 0
      | first # rest \<Rightarrow>
          if is_any_directory_separator first
          then if length path = 1 \<or> path ! 1 \<noteq> first then 1
               else case position (\<lambda>c. c = first) (drop 2 path) of
                      None \<Rightarrow> int (length path)
                    | Some n \<Rightarrow> int (n + 3)
          else if is_volume_character first \<and> 1 < length path \<and> path ! 1 = CHR '':'' \<and>
                  (length path = 2 \<or> is_any_directory_separator (path ! 2))
          then if length path = 2 then 2 else 3
          else if first = CHR ''^'' \<and> 1 < length path \<and> path ! 1 = SLASH then 2
          else case url_root_length path of
                 None \<Rightarrow> 0
               | Some n \<Rightarrow> NOT (int n))"

definition root_length :: "bytes \<Rightarrow> nat" where
  "root_length path =
     (let encoded = encoded_root_length path in
      if encoded < 0 then nat (NOT encoded) else nat encoded)"

definition is_url :: "bytes \<Rightarrow> bool" where
  "is_url path \<longleftrightarrow> encoded_root_length path < 0"

definition is_rooted_disk_path :: "bytes \<Rightarrow> bool" where
  "is_rooted_disk_path path \<longleftrightarrow> 0 < encoded_root_length path"

definition is_disk_path_root :: "bytes \<Rightarrow> bool" where
  "is_disk_path_root path \<longleftrightarrow>
     0 < encoded_root_length path \<and> nat \<bar>encoded_root_length path\<bar> = length path"

definition is_dynamic_file_name :: "bytes \<Rightarrow> bool" where
  "is_dynamic_file_name path \<longleftrightarrow> starts_with path ''^/''"

definition path_is_absolute :: "bytes \<Rightarrow> bool" where
  "path_is_absolute path \<longleftrightarrow> encoded_root_length path \<noteq> 0"

definition file_url_volume_separator_end :: "bytes \<Rightarrow> nat \<Rightarrow> nat option" where
  "file_url_volume_separator_end url start =
     (if length url \<le> start then None
      else if url ! start = CHR '':'' then Some (start + 1)
      else if url ! start = CHR ''%'' \<and> start + 2 < length url \<and> url ! (start + 1) = CHR ''3'' \<and>
              url ! (start + 2) \<in> {CHR ''a'', CHR ''A''}
      then Some (start + 3) else None)"

definition to_ascii_lowercase :: "byte \<Rightarrow> byte" where
  "to_ascii_lowercase b =
     (if 65 \<le> byte_val b \<and> byte_val b \<le> 90 then char_of (byte_val b + 32) else b)"

definition split_volume_path :: "bytes \<Rightarrow> bytes \<times> bytes \<times> bool" where
  "split_volume_path path =
     (if 2 \<le> length path \<and> is_volume_character (path ! 0) \<and> path ! 1 = CHR '':''
      then (map to_ascii_lowercase (take 2 path), drop 2 path, True)
      else ([], path, False))"

lemma window_position_Some:
  "window_position xs w = Some i \<Longrightarrow> starts_with (drop i xs) w \<and> i + length w \<le> length xs"
proof (induction xs arbitrary: i)
  case (Cons x xs)
  then show ?case
    by (auto simp: starts_with_prefix split: if_splits dest: prefix_length_le)
qed (auto split: if_splits)

lemma url_root_length_le: "url_root_length path = Some n \<Longrightarrow> n \<le> length path"
proof -
  assume a: "url_root_length path = Some n"
  then obtain i where i: "window_position path ''://'' = Some i"
    by (auto simp: url_root_length_def split: option.splits)
  then have "i + 3 \<le> length path" using window_position_Some by fastforce
  moreover have "position (\<lambda>b. b = SLASH) (drop (i + 3) path) = Some k \<Longrightarrow> i + 3 + k + 1 \<le> length path" for k
    using position_Some [of "\<lambda>b. b = SLASH" "drop (i + 3) path" k] by auto
  moreover have "url_volume_end path s = Some e \<Longrightarrow> s < length path \<Longrightarrow> e \<le> length path" for s e
    by (auto simp: url_volume_end_def split: if_splits)
  ultimately show ?thesis
    using a i by (auto simp: url_root_length_def Let_def split: option.splits if_splits) fastforce+
qed

lemma root_length_cases:
  assumes "path = first # rest"
  shows "is_any_directory_separator first \<Longrightarrow> root_length path =
      (if length path = 1 \<or> path ! 1 \<noteq> first then 1
       else case position (\<lambda>c. c = first) (drop 2 path) of None \<Rightarrow> length path | Some n \<Rightarrow> n + 3)"
    "\<not> is_any_directory_separator first \<Longrightarrow> root_length path =
      (if is_volume_character first \<and> 1 < length path \<and> path ! 1 = CHR '':'' \<and>
          (length path = 2 \<or> is_any_directory_separator (path ! 2))
       then if length path = 2 then 2 else 3
       else if first = CHR ''^'' \<and> 1 < length path \<and> path ! 1 = SLASH then 2
       else case url_root_length path of None \<Rightarrow> 0 | Some n \<Rightarrow> n)"
  unfolding root_length_def encoded_root_length_def assms list.case
  by (simp_all split: option.split add: nat_add_distrib)

lemma root_length_le: "root_length path \<le> length path"
proof (cases path)
  case (Cons first rest)
  show ?thesis
  proof (cases "is_any_directory_separator first")
    case True
    have "n + 3 \<le> length path" if "position (\<lambda>c. c = first) (drop 2 path) = Some n" for n
      using that position_Some [of "\<lambda>c. c = first" "drop 2 path" n] by auto
    then show ?thesis
      unfolding root_length_cases(1) [OF Cons True] by (auto simp: Cons split: option.split)
  next
    case False
    show ?thesis
      unfolding root_length_cases(2) [OF Cons False]
      using url_root_length_le [of path] by (auto split: option.split)
  qed
qed (simp add: root_length_def encoded_root_length_def)

section \<open>Normalisation\<close>

definition slash_of :: "byte \<Rightarrow> byte" where
  "slash_of b = (if b = BACKSLASH then SLASH else b)"

definition normalize_slashes :: "bytes \<Rightarrow> bytes" where
  "normalize_slashes path = (if BACKSLASH \<in> set path then map slash_of path else path)"

definition has_relative_segment :: "bytes \<Rightarrow> bool" where
  "has_relative_segment path \<longleftrightarrow>
     has_window path ''//'' \<or> list_ex (\<lambda>s. s = ''.'' \<or> s = ''..'') (split_by (\<lambda>b. b = SLASH) path)"

text \<open>The loop that writes every \<open>/./\<close> it meets as \<open>/\<close>.\<close>

fun simplify_dots :: "bytes \<Rightarrow> bytes" where
  "simplify_dots (a # b # c # rest) =
     (if a = SLASH \<and> b = CHR ''.'' \<and> c = SLASH then SLASH # simplify_dots rest
      else a # simplify_dots (b # c # rest))"
| "simplify_dots rest = rest"

text \<open>One round of the loop over the components, on the stack of components kept so far.\<close>

definition normalize_step :: "bytes \<Rightarrow> bytes list \<Rightarrow> bytes \<Rightarrow> bytes list" where
  "normalize_step root components component =
     (if component = [] \<or> component = ''.'' then components
      else if component = ''..'' \<and> components \<noteq> [] \<and> last components \<noteq> ''..'' then butlast components
      else if component = ''..'' \<and> components = [] \<and> root \<noteq> [] then components
      else components @ [component])"

definition trim_dot_slash :: "bytes \<Rightarrow> bytes" where
  "trim_dot_slash simplified =
     (case strip_prefix simplified ''./'' of Some t \<Rightarrow> t | None \<Rightarrow> simplified)"

definition normalize_full :: "bytes \<Rightarrow> bytes" where
  "normalize_full slashes =
     (let root_end = root_length slashes;
          root = take root_end slashes;
          components = foldl (normalize_step root) [] (split_by (\<lambda>b. b = SLASH) (drop root_end slashes));
          result = (if root \<noteq> [] \<and> \<not> ends_with root ''/'' then root @ ''/'' else root);
          result = result @ join_with SLASH components
      in if result \<noteq> [] \<and> ends_with slashes ''/'' \<and> \<not> ends_with result ''/''
         then result @ ''/'' else result)"

definition normalize :: "bytes \<Rightarrow> bytes" where
  "normalize path =
     (let slashes = normalize_slashes path in
      if \<not> has_relative_segment slashes then slashes
      else let simplified = simplify_dots slashes;
               trimmed = trim_dot_slash simplified
           in if trimmed \<noteq> slashes \<and> \<not> has_relative_segment trimmed \<and>
                 \<not> (length trimmed \<noteq> length simplified \<and> starts_with trimmed ''/'')
              then trimmed else normalize_full slashes)"

section \<open>Combination and parents\<close>

definition combine_step :: "bytes \<Rightarrow> bytes \<Rightarrow> bytes" where
  "combine_step result path =
     (if path = [] then result
      else let path = normalize_slashes path in
        if result = [] \<or> root_length path \<noteq> 0 then path
        else (if ends_with result ''/'' then result else result @ ''/'') @ path)"

definition combine :: "bytes \<Rightarrow> bytes list \<Rightarrow> bytes" where
  "combine first paths = foldl combine_step (normalize_slashes first) paths"

definition directory :: "bytes \<Rightarrow> bytes" where
  "directory path =
     (let path = normalize_slashes path; root = root_length path in
      if root = length path then path
      else let path = (if ends_with path ''/'' then butlast path else path) in
        take (max root (case rposition (\<lambda>b. b = SLASH) path of Some i \<Rightarrow> i | None \<Rightarrow> 0)) path)"

definition resolve :: "bytes \<Rightarrow> bytes list \<Rightarrow> bytes" where
  "resolve path paths = normalize (combine path paths)"

definition absolute :: "bytes \<Rightarrow> bytes \<Rightarrow> bytes" where
  "absolute file_name cwd =
     (let path = (if root_length file_name = 0 \<and> cwd \<noteq> [] then normalize (combine cwd [file_name])
                  else normalize file_name);
          root = root_length path
      in if root < length path \<and> ends_with path ''/'' then butlast path
         else if length path = root \<and> root \<noteq> 0 \<and> \<not> ends_with path ''/'' then path @ ''/''
         else path)"

lemma normalize_slashes_map: "normalize_slashes path = map slash_of path"
  by (auto simp: normalize_slashes_def slash_of_def intro!: map_idI [symmetric])

lemma length_normalize_slashes [simp]: "length (normalize_slashes path) = length path"
  by (simp add: normalize_slashes_map)

lemma normalize_slashes_no_backslash: "BACKSLASH \<notin> set (normalize_slashes path)"
  by (auto simp: normalize_slashes_map slash_of_def BACKSLASH_def split: if_splits)

lemma normalize_slashes_id: "BACKSLASH \<notin> set path \<Longrightarrow> normalize_slashes path = path"
  by (simp add: normalize_slashes_def)

lemma normalize_slashes_idem [simp]: "normalize_slashes (normalize_slashes path) = normalize_slashes path"
  by (simp add: normalize_slashes_id normalize_slashes_no_backslash)

text \<open>A parent is the path itself with forward slashes, when that is all root, and shorter otherwise.\<close>

lemma directory_cases:
  "directory path = normalize_slashes path \<and> root_length (normalize_slashes path) = length path \<or>
   length (directory path) < length path \<and> BACKSLASH \<notin> set (directory path)"
proof -
  let ?p = "normalize_slashes path"
  let ?q = "if ends_with ?p ''/'' then butlast ?p else ?p"
  let ?n = "case rposition (\<lambda>b. b = SLASH) ?q of Some i \<Rightarrow> i | None \<Rightarrow> 0"
  show ?thesis
  proof (cases "root_length ?p = length path")
    case False
    then have r: "root_length ?p < length path" using root_length_le [of ?p] by simp
    have d: "directory path = take (max (root_length ?p) ?n) ?q"
      using False by (simp add: directory_def Let_def)
    have q: "length ?q \<le> length path" "set ?q \<subseteq> set ?p" by (auto dest: in_set_butlastD)
    have "?n < length path"
      using rposition_Some_less [of _ ?q] q(1) r by (fastforce split: option.split)
    with r have "length (directory path) < length path" by (simp add: d)
    moreover have "set (directory path) \<subseteq> set ?q" unfolding d by (rule set_take_subset)
    then have "BACKSLASH \<notin> set (directory path)"
      using normalize_slashes_no_backslash [of path] q(2) by blast
    ultimately show ?thesis by blast
  qed (simp add: directory_def Let_def)
qed

text \<open>The loop of \<open>ancestors\<close>: it ends where a path is its own parent.\<close>

definition path_measure :: "bytes \<Rightarrow> nat" where
  "path_measure path = 2 * length path + (if BACKSLASH \<in> set path then 1 else 0)"

lemma directory_measure: "directory path \<noteq> path \<Longrightarrow> path_measure (directory path) < path_measure path"
  using directory_cases [of path] normalize_slashes_id [of path] normalize_slashes_no_backslash [of path]
  by (auto simp: path_measure_def)

function ancestors :: "bytes \<Rightarrow> bytes list" where
  "ancestors path =
     (let parent = directory path in
      if parent = path then [path] else path # ancestors parent)"
  by pat_completeness auto
termination
  by (relation "measure path_measure") (auto intro: directory_measure)

declare ancestors.simps [simp del]

text \<open>
  The walk with a callback that answers a value and whether to stop. The callback of the source may
  keep a state of its own, which is threaded through.
\<close>

function for_each_ancestor_directory ::
    "('s \<Rightarrow> bytes \<Rightarrow> 't \<times> bool \<times> 's) \<Rightarrow> 's \<Rightarrow> bytes \<Rightarrow> 't option \<times> 's" where
  "for_each_ancestor_directory callback s current =
     (let (value, stop, s) = callback s current in
      if stop then (Some value, s)
      else let parent = directory current in
        if parent = current then (None, s)
        else for_each_ancestor_directory callback s parent)"
  by pat_completeness auto
termination
  by (relation "measure (\<lambda>(_, _, p). path_measure p)") (auto intro: directory_measure)

declare for_each_ancestor_directory.simps [simp del]

definition for_each_ancestor_directory_stopping_at_global_cache ::
    "bytes \<Rightarrow> ('s \<Rightarrow> bytes \<Rightarrow> 't \<times> bool \<times> 's) \<Rightarrow> 's \<Rightarrow> bytes \<Rightarrow> 't option \<times> 's" where
  "for_each_ancestor_directory_stopping_at_global_cache cache callback =
     for_each_ancestor_directory (\<lambda>s ancestor.
       let (value, stop, s) = callback s ancestor in (value, stop \<or> ancestor = cache, s))"

section \<open>Names and separators\<close>

definition base_name :: "bytes \<Rightarrow> bytes" where
  "base_name path =
     (let root = root_length (normalize_slashes path) in
      if root = length path then []
      else let path = (if ends_with path ''/'' \<or> ends_with path [BACKSLASH] then butlast path else path)
           in drop (case rposition is_any_directory_separator path of Some n \<Rightarrow> n + 1 | None \<Rightarrow> root) path)"

definition has_extension :: "bytes \<Rightarrow> bool" where
  "has_extension path \<longleftrightarrow> CHR ''.'' \<in> set (base_name path)"

definition has_trailing_directory_separator :: "bytes \<Rightarrow> bool" where
  "has_trailing_directory_separator path \<longleftrightarrow> path \<noteq> [] \<and> is_any_directory_separator (last path)"

definition remove_trailing_directory_separator :: "bytes \<Rightarrow> bytes" where
  "remove_trailing_directory_separator path =
     (if has_trailing_directory_separator path then butlast path else path)"

function remove_trailing_directory_separators :: "bytes \<Rightarrow> bytes" where
  "remove_trailing_directory_separators path =
     (if has_trailing_directory_separator path
      then remove_trailing_directory_separators (butlast path) else path)"
  by pat_completeness auto
termination
  by (relation "measure length") (auto simp: has_trailing_directory_separator_def)

declare remove_trailing_directory_separators.simps [simp del]

definition ensure_trailing_directory_separator :: "bytes \<Rightarrow> bytes" where
  "ensure_trailing_directory_separator path =
     (if has_trailing_directory_separator path then path else path @ ''/'')"

definition is_relative :: "bytes \<Rightarrow> bool" where
  "is_relative path \<longleftrightarrow>
     path = ''.'' \<or> path = ''..'' \<or> starts_with path ''./'' \<or> starts_with path [CHR ''.'', BACKSLASH] \<or>
     starts_with path ''../'' \<or> starts_with path [CHR ''.'', CHR ''.'', BACKSLASH]"

definition ensure_path_is_non_module_name :: "bytes \<Rightarrow> bytes" where
  "ensure_path_is_non_module_name path =
     (if \<not> path_is_absolute path \<and> \<not> is_relative path then ''./'' @ path else path)"

definition is_external_module_name_relative :: "bytes \<Rightarrow> bool" where
  "is_external_module_name_relative name \<longleftrightarrow> is_relative name \<or> is_rooted_disk_path name"

definition resolve_tripleslash_reference :: "bytes \<Rightarrow> bytes \<Rightarrow> bytes" where
  "resolve_tripleslash_reference module_name containing_file =
     (if is_rooted_disk_path module_name then normalize module_name
      else normalize (combine (directory containing_file) [module_name]))"

definition normalized_absolute_path_without_root :: "bytes \<Rightarrow> bytes \<Rightarrow> bytes" where
  "normalized_absolute_path_without_root file_name cwd =
     (let a = absolute file_name cwd in drop (root_length a) a)"

definition contains_ignored_path :: "bytes \<Rightarrow> bool" where
  "contains_ignored_path path \<longleftrightarrow>
     list_ex (has_window path) [''/node_modules/.'', ''/.git'', ''.#'']"

definition compare_number_of_directory_separators :: "bytes \<Rightarrow> bytes \<Rightarrow> int" where
  "compare_number_of_directory_separators left right =
     (let count = (\<lambda>path. length (filter (\<lambda>b. b = SLASH) path)) in
      sgn (int (count left) - int (count right)))"

section \<open>Case\<close>

text \<open>\<open>to_lower_go\<close> of \<open>tsr_jsstring/src/helpers.rs\<close>, over the table's rune mapping.\<close>

function lower_runes :: "(int \<Rightarrow> int) \<Rightarrow> bytes \<Rightarrow> bytes" where
  "lower_runes lower bs =
     (if bs = [] then []
      else let (rune, width) = decode_utf8 bs in
        append_rune [] (lower rune) @ lower_runes lower (drop width bs))"
  by pat_completeness auto
termination
proof (relation "measure (\<lambda>(_, bs). length bs)", simp, goal_cases)
  case (1 lower bs x rune width)
  then show ?case using decode_utf8_progress [of bs rune width] by simp
qed

declare lower_runes.simps [simp del]

definition to_lower_go :: "(int \<Rightarrow> int) \<Rightarrow> bytes \<Rightarrow> bytes" where
  "to_lower_go lower bs =
     (if list_all is_ascii bs then map to_ascii_lowercase bs else lower_runes lower bs)"

text \<open>The capital dotted I keeps its bytes: the stretches between its occurrences are lowered.\<close>

abbreviation DOTTED_I :: bytes where "DOTTED_I \<equiv> [CHR 0xC4, CHR 0xB0]"

function lower_around_dotted_i :: "(int \<Rightarrow> int) \<Rightarrow> bytes \<Rightarrow> bytes" where
  "lower_around_dotted_i lower bs =
     (if bs = [] then []
      else if starts_with bs DOTTED_I then DOTTED_I @ lower_around_dotted_i lower (drop 2 bs)
      else let n = (case window_position bs DOTTED_I of Some i \<Rightarrow> i | None \<Rightarrow> length bs) in
        to_lower_go lower (take n bs) @ lower_around_dotted_i lower (drop n bs))"
  by pat_completeness auto
termination
proof (relation "measure (\<lambda>(_, bs). length bs)", simp_all, goal_cases)
  case (1 bs)
  have "window_position bs DOTTED_I \<noteq> Some 0"
    using 1 window_position_Some [of bs DOTTED_I 0] by auto
  then show ?case using 1 by (cases "window_position bs DOTTED_I") auto
qed

declare lower_around_dotted_i.simps [simp del]

definition file_name_lower_case :: "(int \<Rightarrow> int) \<Rightarrow> bytes \<Rightarrow> bytes" where
  "file_name_lower_case lower path =
     (if list_all is_ascii path then map to_ascii_lowercase path else lower_around_dotted_i lower path)"

definition canonical :: "(int \<Rightarrow> int) \<Rightarrow> bytes \<Rightarrow> bool \<Rightarrow> bytes" where
  "canonical lower path case_sensitive =
     (if case_sensitive then path else file_name_lower_case lower path)"

definition to_path :: "(int \<Rightarrow> int) \<Rightarrow> bytes \<Rightarrow> bytes \<Rightarrow> bool \<Rightarrow> bytes" where
  "to_path lower file_name base case_sensitive =
     (let path = (if is_rooted_disk_path file_name then normalize file_name else absolute file_name base)
      in canonical lower path case_sensitive)"

definition starts_with_directory :: "(int \<Rightarrow> int) \<Rightarrow> bytes \<Rightarrow> bytes \<Rightarrow> bool \<Rightarrow> bool" where
  "starts_with_directory lower file_name directory_name case_sensitive \<longleftrightarrow>
     directory_name \<noteq> [] \<and>
     (let f = canonical lower file_name case_sensitive;
          p = canonical lower directory_name case_sensitive;
          p = (case strip_suffix p ''/'' of Some q \<Rightarrow> q | None \<Rightarrow> p);
          p = (case strip_suffix p [BACKSLASH] of Some q \<Rightarrow> q | None \<Rightarrow> p)
      in length p < length f \<and> starts_with f p \<and> is_any_directory_separator (f ! length p))"

text \<open>\<open>Path\<close> of \<open>typed.rs\<close> is a byte string; \<open>contains_path\<close> is a prefix test at a separator.\<close>

definition typed_contains_path :: "bytes \<Rightarrow> bytes \<Rightarrow> bool" where
  "typed_contains_path parent child \<longleftrightarrow>
     parent \<noteq> [] \<and>
     (parent = child \<or>
      length parent < length child \<and> starts_with child parent \<and>
      (ends_with parent ''/'' \<or> child ! length parent = SLASH))"

section \<open>Properties\<close>

lemma ancestors_hd: "\<exists>ps. ancestors path = path # ps"
  by (subst ancestors.simps) (simp add: Let_def)

lemma ancestors_chain:
  "successively (\<lambda>a b. b = directory a \<and> b \<noteq> a) (ancestors path) \<and>
   directory (last (ancestors path)) = last (ancestors path)"
proof (induction path rule: ancestors.induct)
  case (1 path)
  show ?case
  proof (cases "directory path = path")
    case False
    obtain ps where "ancestors (directory path) = directory path # ps" using ancestors_hd by blast
    then show ?thesis using 1 [OF refl False] False by (subst (1 2 3) ancestors.simps) (simp add: Let_def)
  qed (simp add: ancestors.simps [of path])
qed

text \<open>
  The walk to the root ends. From any path, rooted or not, \<open>ancestors\<close> gives the path first,
  then each time the parent of the one before, and stops exactly at a path that is its own parent;
  no step repeats a path.
\<close>

theorem ancestors_walk:
  "hd (ancestors path) = path \<and> successively (\<lambda>a b. b = directory a \<and> b \<noteq> a) (ancestors path) \<and>
   directory (last (ancestors path)) = last (ancestors path)"
  using ancestors_chain [of path] ancestors_hd [of path] by auto

text \<open>
  Containment of typed paths. \<open>Path::contains_path\<close>, a byte prefix test at a separator, is an
  order on nonempty paths: a path contains itself, what contains a container contains the contained,
  and two paths that contain each other are equal.
\<close>

theorem typed_contains_path_order:
  assumes "typed_contains_path a b" "typed_contains_path b c"
  shows "typed_contains_path a a \<and> typed_contains_path a c \<and> (a = c) = (typed_contains_path c a)"
proof -
  have pre: "prefix x y \<and> x \<noteq> []" if "typed_contains_path x y" for x y
    using that by (auto simp: typed_contains_path_def starts_with_prefix)
  have "prefix a b" "prefix b c" "a \<noteq> []" using pre assms by auto
  then obtain u v where uv: "b = a @ u" "c = b @ v" by (auto simp: prefix_def)
  have "typed_contains_path a c"
  proof (cases "u = [] \<or> v = []")
    case False
    then have "ends_with a ''/'' \<or> hd u = SLASH" "length a < length c" "starts_with c a"
      using assms(1) uv by (auto simp: typed_contains_path_def nth_append hd_conv_nth)
    moreover have "c ! length a = hd u" using uv False by (simp add: nth_append hd_conv_nth)
    ultimately show ?thesis using \<open>a \<noteq> []\<close> by (auto simp: typed_contains_path_def)
  qed (use assms uv in auto)
  moreover have "typed_contains_path c a \<Longrightarrow> a = c"
    using pre [of c a] pre [of a c] calculation by (meson prefix_order.antisym)
  ultimately show ?thesis using \<open>a \<noteq> []\<close> by (auto simp: typed_contains_path_def)
qed

theorem typed_contains_path_order_witness:
  "typed_contains_path ''/a'' ''/a'' \<and> typed_contains_path ''/a'' ''/a/b/c'' \<and>
   (''/a'' = ''/a/b/c'') = (typed_contains_path ''/a/b/c'' ''/a'')"
  by (rule typed_contains_path_order [of _ "''/a/b''"]) (simp_all add: typed_contains_path_def)

end
