(* ===== verification/Strings.thy ===== *)
theory Strings
  imports Interfaces Wtf8
begin

text \<open>
  What the components use of Rust's strings: the byte order of \<open>[u8]\<close> and \<open>str\<close>, \<open>str::from_utf8\<close>,
  and decimal numbers as \<open>Display\<close> prints and \<open>str::parse::<u32>\<close> reads them. A \<open>str\<close> is its list of
  characters, that is of Unicode scalar values; its bytes are \<^term>\<open>encode_runes\<close> of it.
\<close>

section \<open>Order\<close>

text \<open>\<open>u8::cmp\<close> and \<open>[u8]::cmp\<close>, as the sign.\<close>

definition compare_byte :: "byte \<Rightarrow> byte \<Rightarrow> int" where
  "compare_byte a b = sgn (of_char a - of_char b)"

definition compare_bytes :: "bytes \<Rightarrow> bytes \<Rightarrow> int" where
  "compare_bytes = compare_lists compare_byte"

interpretation byte_order: comparison compare_byte
  by unfold_locales (auto simp: compare_byte_def sgn_if split: if_splits)

interpretation bytes_order: comparison compare_bytes
  unfolding compare_bytes_def by (rule byte_order.comparison_lists)

lemma compare_byte_zero: "compare_byte a b = 0 \<longleftrightarrow> a = b"
  by (simp add: compare_byte_def sgn_0_0)

lemma compare_bytes_zero: "compare_bytes as bs = 0 \<longleftrightarrow> as = bs"
  unfolding compare_bytes_def by (rule compare_lists_zero) (rule compare_byte_zero)

section \<open>Strings as characters\<close>

type_synonym str = "int list"

definition scalar :: "int \<Rightarrow> bool" where
  "scalar c \<longleftrightarrow> valid_rune c \<and> \<not> is_surrogate c"

text \<open>A string literal of ASCII characters.\<close>

definition lit :: "string \<Rightarrow> str" where
  "lit s = map of_char s"

text \<open>\<open>str::from_utf8\<close>: strict UTF-8, every byte part of a well-formed character.\<close>

function from_utf8 :: "bytes \<Rightarrow> str option" where
  "from_utf8 bs =
     (if bs = [] then Some []
      else let (rune, width) = decode_utf8 bs in
        if rune = RUNE_ERROR \<and> width = 1 then None
        else map_option ((#) rune) (from_utf8 (drop width bs)))"
  by pat_completeness auto
termination
proof (relation "measure length", simp, goal_cases)
  case (1 bs x rune width)
  then show ?case using decode_utf8_progress [of bs rune width] by simp
qed

declare from_utf8.simps [simp del]

lemma encode_utf8_not_error: "encode_utf8 c @ rest = bs \<Longrightarrow> scalar c \<Longrightarrow>
    decode_utf8 bs = (c, length (encode_utf8 c)) \<and> (c, length (encode_utf8 c)) \<noteq> (RUNE_ERROR, 1)"
  using decode_utf8_encode [of c rest]
  by (auto simp: scalar_def valid_rune_def RUNE_ERROR_def encode_utf8_def)

lemma from_utf8_encode: "list_all scalar s \<Longrightarrow> from_utf8 (encode_runes s) = Some s"
proof (induction s)
  case Nil
  show ?case by (simp add: from_utf8.simps)
next
  case (Cons c s)
  then have e: "encode_rune c = encode_utf8 c" by (simp add: encode_rune_scalar scalar_def)
  have "decode_utf8 (encode_utf8 c @ encode_runes s) = (c, length (encode_utf8 c))"
    "(c, length (encode_utf8 c)) \<noteq> (RUNE_ERROR, 1)"
    using encode_utf8_not_error [of c "encode_runes s"] Cons.prems by auto
  then show ?case
    using Cons encode_rune_not_Nil [of c] by (subst from_utf8.simps) (auto simp: e)
qed

interpretation utf8: codec encode_runes from_utf8 "list_all scalar"
  by unfold_locales (rule from_utf8_encode)

section \<open>Strict decoding is faithful\<close>

lemma div_mod_pair: "0 \<le> y \<Longrightarrow> y < m \<Longrightarrow> (x * m + y) div m = (x :: int) \<and> (x * m + y) mod m = y"
  by simp

lemma encode_decoded_2:
  assumes "2 \<le> x" "x < 32" "0 \<le> y" "y < 64"
  shows "encode_utf8 (x * 64 + y) = [char_of (0xc0 + x :: int), char_of (0x80 + y)]"
  using assms div_mod_pair [of y 64 x] by (simp add: encode_utf8_def)

lemma encode_decoded_3:
  assumes "0 \<le> x" "x < 16" "0 \<le> y" "y < 64" "0 \<le> z" "z < 64" "1 \<le> x \<or> 32 \<le> y"
  shows "encode_utf8 ((x * 64 + y) * 64 + z) =
    [char_of (0xe0 + x :: int), char_of (0x80 + y), char_of (0x80 + z)]"
proof -
  let ?r = "(x * 64 + y) * 64 + z"
  have a: "?r div 64 = x * 64 + y" "?r mod 64 = z"
    "(x * 64 + y) div 64 = x" "(x * 64 + y) mod 64 = y"
    using div_mod_pair [OF assms(5,6)] div_mod_pair [OF assms(3,4)] by blast+
  have e: "(x * 64 + y) * 64 + z = 4096 * x + 64 * y + z" by simp
  have "0x800 \<le> (x * 64 + y) * 64 + z"
    unfolding e using assms(7) by (elim disjE) (use assms(1-6) in linarith)+
  moreover have "(x * 64 + y) * 64 + z < 0x10000" unfolding e using assms by linarith
  ultimately have c: "\<not> ?r < 0x80" "\<not> ?r < 0x800" "?r < 0x10000" by linarith+
  have d: "?r div 4096 = x" "?r div 64 mod 64 = y" "?r mod 64 = z" by (simp_all only: div_mult2_64 a)
  show ?thesis unfolding encode_utf8_def by (simp only: c d if_False if_True)
qed

lemma encode_decoded_4:
  assumes "0 \<le> x" "x \<le> 4" "0 \<le> y" "y < 64" "0 \<le> z" "z < 64" "0 \<le> u" "u < 64" "1 \<le> x \<or> 16 \<le> y"
  shows "encode_utf8 (((x * 64 + y) * 64 + z) * 64 + u) =
    [char_of (0xf0 + x :: int), char_of (0x80 + y), char_of (0x80 + z), char_of (0x80 + u)]"
proof -
  let ?r = "((x * 64 + y) * 64 + z) * 64 + u"
  have a: "?r div 64 = (x * 64 + y) * 64 + z" "?r mod 64 = u"
    "((x * 64 + y) * 64 + z) div 64 = x * 64 + y" "((x * 64 + y) * 64 + z) mod 64 = z"
    "(x * 64 + y) div 64 = x" "(x * 64 + y) mod 64 = y"
    using div_mod_pair [OF assms(7,8)] div_mod_pair [OF assms(5,6)] div_mod_pair [OF assms(3,4)] by blast+
  have e: "?r = 262144 * x + 4096 * y + 64 * z + u" by simp
  have "0x10000 \<le> ?r"
    unfolding e using assms(9) by (elim disjE) (use assms(1-8) in linarith)+
  then have c: "\<not> ?r < 0x80" "\<not> ?r < 0x800" "\<not> ?r < 0x10000" by linarith+
  have d: "?r div 262144 = x" "?r div 4096 mod 64 = y" "?r div 64 mod 64 = z" "?r mod 64 = u"
    by (simp_all only: div_mult2_4096 div_mult2_64 a)
  show ?thesis unfolding encode_utf8_def by (simp only: c d if_False)
qed

lemma byte_offset:
  assumes "m dvd k" "0 \<le> k" "k \<le> of_char c" "of_char c < k + m"
  shows "c = char_of (k + of_char c mod m :: int)"
proof -
  have "of_char c mod m = of_char c - k"
    using assms mod_offset [of "of_char c - k" m k] by simp
  then show ?thesis by simp
qed

lemma continuation_offset:
  assumes "is_continuation c"
  obtains y where "c = char_of (0x80 + y :: int)" "0 \<le> y" "y < 64" "of_char c mod 64 = y"
    "byte_val c = nat (0x80 + y)"
proof -
  have i: "(of_char c :: int) = int (byte_val c)" by (simp only: of_nat_of_char)
  have b: "128 \<le> (of_char c :: int)" "(of_char c :: int) < 128 + 64"
    using assms unfolding is_continuation_def i by linarith+
  have m: "of_char c mod (64 :: int) = of_char c - 128"
    using b mod_offset [of "of_char c - 128" 64 128] by simp
  show thesis
  proof (rule that [of "of_char c mod 64"])
    show "c = char_of (0x80 + of_char c mod 64 :: int)" using b by (intro byte_offset) simp_all
    show "byte_val c = nat (0x80 + of_char c mod 64)" unfolding m by simp
  qed simp_all
qed


text \<open>Decoding is faithful: a well-formed character is the encoding of what was read.\<close>

lemma lead_offset:
  assumes "k \<le> byte_val c" "byte_val c < k + m" "m dvd k"
  obtains x where "c = char_of (int k + x)" "0 \<le> x" "x < int m" "of_char c mod int m = x"
    "byte_val c = nat (int k + x)"
proof -
  have i: "(of_char c :: int) = int (byte_val c)" by (simp only: of_nat_of_char)
  have b: "int k \<le> (of_char c :: int)" "(of_char c :: int) < int k + int m"
    using assms unfolding i by linarith+
  have e: "of_char c mod int m = of_char c - int k"
    using b assms(3) mod_offset [of "of_char c - int k" "int m" "int k"] by simp
  show thesis
  proof (rule that [of "of_char c mod int m"])
    show "c = char_of (int k + of_char c mod int m :: int)"
      using b assms(3) by (intro byte_offset) simp_all
    show "byte_val c = nat (int k + of_char c mod int m)" unfolding e by simp
  qed (use b in \<open>simp_all add: e\<close>)
qed


lemma decode_utf8_inversion:
  assumes "decode_utf8 (a # rest) = (r, w)" "(r, w) \<noteq> (RUNE_ERROR, 1)" "0x80 \<le> byte_val a"
  obtains lo hi m where "utf8_lead (byte_val a) = Some (w, lo, hi, m)" "w \<le> Suc (length rest)"
    "lo \<le> byte_val (rest ! 0)" "byte_val (rest ! 0) \<le> hi" "list_all is_continuation (drop 2 (take w (a # rest)))"
  using assms
  by (auto simp: decode_utf8_def list_ex_iff list_all_iff split: option.splits if_splits)

lemma utf8_lead_cases:
  assumes "utf8_lead n = Some (w, lo, hi, m)"
  shows "w = 2 \<and> 0xc2 \<le> n \<and> n \<le> 0xdf \<and> lo = 0x80 \<and> hi = 0xbf \<and> m = 0x1f \<or>
    w = 3 \<and> 0xe0 \<le> n \<and> n \<le> 0xef \<and> (if n = 0xe0 then 0xa0 else 0x80) = lo \<and>
      (if n = 0xed then 0x9f else 0xbf) = hi \<and> m = 0x0f \<or>
    w = 4 \<and> 0xf0 \<le> n \<and> n \<le> 0xf4 \<and> (if n = 0xf0 then 0x90 else 0x80) = lo \<and>
      (if n = 0xf4 then 0x8f else 0xbf) = hi \<and> m = 0x07"
  using assms unfolding utf8_lead_def by (auto split: if_splits)

lemma encode_decode_2:
  assumes "0xc2 \<le> byte_val a" "byte_val a \<le> 0xdf" "is_continuation b"
  shows "encode_utf8 ((of_char a AND 0x1f) * 64 + of_char b mod 64) = [a, b] \<and>
    scalar ((of_char a AND 0x1f) * 64 + of_char b mod 64)"
proof -
  obtain x where x: "a = char_of (0xc0 + x)" "0 \<le> x" "x < 32" "of_char a mod 32 = x" "byte_val a = nat (0xc0 + x)"
    by (rule lead_offset [of 192 a 32]) (use assms in simp_all)
  obtain y where y: "b = char_of (0x80 + y :: int)" "0 \<le> y" "y < 64" "of_char b mod 64 = y"
    using assms(3) by (elim continuation_offset)
  have "2 \<le> x" using x(2,5) assms(1) by linarith
  then show ?thesis
    using encode_decoded_2 [of x y] x y unfolding and_masks
    by (simp add: scalar_def valid_rune_def is_surrogate_def)
qed


lemma encode_decode_3:
  assumes "0xe0 \<le> byte_val a" "byte_val a \<le> 0xef" "is_continuation b" "is_continuation c"
    "byte_val a = 0xe0 \<Longrightarrow> 0xa0 \<le> byte_val b" "byte_val a = 0xed \<Longrightarrow> byte_val b \<le> 0x9f"
  defines "r \<equiv> ((of_char a AND 0x0f) * 64 + of_char b mod 64) * 64 + of_char c mod 64"
  shows "encode_utf8 r = [a, b, c] \<and> scalar r"
proof -
  obtain x where x: "a = char_of (0xe0 + x)" "0 \<le> x" "x < 16" "of_char a mod 16 = x" "byte_val a = nat (0xe0 + x)"
    by (rule lead_offset [of 224 a 16]) (use assms in simp_all)
  obtain y where y: "b = char_of (0x80 + y :: int)" "0 \<le> y" "y < 64" "of_char b mod 64 = y" "byte_val b = nat (0x80 + y)"
    using assms(3) by (elim continuation_offset)
  obtain z where z: "c = char_of (0x80 + z :: int)" "0 \<le> z" "z < 64" "of_char c mod 64 = z"
    using assms(4) by (elim continuation_offset)
  have r: "r = (x * 64 + y) * 64 + z" unfolding r_def and_masks x(4) y(4) z(4) ..
  then have r': "r = 4096 * x + 64 * y + z" by simp
  have lo: "1 \<le> x \<or> 32 \<le> y" using x(2,5) y(5) assms(5) by linarith
  have hi: "x \<noteq> 13 \<or> y < 32" using x(2,5) y(2,5) assms(6) by linarith
  have "r < 0xd800 \<or> 0xe000 \<le> r"
  proof (cases "x \<le> 12 \<or> 14 \<le> x")
    case True
    then show ?thesis unfolding r' by (elim disjE) (use y z in linarith)+
  next
    case False
    then have "x = 13" "y < 32" using hi by linarith+
    then show ?thesis unfolding r' using z by linarith
  qed
  moreover have "0 \<le> r" "r \<le> 0xffff" unfolding r' using x y z by linarith+
  ultimately have "scalar r" by (auto simp: scalar_def valid_rune_def is_surrogate_def)
  then show ?thesis
    using encode_decoded_3 [OF x(2,3) y(2,3) z(2,3) lo] unfolding r x(1) [symmetric] y(1) [symmetric] z(1) [symmetric]
    by simp
qed

lemma encode_decode_4:
  assumes "0xf0 \<le> byte_val a" "byte_val a \<le> 0xf4" "is_continuation b" "is_continuation c" "is_continuation d"
    "byte_val a = 0xf0 \<Longrightarrow> 0x90 \<le> byte_val b" "byte_val a = 0xf4 \<Longrightarrow> byte_val b \<le> 0x8f"
  defines "r \<equiv> (((of_char a AND 0x07) * 64 + of_char b mod 64) * 64 + of_char c mod 64) * 64 + of_char d mod 64"
  shows "encode_utf8 r = [a, b, c, d] \<and> scalar r"
proof -
  obtain x where x: "a = char_of (0xf0 + x)" "0 \<le> x" "x < 8" "of_char a mod 8 = x" "byte_val a = nat (0xf0 + x)"
    by (rule lead_offset [of 240 a 8]) (use assms in simp_all)
  obtain y where y: "b = char_of (0x80 + y :: int)" "0 \<le> y" "y < 64" "of_char b mod 64 = y" "byte_val b = nat (0x80 + y)"
    using assms(3) by (elim continuation_offset)
  obtain z where z: "c = char_of (0x80 + z :: int)" "0 \<le> z" "z < 64" "of_char c mod 64 = z"
    using assms(4) by (elim continuation_offset)
  obtain u where u: "d = char_of (0x80 + u :: int)" "0 \<le> u" "u < 64" "of_char d mod 64 = u"
    using assms(5) by (elim continuation_offset)
  have r: "r = ((x * 64 + y) * 64 + z) * 64 + u" unfolding r_def and_masks x(4) y(4) z(4) u(4) ..
  then have r': "r = 262144 * x + 4096 * y + 64 * z + u" by simp
  have x4: "x \<le> 4" using x(2,5) assms(2) by linarith
  have lo: "1 \<le> x \<or> 16 \<le> y" using x(2,5) y(5) assms(6) by linarith
  have hi: "x \<le> 3 \<or> x = 4 \<and> y < 16" using x(2,5) x4 y(2,5) assms(7) by linarith
  have "0x10000 \<le> r" unfolding r' using lo by (elim disjE) (use x y z u in linarith)+
  moreover have "r \<le> 0x10ffff" unfolding r' using hi by (elim disjE conjE) (use y z u in linarith)+
  ultimately have "scalar r" by (auto simp: scalar_def valid_rune_def is_surrogate_def)
  then show ?thesis
    using encode_decoded_4 [OF x(2) x4 y(2,3) z(2,3) u(2,3) lo]
    unfolding r x(1) [symmetric] y(1) [symmetric] z(1) [symmetric] u(1) [symmetric] by simp
qed

lemma encode_decode_utf8:
  assumes "decode_utf8 bs = (r, w)" "bs \<noteq> []" "(r, w) \<noteq> (RUNE_ERROR, 1)"
  shows "encode_utf8 r = take w bs \<and> scalar r"
proof -
  obtain a rest where bs: "bs = a # rest" using assms(2) by (cases bs) auto
  show ?thesis
  proof (cases "byte_val a < 0x80")
    case True
    then have r: "r = of_char a" "w = 1" using assms(1) bs by (simp_all add: decode_utf8_def)
    have "(of_char a :: int) = int (byte_val a)" by (simp only: of_nat_of_char)
    with True have "0 \<le> r" "r < 0x80" unfolding r by linarith+
    with r bs show ?thesis by (simp add: encode_utf8_def scalar_def valid_rune_def is_surrogate_def)
  next
    case False
    obtain lo hi m where l: "utf8_lead (byte_val a) = Some (w, lo, hi, m)" "w \<le> Suc (length rest)"
      "lo \<le> byte_val (rest ! 0)" "byte_val (rest ! 0) \<le> hi" "list_all is_continuation (drop 2 (take w (a # rest)))"
      by (rule decode_utf8_inversion [of a rest r w]) (use assms bs False in simp_all)
    note lead = utf8_lead_cases [OF l(1)]
    have a80: "0x80 \<le> byte_val a" using False by simp
    from lead consider "w = 2" | "w = 3" | "w = 4" by blast
    then show ?thesis
    proof cases
      case 1
      then obtain b t where t: "rest = b # t" using l(2) by (cases rest) auto
      have lb: "0xc2 \<le> byte_val a" "byte_val a \<le> 0xdf" "is_continuation b" "m = 0x1f"
        using lead 1 l(3,4) t by (auto simp: is_continuation_def)
      have "r = (of_char a AND 0x1f) * 64 + of_char b mod 64"
        using assms(1) decode_utf8_2 [OF l(1) [unfolded 1], of b t] l(3,4) a80 lb(4) unfolding bs t by simp
      with encode_decode_2 [OF lb(1-3)] show ?thesis by (simp add: bs t 1 numeral_2_eq_2)
    next
      case 2
      then obtain b c t where t: "rest = b # c # t" using l(2) by (cases rest; cases "tl rest") auto
      have lb: "0xe0 \<le> byte_val a" "byte_val a \<le> 0xef" "is_continuation b" "is_continuation c"
        "byte_val a = 0xe0 \<Longrightarrow> 0xa0 \<le> byte_val b" "byte_val a = 0xed \<Longrightarrow> byte_val b \<le> 0x9f" "m = 0x0f"
        using lead 2 l(3,4,5) t by (auto simp: is_continuation_def numeral_3_eq_3 numeral_2_eq_2 split: if_splits)
      have "r = ((of_char a AND 0x0f) * 64 + of_char b mod 64) * 64 + of_char c mod 64"
        using assms(1) decode_utf8_3 [OF l(1) [unfolded 2], of b c t] l(3,4) a80 lb(4,7) unfolding bs t by simp
      with encode_decode_3 [OF lb(1-6)] show ?thesis by (simp add: bs t 2 numeral_3_eq_3)
    next
      case 3
      then obtain b c d t where t: "rest = b # c # d # t"
        using l(2) by (cases rest; cases "tl rest"; cases "tl (tl rest)") auto
      have four: "(4::nat) = Suc (Suc (Suc (Suc 0)))" "(2::nat) = Suc (Suc 0)" by simp_all
      have lb: "0xf0 \<le> byte_val a" "byte_val a \<le> 0xf4" "is_continuation b" "is_continuation c" "is_continuation d"
        "byte_val a = 0xf0 \<Longrightarrow> 0x90 \<le> byte_val b" "byte_val a = 0xf4 \<Longrightarrow> byte_val b \<le> 0x8f" "m = 0x07"
        using lead 3 l(3,4,5) t by (auto simp: is_continuation_def four split: if_splits)
      have "r = (((of_char a AND 0x07) * 64 + of_char b mod 64) * 64 + of_char c mod 64) * 64 + of_char d mod 64"
        using assms(1) decode_utf8_4 [OF l(1) [unfolded 3], of b c d t] l(3,4) a80 lb(4,5,8) unfolding bs t by simp
      with encode_decode_4 [OF lb(1-7)] show ?thesis by (simp add: bs t 3 four)
    qed
  qed
qed

lemma from_utf8_Some: "from_utf8 t = Some s \<Longrightarrow> encode_runes s = t \<and> list_all scalar s"
proof (induction t arbitrary: s rule: from_utf8.induct)
  case (1 bs)
  show ?case
  proof (cases "bs = []")
    case False
    obtain r w where d: "decode_utf8 bs = (r, w)" by (cases "decode_utf8 bs") auto
    then obtain s' where s: "(r, w) \<noteq> (RUNE_ERROR, 1)" "from_utf8 (drop w bs) = Some s'" "s = r # s'"
      using "1.prems" False by (subst (asm) from_utf8.simps) (auto split: if_splits)
    have "encode_utf8 r = take w bs" "scalar r" using encode_decode_utf8 [OF d False s(1)] by simp_all
    then have "encode_rune r = take w bs" by (simp add: encode_rune_scalar scalar_def)
    moreover have "encode_runes s' = drop w bs \<and> list_all scalar s'"
      using "1.IH" [OF False d [symmetric]] s(1,2) by auto
    ultimately show ?thesis using s(3) \<open>scalar r\<close> by simp
  qed (use "1.prems" in \<open>simp add: from_utf8.simps\<close>)
qed

section \<open>The order of strings\<close>

text \<open>
  \<open>str::cmp\<close> compares the bytes; UTF-8 keeps the order of the characters, so this is the order of
  the character lists.
\<close>

definition compare_char :: "int \<Rightarrow> int \<Rightarrow> int" where
  "compare_char a b = sgn (a - b)"

definition compare_str :: "str \<Rightarrow> str \<Rightarrow> int" where
  "compare_str = compare_lists compare_char"

interpretation char_order: comparison compare_char
  by unfold_locales (auto simp: compare_char_def sgn_if split: if_splits)

interpretation str_order: comparison compare_str
  unfolding compare_str_def by (rule char_order.comparison_lists)

lemma compare_str_zero: "compare_str s t = 0 \<longleftrightarrow> s = t"
  unfolding compare_str_def by (rule compare_lists_zero) (simp add: compare_char_def sgn_0_0)

section \<open>Decimal numbers\<close>

definition is_digit :: "int \<Rightarrow> bool" where
  "is_digit c \<longleftrightarrow> 48 \<le> c \<and> c \<le> 57"

definition decimal_value :: "str \<Rightarrow> nat" where
  "decimal_value s = foldl (\<lambda>n c. 10 * n + nat (c - 48)) 0 s"

text \<open>\<open>Display\<close> of an unsigned integer.\<close>

fun show_decimal :: "nat \<Rightarrow> str" where
  "show_decimal n = (if n < 10 then [48 + int n] else show_decimal (n div 10) @ [48 + int (n mod 10)])"

declare show_decimal.simps [simp del]

text \<open>\<open>str::parse::<u32>\<close>: an optional plus sign, digits, no overflow.\<close>

definition parse_u32 :: "str \<Rightarrow> u32 option" where
  "parse_u32 s =
     (let ds = (if starts_with s [43] then tl s else s) in
      if ds \<noteq> [] \<and> list_all is_digit ds \<and> int (decimal_value ds) < 2 ^ 32
      then Some (of_nat (decimal_value ds)) else None)"

text \<open>A digit string without a superfluous leading zero.\<close>

definition canonical_decimal :: "str \<Rightarrow> bool" where
  "canonical_decimal s \<longleftrightarrow> s \<noteq> [] \<and> list_all is_digit s \<and> (length s = 1 \<or> hd s \<noteq> 48)"

lemma decimal_value_snoc: "decimal_value (s @ [c]) = 10 * decimal_value s + nat (c - 48)"
  by (simp add: decimal_value_def)

lemma decimal_value_show [simp]: "decimal_value (show_decimal n) = n"
proof (induction n rule: show_decimal.induct)
  case (1 n)
  show ?case
  proof (cases "n < 10")
    case True
    then show ?thesis by (simp add: show_decimal.simps decimal_value_def)
  next
    case False
    then have "show_decimal n = show_decimal (n div 10) @ [48 + int (n mod 10)]"
      by (simp add: show_decimal.simps [of n])
    then show ?thesis using 1 False by (simp add: decimal_value_snoc)
  qed
qed

lemma show_decimal_canonical: "canonical_decimal (show_decimal n) \<and> (0 < n \<longrightarrow> hd (show_decimal n) \<noteq> 48)"
proof (induction n rule: show_decimal.induct)
  case (1 n)
  show ?case
  proof (cases "n < 10")
    case True
    then show ?thesis by (simp add: show_decimal.simps canonical_decimal_def is_digit_def)
  next
    case False
    then have "show_decimal n = show_decimal (n div 10) @ [48 + int (n mod 10)]"
      by (simp add: show_decimal.simps [of n])
    moreover have "is_digit (48 + int (n mod 10))" by (simp add: is_digit_def)
    moreover have "0 < n div 10" using False by simp
    ultimately show ?thesis using 1 False by (simp add: canonical_decimal_def)
  qed
qed

lemma decimal_value_append:
  "decimal_value (s @ t) = decimal_value s * 10 ^ length t + decimal_value t"
  by (induction t rule: rev_induct)
     (simp_all add: decimal_value_snoc decimal_value_def [of "[]"] algebra_simps flip: append_assoc)

lemma decimal_value_Cons:
  "decimal_value (c # s) = nat (c - 48) * 10 ^ length s + decimal_value s"
  using decimal_value_append [of "[c]" s] by (simp add: decimal_value_def [of "[c]"])

lemma decimal_value_pos:
  "s \<noteq> [] \<Longrightarrow> list_all is_digit s \<Longrightarrow> hd s \<noteq> 48 \<Longrightarrow> 0 < decimal_value s"
  by (cases s) (auto simp: decimal_value_Cons is_digit_def)

lemma show_decimal_value: "canonical_decimal s \<Longrightarrow> show_decimal (decimal_value s) = s"
proof (induction s rule: rev_induct)
  case (snoc c s)
  have c: "is_digit c" using snoc.prems by (simp add: canonical_decimal_def)
  show ?case
  proof (cases "s = []")
    case True
    then have "decimal_value (s @ [c]) = nat (c - 48)" by (simp add: decimal_value_def)
    then show ?thesis
      using c True by (subst show_decimal.simps) (auto simp: is_digit_def)
  next
    case False
    then have s: "list_all is_digit s" "hd s \<noteq> 48" "canonical_decimal s"
      using snoc.prems by (auto simp: canonical_decimal_def)
    have "0 < decimal_value s" by (rule decimal_value_pos [OF False s(1,2)])
    moreover have "nat (c - 48) < 10" "48 + int (nat (c - 48)) = c" using c by (auto simp: is_digit_def)
    ultimately show ?thesis
      using snoc.IH [OF s(3)] by (subst show_decimal.simps) (simp add: decimal_value_snoc)
  qed
qed (simp add: canonical_decimal_def)

lemma parse_u32_canonical:
  "canonical_decimal s \<Longrightarrow> parse_u32 s =
     (if int (decimal_value s) < 2 ^ 32 then Some (of_nat (decimal_value s)) else None)"
  by (cases s) (auto simp: parse_u32_def canonical_decimal_def is_digit_def)

lemma parse_show_u32: "parse_u32 (show_decimal (unat (w :: u32))) = Some w"
proof -
  have "int (unat w) < 2 ^ 32" using unsigned_less [of w] by (simp add: uint_nat [symmetric])
  then show ?thesis using show_decimal_canonical [of "unat w"] by (simp add: parse_u32_canonical)
qed

text \<open>Among canonical decimals a longer one is larger, and equally long ones order as strings.\<close>

lemma decimal_value_bounds: "list_all is_digit s \<Longrightarrow> decimal_value s < 10 ^ length s"
proof (induction s rule: rev_induct)
  case (snoc c s)
  moreover have "nat (c - 48) \<le> 9" using snoc.prems by (auto simp: is_digit_def)
  ultimately show ?case by (simp add: decimal_value_snoc)
qed (simp add: decimal_value_def)

lemma digit_split:
  assumes "is_digit c" "is_digit d" "c < d" "m < 10 ^ n"
  shows "nat (c - 48) * 10 ^ n + m < nat (d - 48) * 10 ^ n + k"
proof -
  have "Suc (nat (c - 48)) \<le> nat (d - 48)" using assms by (auto simp: is_digit_def)
  then have "Suc (nat (c - 48)) * 10 ^ n \<le> nat (d - 48) * 10 ^ n" by (rule mult_le_mono1)
  with assms(4) show ?thesis by simp
qed

lemma compare_digits:
  "length s = length t \<Longrightarrow> list_all is_digit s \<Longrightarrow> list_all is_digit t \<Longrightarrow>
   compare_str s t = sgn (int (decimal_value s) - int (decimal_value t))"
proof (induction s t rule: list_induct2)
  case (Cons c s d t)
  have b: "decimal_value s < 10 ^ length s" "decimal_value t < 10 ^ length s"
    using Cons decimal_value_bounds [of s] decimal_value_bounds [of t] by simp_all
  consider "c = d" | "c < d" | "d < c" by linarith
  then show ?case
  proof cases
    case 1
    then show ?thesis
      using Cons by (simp add: compare_str_def compare_char_def decimal_value_Cons)
  next
    case 2
    then have "decimal_value (c # s) < decimal_value (d # t)"
      using digit_split [of c d, OF _ _ _ b(1)] Cons by (simp add: decimal_value_Cons)
    with 2 show ?thesis by (simp add: compare_str_def compare_char_def)
  next
    case 3
    then have "decimal_value (d # t) < decimal_value (c # s)"
      using digit_split [of d c, OF _ _ _ b(2)] Cons by (simp add: decimal_value_Cons)
    with 3 show ?thesis by (simp add: compare_str_def compare_char_def)
  qed
qed (simp add: compare_str_def)

lemma longer_decimal:
  assumes "canonical_decimal s" "canonical_decimal t" "length s < length t"
  shows "decimal_value s < decimal_value t"
proof -
  obtain c t' where t: "t = c # t'" using assms(3) by (cases t) auto
  have "c \<noteq> 48" "is_digit c" using assms t by (cases s; auto simp: canonical_decimal_def)+
  then have "1 \<le> nat (c - 48)" unfolding is_digit_def by linarith
  then have "10 ^ length t' \<le> nat (c - 48) * 10 ^ length t'" using mult_le_mono1 by fastforce
  moreover have "decimal_value s < 10 ^ length s" "(10::nat) ^ length s \<le> 10 ^ length t'"
    using assms t by (auto simp: canonical_decimal_def intro!: decimal_value_bounds power_increasing)
  ultimately show ?thesis unfolding t decimal_value_Cons by linarith
qed

end
