(* ===== verification/Path_Components.thy ===== *)
theory Path_Components
  imports Paths Strings
begin

text \<open>
  \<open>crates/tsr_tspath/src/components.rs\<close> and \<open>comparison.rs\<close>: paths as lists of components, their
  reduction, relative paths, comparison and containment. The simple-fold equality \<open>equal_fold\<close> of
  \<open>tsr_jsstring\<close> works from generated tables and is the argument \<open>eqf\<close> of the operations that use it.
\<close>

section \<open>Splitting and reducing\<close>

abbreviation split_slash :: "bytes \<Rightarrow> bytes list" where
  "split_slash \<equiv> split_by (\<lambda>b. b = SLASH)"

definition split_path_components :: "bytes \<Rightarrow> nat \<Rightarrow> bytes list panicking" where
  "split_path_components path root =
     (if root \<le> length path
      then let rest = split_slash (drop root path);
               rest = (if rest \<noteq> [] \<and> last rest = [] then butlast rest else rest)
           in Some (take root path # rest)
      else None)"

definition path_components :: "bytes \<Rightarrow> bytes \<Rightarrow> bytes list panicking" where
  "path_components path cwd =
     (let path = combine cwd [path] in split_path_components path (root_length path))"

text \<open>One round of the loop of \<open>reduce_path_components\<close>; the list kept includes the root.\<close>

definition reduce_step :: "bytes list \<Rightarrow> bytes \<Rightarrow> bytes list" where
  "reduce_step reduced component =
     (if component = [] \<or> component = ''.'' then reduced
      else if component = ''..'' \<and> 1 < length reduced \<and> last reduced \<noteq> ''..'' then butlast reduced
      else if component = ''..'' \<and> \<not> 1 < length reduced \<and> reduced ! 0 \<noteq> [] then reduced
      else reduced @ [component])"

definition reduce_path_components :: "bytes list \<Rightarrow> bytes list" where
  "reduce_path_components components =
     (case components of [] \<Rightarrow> [] | first # rest \<Rightarrow> foldl reduce_step [first] rest)"

definition normalized_components_from_combined :: "bytes \<Rightarrow> bytes list" where
  "normalized_components_from_combined path =
     (let root = root_length path in
      foldl reduce_step [take root path] (split_slash (drop root path)))"

definition parts_step :: "nat \<Rightarrow> bytes list \<Rightarrow> bytes \<Rightarrow> bytes list" where
  "parts_step root parts part =
     (if part = [] \<or> part = ''.'' then parts
      else if part = ''..'' \<and> 1 < length parts \<and> last parts \<noteq> ''..'' then butlast parts
      else if part = ''..'' \<and> root \<noteq> 0 then parts
      else parts @ [part])"

definition normalized_components :: "bytes \<Rightarrow> bytes \<Rightarrow> bytes list" where
  "normalized_components path cwd =
     (let path = combine cwd [path]; root = root_length path in
      foldl (parts_step root) [take root path] (split_slash (drop root path)))"

definition path_from_components :: "bytes list \<Rightarrow> bytes" where
  "path_from_components parts =
     (case parts of
        [] \<Rightarrow> []
      | root # rest \<Rightarrow>
          (if root \<noteq> [] \<and> \<not> is_any_directory_separator (last root) then root @ ''/'' else root) @
          join_with SLASH rest)"

text \<open>
  The streaming test for relative segments: the flag of the previous byte, the length of the
  segment, and the number of leading dots while there is nothing else in it.
\<close>

fun relative_scan :: "bytes \<Rightarrow> bool \<Rightarrow> nat \<Rightarrow> nat option \<Rightarrow> bool" where
  "relative_scan [] previous_slash segment dots \<longleftrightarrow> dots = Some segment \<and> (segment = 1 \<or> segment = 2)"
| "relative_scan (b # bs) previous_slash segment dots \<longleftrightarrow>
     (if b = SLASH
      then if previous_slash \<or> dots = Some segment \<and> (segment = 1 \<or> segment = 2) then True
           else relative_scan bs True 0 (Some 0)
      else relative_scan bs False (segment + 1)
             (if b = CHR ''.'' then map_option Suc dots else None))"

definition has_relative_path_segment :: "bytes \<Rightarrow> bool" where
  "has_relative_path_segment path = relative_scan path False 0 (Some 0)"

definition simple_normalize_path :: "bytes \<Rightarrow> bytes option" where
  "simple_normalize_path path =
     (if \<not> has_relative_path_segment path then Some path
      else let simplified = simplify_dots path;
               trimmed = trim_dot_slash simplified;
               stripped = (length trimmed \<noteq> length simplified)
           in if trimmed \<noteq> path \<and> \<not> has_relative_path_segment trimmed \<and>
                 \<not> (stripped \<and> starts_with trimmed ''/'')
              then Some trimmed else None)"

text \<open>The loop that skips up to \<open>n\<close> runes.\<close>

fun skip_runes :: "nat \<Rightarrow> bytes \<Rightarrow> bytes" where
  "skip_runes 0 bs = bs"
| "skip_runes (Suc n) bs = (if bs = [] then [] else skip_runes n (drop (snd (decode_utf8 bs)) bs))"

definition trim_rune_count :: "bytes \<Rightarrow> int \<Rightarrow> bytes" where
  "trim_rune_count text rune_count = skip_runes (nat (max rune_count 0)) text"

text \<open>Reading a component list: how many leading components agree, the first by folding.\<close>

fun common_components :: "(bytes \<Rightarrow> bytes \<Rightarrow> bool) \<Rightarrow> (bytes \<Rightarrow> bytes \<Rightarrow> bool) \<Rightarrow>
    bytes list \<Rightarrow> bytes list \<Rightarrow> nat" where
  "common_components first_eq eq (a # as) (b # bs) =
     (if first_eq a b then Suc (common_components eq eq as bs) else 0)"
| "common_components first_eq eq _ _ = 0"

definition component_equality :: "(bytes \<Rightarrow> bytes \<Rightarrow> bool) \<Rightarrow> bool \<Rightarrow> bytes \<Rightarrow> bytes \<Rightarrow> bool" where
  "component_equality eqf case_sensitive = (if case_sensitive then (=) else eqf)"

definition path_components_relative_to ::
    "(bytes \<Rightarrow> bytes \<Rightarrow> bool) \<Rightarrow> bytes \<Rightarrow> bytes \<Rightarrow> bytes \<Rightarrow> bool \<Rightarrow> bytes list panicking" where
  "path_components_relative_to eqf origin target cwd case_sensitive = do {
     from_components \<leftarrow> path_components origin cwd;
     to_components \<leftarrow> path_components target cwd;
     let from_components = reduce_path_components from_components;
     let to_components = reduce_path_components to_components;
     let start = common_components eqf (component_equality eqf case_sensitive) from_components to_components;
     if start = 0 then Some to_components
     else Some ([] # replicate (length from_components - start) ''..'' @ drop start to_components)
   }"

definition relative_to_directory_or_url ::
    "(bytes \<Rightarrow> bytes \<Rightarrow> bool) \<Rightarrow> bytes \<Rightarrow> bytes \<Rightarrow> bool \<Rightarrow> bytes \<Rightarrow> bool \<Rightarrow> bytes" where
  "relative_to_directory_or_url eqf origin target absolute_path_as_url cwd case_sensitive =
     (let from_components = normalized_components origin cwd;
          to_components = normalized_components target cwd;
          common = common_components eqf (component_equality eqf case_sensitive)
                     from_components to_components
      in if common = 0
         then let to_components =
                (if absolute_path_as_url \<and> 0 < encoded_root_length (hd to_components)
                 then ((if starts_with (hd to_components) ''/'' then ''file://'' else ''file:///'') @
                       hd to_components) # tl to_components
                 else to_components)
              in path_from_components to_components
         else path_from_components
                ([] # replicate (length from_components - common) ''..'' @ drop common to_components))"

definition relative_from_directory ::
    "(bytes \<Rightarrow> bytes \<Rightarrow> bool) \<Rightarrow> bytes \<Rightarrow> bytes \<Rightarrow> bytes \<Rightarrow> bool \<Rightarrow> bytes panicking" where
  "relative_from_directory eqf origin target cwd case_sensitive =
     (if (0 < root_length origin) = (0 < root_length target)
      then Some (relative_to_directory_or_url eqf origin target False cwd case_sensitive)
      else None)"

definition relative_from_file ::
    "(bytes \<Rightarrow> bytes \<Rightarrow> bool) \<Rightarrow> bytes \<Rightarrow> bytes \<Rightarrow> bytes \<Rightarrow> bool \<Rightarrow> bytes panicking" where
  "relative_from_file eqf origin target cwd case_sensitive =
     map_option (\<lambda>value. if is_relative value \<or> root_length value \<noteq> 0 then value else ''./'' @ value)
       (relative_from_directory eqf (directory origin) target cwd case_sensitive)"

definition convert_to_relative_path ::
    "(bytes \<Rightarrow> bytes \<Rightarrow> bool) \<Rightarrow> bytes \<Rightarrow> bytes \<Rightarrow> bool \<Rightarrow> bytes" where
  "convert_to_relative_path eqf path cwd case_sensitive =
     (if is_rooted_disk_path path
      then relative_to_directory_or_url eqf cwd path False cwd case_sensitive else path)"

definition contains_path ::
    "(bytes \<Rightarrow> bytes \<Rightarrow> bool) \<Rightarrow> bytes \<Rightarrow> bytes \<Rightarrow> bytes \<Rightarrow> bool \<Rightarrow> bool" where
  "contains_path eqf parent child cwd case_sensitive =
     (let parent = combine cwd [parent]; child = combine cwd [child] in
      if parent = [] \<or> child = [] then False
      else if parent = child then True
      else let parent = normalized_components parent []; child = normalized_components child [] in
        length parent \<le> length child \<and>
        common_components eqf (component_equality eqf case_sensitive) parent child = length parent)"

section \<open>Comparison\<close>

fun compare_component_lists :: "(bytes \<Rightarrow> bytes \<Rightarrow> int) \<Rightarrow> (bytes \<Rightarrow> bytes \<Rightarrow> int) \<Rightarrow>
    bytes list \<Rightarrow> bytes list \<Rightarrow> int" where
  "compare_component_lists first_cmp cmp (a # as) (b # bs) =
     (let order = first_cmp a b in
      if order \<noteq> 0 then order else compare_component_lists cmp cmp as bs)"
| "compare_component_lists first_cmp cmp as bs = sgn (int (length as) - int (length bs))"

definition compare_lower :: "(int \<Rightarrow> int) \<Rightarrow> bytes \<Rightarrow> bytes \<Rightarrow> int" where
  "compare_lower lower a b = compare_bytes (to_lower_go lower a) (to_lower_go lower b)"

definition compare_paths :: "(int \<Rightarrow> int) \<Rightarrow> bytes \<Rightarrow> bytes \<Rightarrow> bytes \<Rightarrow> bool \<Rightarrow> int" where
  "compare_paths lower left right cwd case_sensitive =
     (let left = combine cwd [left]; right = combine cwd [right] in
      if left = right then 0
      else if left = [] then - 1
      else if right = [] then 1
      else let left_root = root_length left; right_root = root_length right;
               order = compare_lower lower (take left_root left) (take right_root right) in
        if order \<noteq> 0 then order
        else let a = drop left_root left; b = drop right_root right;
                 cmp = (if case_sensitive then compare_bytes else compare_lower lower) in
          if \<not> has_relative_segment a \<and> \<not> has_relative_segment b then cmp a b
          else compare_component_lists (compare_lower lower) cmp
                 (normalized_components left []) (normalized_components right []))"

section \<open>The three reductions agree\<close>

text \<open>The stack of components that the loops keep behind the root.\<close>

lemma reduce_step_normalize:
  "reduce_step (root # cs) c = root # normalize_step root cs c"
  by (auto simp: reduce_step_def normalize_step_def)

lemma foldl_reduce_step: "foldl reduce_step (root # cs) comps = root # foldl (normalize_step root) cs comps"
  by (induction comps arbitrary: cs) (simp_all add: reduce_step_normalize)

text \<open>Behind a root there is never a \<open>..\<close>, so both treatments of a surviving one agree.\<close>

lemma normalize_step_no_dotdot:
  "root \<noteq> [] \<Longrightarrow> ''..'' \<notin> set cs \<Longrightarrow> ''..'' \<notin> set (normalize_step root cs c)"
  by (cases cs rule: rev_cases) (auto simp: normalize_step_def)

lemma parts_step_normalize:
  assumes "(n = 0) = (root = [])" "root \<noteq> [] \<Longrightarrow> ''..'' \<notin> set cs"
  shows "parts_step n (root # cs) c = root # normalize_step root cs c"
  using assms by (cases cs rule: rev_cases) (auto simp: parts_step_def normalize_step_def)

lemma foldl_parts_step:
  assumes "(n = 0) = (root = [])" "root \<noteq> [] \<Longrightarrow> ''..'' \<notin> set cs"
  shows "foldl (parts_step n) (root # cs) comps = root # foldl (normalize_step root) cs comps"
  using assms(2)
proof (induction comps arbitrary: cs)
  case (Cons c comps)
  then show ?case
    using parts_step_normalize [OF assms(1), of cs c] normalize_step_no_dotdot [of root cs c] by simp
qed simp

definition reduced :: "bytes \<Rightarrow> bytes list" where
  "reduced path =
     (let root = root_length path in
      take root path # foldl (normalize_step (take root path)) [] (split_slash (drop root path)))"

lemma normalized_components_eq: "normalized_components path cwd = reduced (combine cwd [path])"
proof -
  let ?p = "combine cwd [path]"
  have "(root_length ?p = 0) = (take (root_length ?p) ?p = [])"
    using root_length_le [of ?p] by (cases ?p) auto
  then show ?thesis by (simp add: normalized_components_def reduced_def Let_def foldl_parts_step)
qed

lemma normalized_components_from_combined_eq: "normalized_components_from_combined path = reduced path"
  by (simp add: normalized_components_from_combined_def reduced_def Let_def foldl_reduce_step)

lemma normalize_step_Nil [simp]: "normalize_step root cs [] = cs"
  by (simp add: normalize_step_def)

lemma reduce_path_components_eq:
  "split_path_components path (root_length path) = Some comps \<Longrightarrow>
   reduce_path_components comps = reduced path"
proof -
  let ?s = "split_slash (drop (root_length path) path)"
  let ?r = "take (root_length path) path"
  assume "split_path_components path (root_length path) = Some comps"
  then have c: "comps = ?r # (if last ?s = [] then butlast ?s else ?s)"
    by (auto simp: split_path_components_def Let_def split: if_splits)
  have "foldl (normalize_step ?r) [] (if last ?s = [] then butlast ?s else ?s) =
      foldl (normalize_step ?r) [] ?s"
    by (cases ?s rule: rev_cases) auto
  then show ?thesis
    by (simp add: c reduce_path_components_def reduced_def foldl_reduce_step Let_def)
qed

section \<open>Reduced components\<close>

text \<open>A plain component: neither empty nor a dot name, and free of separators.\<close>

definition plain :: "bytes \<Rightarrow> bool" where
  "plain c \<longleftrightarrow> c \<noteq> [] \<and> c \<noteq> ''.'' \<and> c \<noteq> ''..'' \<and> SLASH \<notin> set c"

text \<open>Normal form: \<open>..\<close> only in front, and only without a root; plain components behind.\<close>

definition normal_form :: "bytes \<Rightarrow> bytes list \<Rightarrow> bool" where
  "normal_form root cs \<longleftrightarrow>
     (\<exists>n ps. cs = replicate n ''..'' @ ps \<and> list_all plain ps \<and> (root \<noteq> [] \<longrightarrow> n = 0))"

lemma normalize_step_normal_form:
  assumes "normal_form root cs" "SLASH \<notin> set c"
  shows "normal_form root (normalize_step root cs c)"
proof -
  obtain n ps where nf: "cs = replicate n ''..'' @ ps" "list_all plain ps" "root \<noteq> [] \<longrightarrow> n = 0"
    using assms(1) by (auto simp: normal_form_def)
  consider "c = [] \<or> c = ''.''" | "c = ''..''" | "plain c" using assms(2) by (auto simp: plain_def)
  then show ?thesis
  proof cases
    case 1
    then show ?thesis using assms(1) by (auto simp: normalize_step_def)
  next
    case 2
    show ?thesis
    proof (cases ps rule: rev_cases)
      case Nil
      have "replicate n ''..'' @ [''..''] = replicate (Suc n) ''..'' @ []"
        by (simp add: replicate_append_same)
      then show ?thesis
        using 2 nf Nil unfolding normal_form_def normalize_step_def
        by (cases n) (auto intro: exI [of _ "Suc n"] exI [of _ "[]"] simp del: replicate_Suc)
    next
      case (snoc qs p)
      then have "last cs \<noteq> ''..''" "cs \<noteq> []" "butlast cs = replicate n ''..'' @ qs"
        using nf by (auto simp: plain_def butlast_append)
      then show ?thesis
        using 2 nf snoc unfolding normal_form_def normalize_step_def by auto
    qed
  next
    case 3
    have "cs @ [c] = replicate n ''..'' @ (ps @ [c])" using nf by simp
    moreover have "list_all plain (ps @ [c])" using nf 3 by simp
    moreover have "normalize_step root cs c = cs @ [c]" using 3 by (simp add: normalize_step_def plain_def)
    ultimately show ?thesis using nf(3) unfolding normal_form_def by metis
  qed
qed

lemma foldl_normal_form:
  "normal_form root cs \<Longrightarrow> \<forall>c\<in>set comps. SLASH \<notin> set c \<Longrightarrow>
   normal_form root (foldl (normalize_step root) cs comps)"
  by (induction comps arbitrary: cs) (simp_all add: normalize_step_normal_form)

lemma split_slash_no_slash: "c \<in> set (split_slash p) \<Longrightarrow> SLASH \<notin> set c"
  using split_by_no_sep by fastforce

lemma reduced_normal_form: "\<exists>root cs. reduced p = root # cs \<and> normal_form root cs"
proof -
  have "normal_form root []" for root by (simp add: normal_form_def)
  then have "normal_form root (foldl (normalize_step root) [] (split_slash s))" for root s
    by (rule foldl_normal_form) (simp add: split_slash_no_slash)
  then show ?thesis unfolding reduced_def Let_def by blast
qed

lemma normalize_step_plain: "plain c \<Longrightarrow> normalize_step root cs c = cs @ [c]"
  by (simp add: normalize_step_def plain_def)

lemma foldl_plain: "list_all plain ps \<Longrightarrow> foldl (normalize_step root) cs ps = cs @ ps"
  by (induction ps arbitrary: cs) (simp_all add: normalize_step_plain)

lemma foldl_dotdots: "foldl (normalize_step []) (replicate m ''..'') (replicate n ''..'') = replicate (m + n) ''..''"
proof (induction n arbitrary: m)
  case (Suc n)
  have "normalize_step [] (replicate m ''..'') ''..'' = replicate (Suc m) ''..''"
    by (cases m) (simp_all add: normalize_step_def replicate_append_same)
  then show ?case using Suc [of "Suc m"] by simp
qed simp

lemma foldl_normal_form_id: "normal_form root cs \<Longrightarrow> foldl (normalize_step root) [] cs = cs"
proof -
  assume "normal_form root cs"
  then obtain n ps where nf: "cs = replicate n ''..'' @ ps" "list_all plain ps" "root \<noteq> [] \<longrightarrow> n = 0"
    by (auto simp: normal_form_def)
  then have "foldl (normalize_step root) [] (replicate n ''..'') = replicate n ''..''"
    using foldl_dotdots [of 0 n] by (cases "root = []") auto
  then show ?thesis using nf by (simp add: foldl_plain)
qed

section \<open>The two tests for relative segments agree\<close>

lemma split_slash_Cons:
  "split_slash (b # bs) = (if b = SLASH then [] # split_slash bs
     else (b # hd (split_slash bs)) # tl (split_slash bs))"
  by simp

definition dot_segment :: "bytes \<Rightarrow> bool" where
  "dot_segment s \<longleftrightarrow> s = ''.'' \<or> s = ''..''"

text \<open>
  The state of the scan describes the bytes of the current segment: its length, and its dots when
  it has nothing else.
\<close>

definition scan_state :: "bytes \<Rightarrow> nat \<Rightarrow> nat option \<Rightarrow> bool" where
  "scan_state seg n dots \<longleftrightarrow> n = length seg \<and>
     dots = (if \<forall>b\<in>set seg. b = CHR ''.'' then Some n else None)"

lemma dot_segment_length:
  "dot_segment seg \<longleftrightarrow> (\<forall>b\<in>set seg. b = CHR ''.'') \<and> (length seg = 1 \<or> length seg = 2)"
proof
  assume a: "(\<forall>b\<in>set seg. b = CHR ''.'') \<and> (length seg = 1 \<or> length seg = 2)"
  then have r: "seg = replicate (length seg) CHR ''.''" by (metis replicate_length_same)
  from a consider "length seg = 1" | "length seg = 2" by blast
  then show "dot_segment seg"
    by cases (use r in \<open>simp_all only: dot_segment_def numeral_2_eq_2 One_nat_def replicate_Suc replicate_0\<close>, simp_all)
qed (auto simp: dot_segment_def)

lemma scan_state_dot_segment:
  assumes "scan_state seg n dots"
  shows "(dots = Some n \<and> (n = Suc 0 \<or> n = 2)) \<longleftrightarrow> dot_segment seg"
proof (cases "\<forall>b\<in>set seg. b = CHR ''.''")
  case True
  then show ?thesis using assms dot_segment_length [of seg] by (simp add: scan_state_def)
next
  case False
  then have "dots = None" "\<not> dot_segment seg"
    using assms dot_segment_length [of seg] by (auto simp: scan_state_def)
  then show ?thesis by simp
qed

lemma scan_state_snoc:
  "scan_state seg n dots \<Longrightarrow>
   scan_state (seg @ [b]) (n + 1) (if b = CHR ''.'' then map_option Suc dots else None)"
  by (auto simp: scan_state_def)

text \<open>Scanning the rest, with the bytes of the current segment in front of it.\<close>

lemma relative_scan_correct:
  assumes "scan_state seg n dots" "SLASH \<notin> set seg" "prev \<Longrightarrow> seg = []"
  shows "relative_scan bs prev n dots \<longleftrightarrow>
    prev \<and> starts_with bs ''/'' \<or> has_window bs ''//'' \<or> list_ex dot_segment (split_slash (seg @ bs))"
  using assms
proof (induction bs arbitrary: seg n dots prev)
  case Nil
  then have "split_slash seg = [seg]" by (intro split_by_none) auto
  with Nil show ?case by (simp add: scan_state_dot_segment)
next
  case (Cons b bs)
  show ?case
  proof (cases "b = SLASH")
    case True
    then have s: "split_slash (seg @ b # bs) = seg # split_slash bs"
      using Cons.prems(2) split_by_append [of "\<lambda>b. b = SLASH" SLASH seg bs] by auto
    have "scan_state [] 0 (Some 0)" by (simp add: scan_state_def)
    from Cons.IH [OF this, of True]
    have "relative_scan bs True 0 (Some 0) \<longleftrightarrow>
        starts_with bs ''/'' \<or> has_window bs ''//'' \<or> list_ex dot_segment (split_slash bs)" by simp
    moreover have "has_window (b # bs) ''//'' \<longleftrightarrow> starts_with bs ''/'' \<or> has_window bs ''//''"
      using True by simp
    ultimately show ?thesis
      using True s scan_state_dot_segment [OF Cons.prems(1)] by auto
  next
    case False
    then show ?thesis
      using Cons.IH [OF scan_state_snoc [OF Cons.prems(1)], of b False] Cons.prems(2) by simp
  qed
qed

lemma has_relative_segment_eq: "has_relative_path_segment path = has_relative_segment path"
  using relative_scan_correct [of "[]" 0 "Some 0" False path]
  by (simp add: has_relative_path_segment_def has_relative_segment_def scan_state_def
      dot_segment_def [abs_def])

section \<open>What normalisation computes\<close>

lemma double_slash_iff: "has_window s ''//'' \<longleftrightarrow> [] \<in> set (butlast (tl (split_slash s)))"
proof (induction s)
  case (Cons b s)
  obtain h t where ht: "split_slash s = h # t" by (cases "split_slash s") auto
  show ?case
  proof (cases "b = SLASH")
    case True
    have "starts_with s ''/'' \<longleftrightarrow> h = [] \<and> t \<noteq> []"
      using ht by (cases s) (auto split: if_splits)
    then show ?thesis using True Cons.IH ht by auto
  qed (use Cons.IH ht in auto)
qed simp

lemma ends_with_slash: "ends_with s ''/'' \<longleftrightarrow> s \<noteq> [] \<and> last s = SLASH"
  by (cases s rule: rev_cases) (simp_all add: ends_with_def)

lemma last_split_slash: "s \<noteq> [] \<Longrightarrow> last s = SLASH \<longleftrightarrow> last (split_slash s) = [] \<and> 1 < length (split_slash s)"
proof (induction s)
  case (Cons b s)
  obtain h t where ht: "split_slash s = h # t" by (cases "split_slash s") auto
  show ?case
  proof (cases "s = []")
    case False
    have "split_slash s \<noteq> [[]]" using join_split [of SLASH s] False by auto
    with Cons.IH ht False show ?thesis by (auto split: if_splits)
  qed auto
qed simp

text \<open>The components a normal form keeps of a split.\<close>

definition kept :: "bytes list \<Rightarrow> bytes list" where
  "kept cs = filter (\<lambda>c. c \<noteq> [] \<and> c \<noteq> ''.'') cs"

lemma foldl_kept: "foldl (normalize_step root) cs comps = foldl (normalize_step root) cs (kept comps)"
  by (induction comps arbitrary: cs) (auto simp: kept_def normalize_step_def)

lemma simplify_dots_split:
  "hd (split_slash (simplify_dots s)) = hd (split_slash s) \<and>
   kept (tl (split_slash (simplify_dots s))) = kept (tl (split_slash s))"
proof (induction s rule: simplify_dots.induct)
  case (1 a b c rest)
  show ?case
  proof (cases "a = SLASH \<and> b = CHR ''.'' \<and> c = SLASH")
    case True
    obtain h t h' t' where "split_slash rest = h # t" "split_slash (simplify_dots rest) = h' # t'"
      by (metis list.exhaust split_by_not_Nil)
    then show ?thesis using 1(1) [OF True] True by (auto simp: kept_def)
  next
    case False
    let ?s = "b # c # rest"
    obtain h t h' t' where e: "split_slash ?s = h # t" "split_slash (simplify_dots ?s) = h' # t'"
      by (metis list.exhaust split_by_not_Nil)
    then have "h' = h" "kept t' = kept t" using 1(2) [OF False] by auto
    moreover have "simplify_dots (a # ?s) = a # simplify_dots ?s" using False by auto
    ultimately show ?thesis
      unfolding \<open>simplify_dots (a # ?s) = a # simplify_dots ?s\<close> split_slash_Cons [of a] e by (auto simp: kept_def)
  qed
qed auto

lemma simplify_dots_last: "s \<noteq> [] \<Longrightarrow> simplify_dots s \<noteq> [] \<and> last (simplify_dots s) = last s"
  by (induction s rule: simplify_dots.induct) (auto simp: last_ConsL)

lemma simplify_dots_hd: "hd (simplify_dots (b # s)) = b"
  by (cases s rule: list.exhaust; cases "tl s") auto

text \<open>A path in the form of an absolute POSIX path: one leading slash.\<close>

definition posix_absolute :: "bytes \<Rightarrow> bool" where
  "posix_absolute p \<longleftrightarrow>
     starts_with (normalize_slashes p) ''/'' \<and> \<not> starts_with (normalize_slashes p) ''//''"

definition posix_form :: "bytes list \<Rightarrow> bool \<Rightarrow> bytes" where
  "posix_form cs trailing = ''/'' @ join_with SLASH cs @ (if cs \<noteq> [] \<and> trailing then ''/'' else [])"

lemma posix_root:
  assumes "starts_with q ''/''" "\<not> starts_with q ''//''"
  shows "root_length q = 1" "\<exists>rest. q = SLASH # rest"
proof -
  obtain b rest where q: "q = b # rest" using assms(1) by (cases q) auto
  then have b: "b = SLASH" using assms(1) by simp
  then show "\<exists>rest. q = SLASH # rest" using q by simp
  show "root_length q = 1"
    using root_length_cases(1) [OF q] assms(2) q b by (cases rest) (auto simp: is_any_directory_separator_def)
qed

lemma posix_reduced:
  assumes "starts_with q ''/''" "\<not> starts_with q ''//''"
  shows "reduced q = ''/'' # foldl (normalize_step ''/'') [] (tl (split_slash q))"
  using posix_root [OF assms] by (auto simp: reduced_def)

lemma join_with_snoc: "xs \<noteq> [] \<Longrightarrow> join_with s (xs @ [x]) = join_with s xs @ s # x"
  by (induction xs rule: list_nonempty_induct) (auto simp: join_with_Cons)

text \<open>A path without relative segments is already in the form.\<close>

lemma posix_clean:
  assumes q: "starts_with q ''/''" "\<not> starts_with q ''//''" and clean: "\<not> has_relative_segment q"
  shows "q = posix_form (foldl (normalize_step ''/'') [] (tl (split_slash q))) (ends_with q ''/'')"
proof -
  obtain rest where rest: "q = SLASH # rest" using posix_root(2) [OF q] by blast
  let ?ps = "split_slash rest"
  have tl: "tl (split_slash q) = ?ps" using rest by simp
  have ne: "[] \<notin> set (butlast ?ps)"
    using clean tl double_slash_iff [of q] by (simp add: has_relative_segment_def)
  have nd: "c \<noteq> ''.'' \<and> c \<noteq> ''..''" if "c \<in> set ?ps" for c
    using clean that rest by (auto simp: has_relative_segment_def list_ex_iff)
  have plain: "plain c" if "c \<in> set ?ps" "c \<noteq> []" for c
    using nd [OF that(1)] that split_slash_no_slash [OF that(1)] by (simp add: plain_def)
  have join: "rest = join_with SLASH ?ps" by (simp add: join_split)
  show ?thesis
  proof (cases "last ?ps = []")
    case True
    then have ps: "?ps = butlast ?ps @ [[]]" by (metis append_butlast_last_id split_by_not_Nil)
    have "list_all plain (butlast ?ps)" using plain ne by (auto simp: list_all_iff dest: in_set_butlastD)
    then have "foldl (normalize_step ''/'') [] ?ps = butlast ?ps"
      by (subst ps) (simp add: foldl_plain)
    moreover have "1 < length ?ps" if "rest \<noteq> []"
    proof -
      have "butlast ?ps \<noteq> []" using that ps join by (metis append_Nil join_with.simps(2))
      then show ?thesis by (simp add: length_greater_0_conv [symmetric] del: length_greater_0_conv)
    qed
    then have "ends_with q ''/''"
      using rest last_split_slash [of rest] True by (cases "rest = []") (auto simp: ends_with_slash)
    moreover have "butlast ?ps \<noteq> [] \<Longrightarrow> rest = join_with SLASH (butlast ?ps) @ ''/''"
      using join_with_snoc [of "butlast ?ps" SLASH "[]"] ps join by simp
    moreover have "butlast ?ps = [] \<Longrightarrow> rest = []" using ps join by (metis append_Nil join_with.simps(2))
    ultimately show ?thesis using tl rest by (auto simp: posix_form_def)
  next
    case False
    then have "[] \<notin> set ?ps" using ne by (metis append_butlast_last_id split_by_not_Nil Un_iff insert_iff list.set set_append empty_iff)
    then have "list_all plain ?ps" using plain by (auto simp: list_all_iff)
    then have "foldl (normalize_step ''/'') [] ?ps = ?ps" by (simp add: foldl_plain)
    moreover have "rest \<noteq> []" using False by auto
    then have "\<not> ends_with q ''/''"
      using rest last_split_slash [of rest] False by (simp add: ends_with_slash)
    ultimately show ?thesis using tl rest join by (simp add: posix_form_def)
  qed
qed

lemma join_plain_last:
  "list_all plain cs \<Longrightarrow> cs \<noteq> [] \<Longrightarrow> join_with SLASH cs \<noteq> [] \<and> last (join_with SLASH cs) \<noteq> SLASH"
proof (induction cs rule: rev_induct)
  case (snoc c cs)
  then have "c \<noteq> []" "last c \<noteq> SLASH" by (auto simp: plain_def dest: last_in_set)
  then show ?case by (cases "cs = []") (auto simp: join_with_snoc)
qed simp

lemma posix_components_plain:
  "list_all plain (foldl (normalize_step ''/'') [] (split_slash s))"
proof -
  have "normal_form ''/'' (foldl (normalize_step ''/'') [] (split_slash s))"
    by (rule foldl_normal_form) (simp_all add: normal_form_def split_slash_no_slash)
  then show ?thesis by (auto simp: normal_form_def)
qed

lemma normalize_full_posix:
  assumes q: "starts_with q ''/''" "\<not> starts_with q ''//''"
  shows "normalize_full q = posix_form (foldl (normalize_step ''/'') [] (tl (split_slash q))) (ends_with q ''/'')"
proof -
  obtain rest where rest: "q = SLASH # rest" using posix_root(2) [OF q] by blast
  have root: "root_length q = 1" using posix_root(1) [OF q] .
  define cs where "cs = foldl (normalize_step ''/'') [] (split_slash rest)"
  have "list_all plain cs" unfolding cs_def by (rule posix_components_plain)
  then have l: "cs \<noteq> [] \<Longrightarrow> join_with SLASH cs \<noteq> [] \<and> last (join_with SLASH cs) \<noteq> SLASH"
    using join_plain_last by blast
  have "normalize_full q = (if ends_with q ''/'' \<and> \<not> ends_with (''/'' @ join_with SLASH cs) ''/''
      then ''/'' @ join_with SLASH cs @ ''/'' else ''/'' @ join_with SLASH cs)"
    using rest root by (simp add: normalize_full_def Let_def cs_def ends_with_slash)
  also have "\<dots> = posix_form cs (ends_with q ''/'')"
    using l by (cases "cs = []") (auto simp: posix_form_def ends_with_slash)
  finally show ?thesis using rest by (simp add: cs_def)
qed

lemma normalize_posix:
  assumes "posix_absolute p"
  shows "normalize p = posix_form (tl (reduced (normalize_slashes p))) (ends_with (normalize_slashes p) ''/'')"
proof -
  define q where "q = normalize_slashes p"
  have q: "starts_with q ''/''" "\<not> starts_with q ''//''" using assms by (simp_all add: posix_absolute_def q_def)
  obtain rest where rest: "q = SLASH # rest" using posix_root(2) [OF q] by blast
  let ?t = "simplify_dots q"
  have hd: "hd ?t = SLASH" "?t \<noteq> []" "last ?t = last q"
    using rest simplify_dots_hd simplify_dots_last [of q] by auto
  have trim: "trim_dot_slash ?t = ?t"
    using hd by (cases ?t) (auto simp: trim_dot_slash_def strip_prefix_def)
  have comps: "foldl (normalize_step ''/'') [] (tl (split_slash ?t)) = foldl (normalize_step ''/'') [] (tl (split_slash q))"
    using simplify_dots_split [of q] foldl_kept by metis
  have clean: "?t = posix_form (tl (reduced q)) (ends_with q ''/'')" if "\<not> has_relative_segment ?t"
  proof -
    have "starts_with ?t ''/''" "\<not> starts_with ?t ''//''"
      using hd that by (cases ?t; auto simp: has_relative_segment_def)+
    note c = posix_clean [OF this that]
    have ew: "ends_with ?t ''/'' = ends_with q ''/''" using hd rest by (simp add: ends_with_slash)
    from c [unfolded comps ew] show ?thesis unfolding posix_reduced [OF q] list.sel .
  qed
  show ?thesis
    using posix_clean [OF q] normalize_full_posix [OF q] clean trim
    unfolding normalize_def q_def [symmetric] posix_reduced [OF q] by (auto simp: Let_def posix_reduced [OF q])
qed

text \<open>The form has no relative segment, so normalising again changes nothing.\<close>

lemma posix_form_clean:
  assumes "list_all plain cs"
  shows "\<not> has_relative_segment (posix_form cs b)"
proof -
  have "split_slash (join_with SLASH cs) = cs" if "cs \<noteq> []"
    using assms that by (intro split_join) (auto simp: list_all_iff plain_def)
  then have s: "split_slash (posix_form cs b) = [] # (if cs = [] then [[]] else if b then cs @ [[]] else cs)"
    by (auto simp: posix_form_def split_by_snoc)
  have "[] \<notin> set cs" "''.'' \<notin> set cs" "''..'' \<notin> set cs"
    using assms by (auto simp: list_all_iff plain_def)
  then show ?thesis
    using s double_slash_iff [of "posix_form cs b"]
    by (auto simp: has_relative_segment_def list_ex_iff dest: in_set_butlastD)
qed

lemma set_join: "set (join_with s xs) \<subseteq> insert s (\<Union> (set ` set xs))"
  by (induction s xs rule: join_with.induct) auto

lemma normalize_step_subset: "set (normalize_step r cs c) \<subseteq> insert c (set cs)"
  by (auto simp: normalize_step_def dest: in_set_butlastD)

lemma foldl_normalize_subset: "set (foldl (normalize_step r) cs comps) \<subseteq> set cs \<union> set comps"
proof (induction comps arbitrary: cs)
  case (Cons c comps)
  then show ?case using normalize_step_subset [of r cs c] by fastforce
qed simp

lemma split_by_subset: "c \<in> set (split_by p s) \<Longrightarrow> set c \<subseteq> set s"
proof (induction s arbitrary: c)
  case (Cons b s)
  obtain h t where ht: "split_by p s = h # t" by (metis list.exhaust split_by_not_Nil)
  then have "\<forall>c\<in>set (h # t). set c \<subseteq> set s" using Cons.IH by simp
  then show ?case using Cons.prems ht by (auto split: if_splits)
qed simp

lemma posix_form_no_backslash:
  assumes "BACKSLASH \<notin> set s"
  shows "BACKSLASH \<notin> set (posix_form (foldl (normalize_step ''/'') [] (split_slash s)) b)"
proof -
  let ?cs = "foldl (normalize_step ''/'') [] (split_slash s)"
  have "\<forall>c\<in>set ?cs. BACKSLASH \<notin> set c"
    using foldl_normalize_subset [of "''/''" "[]" "split_slash s"] split_by_subset [of _ "\<lambda>b. b = SLASH" s] assms
    by fastforce
  moreover have "BACKSLASH \<noteq> SLASH" by (simp add: BACKSLASH_def)
  ultimately show ?thesis using set_join [of SLASH ?cs] by (auto simp: posix_form_def)
qed

lemma normalize_posix_idem:
  assumes "posix_absolute p"
  shows "normalize (normalize p) = normalize p"
proof -
  define q where "q = normalize_slashes p"
  have q: "starts_with q ''/''" "\<not> starts_with q ''//''" using assms by (simp_all add: posix_absolute_def q_def)
  obtain rest where rest: "q = SLASH # rest" using posix_root(2) [OF q] by blast
  let ?cs = "foldl (normalize_step ''/'') [] (split_slash rest)"
  have n: "normalize p = posix_form ?cs (ends_with q ''/'')"
    using normalize_posix [OF assms] posix_reduced [OF q] rest by (simp add: q_def)
  have "BACKSLASH \<notin> set rest" using normalize_slashes_no_backslash [of p] rest by (auto simp: q_def)
  then have "normalize_slashes (normalize p) = normalize p"
    unfolding n by (intro normalize_slashes_id posix_form_no_backslash)
  moreover have "\<not> has_relative_segment (normalize p)"
    unfolding n by (intro posix_form_clean posix_components_plain)
  ultimately show ?thesis by (simp add: normalize_def [of "normalize p"])
qed

section \<open>Relative paths\<close>

lemma common_components_le:
  "common_components f g as bs \<le> length as \<and> common_components f g as bs \<le> length bs"
  by (induction f g as bs rule: common_components.induct) auto

lemma common_components_take:
  "common_components (=) (=) as bs = k \<Longrightarrow> take k as = take k bs"
  by (induction "(=) :: bytes \<Rightarrow> bytes \<Rightarrow> bool" "(=) :: bytes \<Rightarrow> bytes \<Rightarrow> bool" as bs arbitrary: k
      rule: common_components.induct) (auto split: if_splits)

text \<open>Walking up and down again: as many \<open>..\<close> as components, each removing one.\<close>

lemma foldl_pops:
  "list_all plain cs \<Longrightarrow> n \<le> length cs \<Longrightarrow>
   foldl (normalize_step root) cs (replicate n ''..'') = take (length cs - n) cs"
proof (induction n arbitrary: cs)
  case (Suc n)
  then have ne: "cs \<noteq> []" by auto
  then have "last cs \<noteq> ''..''" using Suc.prems(1) by (auto simp: list_all_iff plain_def)
  then have "normalize_step root cs ''..'' = butlast cs" using ne by (simp add: normalize_step_def)
  moreover have "list_all plain (butlast cs)" using Suc.prems(1) by (auto simp: list_all_iff dest: in_set_butlastD)
  ultimately show ?case using Suc by (simp add: take_butlast)
qed simp

lemma split_slash_join_slash: "split_slash (xs @ SLASH # ys) = split_slash xs @ split_slash ys"
proof (induction xs)
  case (Cons b xs)
  then show ?case by (cases "split_slash xs") (auto split: if_splits)
qed simp

lemma combine_posix: "posix_absolute p \<Longrightarrow> combine cwd [p] = normalize_slashes p"
  using posix_root(1) [of "normalize_slashes p"]
  by (cases p) (auto simp: combine_def combine_step_def posix_absolute_def normalize_slashes_def Let_def)

lemma posix_components:
  assumes "posix_absolute p"
  obtains cs where "normalized_components p cwd = ''/'' # cs" "list_all plain cs"
    "cs = foldl (normalize_step ''/'') [] (tl (split_slash (normalize_slashes p)))"
    "\<forall>c\<in>set cs. BACKSLASH \<notin> set c"
proof -
  have q: "starts_with (normalize_slashes p) ''/''" "\<not> starts_with (normalize_slashes p) ''//''"
    using assms by (simp_all add: posix_absolute_def)
  obtain rest where rest: "normalize_slashes p = SLASH # rest" using posix_root(2) [OF q] by blast
  let ?cs = "foldl (normalize_step ''/'') [] (split_slash rest)"
  have nb: "BACKSLASH \<notin> set rest" using normalize_slashes_no_backslash [of p] rest by auto
  have "\<forall>c\<in>set ?cs. BACKSLASH \<notin> set c"
    using foldl_normalize_subset [of "''/''" "[]" "split_slash rest"]
      split_by_subset [of _ "\<lambda>b. b = SLASH" rest] nb by fastforce
  then show thesis
    using normalized_components_eq [of p cwd] combine_posix [OF assms] posix_reduced [OF q]
      posix_components_plain [of rest] rest by (intro that [of ?cs]) simp_all
qed

text \<open>Appending a relative text to an absolute path continues the reduction where it stood.\<close>

lemma combine_relative:
  assumes p: "posix_absolute p" and rel: "rel \<noteq> []" "root_length rel = 0" "BACKSLASH \<notin> set rel"
    "hd rel \<noteq> SLASH"
  shows "reduced (combine p [rel]) =
    ''/'' # foldl (normalize_step ''/'') (foldl (normalize_step ''/'') [] (tl (split_slash (normalize_slashes p))))
      (split_slash rel)"
proof -
  let ?q = "normalize_slashes p"
  have q: "starts_with ?q ''/''" "\<not> starts_with ?q ''//''" using p by (simp_all add: posix_absolute_def)
  obtain rest where rest: "?q = SLASH # rest" using posix_root(2) [OF q] by blast
  let ?c = "(if ends_with ?q ''/'' then ?q else ?q @ ''/'') @ rel"
  have c: "combine p [rel] = ?c"
    using rest rel normalize_slashes_id [OF rel(3)] by (simp add: combine_def combine_step_def Let_def)
  have c2: "starts_with ?c ''/''" "\<not> starts_with ?c ''//''"
    using rest q(2) rel(1,4) by (cases rest; cases rel; auto simp: ends_with_slash)+
  have "foldl (normalize_step ''/'') [] (tl (split_slash ?c)) =
      foldl (normalize_step ''/'') [] (split_slash rest @ split_slash rel)"
  proof (cases rest rule: rev_cases)
    case Nil
    then show ?thesis using rest by (simp add: ends_with_slash)
  next
    case (snoc r b)
    then show ?thesis
      using rest split_slash_join_slash [of r rel] split_slash_join_slash [of rest rel]
        split_by_snoc [of "\<lambda>b. b = SLASH" SLASH r]
      by (cases "b = SLASH") (simp_all add: ends_with_slash)
  qed
  then show ?thesis unfolding c posix_reduced [OF c2] by (simp add: rest)
qed

lemma relative_roundtrip:
  assumes p: "posix_absolute p" and t: "posix_absolute t" and eqf: "eqf ''/'' ''/''"
    and r: "root_length (relative_to_directory_or_url eqf p t False cwd True) = 0"
  shows "normalized_components (relative_to_directory_or_url eqf p t False cwd True) p =
    normalized_components t cwd"
proof -
  obtain fs where fs: "normalized_components p cwd = ''/'' # fs" "list_all plain fs"
    "fs = foldl (normalize_step ''/'') [] (tl (split_slash (normalize_slashes p)))"
    using posix_components [OF p] by metis
  obtain ts where ts: "normalized_components t cwd = ''/'' # ts" "list_all plain ts"
    "\<forall>c\<in>set ts. BACKSLASH \<notin> set c"
    using posix_components [OF t] by metis
  define k where "k = common_components (=) (=) fs ts"
  have k: "k \<le> length fs" "k \<le> length ts" "take k fs = take k ts"
    using common_components_le common_components_take k_def by auto
  let ?ups = "replicate (length fs - k) ''..''" and ?d = "drop k ts"
  define rel where "rel = join_with SLASH (?ups @ ?d)"
  have rel: "relative_to_directory_or_url eqf p t False cwd True = rel"
    using fs(1) ts(1) eqf
    by (simp add: relative_to_directory_or_url_def Let_def component_equality_def k_def rel_def
        path_from_components_def)
  have dp: "list_all plain ?d" using ts(2) by (auto simp: list_all_iff dest: in_set_dropD)
  have ok: "c \<noteq> [] \<and> SLASH \<notin> set c \<and> BACKSLASH \<notin> set c" if "c \<in> set (?ups @ ?d)" for c
    using that dp ts(3) by (auto simp: list_all_iff plain_def BACKSLASH_def dest: in_set_dropD)
  have fold: "foldl (normalize_step ''/'') fs (?ups @ ?d) = ts"
    using foldl_pops [OF fs(2), of "length fs - k"] foldl_plain [OF dp] k by simp
  show ?thesis
  proof (cases "?ups @ ?d = []")
    case True
    then have "rel = []" "fs = ts" using k fold by (simp_all add: rel_def)
    moreover have "combine p [[]] = normalize_slashes p" by (simp add: combine_def combine_step_def)
    ultimately show ?thesis
      using rel fs(1) ts(1) combine_posix [OF p, of cwd] by (simp add: normalized_components_eq)
  next
    case False
    obtain c cs where ccs: "?ups @ ?d = c # cs" using False by (cases "?ups @ ?d") auto
    have c: "c \<noteq> []" "SLASH \<notin> set c" using ok [of c] ccs by auto
    have "rel \<noteq> [] \<and> hd rel \<noteq> SLASH"
      unfolding rel_def ccs using c by (cases c; cases cs) auto
    moreover have "BACKSLASH \<notin> set rel"
    proof -
      have "BACKSLASH \<noteq> SLASH" by (simp add: BACKSLASH_def)
      then have "BACKSLASH \<notin> insert SLASH (\<Union> (set ` set (?ups @ ?d)))" using ok by blast
      then show ?thesis using set_join [of SLASH "?ups @ ?d"] unfolding rel_def by blast
    qed
    moreover have "split_slash rel = ?ups @ ?d"
      unfolding rel_def by (rule split_join [OF False]) (use ok in blast)
    ultimately show ?thesis
      using combine_relative [OF p, of rel] r fold fs(3) ts(1) unfolding rel normalized_components_eq [of rel]
      by simp
  qed
qed

section \<open>The order of lowered names\<close>

interpretation lower_order: comparison "compare_lower lower"
  unfolding compare_lower_def
  by unfold_locales (rule bytes_order.cmp_refl bytes_order.cmp_flip bytes_order.cmp_trans; assumption)+

section \<open>Properties\<close>

text \<open>
  C37. One reduction, three implementations. Splitting a combined path and reducing the list
  (\<open>path_components\<close>, \<open>reduce_path_components\<close>), reducing while splitting
  (\<open>normalized_components_from_combined\<close>) and \<open>normalized_components\<close> give the same components for
  every path and directory; the splitter's bounds check never fails.
\<close>

theorem reductions_agree:
  "\<exists>comps. path_components path cwd = Some comps \<and>
    reduce_path_components comps = normalized_components path cwd \<and>
    normalized_components_from_combined (combine cwd [path]) = normalized_components path cwd"
proof -
  let ?p = "combine cwd [path]"
  obtain comps where c: "split_path_components ?p (root_length ?p) = Some comps"
    using root_length_le [of ?p] by (simp add: split_path_components_def Let_def)
  then show ?thesis
    using reduce_path_components_eq [OF c]
    by (simp add: path_components_def Let_def normalized_components_eq normalized_components_from_combined_eq)
qed

text \<open>
  Reduced components. What \<open>normalized_components\<close> gives is a root and components none of which
  is empty or \<open>.\<close>; \<open>..\<close> occurs only in front and only without a root; and reducing again changes
  nothing.
\<close>

theorem normalized_components_normal:
  "\<exists>root cs. normalized_components path cwd = root # cs \<and> normal_form root cs \<and>
    reduce_path_components (normalized_components path cwd) = normalized_components path cwd"
proof -
  obtain root cs where r: "reduced (combine cwd [path]) = root # cs" "normal_form root cs"
    using reduced_normal_form by blast
  then have "reduce_path_components (root # cs) = root # cs"
    by (simp add: reduce_path_components_def foldl_reduce_step foldl_normal_form_id)
  then show ?thesis using r by (simp add: normalized_components_eq)
qed

text \<open>
  The cheap normaliser is the fast path of the full one. The byte-by-byte test
  \<open>has_relative_path_segment\<close> finds a relative segment exactly when the splitting test of
  \<open>normalize\<close> does, and on a path with forward slashes \<open>normalize\<close> gives what
  \<open>simple_normalize_path\<close> gives, or the full reduction where it declines.
\<close>

theorem simple_normalize_path_agrees:
  assumes "BACKSLASH \<notin> set path"
  shows "has_relative_path_segment path = has_relative_segment path \<and>
    normalize path = (case simple_normalize_path path of Some r \<Rightarrow> r | None \<Rightarrow> normalize_full path)"
  using normalize_slashes_id [OF assms]
  by (simp add: has_relative_segment_eq normalize_def simple_normalize_path_def Let_def)

theorem simple_normalize_path_agrees_witness:
  "has_relative_path_segment ''a/./b'' = has_relative_segment ''a/./b'' \<and>
   normalize ''a/./b'' = (case simple_normalize_path ''a/./b'' of Some r \<Rightarrow> r | None \<Rightarrow> normalize_full ''a/./b'')"
  by (rule simple_normalize_path_agrees) (simp add: BACKSLASH_def)

text \<open>
  C30. What normalisation computes. For a path with exactly one leading separator (so not for paths rooted at a
  drive, a server or a URL), through
  whichever of its three branches, \<open>normalize\<close> gives a slash, the reduced components joined by
  slashes, and a trailing slash exactly when the input had one and components remain; so it is
  idempotent.
\<close>

theorem normalize_posix_spec:
  assumes "posix_absolute path"
  shows "normalize path =
      posix_form (tl (normalized_components path cwd)) (ends_with (normalize_slashes path) ''/'') \<and>
    normalize (normalize path) = normalize path"
  using normalize_posix [OF assms] normalize_posix_idem [OF assms] combine_posix [OF assms, of cwd]
  by (simp add: normalized_components_eq)

theorem normalize_posix_spec_witness:
  "normalize ''/a/./b/../c/'' =
      posix_form (tl (normalized_components ''/a/./b/../c/'' [])) (ends_with (normalize_slashes ''/a/./b/../c/'') ''/'') \<and>
   normalize (normalize ''/a/./b/../c/'') = normalize ''/a/./b/../c/''"
  by (rule normalize_posix_spec) (simp add: posix_absolute_def normalize_slashes_def BACKSLASH_def)

text \<open>
  C38. Relative paths lead back. For a directory and a target with exactly one leading separator each and with
  case-sensitive comparison, the text that \<open>relative_to_directory_or_url\<close>
  gives from the directory to the target, read against the directory, has the components of the target,
  provided the text does not itself read as rooted (a component like \<open>c:\<close> in front).
\<close>

theorem relative_path_roundtrip:
  assumes "posix_absolute from_dir" "posix_absolute target" "eqf ''/'' ''/''"
    "root_length (relative_to_directory_or_url eqf from_dir target False cwd True) = 0"
  shows "normalized_components (relative_to_directory_or_url eqf from_dir target False cwd True) from_dir =
    normalized_components target cwd"
  using relative_roundtrip assms by blast

theorem relative_path_roundtrip_witness:
  "normalized_components (relative_to_directory_or_url (=) ''/a/b'' ''/a/c'' False [] True) ''/a/b'' =
    normalized_components ''/a/c'' []"
proof (rule relative_path_roundtrip)
  show "root_length (relative_to_directory_or_url (=) ''/a/b'' ''/a/c'' False [] True) = 0"
    by code_simp
qed (simp_all add: posix_absolute_def normalize_slashes_def BACKSLASH_def)

text \<open>
  The order of paths is not consistent. \<open>compare_paths\<close> compares the bytes of two paths without
  relative segments but the components of any others, and the two orders disagree: a path that
  precedes \<open>/a/b\<close> follows \<open>/a/./b\<close>, although these two compare equal.
\<close>

theorem compare_paths_inconsistent:
  "compare_paths lower ''/a-b'' ''/a/b'' [] True = - 1 \<and>
   compare_paths lower ''/a/b'' ''/a/./b'' [] True = 0 \<and>
   compare_paths lower ''/a-b'' ''/a/./b'' [] True = 1"
  by (intro conjI; code_simp)

end
