(* ===== verification/Source_Map_Generator.thy ===== *)
theory Source_Map_Generator
  imports Source_Map_Decoder Path_Components
begin

text \<open>
  \<open>crates/tsr_sourcemap/src/generator.rs\<close>: the incremental writer of a source map. All of
  \<open>Generator\<close>'s fields are a record, and every method that changes them is a function on it. A method
  that returns \<open>Result\<close> gives \<^term>\<open>Inl\<close> with the source's message, and a panic (the \<open>assert!\<close> of
  \<open>commit_pending_mapping\<close>, the digit table) is \<^term>\<open>None\<close>. The JSON text and the data URL of the map
  that \<open>raw_source_map\<close> returns are left out. A source is registered under its path relative to the
  directory of the sources, for which \<open>eqf\<close> is the fold equality of \<open>Path_Components\<close>.
\<close>

section \<open>State\<close>

record generator =
  g_current_directory :: bytes
  g_use_case_sensitive_file_names :: bool
  g_file :: bytes
  g_source_root :: bytes
  g_sources_directory_path :: bytes
  g_raw_sources :: "bytes list"
  g_sources :: "bytes list"
  g_source_to_source_index_map :: "bytes \<Rightarrow> isize option"
  g_sources_content :: "bytes option list"
  g_names :: "bytes list"
  g_name_to_name_index_map :: "bytes \<Rightarrow> isize option"
  g_mappings :: bytes
  last_generated_line :: isize
  last_generated_character :: isize
  last_source_index :: isize
  last_source_line :: isize
  last_source_character :: isize
  last_name_index :: isize
  has_last :: bool
  pending_generated_line :: isize
  pending_generated_character :: isize
  pending_source_index :: isize
  pending_source_line :: isize
  pending_source_character :: isize
  pending_name_index :: isize
  has_pending :: bool
  has_pending_source :: bool
  has_pending_name :: bool

definition new_generator :: "bytes \<Rightarrow> bytes \<Rightarrow> bytes \<Rightarrow> bytes \<Rightarrow> bool \<Rightarrow> generator" where
  "new_generator file source_root sources_directory_path current_directory case_sensitive =
     \<lparr>g_current_directory = current_directory, g_use_case_sensitive_file_names = case_sensitive,
      g_file = file, g_source_root = source_root,
      g_sources_directory_path = sources_directory_path,
      g_raw_sources = [], g_sources = [], g_source_to_source_index_map = (\<lambda>_. None),
      g_sources_content = [], g_names = [], g_name_to_name_index_map = (\<lambda>_. None),
      g_mappings = [],
      last_generated_line = 0, last_generated_character = 0, last_source_index = 0,
      last_source_line = 0, last_source_character = 0, last_name_index = 0, has_last = False,
      pending_generated_line = 0, pending_generated_character = 0, pending_source_index = 0,
      pending_source_line = 0, pending_source_character = 0, pending_name_index = 0,
      has_pending = False, has_pending_source = False, has_pending_name = False\<rparr>"

definition SOURCE_INDEX_NOT_SET :: isize where "SOURCE_INDEX_NOT_SET = - 1"
definition NAME_INDEX_NOT_SET :: isize where "NAME_INDEX_NOT_SET = - 1"
definition NOT_SET :: isize where "NOT_SET = - 1"
definition NOT_SET_UTF16 :: isize where "NOT_SET_UTF16 = - 1"

lemmas not_set_defs =
  SOURCE_INDEX_NOT_SET_def NAME_INDEX_NOT_SET_def NOT_SET_def NOT_SET_UTF16_def

section \<open>Sources, names and contents\<close>

text \<open>\<open>add_source\<close> returns the index of the source; one that is already registered keeps its index.\<close>

definition add_source :: "(bytes \<Rightarrow> bytes \<Rightarrow> bool) \<Rightarrow> bytes \<Rightarrow> generator \<Rightarrow> isize \<times> generator" where
  "add_source eqf file_name g =
     (let source = relative_to_directory_or_url eqf (g_sources_directory_path g) file_name True
            (g_current_directory g) (g_use_case_sensitive_file_names g) in
      case g_source_to_source_index_map g source of
        Some index \<Rightarrow> (index, g)
      | None \<Rightarrow>
          (let index = of_nat (length (g_sources g)) in
           (index, g\<lparr>g_sources := g_sources g @ [source], g_raw_sources := g_raw_sources g @ [file_name],
              g_source_to_source_index_map := (g_source_to_source_index_map g)(source := Some index)\<rparr>)))"

definition add_name :: "bytes \<Rightarrow> generator \<Rightarrow> isize \<times> generator" where
  "add_name name g =
     (case g_name_to_name_index_map g name of
        Some index \<Rightarrow> (index, g)
      | None \<Rightarrow>
          (let index = of_nat (length (g_names g)) in
           (index, g\<lparr>g_names := g_names g @ [name],
              g_name_to_name_index_map := (g_name_to_name_index_map g)(name := Some index)\<rparr>)))"

text \<open>The \<open>while\<close> loop pads the contents with \<open>None\<close> up to the index, which is then set.\<close>

definition set_source_content :: "isize \<Rightarrow> bytes \<Rightarrow> generator \<Rightarrow> bytes + generator" where
  "set_source_content index content g =
     (if index <s 0 \<or> of_nat (length (g_sources g)) \<le>s index
      then Inl ''sourceIndex is out of range''
      else let contents = g_sources_content g;
               padded = contents @ replicate (Suc (unat index) - length contents) None
           in Inr (g\<lparr>g_sources_content := padded[unat index := Some content]\<rparr>))"

section \<open>Committing the pending mapping\<close>

definition is_new_generated_position :: "generator \<Rightarrow> isize \<Rightarrow> isize \<Rightarrow> bool" where
  "is_new_generated_position g line character \<longleftrightarrow>
     \<not> has_pending g \<or> pending_generated_line g \<noteq> line \<or>
     pending_generated_character g \<noteq> character"

definition is_backtracking_source_position ::
    "generator \<Rightarrow> isize \<Rightarrow> isize \<Rightarrow> isize \<Rightarrow> bool" where
  "is_backtracking_source_position g index line character \<longleftrightarrow>
     index \<noteq> SOURCE_INDEX_NOT_SET \<and> line \<noteq> NOT_SET \<and> character \<noteq> NOT_SET_UTF16 \<and>
     pending_source_index g = index \<and>
     (line <s pending_source_line g \<or>
      pending_source_line g = line \<and> character <s pending_source_character g)"

definition should_commit_mapping :: "generator \<Rightarrow> bool" where
  "should_commit_mapping g \<longleftrightarrow>
     has_pending g \<and>
     (\<not> has_last g \<or>
      last_generated_line g \<noteq> pending_generated_line g \<or>
      last_generated_character g \<noteq> pending_generated_character g \<or>
      last_source_index g \<noteq> pending_source_index g \<or>
      last_source_line g \<noteq> pending_source_line g \<or>
      last_source_character g \<noteq> pending_source_character g \<or>
      last_name_index g \<noteq> pending_name_index g)"

definition append_mapping_char_code :: "byte \<Rightarrow> generator \<Rightarrow> generator" where
  "append_mapping_char_code c g = g\<lparr>g_mappings := g_mappings g @ [c]\<rparr>"

definition append_vlq :: "isize \<Rightarrow> generator \<Rightarrow> generator panicking" where
  "append_vlq value g =
     map_option (\<lambda>m. g\<lparr>g_mappings := m\<rparr>) (append_base64_vlq (g_mappings g) value)"

text \<open>The loop that writes one \<open>;\<close> per line up to the pending line.\<close>

function emit_line_delimiters :: "generator \<Rightarrow> generator" where
  "emit_line_delimiters g =
     (if last_generated_line g <s pending_generated_line g
      then emit_line_delimiters
             ((append_mapping_char_code CHR '';'' g)\<lparr>last_generated_line := last_generated_line g + 1\<rparr>)
      else g)"
  by pat_completeness auto
termination
proof (relation "measure (\<lambda>g. nat (sint (pending_generated_line g) - sint (last_generated_line g)))",
    simp, goal_cases)
  case (1 g)
  then have lt: "sint (last_generated_line g) < sint (pending_generated_line g)"
    by (simp add: signed_simps)
  have "last_generated_line g + 1 = word_of_int (sint (last_generated_line g) + 1)"
    by (simp add: scast_id)
  then have "sint (last_generated_line g + 1) = sint (last_generated_line g) + 1"
    using lt sint_bounds64 [of "last_generated_line g"] sint_bounds64 [of "pending_generated_line g"]
      sint_word_of_int64 [of "sint (last_generated_line g) + 1"] by simp
  with lt show ?case by (simp add: append_mapping_char_code_def)
qed

declare emit_line_delimiters.simps [simp del]

definition emit_delimiters :: "generator \<Rightarrow> generator panicking" where
  "emit_delimiters g =
     (if last_generated_line g <s pending_generated_line g
      then Some ((emit_line_delimiters g)\<lparr>last_generated_character := 0\<rparr>)
      else if last_generated_line g = pending_generated_line g
      then Some (if has_last g then append_mapping_char_code CHR '','' g else g)
      else None)"

definition emit_source_fields :: "generator \<Rightarrow> generator panicking" where
  "emit_source_fields g =
     (if has_pending_source g then do {
        g \<leftarrow> append_vlq (pending_source_index g - last_source_index g) g;
        g \<leftarrow> Some (g\<lparr>last_source_index := pending_source_index g\<rparr>);
        g \<leftarrow> append_vlq (pending_source_line g - last_source_line g) g;
        g \<leftarrow> Some (g\<lparr>last_source_line := pending_source_line g\<rparr>);
        g \<leftarrow> append_vlq (pending_source_character g - last_source_character g) g;
        g \<leftarrow> Some (g\<lparr>last_source_character := pending_source_character g\<rparr>);
        if has_pending_name g then do {
          g \<leftarrow> append_vlq (pending_name_index g - last_name_index g) g;
          Some (g\<lparr>last_name_index := pending_name_index g\<rparr>)
        } else Some g
      } else Some g)"

definition commit_pending_mapping :: "generator \<Rightarrow> generator panicking" where
  "commit_pending_mapping g =
     (if \<not> should_commit_mapping g then Some g
      else do {
        g \<leftarrow> emit_delimiters g;
        g \<leftarrow> append_vlq (pending_generated_character g - last_generated_character g) g;
        g \<leftarrow> Some (g\<lparr>last_generated_character := pending_generated_character g\<rparr>);
        g \<leftarrow> emit_source_fields g;
        Some (g\<lparr>has_last := True\<rparr>)
      })"

section \<open>Adding mappings\<close>

definition set_pending_source :: "isize \<Rightarrow> isize \<Rightarrow> isize \<Rightarrow> isize \<Rightarrow> generator \<Rightarrow> generator" where
  "set_pending_source index line character name g =
     (if index \<noteq> SOURCE_INDEX_NOT_SET \<and> line \<noteq> NOT_SET \<and> character \<noteq> NOT_SET_UTF16
      then let g = g\<lparr>pending_source_index := index, pending_source_line := line,
                     pending_source_character := character, has_pending_source := True\<rparr> in
           if name \<noteq> NAME_INDEX_NOT_SET
           then g\<lparr>pending_name_index := name, has_pending_name := True\<rparr> else g
      else g)"

definition add_mapping ::
    "isize \<Rightarrow> isize \<Rightarrow> isize \<Rightarrow> isize \<Rightarrow> isize \<Rightarrow> isize \<Rightarrow> generator \<Rightarrow> generator panicking" where
  "add_mapping line character s_index s_line s_character n_index g =
     do {
       g \<leftarrow> (if is_new_generated_position g line character \<or>
                is_backtracking_source_position g s_index s_line s_character
             then map_option (\<lambda>g. g\<lparr>pending_generated_line := line,
                    pending_generated_character := character, has_pending_source := False,
                    has_pending_name := False, has_pending := True\<rparr>) (commit_pending_mapping g)
             else Some g);
       Some (set_pending_source s_index s_line s_character n_index g)
     }"

definition add_generated_mapping ::
    "isize \<Rightarrow> isize \<Rightarrow> generator \<Rightarrow> (bytes + generator) panicking" where
  "add_generated_mapping line character g =
     (if line <s pending_generated_line g then Some (Inl ''generatedLine cannot backtrack'')
      else if character <s 0 then Some (Inl ''generatedCharacter cannot be negative'')
      else map_option (\<lambda>g. Inr (g\<lparr>has_pending_source := False, has_pending_name := False\<rparr>))
             (add_mapping line character SOURCE_INDEX_NOT_SET NOT_SET NOT_SET_UTF16
                NAME_INDEX_NOT_SET g))"

definition add_source_mapping ::
    "isize \<Rightarrow> isize \<Rightarrow> isize \<Rightarrow> isize \<Rightarrow> isize \<Rightarrow> generator \<Rightarrow> (bytes + generator) panicking" where
  "add_source_mapping line character s_index s_line s_character g =
     (if line <s pending_generated_line g then Some (Inl ''generatedLine cannot backtrack'')
      else if character <s 0 then Some (Inl ''generatedCharacter cannot be negative'')
      else if s_index <s 0 \<or> of_nat (length (g_sources g)) \<le>s s_index
      then Some (Inl ''sourceIndex is out of range'')
      else if s_line <s 0 then Some (Inl ''sourceLine cannot be negative'')
      else if s_character <s 0 then Some (Inl ''sourceCharacter cannot be negative'')
      else if has_pending g \<and> \<not> is_new_generated_position g line character \<and> \<not> has_pending_source g
      then Some (Inr g)
      else map_option Inr
             (add_mapping line character s_index s_line s_character NAME_INDEX_NOT_SET g))"

definition add_named_source_mapping ::
    "isize \<Rightarrow> isize \<Rightarrow> isize \<Rightarrow> isize \<Rightarrow> isize \<Rightarrow> isize \<Rightarrow> generator \<Rightarrow>
     (bytes + generator) panicking" where
  "add_named_source_mapping line character s_index s_line s_character n_index g =
     (if line <s pending_generated_line g then Some (Inl ''generatedLine cannot backtrack'')
      else if character <s 0 then Some (Inl ''generatedCharacter cannot be negative'')
      else if s_index <s 0 \<or> of_nat (length (g_sources g)) \<le>s s_index
      then Some (Inl ''sourceIndex is out of range'')
      else if s_line <s 0 then Some (Inl ''sourceLine cannot be negative'')
      else if s_character <s 0 then Some (Inl ''sourceCharacter cannot be negative'')
      else if n_index <s 0 \<or> of_nat (length (g_names g)) \<le>s n_index
      then Some (Inl ''nameIndex is out of range'')
      else if has_pending g \<and> \<not> is_new_generated_position g line character \<and> \<not> has_pending_source g
      then Some (Inr g)
      else map_option Inr
             (add_mapping line character s_index s_line s_character n_index g))"

section \<open>The finished map\<close>

record raw_source_map =
  r_version :: isize
  r_file :: bytes
  r_source_root :: bytes
  r_sources :: "bytes list"
  r_names :: "bytes list"
  r_mappings :: bytes
  r_sources_content :: "bytes option list option"

definition raw_source_map :: "generator \<Rightarrow> (raw_source_map \<times> generator) panicking" where
  "raw_source_map g =
     map_option (\<lambda>g. (\<lparr>r_version = 3, r_file = g_file g, r_source_root = g_source_root g,
         r_sources = g_sources g, r_names = g_names g, r_mappings = g_mappings g,
         r_sources_content = (if g_sources_content g = [] then None
                              else Some (g_sources_content g))\<rparr>, g))
       (commit_pending_mapping g)"

end
