(* ===== verification/Source_Map_Roundtrip.thy ===== *)
theory Source_Map_Roundtrip
  imports Source_Map_Generator
begin

text \<open>
  The writer and the reader together. The commit of a pending mapping is shown to append a text
  that the decoder reads as exactly that mapping; an invariant over arbitrary sequences of the
  generator's operations carries this to the whole \<open>mappings\<close> string, shows that no operation
  panics, and gives the end-to-end round trip of a list of segments.
\<close>

section \<open>What a commit writes\<close>

lemma append_vlq_eq [simp]:
  "append_vlq v g = Some (g\<lparr>g_mappings := g_mappings g @ vlq_text v\<rparr>)"
  by (simp add: append_vlq_def append_base64_vlq_eq)

definition source_text :: "generator \<Rightarrow> bytes" where
  "source_text g =
     (if has_pending_source g
      then vlq_text (pending_source_index g - last_source_index g) @
           vlq_text (pending_source_line g - last_source_line g) @
           vlq_text (pending_source_character g - last_source_character g) @
           (if has_pending_name g then vlq_text (pending_name_index g - last_name_index g) else [])
      else [])"

text \<open>The accumulated fields after a commit.\<close>

definition sync_last :: "generator \<Rightarrow> generator" where
  "sync_last g =
     (let g = g\<lparr>last_generated_line := pending_generated_line g,
                last_generated_character := pending_generated_character g, has_last := True\<rparr> in
      if has_pending_source g
      then let g = g\<lparr>last_source_index := pending_source_index g,
                     last_source_line := pending_source_line g,
                     last_source_character := pending_source_character g\<rparr> in
           if has_pending_name g then g\<lparr>last_name_index := pending_name_index g\<rparr> else g
      else g)"

definition delimiter_text :: "generator \<Rightarrow> bytes" where
  "delimiter_text g =
     (if last_generated_line g <s pending_generated_line g
      then replicate (nat (sint (pending_generated_line g) - sint (last_generated_line g))) CHR '';''
      else if has_last g then '','' else [])"

definition column_base :: "generator \<Rightarrow> isize" where
  "column_base g =
     (if last_generated_line g <s pending_generated_line g then 0 else last_generated_character g)"

definition commit_text :: "generator \<Rightarrow> bytes" where
  "commit_text g =
     delimiter_text g @ vlq_text (pending_generated_character g - column_base g) @ source_text g"

lemma sint_plus_one:
  "sint (a :: isize) < sint (b :: isize) \<Longrightarrow> sint (a + 1) = sint a + 1"
  using sint_bounds64 [of a] sint_bounds64 [of b] sint_word_of_int64 [of "sint a + 1"]
  by (simp add: scast_id)

lemma emit_line_delimiters_eq:
  "last_generated_line g \<le>s pending_generated_line g \<Longrightarrow>
   emit_line_delimiters g = g\<lparr>g_mappings := g_mappings g @
       replicate (nat (sint (pending_generated_line g) - sint (last_generated_line g))) CHR '';'',
     last_generated_line := pending_generated_line g\<rparr>"
proof (induction g rule: emit_line_delimiters.induct)
  case (1 g)
  let ?l = "last_generated_line g" and ?p = "pending_generated_line g"
  show ?case
  proof (cases "?l <s ?p")
    case True
    let ?g = "(append_mapping_char_code CHR '';'' g)\<lparr>last_generated_line := ?l + 1\<rparr>"
    have s: "sint (?l + 1) = sint ?l + 1"
      using True sint_plus_one by (simp add: signed_simps)
    then have le: "last_generated_line ?g \<le>s pending_generated_line ?g"
      using True by (simp add: signed_simps append_mapping_char_code_def)
    have n: "nat (sint ?p - sint ?l) = Suc (nat (sint ?p - sint (?l + 1)))"
      using True s by (simp add: signed_simps)
    from "1.IH" [OF True le] True n show ?thesis
      by (subst emit_line_delimiters.simps) (simp add: append_mapping_char_code_def)
  next
    case False
    with "1.prems" have "?l = ?p" by (simp add: signed_simps sint_eq_iff [symmetric])
    with False show ?thesis by (subst emit_line_delimiters.simps) simp
  qed
qed

lemma emit_delimiters_eq:
  "last_generated_line g \<le>s pending_generated_line g \<Longrightarrow>
   emit_delimiters g = Some (g\<lparr>g_mappings := g_mappings g @ delimiter_text g,
     last_generated_line := pending_generated_line g,
     last_generated_character := column_base g\<rparr>)"
  by (auto simp: emit_delimiters_def emit_line_delimiters_eq delimiter_text_def column_base_def
      append_mapping_char_code_def signed_simps sint_eq_iff [symmetric] intro: sym)

lemma emit_source_fields_eq:
  "emit_source_fields g = Some (g\<lparr>g_mappings := g_mappings g @ source_text g,
     last_source_index := (if has_pending_source g then pending_source_index g else last_source_index g),
     last_source_line := (if has_pending_source g then pending_source_line g else last_source_line g),
     last_source_character := (if has_pending_source g then pending_source_character g
       else last_source_character g),
     last_name_index := (if has_pending_source g \<and> has_pending_name g then pending_name_index g
       else last_name_index g)\<rparr>)"
  by (simp add: emit_source_fields_def source_text_def)

text \<open>A commit never panics when the pending line is not behind, and writes \<^const>\<open>commit_text\<close>.\<close>

lemma commit_pending_mapping_eq:
  assumes "last_generated_line g \<le>s pending_generated_line g"
  shows "commit_pending_mapping g =
     Some (if should_commit_mapping g
           then (sync_last g)\<lparr>g_mappings := g_mappings g @ commit_text g\<rparr> else g)"
  using assms
  by (simp add: commit_pending_mapping_def emit_delimiters_eq emit_source_fields_eq
      sync_last_def commit_text_def source_text_def Let_def)

section \<open>Reading a written segment\<close>

definition sep_start :: "bytes \<Rightarrow> bool" where
  "sep_start rest \<longleftrightarrow> rest = [] \<or> hd rest = CHR '','' \<or> hd rest = CHR '';''"

text \<open>The bytes the decoder has still to read.\<close>

abbreviation ahead :: "mappings_decoder \<Rightarrow> bytes" where
  "ahead d \<equiv> drop (d_pos d) (d_mappings d)"

lemma segment_end_iff:
  "d_pos d \<le> length (d_mappings d) \<Longrightarrow> is_source_mapping_segment_end d \<longleftrightarrow> sep_start (ahead d)"
  by (cases "d_pos d = length (d_mappings d)")
     (auto simp: is_source_mapping_segment_end_def sep_start_def hd_drop_conv_nth)

lemma sep_start_vlq [simp]: "\<not> sep_start (vlq_text v @ rest)"
  using vlq_text_hd [of v] vlq_text_not_Nil [of v] by (auto simp: sep_start_def)

lemma vlq_field:
  assumes "ahead d = vlq_text v @ rest" "vlq_range v" "d_error d = None"
  defines "d' \<equiv> d\<lparr>d_pos := d_pos d + length (vlq_text v)\<rparr>"
  shows "base64_vlq_format_decode d = (v, d')" "ahead d' = rest" "d_pos d' \<le> length (d_mappings d')"
proof -
  show "base64_vlq_format_decode d = (v, d')"
    using vlq_read_text [OF assms(2,1)] assms(2)
    by (simp add: base64_vlq_format_decode_def d'_def vlq_unzigzag_zigzag)
  show "ahead d' = rest"
    using assms(1) by (simp add: d'_def) (metis add.commute append_eq_conv_conj drop_drop)
  have "length (ahead d) = length (vlq_text v) + length rest" using assms(1) by simp
  then show "d_pos d' \<le> length (d_mappings d')"
    using vlq_text_not_Nil [of v] by (cases "vlq_text v") (auto simp: d'_def)
qed

text \<open>One field: what the decoder does at a written number, the value checks having passed.\<close>

lemma next_name_read:
  assumes "ahead d = vlq_text v @ rest" "vlq_range v" "d_error d = None" "sep_start rest"
    "0 \<le>s d_name_index d + v" "d_pos d \<le> length (d_mappings d)"
  defines "d' \<equiv> d\<lparr>d_pos := d_pos d + length (vlq_text v), d_name_index := d_name_index d + v\<rparr>"
  shows "next_name d = (Some (capture_mapping d' True True), d')" "ahead d' = rest"
proof -
  note f = vlq_field [OF assms(1,2,3)]
  have "ahead d' = rest" "d_pos d' \<le> length (d_mappings d')" using f(2,3) by (simp_all add: d'_def)
  then have "is_source_mapping_segment_end d'" using assms(4) by (simp add: segment_end_iff)
  moreover have "\<not> is_source_mapping_segment_end d" using assms(1,6) by (simp add: segment_end_iff)
  ultimately show "next_name d = (Some (capture_mapping d' True True), d')"
    using f(1) assms(3,5) by (simp add: next_name_def stop_defs d'_def)
  show "ahead d' = rest" by fact
qed

lemma next_name_end:
  "sep_start (ahead d) \<Longrightarrow> d_pos d \<le> length (d_mappings d) \<Longrightarrow>
   next_name d = (Some (capture_mapping d True False), d)"
  by (simp add: next_name_def segment_end_iff)

lemma next_source_character_read:
  assumes "ahead d = vlq_text v @ rest" "vlq_range v" "d_error d = None"
    "0 \<le>s d_source_character d + v"
  shows "next_source_character d = next_name (d\<lparr>d_pos := d_pos d + length (vlq_text v),
     d_source_character := d_source_character d + v\<rparr>)"
  using vlq_field(1) [OF assms(1,2,3)] assms(3) signed.leD [OF assms(4)]
  by (simp add: next_source_character_def stop_defs del: signed.not_less)

lemma not_segment_end_after:
  assumes "ahead d = vlq_text v @ vlq_text w @ rest" "vlq_range v" "d_error d = None"
  shows "\<not> is_source_mapping_segment_end (d\<lparr>d_pos := d_pos d + length (vlq_text v)\<rparr>)"
  using vlq_field(2,3) [OF assms] by (simp add: segment_end_iff)

lemma segment_end_cong [simp]:
  "is_source_mapping_segment_end (d\<lparr>d_source_line := x\<rparr>) = is_source_mapping_segment_end d"
  "is_source_mapping_segment_end (d\<lparr>d_source_index := x\<rparr>) = is_source_mapping_segment_end d"
  "is_source_mapping_segment_end (d\<lparr>d_generated_character := x\<rparr>) = is_source_mapping_segment_end d"
  by (simp_all add: is_source_mapping_segment_end_def)

lemma next_source_line_read:
  assumes "ahead d = vlq_text v @ vlq_text w @ rest" "vlq_range v" "d_error d = None"
    "0 \<le>s d_source_line d + v"
  shows "next_source_line d = next_source_character (d\<lparr>d_pos := d_pos d + length (vlq_text v),
     d_source_line := d_source_line d + v\<rparr>)"
  using vlq_field(1) [OF assms(1,2,3)] not_segment_end_after [OF assms(1,2,3)] assms(3) signed.leD [OF assms(4)]
  by (simp add: next_source_line_def stop_defs del: signed.not_less)

lemma next_source_index_read:
  assumes "ahead d = vlq_text v @ vlq_text w @ rest" "vlq_range v" "d_error d = None"
    "0 \<le>s d_source_index d + v"
  shows "next_source_index d = next_source_line (d\<lparr>d_pos := d_pos d + length (vlq_text v),
     d_source_index := d_source_index d + v\<rparr>)"
  using vlq_field(1) [OF assms(1,2,3)] not_segment_end_after [OF assms(1,2,3)] assms(3) signed.leD [OF assms(4)]
  by (simp add: next_source_index_def stop_defs del: signed.not_less)

lemma next_segment_read:
  assumes "ahead d = vlq_text v @ rest" "vlq_range v" "d_error d = None"
    "0 \<le>s d_generated_character d + v"
  defines "d' \<equiv> d\<lparr>d_pos := d_pos d + length (vlq_text v),
     d_generated_character := d_generated_character d + v\<rparr>"
  shows "next_segment d =
    (if sep_start rest then (Some (capture_mapping d' False False), d') else next_source_index d')"
proof -
  note f = vlq_field [OF assms(1,2,3)]
  have "ahead d' = rest" "d_pos d' \<le> length (d_mappings d')" using f(2,3) by (simp_all add: d'_def)
  then have "is_source_mapping_segment_end d' \<longleftrightarrow> sep_start rest" by (simp add: segment_end_iff)
  then show ?thesis
    using f(1) assms(3) signed.leD [OF assms(4)] by (simp add: next_segment_def stop_defs d'_def del: signed.not_less)
qed

section \<open>Reading a commit\<close>

text \<open>Positions and indices below \<open>2 ^ 62\<close>: their differences survive the sign bit of a VLQ.\<close>

definition in_range :: "isize \<Rightarrow> bool" where
  "in_range v \<longleftrightarrow> 0 \<le> sint v \<and> sint v < 2 ^ 62"

lemma in_range_0 [simp]: "in_range 0"
  by (simp add: in_range_def)

lemma in_range_nonneg: "in_range v \<Longrightarrow> 0 \<le>s v"
  by (simp add: in_range_def signed_simps)

lemma vlq_range_diff: "in_range a \<Longrightarrow> in_range b \<Longrightarrow> vlq_range (a - b)"
proof -
  assume "in_range a" "in_range b"
  moreover have "a - b = word_of_int (sint a - sint b)" by (simp add: scast_id)
  ultimately show ?thesis
    using sint_word_of_int64 [of "sint a - sint b"] by (auto simp: vlq_range_def in_range_def)
qed

definition pending_mapping :: "generator \<Rightarrow> mapping" where
  "pending_mapping g =
     \<lparr>generated_line = pending_generated_line g,
      generated_character = pending_generated_character g,
      source_index = (if has_pending_source g then pending_source_index g else MISSING_SOURCE),
      source_line = (if has_pending_source g then pending_source_line g else MISSING_LINE_OR_COLUMN),
      source_character = (if has_pending_source g then pending_source_character g
        else MISSING_UTF16_COLUMN),
      name_index = (if has_pending_source g \<and> has_pending_name g then pending_name_index g
        else MISSING_NAME)\<rparr>"

definition fields_in_range :: "generator \<Rightarrow> bool" where
  "fields_in_range g \<longleftrightarrow>
     in_range (last_generated_line g) \<and> in_range (last_generated_character g) \<and>
     in_range (last_source_index g) \<and> in_range (last_source_line g) \<and>
     in_range (last_source_character g) \<and> in_range (last_name_index g) \<and>
     in_range (pending_generated_line g) \<and> in_range (pending_generated_character g) \<and>
     in_range (pending_source_index g) \<and> in_range (pending_source_line g) \<and>
     in_range (pending_source_character g) \<and> in_range (pending_name_index g)"

text \<open>The decoder has read exactly what the generator has written.\<close>

definition synced :: "mappings_decoder \<Rightarrow> generator \<Rightarrow> bool" where
  "synced d g \<longleftrightarrow>
     \<not> d_done d \<and> d_error d = None \<and> d_pos d \<le> length (d_mappings d) \<and>
     d_generated_line d = last_generated_line g \<and>
     d_generated_character d = last_generated_character g \<and>
     d_source_index d = last_source_index g \<and> d_source_line d = last_source_line g \<and>
     d_source_character d = last_source_character g \<and> d_name_index d = last_name_index g"

lemma ahead_step:
  assumes "ahead d = t @ rest"
  shows "drop (d_pos d + length t) (d_mappings d) = rest"
    and "d_pos d \<le> length (d_mappings d) \<Longrightarrow> d_pos d + length t \<le> length (d_mappings d)"
proof -
  show "drop (d_pos d + length t) (d_mappings d) = rest"
    using assms by (metis add.commute append_eq_conv_conj drop_drop)
  have "length (ahead d) = length t + length rest" using assms by simp
  then show "d_pos d \<le> length (d_mappings d) \<Longrightarrow> d_pos d + length t \<le> length (d_mappings d)"
    by simp
qed

lemma next_source_fields:
  assumes a: "ahead d = vlq_text u @ vlq_text v @ vlq_text w @ rest"
    and r: "vlq_range u" "vlq_range v" "vlq_range w" and e: "d_error d = None"
    and nn: "0 \<le>s d_source_index d + u" "0 \<le>s d_source_line d + v" "0 \<le>s d_source_character d + w"
  shows "next_source_index d = next_name (d\<lparr>
     d_pos := d_pos d + length (vlq_text u @ vlq_text v @ vlq_text w),
     d_source_index := d_source_index d + u, d_source_line := d_source_line d + v,
     d_source_character := d_source_character d + w\<rparr>)"
proof -
  let ?d1 = "d\<lparr>d_pos := d_pos d + length (vlq_text u), d_source_index := d_source_index d + u\<rparr>"
  let ?d2 = "?d1\<lparr>d_pos := d_pos ?d1 + length (vlq_text v), d_source_line := d_source_line d + v\<rparr>"
  have a1: "ahead ?d1 = vlq_text v @ vlq_text w @ rest" using ahead_step(1) [OF a] by simp
  have a2: "ahead ?d2 = vlq_text w @ rest" using ahead_step(1) [OF a1] by simp
  have "next_source_index d = next_source_line ?d1"
    using next_source_index_read [OF a r(1) e nn(1)] by simp
  also have "\<dots> = next_source_character ?d2"
    using next_source_line_read [OF a1 r(2)] e nn(2) by simp
  also have "\<dots> = next_name (?d2\<lparr>d_pos := d_pos ?d2 + length (vlq_text w),
      d_source_character := d_source_character d + w\<rparr>)"
    using next_source_character_read [OF a2 r(3)] e nn(3) by simp
  also have "?d2\<lparr>d_pos := d_pos ?d2 + length (vlq_text w),
      d_source_character := d_source_character d + w\<rparr> = d\<lparr>
     d_pos := d_pos d + length (vlq_text u @ vlq_text v @ vlq_text w),
     d_source_index := d_source_index d + u, d_source_line := d_source_line d + v,
     d_source_character := d_source_character d + w\<rparr>"
    by (cases d) simp
  finally show ?thesis .
qed

lemma next_segment_commit:
  assumes rng: "fields_in_range g" and sep: "sep_start rest"
    and d: "synced d (g\<lparr>last_generated_line := pending_generated_line g,
                       last_generated_character := column_base g\<rparr>)"
    and a: "ahead d = vlq_text (pending_generated_character g - column_base g) @ source_text g @ rest"
  shows "\<exists>d'. next_segment d = (Some (pending_mapping g), d') \<and> synced d' (sync_last g) \<and>
    d_mappings d' = d_mappings d \<and> ahead d' = rest"
proof -
  have cb: "in_range (column_base g)" using rng by (simp add: column_base_def fields_in_range_def)
  have r: "vlq_range (pending_generated_character g - column_base g)"
    "vlq_range (pending_source_index g - last_source_index g)"
    "vlq_range (pending_source_line g - last_source_line g)"
    "vlq_range (pending_source_character g - last_source_character g)"
    "vlq_range (pending_name_index g - last_name_index g)"
    using rng cb by (auto intro!: vlq_range_diff simp: fields_in_range_def)
  have nn: "0 \<le>s pending_generated_character g" "0 \<le>s pending_source_index g"
    "0 \<le>s pending_source_line g" "0 \<le>s pending_source_character g" "0 \<le>s pending_name_index g"
    using rng by (simp_all add: in_range_nonneg fields_in_range_def)
  note sd = d [unfolded synced_def, simplified]
  have seg: "next_segment d = (let d' = d\<lparr>d_pos := d_pos d +
        length (vlq_text (pending_generated_character g - column_base g)),
      d_generated_character := pending_generated_character g\<rparr> in
    if sep_start (source_text g @ rest) then (Some (capture_mapping d' False False), d')
    else next_source_index d')"
    using next_segment_read [OF a r(1)] sd nn(1) by (simp add: Let_def)
  show ?thesis
  proof (cases "has_pending_source g")
    case False
    then show ?thesis
      using seg sep sd ahead_step [OF a]
      by (auto simp: source_text_def Let_def capture_mapping_def pending_mapping_def missing_defs
          synced_def sync_last_def)
  next
    case True
    let ?n = "if has_pending_name g then vlq_text (pending_name_index g - last_name_index g) else []"
    let ?s = "vlq_text (pending_source_index g - last_source_index g) @
      vlq_text (pending_source_line g - last_source_line g) @
      vlq_text (pending_source_character g - last_source_character g)"
    let ?d1 = "d\<lparr>d_pos := d_pos d + length (vlq_text (pending_generated_character g - column_base g)),
      d_generated_character := pending_generated_character g\<rparr>"
    let ?d2 = "?d1\<lparr>d_pos := d_pos ?d1 + length ?s, d_source_index := pending_source_index g,
      d_source_line := pending_source_line g, d_source_character := pending_source_character g\<rparr>"
    have st: "source_text g @ rest = ?s @ ?n @ rest" using True by (simp add: source_text_def)
    have a1: "ahead ?d1 = ?s @ ?n @ rest" and p1: "d_pos ?d1 \<le> length (d_mappings ?d1)"
      using ahead_step [OF a] sd st by simp_all
    have a2: "ahead ?d2 = ?n @ rest" and p2: "d_pos ?d2 \<le> length (d_mappings ?d2)"
      using ahead_step [OF a1] p1 by simp_all
    have "next_segment d = next_source_index ?d1"
      using seg st by (simp add: Let_def)
    also have "\<dots> = next_name ?d2"
      using next_source_fields [of ?d1, OF a1 [unfolded append_assoc] r(2-4)] sd nn(2-4) by simp
    finally have n: "next_segment d = next_name ?d2" .
    show ?thesis
    proof (cases "has_pending_name g")
      case False
      then show ?thesis
        using n next_name_end [of ?d2] a2 p2 sep sd True
        by (auto simp: capture_mapping_def pending_mapping_def missing_defs synced_def sync_last_def)
    next
      case name: True
      then show ?thesis
        using n next_name_read [of ?d2, OF _ r(5) _ sep] a2 p2 sd nn(5) True
          ahead_step [of ?d2 ?n rest]
        by (auto simp: capture_mapping_def pending_mapping_def missing_defs synced_def sync_last_def)
    qed
  qed
qed

lemma live_ahead: "\<not> d_done d \<Longrightarrow> ahead d = c # xs \<Longrightarrow> live d \<and> d_mappings d ! d_pos d = c"
  by (auto simp: live_def nth_via_drop intro: ccontr)

lemma decoder_next_semicolons:
  "\<not> d_done d \<Longrightarrow> ahead d = replicate (Suc n) CHR '';'' @ xs \<Longrightarrow>
   decoder_next d = decoder_next (d\<lparr>d_generated_line := d_generated_line d + of_nat (Suc n),
     d_generated_character := 0, d_pos := d_pos d + Suc n\<rparr>)"
proof (induction n arbitrary: d)
  case 0
  then show ?case
    using live_ahead [of d "CHR '';''" xs] decoder_next_unfold(1) [of d] by (simp add: new_line_def)
next
  case (Suc n)
  have "decoder_next d = decoder_next (new_line d)"
    using live_ahead [of d "CHR '';''"] decoder_next_unfold(1) [of d] Suc.prems by simp
  also have "\<dots> = decoder_next ((new_line d)\<lparr>
      d_generated_line := d_generated_line (new_line d) + of_nat (Suc n),
      d_generated_character := 0, d_pos := d_pos (new_line d) + Suc n\<rparr>)"
  proof (rule Suc.IH)
    show "\<not> d_done (new_line d)" using Suc.prems by (simp add: new_line_def)
    have "ahead d = CHR '';'' # replicate (Suc n) CHR '';'' @ xs" using Suc.prems by simp
    then show "ahead (new_line d) = replicate (Suc n) CHR '';'' @ xs"
      by (simp add: new_line_def) (metis drop_Suc list.sel(3) tl_drop)
  qed
  finally show ?case by (simp add: new_line_def add.assoc algebra_simps)
qed

lemma decoder_next_commit:
  assumes s: "synced d g" and rng: "fields_in_range g"
    and le: "last_generated_line g \<le>s pending_generated_line g"
    and a: "ahead d = commit_text g @ rest" and sep: "sep_start rest"
  shows "\<exists>d'. decoder_next d = (Some (pending_mapping g), d') \<and> synced d' (sync_last g) \<and>
    d_mappings d' = d_mappings d \<and> ahead d' = rest"
proof -
  let ?seg = "vlq_text (pending_generated_character g - column_base g) @ source_text g @ rest"
  have a': "ahead d = delimiter_text g @ ?seg" using a by (simp add: commit_text_def)
  note sd = s [unfolded synced_def]
  have "\<exists>e. decoder_next d = decoder_next e \<and> d_mappings e = d_mappings d \<and> ahead e = ?seg \<and>
    synced e (g\<lparr>last_generated_line := pending_generated_line g,
                 last_generated_character := column_base g\<rparr>)"
  proof (cases "last_generated_line g <s pending_generated_line g")
    case True
    let ?n = "nat (sint (pending_generated_line g) - sint (last_generated_line g))"
    obtain k where k: "?n = Suc k" using True by (cases ?n) (auto simp: signed_simps)
    have "delimiter_text g = replicate (Suc k) CHR '';''"
      using True k by (simp add: delimiter_text_def)
    then have ar: "ahead d = replicate (Suc k) CHR '';'' @ ?seg" using a' by simp
    let ?e = "d\<lparr>d_generated_line := d_generated_line d + of_nat (Suc k),
      d_generated_character := 0, d_pos := d_pos d + Suc k\<rparr>"
    have "of_nat (Suc k) = (of_int (sint (pending_generated_line g) - sint (last_generated_line g)) :: isize)"
      using True k by (metis of_int_of_nat_eq nat_eq_iff zero_less_Suc less_numeral_extra(3))
    then have "last_generated_line g + of_nat (Suc k) = pending_generated_line g"
      by (simp add: scast_id)
    moreover have "d_pos d + Suc k \<le> length (d_mappings d)" "ahead ?e = ?seg"
      using ahead_step [OF ar] sd by simp_all
    ultimately show ?thesis
      using decoder_next_semicolons [OF _ ar] sd True
      by (intro exI [of _ ?e]) (auto simp: synced_def column_base_def)
  next
    case False
    then have eq: "last_generated_line g = pending_generated_line g"
      using le by (simp add: signed_simps sint_eq_iff [symmetric])
    show ?thesis
    proof (cases "has_last g")
      case True
      then have ar: "ahead d = '','' @ ?seg" using a' False by (simp add: delimiter_text_def)
      let ?e = "d\<lparr>d_pos := Suc (d_pos d)\<rparr>"
      have "decoder_next d = decoder_next ?e"
        using live_ahead [of d "CHR '',''"] decoder_next_unfold(2) [of d] ar sd by simp
      then show ?thesis
        using ahead_step [OF ar] sd False eq
        by (intro exI [of _ ?e]) (auto simp: synced_def column_base_def)
    next
      case no_last: False
      then show ?thesis
        using a' sd False eq
        by (intro exI [of _ d]) (auto simp: synced_def column_base_def delimiter_text_def)
    qed
  qed
  then obtain e where e: "decoder_next d = decoder_next e" "d_mappings e = d_mappings d"
    "ahead e = ?seg" "synced e (g\<lparr>last_generated_line := pending_generated_line g,
                 last_generated_character := column_base g\<rparr>)" by blast
  have "live e \<and> d_mappings e ! d_pos e \<noteq> CHR '';'' \<and> d_mappings e ! d_pos e \<noteq> CHR '',''"
    using live_ahead [of e "hd ?seg" "tl ?seg"] e(3,4) vlq_text_hd vlq_text_not_Nil
    by (simp add: synced_def)
  then have "decoder_next e = next_segment e" by (simp add: decoder_next_unfold)
  with next_segment_commit [OF rng sep e(4,3)] e show ?thesis by auto
qed

section \<open>The text always decodes to what was committed\<close>

fun decodes :: "mappings_decoder \<Rightarrow> mapping list \<Rightarrow> mappings_decoder \<Rightarrow> bool" where
  "decodes d [] d' \<longleftrightarrow> d' = d"
| "decodes d (m # ms) d' \<longleftrightarrow> (\<exists>e. decoder_next d = (Some m, e) \<and> decodes e ms d')"

lemma decodes_snoc:
  "decodes d ms e \<Longrightarrow> decoder_next e = (Some m, d') \<Longrightarrow> decodes d (ms @ [m]) d'"
  by (induction ms arbitrary: d) auto

lemma decodes_values:
  "decodes d ms d' \<Longrightarrow> decoder_values d = (let (ns, e) = decoder_values d' in (ms @ ns, e))"
proof (induction ms arbitrary: d)
  case (Cons m ms)
  then obtain e where "decoder_next d = (Some m, e)" "decodes e ms d'" by auto
  with Cons.IH show ?case
    by (subst decoder_values.simps) (auto split: prod.splits)
qed (auto split: prod.splits)

definition written :: "generator \<Rightarrow> mapping list \<Rightarrow> bool" where
  "written g ms \<longleftrightarrow>
     (\<forall>rest. (has_last g \<longrightarrow> sep_start rest) \<longrightarrow>
       (\<exists>d. decodes (decode_mappings (g_mappings g @ rest)) ms d \<and> synced d g \<and> ahead d = rest))"

definition commit_log :: "generator \<Rightarrow> mapping list" where
  "commit_log g = (if should_commit_mapping g then [pending_mapping g] else [])"

lemma sep_start_commit_text: "has_last g \<Longrightarrow> sep_start (commit_text g @ rest)"
proof (cases "last_generated_line g <s pending_generated_line g")
  case True
  let ?n = "nat (sint (pending_generated_line g) - sint (last_generated_line g))"
  obtain k where "?n = Suc k" using True by (cases ?n) (auto simp: signed_simps)
  with True show ?thesis by (simp add: commit_text_def delimiter_text_def sep_start_def)
qed (simp add: commit_text_def delimiter_text_def sep_start_def)

lemma written_commit:
  assumes w: "written g ms" and rng: "fields_in_range g"
    and le: "last_generated_line g \<le>s pending_generated_line g"
    and c: "commit_pending_mapping g = Some g'"
  shows "written g' (ms @ commit_log g)"
proof (cases "should_commit_mapping g")
  case False
  with c le w show ?thesis by (simp add: commit_pending_mapping_eq commit_log_def)
next
  case True
  with c le have g': "g' = (sync_last g)\<lparr>g_mappings := g_mappings g @ commit_text g\<rparr>"
    by (simp add: commit_pending_mapping_eq)
  show ?thesis
    unfolding written_def
  proof (intro allI impI)
    fix rest assume "has_last g' \<longrightarrow> sep_start rest"
    then have sep: "sep_start rest" by (auto simp: g' sync_last_def Let_def split: if_splits)
    obtain d where d: "decodes (decode_mappings (g_mappings g @ commit_text g @ rest)) ms d"
      "synced d g" "ahead d = commit_text g @ rest"
      using w sep_start_commit_text [of g rest] by (auto simp: written_def)
    from decoder_next_commit [OF d(2) rng le d(3) sep] obtain e where
      "decoder_next d = (Some (pending_mapping g), e)" "synced e (sync_last g)" "ahead e = rest"
      by blast
    with decodes_snoc [OF d(1)] True show "\<exists>d. decodes (decode_mappings (g_mappings g' @ rest))
        (ms @ commit_log g) d \<and> synced d g' \<and> ahead d = rest"
      by (auto simp: g' commit_log_def synced_def)
  qed
qed

lemma written_values:
  assumes "written g ms"
  shows "\<exists>d. decoder_values (decode_mappings (g_mappings g)) = (ms, d) \<and> d_error d = None"
proof -
  obtain d where d: "decodes (decode_mappings (g_mappings g)) ms d" "synced d g" "ahead d = []"
    using assms [unfolded written_def, rule_format, of "[]"] by (auto simp: sep_start_def)
  then have "decoder_next d = stop_iterating d"
    by (intro decoder_next_unfold(4)) (simp add: live_def)
  then have "decoder_values d = ([], d\<lparr>d_done := True\<rparr>)"
    by (subst decoder_values.simps) (simp add: stop_iterating_def)
  with decodes_values [OF d(1)] d(2) show ?thesis by (simp add: synced_def)
qed

text \<open>The invariant of the generator.\<close>

definition gen_inv :: "generator \<Rightarrow> mapping list \<Rightarrow> bool" where
  "gen_inv g ms \<longleftrightarrow>
     fields_in_range g \<and> last_generated_line g \<le>s pending_generated_line g \<and> written g ms"

lemma written_cong:
  "g_mappings g' = g_mappings g \<Longrightarrow> has_last g' = has_last g \<Longrightarrow>
   last_generated_line g' = last_generated_line g \<Longrightarrow>
   last_generated_character g' = last_generated_character g \<Longrightarrow>
   last_source_index g' = last_source_index g \<Longrightarrow> last_source_line g' = last_source_line g \<Longrightarrow>
   last_source_character g' = last_source_character g \<Longrightarrow> last_name_index g' = last_name_index g \<Longrightarrow>
   written g' ms = written g ms"
  by (simp add: written_def synced_def)

text \<open>The fields a commit leaves alone.\<close>

definition same_pending :: "generator \<Rightarrow> generator \<Rightarrow> bool" where
  "same_pending g g' \<longleftrightarrow>
     pending_generated_line g' = pending_generated_line g \<and>
     pending_generated_character g' = pending_generated_character g \<and>
     pending_source_index g' = pending_source_index g \<and>
     pending_source_line g' = pending_source_line g \<and>
     pending_source_character g' = pending_source_character g \<and>
     pending_name_index g' = pending_name_index g \<and>
     has_pending g' = has_pending g \<and> has_pending_source g' = has_pending_source g \<and>
     has_pending_name g' = has_pending_name g \<and>
     g_sources g' = g_sources g \<and> g_names g' = g_names g"

lemma commit_inv:
  assumes "gen_inv g ms"
  shows "\<exists>g'. commit_pending_mapping g = Some g' \<and> gen_inv g' (ms @ commit_log g) \<and>
    same_pending g g'"
proof -
  note i = assms [unfolded gen_inv_def]
  obtain g' where g': "commit_pending_mapping g = Some g'"
    using commit_pending_mapping_eq [of g] i by blast
  moreover have "written g' (ms @ commit_log g)" using written_commit [OF _ _ _ g'] i by blast
  moreover have "g' = (if should_commit_mapping g
      then (sync_last g)\<lparr>g_mappings := g_mappings g @ commit_text g\<rparr> else g)"
    using g' commit_pending_mapping_eq [of g] i by auto
  ultimately show ?thesis
    using i by (auto simp: gen_inv_def fields_in_range_def sync_last_def Let_def same_pending_def)
qed

section \<open>The operations keep the invariant\<close>

text \<open>Source fields as the callers pass them: all absent, or present and in range.\<close>

definition source_args :: "isize \<Rightarrow> isize \<Rightarrow> isize \<Rightarrow> isize \<Rightarrow> bool" where
  "source_args si sl sc ni \<longleftrightarrow>
     si = - 1 \<and> sl = - 1 \<and> sc = - 1 \<and> ni = - 1 \<or>
     in_range si \<and> in_range sl \<and> in_range sc \<and> (ni = - 1 \<or> in_range ni)"

lemma in_range_not_minus_1 [simp]: "\<not> in_range (- 1)"
  by (simp add: in_range_def)

lemma in_range_neq: "in_range v \<Longrightarrow> v \<noteq> - 1"
  by auto

lemma add_mapping_inv:
  assumes i: "gen_inv g ms" and l: "pending_generated_line g \<le>s line"
    and r: "in_range line" "in_range character" and a: "source_args si sl sc ni"
  shows "\<exists>g'. add_mapping line character si sl sc ni g = Some g' \<and>
    gen_inv g' (ms @ (if is_new_generated_position g line character \<or>
      is_backtracking_source_position g si sl sc then commit_log g else []))"
proof (cases "is_new_generated_position g line character \<or>
      is_backtracking_source_position g si sl sc")
  case True
  obtain g1 where g1: "commit_pending_mapping g = Some g1" "gen_inv g1 (ms @ commit_log g)"
    "same_pending g g1"
    using commit_inv [OF i] by blast
  have "last_generated_line g1 \<le>s line"
    using g1(2,3) l by (auto simp: gen_inv_def same_pending_def intro: signed.order_trans)
  then show ?thesis
    using True g1 a r
    by (auto simp: add_mapping_def set_pending_source_def not_set_defs Let_def source_args_def
        gen_inv_def fields_in_range_def intro: iffD2 [OF written_cong])
next
  case False
  then show ?thesis
    using i a
    by (auto simp: add_mapping_def set_pending_source_def not_set_defs Let_def source_args_def
        gen_inv_def fields_in_range_def intro: iffD2 [OF written_cong])
qed

lemma gen_inv_frame:
  "gen_inv g ms \<Longrightarrow> gen_inv (g\<lparr>has_pending_source := x, has_pending_name := y\<rparr>) ms"
  "gen_inv g ms \<Longrightarrow> gen_inv (g\<lparr>g_sources := ss, g_raw_sources := rs, g_source_to_source_index_map := sm\<rparr>) ms"
  "gen_inv g ms \<Longrightarrow> gen_inv (g\<lparr>g_names := ns, g_name_to_name_index_map := nm\<rparr>) ms"
  "gen_inv g ms \<Longrightarrow> gen_inv (g\<lparr>g_sources_content := cs\<rparr>) ms"
  by (auto simp: gen_inv_def fields_in_range_def intro: iffD2 [OF written_cong])

datatype gen_op =
    AddSource bytes
  | AddName bytes
  | SetSourceContent isize bytes
  | AddGeneratedMapping isize isize
  | AddSourceMapping isize isize isize isize isize
  | AddNamedSourceMapping isize isize isize isize isize isize
  | RawSourceMap

fun gen_step :: "(bytes \<Rightarrow> bytes \<Rightarrow> bool) \<Rightarrow> gen_op \<Rightarrow> generator \<Rightarrow> (bytes + generator) panicking" where
  "gen_step eqf (AddSource f) g = Some (Inr (snd (add_source eqf f g)))"
| "gen_step eqf (AddName n) g = Some (Inr (snd (add_name n g)))"
| "gen_step eqf (SetSourceContent i c) g = Some (set_source_content i c g)"
| "gen_step eqf (AddGeneratedMapping l c) g = add_generated_mapping l c g"
| "gen_step eqf (AddSourceMapping l c si sl sc) g = add_source_mapping l c si sl sc g"
| "gen_step eqf (AddNamedSourceMapping l c si sl sc ni) g = add_named_source_mapping l c si sl sc ni g"
| "gen_step eqf RawSourceMap g = map_option (Inr \<circ> snd) (raw_source_map g)"

text \<open>Arguments below \<open>2 ^ 62\<close>; negative ones are allowed and refused by the operations.\<close>

definition small :: "isize \<Rightarrow> bool" where
  "small v \<longleftrightarrow> sint v < 2 ^ 62"

fun op_small :: "gen_op \<Rightarrow> bool" where
  "op_small (AddGeneratedMapping l c) \<longleftrightarrow> small l \<and> small c"
| "op_small (AddSourceMapping l c si sl sc) \<longleftrightarrow> small l \<and> small c \<and> small si \<and> small sl \<and> small sc"
| "op_small (AddNamedSourceMapping l c si sl sc ni) \<longleftrightarrow>
     small l \<and> small c \<and> small si \<and> small sl \<and> small sc \<and> small ni"
| "op_small _ \<longleftrightarrow> True"

lemma small_in_range: "small v \<Longrightarrow> 0 \<le>s v \<Longrightarrow> in_range v"
  by (simp add: small_def in_range_def signed_simps)

inductive gen_reachable :: "(bytes \<Rightarrow> bytes \<Rightarrow> bool) \<Rightarrow> generator \<Rightarrow> bool" for eqf where
  start: "gen_reachable eqf (new_generator file root dir cwd case_sensitive)"
| step: "gen_reachable eqf g \<Longrightarrow> op_small op \<Longrightarrow> gen_step eqf op g = Some (Inr g') \<Longrightarrow> gen_reachable eqf g'"

lemma gen_inv_new: "gen_inv (new_generator file root dir cwd case_sensitive) []"
  by (auto simp: gen_inv_def new_generator_def fields_in_range_def written_def synced_def
      decode_mappings_def)

lemma gen_inv_line_range:
  assumes "gen_inv g ms" "\<not> line <s pending_generated_line g" "small line"
  shows "in_range line" "pending_generated_line g \<le>s line"
proof -
  show le: "pending_generated_line g \<le>s line" using assms(2) by (simp add: signed.not_less)
  have "in_range (pending_generated_line g)"
    using assms(1) by (simp add: gen_inv_def fields_in_range_def)
  with le have "0 \<le>s line" by (auto simp: in_range_def signed_simps)
  with assms(3) show "in_range line" by (rule small_in_range)
qed

lemma gen_step_inv:
  assumes "gen_inv g ms" "op_small op"
  shows "\<exists>r. gen_step eqf op g = Some r \<and> (\<forall>g'. r = Inr g' \<longrightarrow> (\<exists>ns. gen_inv g' (ms @ ns)))"
proof (cases op)
  case (AddSource f)
  have "gen_inv (snd (add_source eqf f g)) (ms @ [])"
    using assms by (auto simp: add_source_def Let_def split: option.splits intro: gen_inv_frame)
  then show ?thesis using AddSource by (auto intro: exI [of _ "[]"])
next
  case (AddName n)
  have "gen_inv (snd (add_name n g)) (ms @ [])"
    using assms by (auto simp: add_name_def Let_def split: option.splits intro: gen_inv_frame)
  then show ?thesis using AddName by (auto intro: exI [of _ "[]"])
next
  case (SetSourceContent i c)
  have "set_source_content i c g = Inr g' \<Longrightarrow> gen_inv g' (ms @ [])" for g'
    using assms by (auto simp: set_source_content_def Let_def split: if_splits intro: gen_inv_frame)
  then show ?thesis using SetSourceContent by fastforce
next
  case (AddGeneratedMapping l c)
  show ?thesis
  proof (cases "l <s pending_generated_line g \<or> c <s 0")
    case False
    then have r: "pending_generated_line g \<le>s l" "in_range l" "in_range c"
      using assms AddGeneratedMapping gen_inv_line_range [of g ms l]
      by (auto simp: signed.not_less intro: small_in_range)
    from add_mapping_inv [OF assms(1) r, of "- 1" "- 1" "- 1" "- 1"] False AddGeneratedMapping
    show ?thesis
      by (auto simp: add_generated_mapping_def source_args_def not_set_defs intro: gen_inv_frame)
  qed (use AddGeneratedMapping in \<open>auto simp: add_generated_mapping_def\<close>)
next
  case (AddSourceMapping l c si sl sc)
  show ?thesis
  proof (cases "l <s pending_generated_line g \<or> c <s 0 \<or> si <s 0 \<or> sl <s 0 \<or> sc <s 0")
    case False
    then have r: "pending_generated_line g \<le>s l" "in_range l" "in_range c" "in_range si"
      "in_range sl" "in_range sc"
      using assms AddSourceMapping gen_inv_line_range [of g ms l]
      by (auto simp: signed.not_less intro: small_in_range)
    then have "source_args si sl sc (- 1)" by (simp add: source_args_def)
    from add_mapping_inv [OF assms(1) r(1-3) this] False AddSourceMapping assms(1) show ?thesis
      by (auto simp: add_source_mapping_def not_set_defs intro: exI [of _ "[]"])
  qed (use AddSourceMapping in \<open>auto simp: add_source_mapping_def\<close>)
next
  case (AddNamedSourceMapping l c si sl sc ni)
  show ?thesis
  proof (cases "l <s pending_generated_line g \<or> c <s 0 \<or> si <s 0 \<or> sl <s 0 \<or> sc <s 0 \<or> ni <s 0")
    case False
    then have r: "pending_generated_line g \<le>s l" "in_range l" "in_range c" "in_range si"
      "in_range sl" "in_range sc" "in_range ni"
      using assms AddNamedSourceMapping gen_inv_line_range [of g ms l]
      by (auto simp: signed.not_less intro: small_in_range)
    then have "source_args si sl sc ni" by (simp add: source_args_def)
    from add_mapping_inv [OF assms(1) r(1-3) this] False AddNamedSourceMapping assms(1) show ?thesis
      by (auto simp: add_named_source_mapping_def not_set_defs intro: exI [of _ "[]"])
  qed (use AddNamedSourceMapping in \<open>auto simp: add_named_source_mapping_def\<close>)
next
  case RawSourceMap
  then show ?thesis using commit_inv [OF assms(1)] by (auto simp: raw_source_map_def)
qed

lemma gen_reachable_inv: "gen_reachable eqf g \<Longrightarrow> \<exists>ms. gen_inv g ms"
proof (induction rule: gen_reachable.induct)
  case start
  show ?case using gen_inv_new by blast
next
  case (step g op g')
  then obtain ms where "gen_inv g ms" by blast
  from gen_step_inv [OF this step.hyps(2), of eqf] step.hyps(3) show ?case by auto
qed

section \<open>A list of segments, written and read back\<close>

text \<open>
  The client's view: each segment goes to the operation for the fields it has, and the first
  refusal ends the run.
\<close>

definition add_segment :: "mapping \<Rightarrow> generator \<Rightarrow> (bytes + generator) panicking" where
  "add_segment m g =
     (if source_index m = - 1
      then add_generated_mapping (generated_line m) (generated_character m) g
      else if name_index m = - 1
      then add_source_mapping (generated_line m) (generated_character m) (source_index m)
             (source_line m) (source_character m) g
      else add_named_source_mapping (generated_line m) (generated_character m) (source_index m)
             (source_line m) (source_character m) (name_index m) g)"

fun add_segments :: "mapping list \<Rightarrow> generator \<Rightarrow> (bytes + generator) panicking" where
  "add_segments [] g = Some (Inr g)"
| "add_segments (m # ms) g =
     (case add_segment m g of
        None \<Rightarrow> None
      | Some (Inl e) \<Rightarrow> Some (Inl e)
      | Some (Inr g') \<Rightarrow> add_segments ms g')"

definition encodable :: "generator \<Rightarrow> mapping \<Rightarrow> bool" where
  "encodable g m \<longleftrightarrow>
     in_range (generated_line m) \<and> in_range (generated_character m) \<and>
     (source_index m = - 1 \<and> source_line m = - 1 \<and> source_character m = - 1 \<and> name_index m = - 1 \<or>
      in_range (source_index m) \<and> in_range (source_line m) \<and> in_range (source_character m) \<and>
      source_index m <s of_nat (length (g_sources g)) \<and>
      (name_index m = - 1 \<or>
       in_range (name_index m) \<and> name_index m <s of_nat (length (g_names g))))"

definition gen_position :: "mapping \<Rightarrow> isize \<times> isize" where
  "gen_position m = (generated_line m, generated_character m)"

definition ready :: "generator \<Rightarrow> bool" where
  "ready g \<longleftrightarrow> (has_pending g \<longrightarrow> should_commit_mapping g) \<and> (has_last g \<longrightarrow> has_pending g)"

lemma add_mapping_new:
  assumes i: "gen_inv g ms" and rd: "ready g" and l: "pending_generated_line g \<le>s line"
    and r: "in_range line" "in_range character" and a: "source_args si sl sc ni"
    and new: "is_new_generated_position g line character"
  shows "\<exists>g'. add_mapping line character si sl sc ni g = Some g' \<and>
    gen_inv g' (ms @ commit_log g) \<and> has_pending g' \<and> ready g' \<and>
    g_sources g' = g_sources g \<and> g_names g' = g_names g \<and>
    pending_mapping g' = \<lparr>generated_line = line, generated_character = character,
      source_index = si, source_line = sl, source_character = sc, name_index = ni\<rparr>"
proof -
  obtain g' where g': "add_mapping line character si sl sc ni g = Some g'"
    "gen_inv g' (ms @ commit_log g)"
    using add_mapping_inv [OF i l r a] new by auto
  define g1 where "g1 = (if should_commit_mapping g
      then (sync_last g)\<lparr>g_mappings := g_mappings g @ commit_text g\<rparr> else g)"
  have c: "commit_pending_mapping g = Some g1"
    using commit_pending_mapping_eq i by (auto simp: gen_inv_def g1_def)
  have last: "has_last g1 \<Longrightarrow> last_generated_line g1 \<noteq> line \<or> last_generated_character g1 \<noteq> character"
    using rd new by (auto simp: g1_def ready_def sync_last_def Let_def is_new_generated_position_def
        should_commit_mapping_def split: if_splits)
  have src: "g_sources g1 = g_sources g" "g_names g1 = g_names g"
    by (auto simp: g1_def sync_last_def Let_def)
  have "g' = set_pending_source si sl sc ni (g1\<lparr>pending_generated_line := line,
      pending_generated_character := character, has_pending_source := False,
      has_pending_name := False, has_pending := True\<rparr>)"
    using g'(1) new c by (simp add: add_mapping_def)
  then show ?thesis
    using g' a last src
    by (auto simp: set_pending_source_def not_set_defs Let_def source_args_def pending_mapping_def
        ready_def should_commit_mapping_def missing_defs)
qed

lemma add_segment_new:
  assumes i: "gen_inv g ms" and rd: "ready g" and e: "encodable g m"
    and l: "pending_generated_line g \<le>s generated_line m"
    and new: "is_new_generated_position g (generated_line m) (generated_character m)"
  shows "\<exists>g'. add_segment m g = Some (Inr g') \<and> gen_inv g' (ms @ commit_log g) \<and>
    has_pending g' \<and> ready g' \<and> g_sources g' = g_sources g \<and> g_names g' = g_names g \<and>
    pending_mapping g' = m"
proof -
  have r: "in_range (generated_line m)" "in_range (generated_character m)"
    and a: "source_args (source_index m) (source_line m) (source_character m) (name_index m)"
    using e by (auto simp: encodable_def source_args_def)
  have nb: "\<not> generated_line m <s pending_generated_line g" "\<not> generated_character m <s 0"
    using l in_range_nonneg [OF r(2)] by (auto simp: signed.not_less)
  obtain g' where g': "add_mapping (generated_line m) (generated_character m) (source_index m)
      (source_line m) (source_character m) (name_index m) g = Some g'"
    "gen_inv g' (ms @ commit_log g)" "has_pending g'" "ready g'" "g_sources g' = g_sources g"
    "g_names g' = g_names g" "pending_mapping g' = m"
    using add_mapping_new [OF i rd l r a new] by auto
  show ?thesis
  proof (cases "source_index m = - 1")
    case True
    then have m: "source_line m = - 1" "source_character m = - 1" "name_index m = - 1"
      using e by (auto simp: encodable_def)
    have "in_range (pending_source_index g')"
      using g'(2) by (auto simp: gen_inv_def fields_in_range_def)
    moreover have "source_index (pending_mapping g') = - 1" using g'(7) True by simp
    ultimately have ps: "\<not> has_pending_source g'"
      by (auto simp: pending_mapping_def dest: in_range_neq split: if_splits)
    let ?g = "g'\<lparr>has_pending_source := False, has_pending_name := False\<rparr>"
    have "pending_mapping ?g = m" "ready ?g"
      using g'(4,7) ps by (auto simp: pending_mapping_def ready_def should_commit_mapping_def)
    moreover have "add_segment m g = Some (Inr ?g)"
      using g'(1) nb True m by (simp add: add_segment_def add_generated_mapping_def not_set_defs)
    ultimately show ?thesis
      using gen_inv_frame(1) [OF g'(2)] g'(3,5,6) by simp
  next
    case False
    then have "\<not> source_index m <s 0" "\<not> source_line m <s 0" "\<not> source_character m <s 0"
      "\<not> of_nat (length (g_sources g)) \<le>s source_index m"
      "name_index m \<noteq> - 1 \<Longrightarrow> \<not> name_index m <s 0 \<and> \<not> of_nat (length (g_names g)) \<le>s name_index m"
      using e by (auto simp: encodable_def signed.not_less signed.not_le in_range_nonneg)
    then show ?thesis
      using False g' nb new
      by (auto simp: add_segment_def add_source_mapping_def add_named_source_mapping_def not_set_defs)
  qed
qed

text \<open>A list of segments that never goes back, one segment per generated position.\<close>

fun chained :: "generator \<Rightarrow> mapping list \<Rightarrow> bool" where
  "chained g [] \<longleftrightarrow> True"
| "chained g (m # ms) \<longleftrightarrow>
     pending_generated_line g \<le>s generated_line m \<and>
     is_new_generated_position g (generated_line m) (generated_character m) \<and>
     sorted (map (\<lambda>m. sint (generated_line m)) (m # ms)) \<and>
     distinct_adj (map gen_position (m # ms))"

lemma chained_tl:
  assumes "chained g (m # ms)" "pending_mapping g' = m" "has_pending g'"
  shows "chained g' ms"
proof -
  have "pending_generated_line g' = generated_line m"
    "pending_generated_character g' = generated_character m"
    using assms(2) by (auto simp: pending_mapping_def)
  then show ?thesis
    using assms(1,3) by (cases ms) (auto simp: is_new_generated_position_def gen_position_def signed_simps)
qed

lemma add_segments_inv:
  assumes "gen_inv g pre" "ready g" "\<forall>m\<in>set ms. encodable g m" "chained g ms"
  shows "\<exists>g' post. add_segments ms g = Some (Inr g') \<and> gen_inv g' post \<and>
    post @ commit_log g' = pre @ commit_log g @ ms"
  using assms
proof (induction ms arbitrary: g pre)
  case Nil
  then show ?case by auto
next
  case (Cons m ms)
  obtain g' where g': "add_segment m g = Some (Inr g')" "gen_inv g' (pre @ commit_log g)"
    "has_pending g'" "ready g'" "g_sources g' = g_sources g" "g_names g' = g_names g"
    "pending_mapping g' = m"
    using add_segment_new [OF Cons.prems(1,2), of m] Cons.prems(3,4) by auto
  have "\<forall>m\<in>set ms. encodable g' m" using Cons.prems(3) g'(5,6) by (auto simp: encodable_def)
  moreover have "chained g' ms" using chained_tl Cons.prems(4) g'(3,7) by blast
  moreover have "commit_log g' = [m]" using g'(3,4,7) by (simp add: commit_log_def ready_def)
  ultimately show ?case using Cons.IH [OF g'(2,4)] g'(1) by auto
qed

text \<open>A generator whose sources and names are registered and that has no mapping yet.\<close>

definition no_mappings :: "generator \<Rightarrow> bool" where
  "no_mappings g \<longleftrightarrow>
     g_mappings g = [] \<and> \<not> has_last g \<and> \<not> has_pending g \<and>
     last_generated_line g = 0 \<and> last_generated_character g = 0 \<and> last_source_index g = 0 \<and>
     last_source_line g = 0 \<and> last_source_character g = 0 \<and> last_name_index g = 0 \<and>
     pending_generated_line g = 0 \<and> pending_generated_character g = 0 \<and>
     pending_source_index g = 0 \<and> pending_source_line g = 0 \<and>
     pending_source_character g = 0 \<and> pending_name_index g = 0"

lemma no_mappings_inv: "no_mappings g \<Longrightarrow> gen_inv g [] \<and> ready g \<and> commit_log g = []"
  by (auto simp: gen_inv_def no_mappings_def fields_in_range_def written_def synced_def
      decode_mappings_def ready_def commit_log_def should_commit_mapping_def)

section \<open>Properties\<close>

text \<open>
  The generator never panics. In every state a client can reach with operations whose numeric
  arguments are below \<open>2 ^ 62\<close> (negative ones included), every operation returns: the \<open>assert!\<close> of
  \<open>commit_pending_mapping\<close> that the generated line does not go back holds, and the base64 table is
  never asked for a digit it does not have.
\<close>

theorem generator_never_panics:
  assumes "gen_reachable eqf g" "op_small op"
  shows "gen_step eqf op g \<noteq> None"
  using gen_reachable_inv [OF assms(1)] gen_step_inv [OF _ assms(2), of g _ eqf] by force

theorem generator_never_panics_witness:
  "gen_step (=) (AddGeneratedMapping (- 1) 5) (new_generator ''a.js'' [] [] [] True) \<noteq> None"
  by (rule generator_never_panics) (auto intro: gen_reachable.start simp: small_def)

text \<open>
  C5. Writer and reader agree at every moment. In every state that the operations can reach, \<open>add_source\<close>
  included and numeric arguments below \<open>2 ^ 62\<close>, the \<open>mappings\<close> text written so far decodes without an error, and a commit makes the decoder read exactly one segment more:
  the pending one (or nothing, when there is nothing to commit).
\<close>

theorem commit_appends_pending:
  assumes "gen_reachable eqf g"
  shows "\<exists>g' ms d d'. commit_pending_mapping g = Some g' \<and>
    decoder_values (decode_mappings (g_mappings g)) = (ms, d) \<and> d_error d = None \<and>
    decoder_values (decode_mappings (g_mappings g')) =
      (ms @ (if should_commit_mapping g then [pending_mapping g] else []), d') \<and>
    d_error d' = None"
proof -
  obtain ms where i: "gen_inv g ms" using gen_reachable_inv [OF assms] by blast
  obtain g' where g': "commit_pending_mapping g = Some g'" "gen_inv g' (ms @ commit_log g)"
    using commit_inv [OF i] by blast
  then have "written g ms" "written g' (ms @ commit_log g)" using i by (auto simp: gen_inv_def)
  from written_values [OF this(1)] written_values [OF this(2)] g'(1) show ?thesis
    by (auto simp: commit_log_def)
qed

text \<open>A state with a source, a written segment and a pending one that names the source.\<close>

definition pending_ops :: "gen_op list" where
  "pending_ops = [AddSource ''/src/in.ts'', AddName ''f'', AddNamedSourceMapping 0 4 0 2 3 0, AddSourceMapping 1 7 0 5 6]"

fun gen_steps :: "(bytes \<Rightarrow> bytes \<Rightarrow> bool) \<Rightarrow> gen_op list \<Rightarrow> generator \<Rightarrow> generator option" where
  "gen_steps eqf [] g = Some g"
| "gen_steps eqf (op # ops) g = (case gen_step eqf op g of Some (Inr g') \<Rightarrow> gen_steps eqf ops g' | _ \<Rightarrow> None)"

lemma gen_steps_reachable:
  "gen_reachable eqf g \<Longrightarrow> list_all op_small ops \<Longrightarrow> gen_steps eqf ops g = Some g' \<Longrightarrow> gen_reachable eqf g'"
proof (induction ops arbitrary: g)
  case (Cons op ops)
  then obtain g1 where "gen_step eqf op g = Some (Inr g1)" "gen_steps eqf ops g1 = Some g'"
    by (auto split: option.splits sum.splits)
  then show ?case using Cons gen_reachable.step [of eqf g op g1] by simp
qed simp

definition pending_generator :: generator where
  "pending_generator = the (gen_steps (=) pending_ops (new_generator ''a.js'' [] ''/out'' ''/out'' True))"

lemma pending_generator_reachable: "gen_reachable (=) pending_generator"
proof (rule gen_steps_reachable)
  show "gen_reachable (=) (new_generator ''a.js'' [] ''/out'' ''/out'' True)" by (rule gen_reachable.start)
  show "list_all op_small pending_ops" by code_simp
  have "gen_steps (=) pending_ops (new_generator ''a.js'' [] ''/out'' ''/out'' True) \<noteq> None" by code_simp
  then show "gen_steps (=) pending_ops (new_generator ''a.js'' [] ''/out'' ''/out'' True) = Some pending_generator"
    by (simp add: pending_generator_def)
qed

theorem commit_appends_pending_witness:
  "g_sources pending_generator = [''../src/in.ts''] \<and> has_pending_source pending_generator \<and>
    (\<exists>g' ms d d'. commit_pending_mapping pending_generator = Some g' \<and>
      decoder_values (decode_mappings (g_mappings pending_generator)) = (ms, d) \<and> d_error d = None \<and>
      decoder_values (decode_mappings (g_mappings g')) = (ms @ [pending_mapping pending_generator], d') \<and>
      d_error d' = None)"
proof -
  have "g_sources pending_generator = [''../src/in.ts'']" "has_pending_source pending_generator"
    "should_commit_mapping pending_generator"
    by code_simp+
  then show ?thesis using commit_appends_pending [OF pending_generator_reachable] by simp
qed

text \<open>
  C1. The end-to-end round trip. A client registers its sources and names, adds a list of segments
  whose fields are below \<open>2 ^ 62\<close> and name registered sources and names, in order of generated line
  and with no two neighbours at the same generated position, and asks for the map. No call is
  refused, and decoding the map's \<open>mappings\<close> gives the same list of segments.
\<close>

theorem segments_roundtrip:
  assumes "no_mappings g" "\<forall>m\<in>set ms. encodable g m"
    "sorted (map (\<lambda>m. sint (generated_line m)) ms)" "distinct_adj (map gen_position ms)"
  shows "\<exists>g1 r g2 d. add_segments ms g = Some (Inr g1) \<and> raw_source_map g1 = Some (r, g2) \<and>
    decoder_values (decode_mappings (r_mappings r)) = (ms, d) \<and> d_error d = None"
proof -
  note n = no_mappings_inv [OF assms(1)]
  have "chained g ms"
    using assms by (cases ms) (auto simp: no_mappings_def is_new_generated_position_def encodable_def
        in_range_nonneg)
  then obtain g1 post where g1: "add_segments ms g = Some (Inr g1)" "gen_inv g1 post"
    "post @ commit_log g1 = ms"
    using add_segments_inv [of g "[]" ms] n assms(2) by auto
  obtain g2 where g2: "commit_pending_mapping g1 = Some g2" "gen_inv g2 ms"
    using commit_inv [OF g1(2)] g1(3) by auto
  then have "written g2 ms" by (simp add: gen_inv_def)
  from written_values [OF this] g1(1) g2(1) show ?thesis by (auto simp: raw_source_map_def)
qed

definition example_generator :: generator where
  "example_generator = (new_generator ''out.js'' [] [] [] True)\<lparr>g_sources := [''in.ts'']\<rparr>"

definition example_segments :: "mapping list" where
  "example_segments =
     [\<lparr>generated_line = 0, generated_character = 0, source_index = 0, source_line = 0,
       source_character = 0, name_index = - 1\<rparr>,
      \<lparr>generated_line = 2, generated_character = 7, source_index = 0, source_line = 1,
       source_character = 4, name_index = - 1\<rparr>]"

theorem segments_roundtrip_witness:
  "\<exists>g1 r g2 d. add_segments example_segments example_generator = Some (Inr g1) \<and>
    raw_source_map g1 = Some (r, g2) \<and>
    decoder_values (decode_mappings (r_mappings r)) = (example_segments, d) \<and> d_error d = None"
  by (rule segments_roundtrip)
     (simp_all add: example_generator_def example_segments_def no_mappings_def new_generator_def
       encodable_def in_range_def signed_simps gen_position_def)

end
