(* ===== verification/Base64.thy ===== *)
theory Base64
  imports Interfaces
begin

text \<open>
  \<open>crates/tsr_sourcemap/src/base64.rs\<close>: the standard base64 alphabet with padding, as the inline
  source map URLs use it. Groups are assembled in a 32-bit word with the shifts of the source;
  \<open>chunks_exact\<close> is the recursion on three or four elements at a time.
\<close>

section \<open>The model\<close>

definition ENCODE_STD :: bytes where
  "ENCODE_STD = ''ABCDEFGHIJKLMNOPQRSTUVWXYZabcdefghijklmnopqrstuvwxyz0123456789+/''"

definition PAD_CHAR :: byte where "PAD_CHAR = CHR ''=''"
definition INVALID :: nat where "INVALID = 255"

definition encode_digit :: "nat \<Rightarrow> u32 \<Rightarrow> byte" where
  "encode_digit shift val = ENCODE_STD ! unat (drop_bit shift val AND 63)"

fun encode_chunks :: "bytes \<Rightarrow> bytes" where
  "encode_chunks [] = []"
| "encode_chunks [a] =
     (let val = push_bit 16 (of_char a) in
      [encode_digit 18 val, encode_digit 12 val, PAD_CHAR, PAD_CHAR])"
| "encode_chunks [a, b] =
     (let val = push_bit 16 (of_char a) OR push_bit 8 (of_char b) in
      [encode_digit 18 val, encode_digit 12 val, encode_digit 6 val, PAD_CHAR])"
| "encode_chunks (a # b # c # rest) =
     (let val = push_bit 16 (of_char a) OR push_bit 8 (of_char b) OR of_char c in
      [encode_digit 18 val, encode_digit 12 val, encode_digit 6 val, encode_digit 0 val]) @
     encode_chunks rest"

definition std_encode :: "bytes \<Rightarrow> bytes \<Rightarrow> bytes" where
  "std_encode src out = out @ encode_chunks src"

definition decode_map :: "byte \<Rightarrow> nat" where
  "decode_map ch =
     (let b = byte_val ch in
      if 65 \<le> b \<and> b \<le> 90 then b - 65
      else if 97 \<le> b \<and> b \<le> 122 then b - 97 + 26
      else if 48 \<le> b \<and> b \<le> 57 then b - 48 + 52
      else if ch = CHR ''+'' then 62
      else if ch = CHR ''/'' then 63
      else INVALID)"

text \<open>The inner loop: the digits of one group shifted into a word.\<close>

fun decode_digits :: "bytes \<Rightarrow> u32 \<Rightarrow> u32 option" where
  "decode_digits [] val = Some val"
| "decode_digits (s # ss) val =
     (if decode_map s = INVALID then None
      else decode_digits ss (push_bit 6 val OR of_nat (decode_map s)))"

definition group_padding :: "byte \<Rightarrow> byte \<Rightarrow> nat" where
  "group_padding c d =
     (if c = PAD_CHAR \<and> d = PAD_CHAR then 2 else if d = PAD_CHAR then 1 else 0)"

definition u8_of :: "u32 \<Rightarrow> byte" where
  "u8_of w = char_of (unat (w AND 255))"

text \<open>\<open>index + 1 != groups\<close> is that more symbols follow the group.\<close>

fun decode_groups :: "bytes \<Rightarrow> bytes option" where
  "decode_groups (a # b # c # d # rest) =
     (let padding = group_padding c d in
      if 0 < padding \<and> rest \<noteq> [] then None
      else case decode_digits (take (4 - padding) [a, b, c, d]) 0 of
             None \<Rightarrow> None
           | Some val \<Rightarrow>
               let val = push_bit (6 * padding) val;
                   bs = [u8_of (drop_bit 16 val), u8_of (drop_bit 8 val), u8_of val]
               in map_option ((@) (take (3 - padding) bs)) (decode_groups rest))"
| "decode_groups _ = Some []"

definition std_decode_string :: "bytes \<Rightarrow> bytes option" where
  "std_decode_string src =
     (let symbols = filter (\<lambda>c. c \<noteq> char_of (13::nat) \<and> c \<noteq> char_of (10::nat)) src in
      if length symbols mod 4 \<noteq> 0 then None else decode_groups symbols)"

section \<open>Digits and groups\<close>

lemma ENCODE_STD_table:
  "length ENCODE_STD = 64" "map decode_map ENCODE_STD = [0..<64]" "PAD_CHAR \<notin> set ENCODE_STD"
  "char_of (13::nat) \<notin> set ENCODE_STD" "char_of (10::nat) \<notin> set ENCODE_STD"
  by (simp_all add: ENCODE_STD_def decode_map_def PAD_CHAR_def upt_conv_Cons char_of_def)

lemma ENCODE_STD_facts:
  assumes "d < 64"
  shows "decode_map (ENCODE_STD ! d) = d" "ENCODE_STD ! d \<noteq> PAD_CHAR"
    "ENCODE_STD ! d \<noteq> char_of (13::nat)" "ENCODE_STD ! d \<noteq> char_of (10::nat)"
proof -
  have "map decode_map ENCODE_STD ! d = d" using assms by (simp add: ENCODE_STD_table(2))
  then show "decode_map (ENCODE_STD ! d) = d" using assms ENCODE_STD_table(1) by simp
qed (use assms ENCODE_STD_table nth_mem in metis)+

lemma and_63: "(w :: u32) AND 63 = take_bit 6 w"
  by (simp add: take_bit_eq_mask mask_eq_exp_minus_1)

lemma and_255: "(w :: u32) AND 255 = take_bit 8 w"
  by (simp add: take_bit_eq_mask mask_eq_exp_minus_1)

lemma digit_less: "unat ((w :: u32) AND 63) < 64"
  using take_bit_nat_less_exp [of 6 "unat w"] by (simp add: and_63 unsigned_take_bit_eq)

lemma encode_digit_decode:
  "decode_map (encode_digit k val) = unat (drop_bit k val AND 63)"
  "encode_digit k val \<noteq> PAD_CHAR"
  "encode_digit k val \<noteq> char_of (13::nat)" "encode_digit k val \<noteq> char_of (10::nat)"
  using ENCODE_STD_facts [OF digit_less] by (simp_all add: encode_digit_def)

lemma decode_digits_encode:
  "decode_digits (encode_digit k val # ss) acc =
   decode_digits ss (push_bit 6 acc OR take_bit 6 (drop_bit k val))"
  using digit_less [of "drop_bit k val"]
  by (simp add: encode_digit_decode INVALID_def and_63)

lemma u8_of_char: "take_bit 8 w = (of_char c :: u32) \<Longrightarrow> u8_of w = c"
  by (simp add: u8_of_def and_255 unat_of_char)

text \<open>The four digits of a 24-bit value put it together again, and its bytes are those it was made of.\<close>

lemma shift_in_digit:
  "push_bit 6 (take_bit k (drop_bit (6 + j) w)) OR take_bit 6 (drop_bit j w) =
   take_bit (6 + k) (drop_bit j (w :: u32))"
proof (rule bit_word_eqI)
  fix n assume n: "n < LENGTH(32)"
  show "bit (push_bit 6 (take_bit k (drop_bit (6 + j) w)) OR take_bit 6 (drop_bit j w)) n =
      bit (take_bit (6 + k) (drop_bit j w)) n"
  proof (cases "n < 6")
    case False
    then obtain m where "n = 6 + m" by (metis le_Suc_ex not_less)
    with n show ?thesis by (auto simp: bit_simps ac_simps)
  qed (auto simp: bit_simps)
qed

lemma shift_in_digits:
  "push_bit 6 (take_bit 6 (drop_bit 18 w)) OR take_bit 6 (drop_bit 12 w) =
     take_bit 12 (drop_bit 12 (w :: u32))"
  "push_bit 6 (take_bit 12 (drop_bit 12 w)) OR take_bit 6 (drop_bit 6 w) =
     take_bit 18 (drop_bit 6 (w :: u32))"
  "push_bit 6 (take_bit 18 (drop_bit 6 w)) OR take_bit 6 w = take_bit 24 (w :: u32)"
  using shift_in_digit [of 6 12 w] shift_in_digit [of 12 6 w] shift_in_digit [of 18 0 w] by simp_all

definition group :: "byte \<Rightarrow> byte \<Rightarrow> byte \<Rightarrow> u32" where
  "group a b c = push_bit 16 (of_char a) OR push_bit 8 (of_char b) OR of_char c"

lemma group_bytes:
  "u8_of (drop_bit 16 (group a b c)) = a" "u8_of (drop_bit 8 (group a b c)) = b"
  "u8_of (group a b c) = c" "take_bit 24 (group a b c) = group a b c"
  by (rule u8_of_char bit_word_eqI; auto simp: group_def bit_simps dest: bit_of_char)+

lemma group_padded:
  "push_bit (6 * 1) (take_bit 18 (drop_bit 6 (group a b (char_of (0::nat))))) =
     group a b (char_of (0::nat))"
  "push_bit (6 * 2) (take_bit 12 (drop_bit 12 (group a (char_of (0::nat)) (char_of (0::nat))))) =
     group a (char_of (0::nat)) (char_of (0::nat))"
  "push_bit (6 * 0) (take_bit 24 (group a b c)) = group a b c"
  by (rule bit_word_eqI; auto simp: group_def bit_simps char_of_def dest: bit_of_char)+

lemma encode_chunks_group:
  "encode_chunks [a] = [encode_digit 18 (group a (char_of (0::nat)) (char_of (0::nat))),
     encode_digit 12 (group a (char_of (0::nat)) (char_of (0::nat))), PAD_CHAR, PAD_CHAR]"
  "encode_chunks [a, b] = [encode_digit 18 (group a b (char_of (0::nat))),
     encode_digit 12 (group a b (char_of (0::nat))), encode_digit 6 (group a b (char_of (0::nat))),
     PAD_CHAR]"
  "encode_chunks (a # b # c # rest) = encode_digit 18 (group a b c) # encode_digit 12 (group a b c) #
     encode_digit 6 (group a b c) # encode_digit 0 (group a b c) # encode_chunks rest"
  by (simp_all add: group_def char_of_def Let_def)

lemma decode_digits_group:
  "decode_digits [encode_digit 18 w, encode_digit 12 w] 0 = Some (take_bit 12 (drop_bit 12 w))"
  "decode_digits [encode_digit 18 w, encode_digit 12 w, encode_digit 6 w] 0 =
     Some (take_bit 18 (drop_bit 6 w))"
  "decode_digits [encode_digit 18 w, encode_digit 12 w, encode_digit 6 w, encode_digit 0 w] 0 =
     Some (take_bit 24 w)"
  by (simp_all only: decode_digits_encode decode_digits.simps(1) push_bit_of_0 or.left_neutral
      shift_in_digits drop_bit_0 id_apply)

lemma decode_group_step:
  assumes "group_padding c d = p" "p = 0 \<or> rest = []"
    "decode_digits (take (4 - p) [a, b, c, d]) 0 = Some v" "push_bit (6 * p) v = group x y z"
  shows "decode_groups (a # b # c # d # rest) =
    map_option ((@) (take (3 - p) [x, y, z])) (decode_groups rest)"
  using assms by (auto simp: group_bytes Let_def)

lemma decode_groups_encode: "decode_groups (encode_chunks src) = Some src"
proof (induction src rule: encode_chunks.induct)
  case (2 a)
  show ?case
    unfolding encode_chunks_group
    by (subst decode_group_step [OF _ _ _ group_padded(2)])
       (simp_all add: group_padding_def decode_digits_group del: decode_digits.simps)
next
  case (3 a b)
  show ?case
    unfolding encode_chunks_group
    by (subst decode_group_step [OF _ _ _ group_padded(1)])
       (simp_all add: group_padding_def decode_digits_group encode_digit_decode del: decode_digits.simps)
next
  case (4 a b c rest)
  then show ?case
    unfolding encode_chunks_group
    by (subst decode_group_step [OF _ _ _ group_padded(3)])
       (simp_all add: group_padding_def decode_digits_group group_bytes encode_digit_decode
         del: decode_digits.simps)
qed simp

lemma encode_chunks_symbols:
  "length (encode_chunks src) mod 4 = 0 \<and>
   (\<forall>c\<in>set (encode_chunks src). c \<noteq> char_of (13::nat) \<and> c \<noteq> char_of (10::nat))"
proof -
  have "PAD_CHAR \<noteq> char_of (13::nat)" "PAD_CHAR \<noteq> char_of (10::nat)"
    by (simp_all add: PAD_CHAR_def char_of_def)
  then show ?thesis
    by (induction src rule: encode_chunks.induct)
       (simp_all del: encode_chunks.simps(2-) add: encode_chunks_group encode_digit_decode)
qed

lemma std_decode_encode: "std_decode_string (std_encode src []) = Some src"
  using encode_chunks_symbols [of src]
  by (simp add: std_decode_string_def std_encode_def decode_groups_encode filter_id_conv)

interpretation base64: codec "\<lambda>src. std_encode src []" std_decode_string "\<lambda>_. True"
  by unfold_locales (rule std_decode_encode)

section \<open>Properties\<close>

lemma std_decode_filter:
  "std_decode_string (filter (\<lambda>c. c \<noteq> char_of (13::nat) \<and> c \<noteq> char_of (10::nat)) t) = std_decode_string t"
  by (simp add: std_decode_string_def)

text \<open>
  C36. Inline source maps survive the encoding. The base64 text of any bytes, with carriage returns
  and line feeds inserted anywhere, decodes to those bytes; so two different contents never have
  the same text.
\<close>

theorem base64_roundtrip:
  assumes "filter (\<lambda>c. c \<noteq> char_of (13::nat) \<and> c \<noteq> char_of (10::nat)) t = std_encode src []"
  shows "std_decode_string t = Some src \<and> (std_encode src [] = std_encode src' []) = (src = src')"
  using base64.decode_encode [of src] base64.encode_inj [of src src'] std_decode_filter [of t]
  by (auto simp: assms)

theorem base64_roundtrip_witness:
  "std_decode_string (''Zm'' @ char_of (10::nat) # ''9v'') = Some ''foo'' \<and>
   (std_encode ''foo'' [] = std_encode ''fo'' []) = (''foo'' = ''fo'')"
  by (rule base64_roundtrip)
     (simp add: std_encode_def encode_digit_def ENCODE_STD_def char_of_def)

end
