(* ===== verification/Positions.thy ===== *)
theory Positions
  imports Line_Map
begin

text \<open>
  Conversions between byte offsets and UTF-16 positions: the scanner's (\<open>scanner_positions.rs\<close>), the
  language server's (\<open>lsp.rs\<close>) and the API's position map (\<open>position_map.rs\<close>) of
  \<open>crates/tsr_jsstring\<close>. Offsets are integers with the wrap-around of \<open>i32\<close> and \<open>isize\<close> written out;
  \<^term>\<open>None\<close> is a panic. The results are the round trips at the boundaries of characters.
\<close>

section \<open>Boundaries\<close>

text \<open>
  The first \<open>k\<close> bytes are whole runes, as the given decoder reads them, and count \<open>u\<close> UTF-16 units.
\<close>

inductive rune_prefix :: "(bytes \<Rightarrow> int \<times> nat) \<Rightarrow> bytes \<Rightarrow> nat \<Rightarrow> int \<Rightarrow> bool" where
  none: "rune_prefix dec bs 0 0"
| more: "bs \<noteq> [] \<Longrightarrow> dec bs = (r, w) \<Longrightarrow> rune_prefix dec (drop w bs) k u \<Longrightarrow>
    rune_prefix dec bs (w + k) (utf16_rune_len r + u)"

lemma utf16_rune_len_pos: "1 \<le> utf16_rune_len r" "utf16_rune_len r \<le> 2"
  by (simp_all add: utf16_rune_len_def)

lemma rune_prefix_units: "rune_prefix dec bs k u \<Longrightarrow> 0 \<le> u"
  by (induction rule: rune_prefix.induct) (simp_all add: utf16_rune_len_def)

lemma rune_prefix_length:
  "rune_prefix decode_utf8 bs k u \<Longrightarrow> k \<le> length bs"
proof (induction decode_utf8 bs k u rule: rune_prefix.induct)
  case (more bs r w k u)
  then have "w \<le> length bs" "k \<le> length bs - w" using decode_utf8_progress [of bs r w] by simp_all
  then show ?case by linarith
qed simp

lemma rune_prefix_units_le:
  "rune_prefix decode_utf8 bs k u \<Longrightarrow> u \<le> 2 * int k \<and> (k = 0 \<longleftrightarrow> u = 0)"
proof (induction decode_utf8 bs k u rule: rune_prefix.induct)
  case (more bs r w k u)
  then show ?case
    using decode_utf8_progress [of bs r w] utf16_rune_len_pos [of r] rune_prefix_units [of decode_utf8 _ k u]
    by auto
qed simp

text \<open>Cutting the text behind a rune does not change how the rune is read.\<close>

lemma decode_utf8_take:
  assumes "decode_utf8 bs = (r, w)" "w \<le> n" "0 < w"
  shows "decode_utf8 (take n bs) = (r, w)"
proof -
  obtain a bs' where bs: "bs = a # bs'" using assms(1,3) by (cases bs) auto
  obtain m where n: "n = Suc m" using assms(2,3) by (cases n) auto
  show ?thesis
  proof (cases "byte_val a < 0x80")
    case True
    then show ?thesis using assms bs n by (simp add: decode_utf8_def)
  next
    case False
    show ?thesis
    proof (cases "utf8_lead (byte_val a)")
      case None
      then show ?thesis using assms bs n False by (simp add: decode_utf8_def)
    next
      case (Some l)
      obtain v lo hi mk where l: "l = (v, lo, hi, mk)" by (cases l)
      have v: "2 \<le> v" using Some l by (auto simp: utf8_lead_def split: if_splits)
      show ?thesis
      proof (cases "v \<le> n")
        case True
        then have "take v (take n bs) = take v bs" "take (v - 1) (take m bs') = take (v - 1) bs'"
          "take n bs ! 1 = bs ! 1" "length (take n bs) < v \<longleftrightarrow> length bs < v"
          using v n by (auto simp: min_def)
        then show ?thesis
          using assms(1) bs n False Some l
          by (simp add: decode_utf8_def del: take_take nth_take) (auto split: if_splits)
      next
        case F: False
        then have "length (take n bs) < v" by simp
        moreover have "(r, w) = (RUNE_ERROR, 1)"
          using assms F bs False Some l by (auto simp: decode_utf8_def split: if_splits)
        ultimately show ?thesis using bs n False Some l by (simp add: decode_utf8_def)
      qed
    qed
  qed
qed

lemma utf16_count_prefix:
  "rune_prefix decode_utf8 bs k u \<Longrightarrow> utf16_count (take k bs) = u"
proof (induction decode_utf8 bs k u rule: rune_prefix.induct)
  case (more bs r w k u)
  note w = decode_utf8_progress [OF more.hyps(2,1)]
  have "decode_utf8 (take (w + k) bs) = (r, w)"
    using decode_utf8_take [OF more.hyps(2)] w by simp
  moreover have "drop w (take (w + k) bs) = take k (drop w bs)" by (simp add: take_drop add.commute)
  moreover have "take (w + k) bs \<noteq> []" using w more.hyps(1) by auto
  ultimately show ?case using more.hyps(4) w by (subst utf16_count.simps) simp
qed simp

section \<open>The scanner\<close>

text \<open>The loop that counts UTF-16 units from the line start.\<close>

function utf16_scan :: "bytes \<Rightarrow> int \<Rightarrow> int \<Rightarrow> int \<Rightarrow> int \<Rightarrow> (int \<times> int) panicking" where
  "utf16_scan text line_end character count byte_offset =
     (if byte_offset < line_end \<and> count < character
      then if byte_offset < 0 \<or> int (length text) < byte_offset then None
        else let (rune, width) = decode_utf8 (drop (nat byte_offset) text) in
          utf16_scan text line_end character (count + utf16_rune_len rune) (byte_offset + int width)
      else Some (byte_offset, count))"
  by pat_completeness auto
termination
  by (relation "measure (\<lambda>(_, _, character, count, _). nat (character - count))")
     (auto simp: utf16_rune_len_def)

declare utf16_scan.simps [simp del]

text \<open>\<open>line_starts[line as usize]\<close>\<close>

definition index :: "'a list \<Rightarrow> int \<Rightarrow> 'a panicking" where
  "index xs i = (if 0 \<le> i \<and> i < int (length xs) then Some (xs ! nat i) else None)"

text \<open>\<open>&text[start..end]\<close>\<close>

definition slice :: "'a list \<Rightarrow> int \<Rightarrow> int \<Rightarrow> 'a list panicking" where
  "slice xs i j =
     (if 0 \<le> i \<and> i \<le> j \<and> j \<le> int (length xs) then Some (take (nat (j - i)) (drop (nat i) xs)) else None)"

definition compute_position_of_line_and_utf16_character ::
    "int list \<Rightarrow> int \<Rightarrow> int \<Rightarrow> bytes \<Rightarrow> bool \<Rightarrow> int panicking" where
  "compute_position_of_line_and_utf16_character starts line character text allow_edits = do {
     line \<leftarrow> (if line < 0 \<or> int (length starts) \<le> line
             then if allow_edits then Some (if line < 0 then 0 else int (length starts) - 1) else None
             else Some line);
     line_start \<leftarrow> index starts line;
     if 0 < character then do {
       let line_end = (case index starts (line + 1) of Some s \<Rightarrow> s | None \<Rightarrow> int (length text));
       (byte_offset, count) \<leftarrow> utf16_scan text line_end character 0 line_start;
       if \<not> allow_edits
       then if (byte_offset \<noteq> line_end \<or> character \<le> count) \<and> byte_offset \<le> int (length text)
            then Some byte_offset else None
       else Some (min byte_offset (int (length text)))
     }
     else if allow_edits then Some (min line_start (int (length text)))
     else if line_start \<le> int (length text) then Some line_start else None
   }"

definition get_ecma_line_of_position :: "bytes \<Rightarrow> int \<Rightarrow> int panicking" where
  "get_ecma_line_of_position text pos = do {
     starts \<leftarrow> compute_ecma_line_starts text;
     compute_line_of_position starts pos
   }"

definition get_ecma_line_and_utf16_character_of_position :: "bytes \<Rightarrow> int \<Rightarrow> (int \<times> int) panicking" where
  "get_ecma_line_and_utf16_character_of_position text pos = do {
     starts \<leftarrow> compute_ecma_line_starts text;
     line \<leftarrow> compute_line_of_position starts pos;
     start \<leftarrow> index starts line;
     s \<leftarrow> slice text start pos;
     Some (line, utf16_len s)
   }"

definition get_ecma_line_and_byte_offset_of_position :: "bytes \<Rightarrow> int \<Rightarrow> (int \<times> int) panicking" where
  "get_ecma_line_and_byte_offset_of_position text pos = do {
     starts \<leftarrow> compute_ecma_line_starts text;
     line \<leftarrow> compute_line_of_position starts pos;
     start \<leftarrow> index starts line;
     Some (line, wrap64 (pos - start))
   }"

definition get_ecma_position_of_line_and_utf16_character :: "bytes \<Rightarrow> int \<Rightarrow> int \<Rightarrow> int panicking" where
  "get_ecma_position_of_line_and_utf16_character text line character = do {
     starts \<leftarrow> compute_ecma_line_starts text;
     compute_position_of_line_and_utf16_character starts line character text False
   }"

definition compute_position_of_line_and_byte_offset :: "int list \<Rightarrow> int \<Rightarrow> int \<Rightarrow> int panicking" where
  "compute_position_of_line_and_byte_offset starts line byte_offset =
     (if 0 \<le> line \<and> line < int (length starts)
      then Some (wrap64 (starts ! nat line + byte_offset)) else None)"

definition get_ecma_position_of_line_and_byte_offset :: "bytes \<Rightarrow> int \<Rightarrow> int \<Rightarrow> int panicking" where
  "get_ecma_position_of_line_and_byte_offset text line byte_offset = do {
     starts \<leftarrow> compute_ecma_line_starts text;
     compute_position_of_line_and_byte_offset starts line byte_offset
   }"

text \<open>The loop of \<open>get_ecma_end_line_position\<close>, on the bytes from the offset on.\<close>

function end_line_from :: "bytes \<Rightarrow> nat \<Rightarrow> int" where
  "end_line_from bs byte_offset =
     (let (rune, width) = decode_utf8 bs in
      if width = 0 \<or> is_line_break rune then int byte_offset - 1
      else end_line_from (drop width bs) (byte_offset + width))"
  by pat_completeness auto
termination
proof (relation "measure (\<lambda>(bs, _). length bs)", simp, goal_cases)
  case (1 bs i x rune width)
  then show ?case using decode_utf8_progress [of bs rune width] by (cases bs) auto
qed

declare end_line_from.simps [simp del]

definition get_ecma_end_line_position :: "bytes \<Rightarrow> int \<Rightarrow> int panicking" where
  "get_ecma_end_line_position text line = do {
     starts \<leftarrow> compute_ecma_line_starts text;
     start \<leftarrow> index starts line;
     if 0 \<le> start \<and> start \<le> int (length text)
     then Some (end_line_from (drop (nat start) text) (nat start)) else None
   }"

lemma utf16_scan_prefix:
  assumes "rune_prefix decode_utf8 (drop (nat i) t) k u" "0 \<le> i" "i + int k \<le> line_end"
    "line_end \<le> int (length t)"
  shows "utf16_scan t line_end (c + u) c i = Some (i + int k, c + u)"
  using assms
proof (induction decode_utf8 "drop (nat i) t" k u arbitrary: i c rule: rune_prefix.induct)
  case none
  then show ?case by (simp add: utf16_scan.simps)
next
  case (more r w k u)
  have len: "i < int (length t)" using more.hyps(1) more.prems by auto
  have w: "0 < w" "i + int w \<le> int (length t)"
    using decode_utf8_at [OF more.prems(1) len more.hyps(2)] by auto
  have "drop w (drop (nat i) t) = drop (nat (i + int w)) t"
    using more.prems(1) by (simp add: nat_add_distrib add.commute)
  then have IH: "utf16_scan t line_end (c' + u) c' (i + int w) = Some (i + int w + int k, c' + u)" for c'
    using more.hyps(4) [of "i + int w" c'] more.prems by simp
  have "0 \<le> u" using rune_prefix_units [OF more.hyps(3)] .
  then have "c < c + (utf16_rune_len r + u)" using utf16_rune_len_pos(1) [of r] by linarith
  then show ?case
    using IH [of "c + utf16_rune_len r"] more.hyps(2) more.prems w len
    by (subst utf16_scan.simps) (simp add: add.assoc)
qed

text \<open>What the search gives on the starts of a text: the line, its start and the start of the next.\<close>

lemma line_bounds:
  assumes "starts_ok t 0 starts" "0 \<le> pos" "pos \<le> int (length t)"
  obtains line start where "compute_line_of_position starts pos = Some line"
    "index starts line = Some start" "0 \<le> line" "line < int (length starts)"
    "0 \<le> start" "start \<le> pos" "start = starts ! nat line"
    "pos \<le> (case index starts (line + 1) of Some s \<Rightarrow> s | None \<Rightarrow> int (length t))"
    "(case index starts (line + 1) of Some s \<Rightarrow> s | None \<Rightarrow> int (length t)) \<le> int (length t)"
proof -
  have ok: "sorted_wrt (<) starts" "starts \<noteq> []" "starts ! 0 = 0"
    "\<And>s. s \<in> set starts \<Longrightarrow> 0 \<le> s \<and> s \<le> int (length t)"
    using assms(1) by (auto simp: starts_ok_def hd_conv_nth)
  obtain line where line: "compute_line_of_position starts pos = Some line" "- 1 \<le> line"
    "line < int (length starts)"
    "\<And>k. k < length starts \<Longrightarrow> starts ! k \<le> pos \<longleftrightarrow> int k \<le> line"
    using compute_line_of_position_correct [OF ok(1)] by blast
  have l0: "0 \<le> line" using line(4) [of 0] ok(2,3) assms(2) by simp
  have start: "0 \<le> starts ! nat line" "starts ! nat line \<le> pos"
    using line(3) line(4) [of "nat line"] l0 ok(4) by (auto simp: nat_less_iff)
  have next_start: "pos \<le> (case index starts (line + 1) of Some s \<Rightarrow> s | None \<Rightarrow> int (length t))"
    using line(4) [of "nat (line + 1)"] l0 assms(3) by (auto simp: index_def nat_less_iff)
  have "(case index starts (line + 1) of Some s \<Rightarrow> s | None \<Rightarrow> int (length t)) \<le> int (length t)"
    using ok(4) l0 by (auto simp: index_def nat_less_iff)
  with line(1,3) l0 start next_start show thesis
    by (intro that [of line "starts ! nat line"]) (auto simp: index_def)
qed

lemma scanner_roundtrip:
  assumes "starts_ok t 0 starts" "0 \<le> pos" "pos \<le> int (length t)"
    "compute_line_of_position starts pos = Some line"
    "rune_prefix decode_utf8 (drop (nat (starts ! nat line)) t) (nat (pos - starts ! nat line)) u"
  shows "compute_position_of_line_and_utf16_character starts line u t False = Some pos"
proof -
  define e where "e = (case index starts (line + 1) of Some s \<Rightarrow> s | None \<Rightarrow> int (length t))"
  obtain start where b: "index starts line = Some start" "0 \<le> line" "line < int (length starts)"
    "0 \<le> start" "start \<le> pos" "start = starts ! nat line" "pos \<le> e" "e \<le> int (length t)"
    using line_bounds [OF assms(1-3)] assms(4) unfolding e_def by (metis option.inject)
  have p: "rune_prefix decode_utf8 (drop (nat start) t) (nat (pos - start)) u" using assms(5) b(6) by simp
  have scan: "utf16_scan t e u 0 start = Some (pos, u)"
    using utf16_scan_prefix [OF p b(4), of e 0] b by simp
  have "u = 0 \<Longrightarrow> pos = start" "0 \<le> u"
    using rune_prefix_units_le [OF p] rune_prefix_units [OF p] b(5) by auto
  then show ?thesis
    using b scan assms(3)
    by (cases "0 < u") (auto simp: compute_position_of_line_and_utf16_character_def e_def [symmetric] Let_def)
qed

section \<open>The language server\<close>

datatype position_encoding = Utf8 | Utf16

record lsp_position =
  lp_line :: int
  lp_character :: int

text \<open>
  The loop that stops before a rune that would pass the character. It may run forever on a line map
  that is not of this text (at the end of the text the width is 0), so \<^term>\<open>None\<close> is a panic or a
  loop that does not end.
\<close>

partial_function (option) lsp_scan :: "bytes \<Rightarrow> int \<Rightarrow> int \<Rightarrow> int \<Rightarrow> int \<Rightarrow> int option" where
  "lsp_scan text line_end character count byte_offset =
     (if byte_offset < line_end
      then if byte_offset < 0 \<or> int (length text) < byte_offset then None
        else let (rune, width) = decode_utf8 (drop (nat byte_offset) text);
                 units = utf16_rune_len rune in
          if character < wrap32 (count + units) then Some byte_offset
          else lsp_scan text line_end character (wrap32 (count + units)) (wrap64 (byte_offset + int width))
      else Some byte_offset)"

definition lsp_line_and_character_to_position ::
    "bytes \<Rightarrow> lsp_line_map \<Rightarrow> lsp_position \<Rightarrow> position_encoding \<Rightarrow> int option" where
  "lsp_line_and_character_to_position text line_map pos enc =
     (let line = wrap32 (lp_line pos); character = wrap32 (lp_character pos) in
      if int (length (line_starts line_map)) \<le> line then Some (wrap32 (int (length text)))
      else do {
        start \<leftarrow> index (line_starts line_map) line;
        let line_end = (case index (line_starts line_map) (line + 1) of
          Some s \<Rightarrow> s | None \<Rightarrow> wrap32 (int (length text)));
        if ascii_only line_map \<or> enc = Utf8
        then Some (max start (min (wrap32 (start + character)) line_end))
        else map_option wrap32 (lsp_scan text line_end character 0 start)
      })"

definition lsp_position_to_line_and_character ::
    "bytes \<Rightarrow> lsp_line_map \<Rightarrow> int \<Rightarrow> position_encoding \<Rightarrow> lsp_position panicking" where
  "lsp_position_to_line_and_character text line_map pos enc = do {
     let pos = max (min pos (wrap32 (int (length text)))) 0;
     let line = compute_index_of_line_start line_map pos;
     start \<leftarrow> index (line_starts line_map) (int line);
     character \<leftarrow> (if ascii_only line_map \<or> enc = Utf8 then Some (wrap32 (pos - start))
                  else map_option (\<lambda>s. wrap32 (utf16_len s)) (slice text start pos));
     Some \<lparr>lp_line = int line mod 2 ^ 32, lp_character = character mod 2 ^ 32\<rparr>
   }"

text \<open>The index search gives the line the scanner's search gives.\<close>

lemma partition_point_less:
  assumes "sorted_wrt (<) (starts :: int list)" "k < length starts"
  shows "starts ! k < pos \<longleftrightarrow> k < partition_point (\<lambda>s. s < pos) starts"
proof -
  have "(\<lambda>s :: int. s < pos) = (\<lambda>s. s \<le> pos - 1)" by auto
  then show ?thesis using partition_point_sorted [OF assms, of "pos - 1"] by simp
qed

lemma compute_index_of_line_start_eq:
  assumes "sorted_wrt (<) (line_starts m)" "line_starts m \<noteq> []" "hd (line_starts m) \<le> pos"
  shows "compute_line_of_position (line_starts m) pos = Some (int (compute_index_of_line_start m pos))"
proof -
  let ?s = "line_starts m" and ?p = "partition_point (\<lambda>s. s < pos) (line_starts m)"
  obtain r where r: "compute_line_of_position ?s pos = Some r" "- 1 \<le> r" "r < int (length ?s)"
    "\<And>k. k < length ?s \<Longrightarrow> ?s ! k \<le> pos \<longleftrightarrow> int k \<le> r"
    using compute_line_of_position_correct [OF assms(1)] by blast
  have le: "?p \<le> length ?s" by (simp add: partition_point_def length_takeWhile_le)
  note less = partition_point_less [OF assms(1), of _ pos]
  have "0 \<le> r" using r(4) [of 0] assms(2,3) by (simp add: hd_conv_nth)
  then have rl: "nat r < length ?s" "?s ! nat r \<le> pos" using r(3) r(4) [of "nat r"] by (auto simp: nat_less_iff)
  show ?thesis
  proof (cases "?p < length ?s \<and> ?s ! ?p = pos")
    case True
    then have "int ?p \<le> r" using r(4) [of ?p] by simp
    moreover have "nat r \<le> ?p" using less [of "nat r"] rl True sorted_wrt_nth_less [OF assms(1), of ?p "nat r"]
      by (cases "nat r" ?p rule: linorder_cases) auto
    ultimately have "r = int ?p" by linarith
    then show ?thesis using True r(1) by (simp add: compute_index_of_line_start_def Let_def)
  next
    case False
    have "?s ! nat r < pos"
    proof (rule ccontr)
      assume "\<not> ?s ! nat r < pos"
      then have eq: "?s ! nat r = pos" using rl(2) by simp
      then have "\<not> nat r < ?p" using less [OF rl(1)] by simp
      moreover have "\<not> ?p < nat r" using sorted_wrt_nth_less [OF assms(1) _ rl(1), of ?p] less [of ?p] rl(1) eq by auto
      ultimately have "nat r = ?p" by simp
      then show False using False eq rl(1) by simp
    qed
    then have "nat r < ?p" using less rl(1) by simp
    moreover have "?p - 1 < length ?s" "?p - 1 < ?p" using le \<open>nat r < ?p\<close> by linarith+
    then have "int (?p - 1) \<le> r" using less [of "?p - 1"] r(4) [of "?p - 1"] by simp
    ultimately have "r = int (?p - 1)" "0 < ?p" using \<open>0 \<le> r\<close> by linarith+
    then show ?thesis using False r(1) by (auto simp: compute_index_of_line_start_def Let_def)
  qed
qed

lemma lsp_scan_prefix:
  assumes "rune_prefix decode_utf8 (drop (nat i) t) k u" "0 \<le> i" "i + int k \<le> line_end"
    "line_end \<le> int (length t)" "fits_i32 t" "0 \<le> c" "c + u < 2 ^ 31 - 2"
  shows "lsp_scan t line_end (c + u) c i = Some (i + int k)"
  using assms
proof (induction decode_utf8 "drop (nat i) t" k u arbitrary: i c rule: rune_prefix.induct)
  case none
  obtain r w where rw: "decode_utf8 (drop (nat i) t) = (r, w)" by fastforce
  have "wrap32 (c + utf16_rune_len r) = c + utf16_rune_len r"
    using none.prems utf16_rune_len_pos [of r] by (intro wrap32_id) auto
  then show ?case
    using none.prems rw utf16_rune_len_pos(1) [of r] by (subst lsp_scan.simps) auto
next
  case (more r w k u)
  have len: "i < int (length t)" using more.hyps(1) more.prems by auto
  have w: "0 < w" "i + int w \<le> int (length t)"
    using decode_utf8_at [OF more.prems(1) len more.hyps(2)] by auto
  have u: "0 \<le> u" using rune_prefix_units [OF more.hyps(3)] .
  have w32: "wrap32 (c + utf16_rune_len r) = c + utf16_rune_len r"
    using more.prems u utf16_rune_len_pos [of r] by (intro wrap32_id) auto
  have w64: "wrap64 (i + int w) = i + int w"
    using more.prems w by (intro wrap64_id) (auto simp: fits_i32_def)
  have "drop w (drop (nat i) t) = drop (nat (i + int w)) t"
    using more.prems(1) by (simp add: nat_add_distrib add.commute)
  then have "lsp_scan t line_end (c + utf16_rune_len r + u) (c + utf16_rune_len r) (i + int w) =
      Some (i + int w + int k)"
    using more.hyps(4) [of "i + int w" "c + utf16_rune_len r"] more.prems utf16_rune_len_pos(1) [of r] by simp
  then show ?case
    using more.hyps(2) more.prems w len w32 w64 u by (subst lsp_scan.simps) (simp add: add.assoc)
qed

lemma length_starts_ok:
  assumes "starts_ok t 0 starts"
  shows "int (length starts) \<le> int (length t) + 1"
proof -
  have "distinct starts" using assms by (auto simp: starts_ok_def strict_sorted_iff)
  then have "length starts = card (set starts)" by (simp add: distinct_card)
  also have "\<dots> \<le> card {0..int (length t)}"
    using assms by (intro card_mono) (auto simp: starts_ok_def)
  finally show ?thesis by simp
qed

lemma lsp_roundtrip:
  assumes ok: "starts_ok t 0 (line_starts m)" and len: "int (length t) < 2 ^ 29"
    and pos: "0 \<le> pos" "pos \<le> int (length t)"
    and line: "compute_line_of_position (line_starts m) pos = Some line"
    and bnd: "ascii_only m \<or> enc = Utf8 \<or> rune_prefix decode_utf8
      (drop (nat (line_starts m ! nat line)) t) (nat (pos - line_starts m ! nat line)) u"
  shows "\<exists>lp. lsp_position_to_line_and_character t m pos enc = Some lp \<and>
    lsp_line_and_character_to_position t m lp enc = Some pos"
proof -
  let ?s = "line_starts m"
  define e where "e = (case index ?s (line + 1) of Some s \<Rightarrow> s | None \<Rightarrow> int (length t))"
  obtain start where b: "index ?s line = Some start" "0 \<le> line" "line < int (length ?s)"
    "0 \<le> start" "start \<le> pos" "start = ?s ! nat line" "pos \<le> e" "e \<le> int (length t)"
    using line_bounds [OF ok pos] line unfolding e_def by (metis option.inject)
  have w: "0 \<le> k \<Longrightarrow> k < 2 ^ 31 \<Longrightarrow> wrap32 k = k \<and> wrap32 (k mod 2 ^ 32) = k" for k
    using wrap32_id [of k] by (simp add: mod_pos_pos_trivial)
  have wt: "wrap32 (int (length t)) = int (length t)" using len w [of "int (length t)"] by simp
  have "int (compute_index_of_line_start m pos) = line"
    using compute_index_of_line_start_eq [of m pos] line ok pos(1) by (auto simp: starts_ok_def)
  then have idx: "index ?s (int (compute_index_of_line_start m pos)) = Some start"
    "int (compute_index_of_line_start m pos) = line" using b by simp_all
  have wl: "wrap32 (line mod 2 ^ 32) = line"
    using w [of line] b(2,3) length_starts_ok [OF ok] len by simp
  have clamp: "max (min pos (wrap32 (int (length t)))) 0 = pos" using pos wt by simp
  have e: "(case index ?s (line + 1) of Some s \<Rightarrow> s | None \<Rightarrow> wrap32 (int (length t))) = e"
    unfolding e_def wt by (rule refl)
  have nl: "\<not> int (length ?s) \<le> line" using b(3) by simp
  show ?thesis
  proof (cases "ascii_only m \<or> enc = Utf8")
    case True
    have wc: "wrap32 (pos - start) = pos - start" "wrap32 ((pos - start) mod 2 ^ 32) = pos - start"
      "wrap32 pos = pos"
      using w [of "pos - start"] w [of pos] b pos len by simp_all
    have "lsp_position_to_line_and_character t m pos enc =
        Some \<lparr>lp_line = line mod 2 ^ 32, lp_character = (pos - start) mod 2 ^ 32\<rparr>"
      using True idx clamp wc(1) by (simp add: lsp_position_to_line_and_character_def Let_def)
    moreover have "lsp_line_and_character_to_position t m
        \<lparr>lp_line = line mod 2 ^ 32, lp_character = (pos - start) mod 2 ^ 32\<rparr> enc = Some pos"
      using True nl b(1,5,7) e wl wc
      by (simp del: wrap32_id add: lsp_line_and_character_to_position_def Let_def)
    ultimately show ?thesis by blast
  next
    case False
    then have p: "rune_prefix decode_utf8 (drop (nat start) t) (nat (pos - start)) u" using bnd b(6) by auto
    have u: "0 \<le> u" "u < 2 ^ 31 - 2"
      using rune_prefix_units [OF p] rune_prefix_units_le [OF p] b(4,5) pos(2) len by auto
    have sl: "slice t start pos = Some (take (nat (pos - start)) (drop (nat start) t))"
      using b pos by (simp add: slice_def)
    have cnt: "utf16_len (take (nat (pos - start)) (drop (nat start) t)) = u"
      using utf16_count_prefix [OF p] by (simp add: utf16_len_count)
    have fits: "fits_i32 t" using len by (simp add: fits_i32_def)
    have scan: "lsp_scan t e u 0 start = Some pos"
      using lsp_scan_prefix [OF p b(4), of e 0] b fits u by simp
    have wu: "wrap32 u = u" "wrap32 (u mod 2 ^ 32) = u" "wrap32 pos = pos"
      using w [of u] u w [of pos] pos len by simp_all
    have "lsp_position_to_line_and_character t m pos enc =
        Some \<lparr>lp_line = line mod 2 ^ 32, lp_character = u mod 2 ^ 32\<rparr>"
      using False idx clamp wu(1) sl cnt by (simp add: lsp_position_to_line_and_character_def Let_def)
    moreover have "lsp_line_and_character_to_position t m
        \<lparr>lp_line = line mod 2 ^ 32, lp_character = u mod 2 ^ 32\<rparr> enc = Some pos"
      using False nl b(1) e wl wu scan by (simp add: lsp_line_and_character_to_position_def Let_def)
    ultimately show ?thesis by blast
  qed
qed

section \<open>The position map\<close>

record position_map_entry =
  e_byte_offset :: int
  e_delta :: int

record position_map =
  pm_ascii_only :: bool
  pm_entries :: "position_map_entry list"

text \<open>The loop of \<open>PositionMap::new\<close>, on the bytes from the offset on.\<close>

function position_map_from :: "bytes \<Rightarrow> int \<Rightarrow> int \<Rightarrow> position_map_entry list" where
  "position_map_from bs byte_offset delta =
     (if bs = [] then []
      else if is_ascii (hd bs) then position_map_from (tl bs) (byte_offset + 1) delta
      else let (rune, width) = decode_rune bs;
               utf16_size = (if 0x10000 \<le> rune then 2 else 1);
               delta = delta + (int width - utf16_size);
               byte_offset = byte_offset + int width
           in \<lparr>e_byte_offset = byte_offset, e_delta = delta\<rparr> #
              position_map_from (drop width bs) byte_offset delta)"
  by pat_completeness auto
termination
proof (relation "measure (\<lambda>(bs, _). length bs)", simp, goal_cases)
  case (2 bs i d x rune width)
  then show ?case using decode_rune_progress [of bs rune width] by auto
qed simp

declare position_map_from.simps [simp del]

definition position_map_new :: "bytes \<Rightarrow> position_map" where
  "position_map_new text =
     (let entries = position_map_from text 0 0 in
      \<lparr>pm_ascii_only = (entries = []), pm_entries = entries\<rparr>)"

definition utf8_to_utf16 :: "position_map \<Rightarrow> int \<Rightarrow> int" where
  "utf8_to_utf16 m offset =
     (let n = partition_point (\<lambda>e. e_byte_offset e \<le> offset) (pm_entries m) in
      if n = 0 then offset else wrap64 (offset - e_delta (pm_entries m ! (n - 1))))"

definition utf16_to_utf8 :: "position_map \<Rightarrow> int \<Rightarrow> int" where
  "utf16_to_utf8 m offset =
     (let n = partition_point (\<lambda>e. e_byte_offset e - e_delta e \<le> offset) (pm_entries m) in
      if n = 0 then offset else wrap64 (offset + e_delta (pm_entries m ! (n - 1))))"

text \<open>The delta that a query applies: that of the last entry below the partition point.\<close>

fun last_delta :: "(position_map_entry \<Rightarrow> bool) \<Rightarrow> int \<Rightarrow> position_map_entry list \<Rightarrow> int" where
  "last_delta p d [] = d"
| "last_delta p d (e # es) = (if p e then last_delta p (e_delta e) es else d)"

lemma last_delta_partition:
  "last_delta p d es =
     (let n = partition_point p es in if n = 0 then d else e_delta (es ! (n - 1)))"
proof (induction es arbitrary: d)
  case (Cons e es)
  then show ?case
    by (cases "length (takeWhile p es)") (auto simp: partition_point_def Let_def)
qed (simp add: partition_point_def)

lemma decode_rune_ascii: "is_ascii b \<Longrightarrow> decode_rune (b # bs) = (of_char b, 1)"
  by (simp add: decode_rune_def decode_utf8_ascii is_ascii_def)

lemma utf16_rune_len_ascii: "is_ascii b \<Longrightarrow> utf16_rune_len (of_char b) = 1"
  by (simp add: utf16_rune_len_def int_of_char is_ascii_def del: of_nat_of_char)

lemma last_delta_none: "\<forall>e\<in>set es. \<not> p e \<Longrightarrow> last_delta p d es = d"
  by (cases es) auto

lemma position_map_from_unfold:
  "position_map_from [] i d = []"
  "is_ascii b \<Longrightarrow> position_map_from (b # bs) i d = position_map_from bs (i + 1) d"
  "\<not> is_ascii b \<Longrightarrow> decode_rune (b # bs) = (r, w) \<Longrightarrow>
   position_map_from (b # bs) i d =
     (let d' = d + (int w - utf16_rune_len r) in
      \<lparr>e_byte_offset = i + int w, e_delta = d'\<rparr> # position_map_from (drop w (b # bs)) (i + int w) d')"
  by (subst position_map_from.simps, simp add: utf16_rune_len_def Let_def)+

lemma position_map_from_after:
  "e \<in> set (position_map_from bs i d) \<Longrightarrow> i < e_byte_offset e \<and> i - d < e_byte_offset e - e_delta e"
proof (induction bs i d rule: position_map_from.induct)
  case (1 bs i d)
  show ?case
  proof (cases bs)
    case Nil
    then show ?thesis using "1.prems" by (simp add: position_map_from_unfold)
  next
    case (Cons b bs')
    show ?thesis
    proof (cases "is_ascii b")
      case True
      then show ?thesis
        using "1.IH"(1) "1.prems" Cons by (fastforce simp: position_map_from_unfold)
    next
      case False
      obtain r w where rw: "decode_rune bs = (r, w)" by fastforce
      have w: "0 < w" using decode_rune_progress [OF rw] Cons by simp
      let ?d = "d + (int w - utf16_rune_len r)"
      have IH: "e \<in> set (position_map_from (drop w bs) (i + int w) ?d) \<Longrightarrow>
          i + int w < e_byte_offset e \<and> i + int w - ?d < e_byte_offset e - e_delta e"
        using "1.IH"(2) [OF _ _ rw [symmetric] refl refl refl refl] False Cons
        by (simp add: utf16_rune_len_def)
      show ?thesis
        using IH "1.prems" w utf16_rune_len_pos(1) [of r] rw Cons False
        by (auto simp: position_map_from_unfold Let_def)
    qed
  qed
qed

text \<open>At the boundary behind \<open>k\<close> bytes both queries apply the delta accumulated so far.\<close>

lemma position_map_deltas:
  assumes "rune_prefix decode_rune bs k u"
  shows "last_delta (\<lambda>e. e_byte_offset e \<le> i + int k) d (position_map_from bs i d) = d + int k - u"
    "last_delta (\<lambda>e. e_byte_offset e - e_delta e \<le> i - d + u) d (position_map_from bs i d) = d + int k - u"
  using assms
proof (induction decode_rune bs k u arbitrary: i d rule: rune_prefix.induct)
  case (none bs)
  {
    case 1
    show ?case using position_map_from_after [of _ bs i d] by (subst last_delta_none) force+
  next
    case 2
    show ?case using position_map_from_after [of _ bs i d] by (subst last_delta_none) force+
  }
next
  case (more bs r w k u)
  obtain b bs' where bs: "bs = b # bs'" using more.hyps(1) by (cases bs) auto
  have w: "0 < w" using decode_rune_progress [OF more.hyps(2,1)] by simp
  have u: "0 \<le> u" using rune_prefix_units [OF more.hyps(3)] .
  {
    case 1
    show ?case
    proof (cases "is_ascii b")
      case True
      then have "r = of_char b" "w = 1" using more.hyps(2) bs decode_rune_ascii by auto
      then show ?thesis
        using more.hyps(4) [of "i + 1" d] True bs
        by (simp add: position_map_from_unfold utf16_rune_len_ascii add.assoc)
    next
      case False
      then show ?thesis
        using more.hyps(4) [of "i + int w" "d + (int w - utf16_rune_len r)"] more.hyps(2) bs
        by (simp add: position_map_from_unfold Let_def add.assoc)
    qed
  next
    case 2
    show ?case
    proof (cases "is_ascii b")
      case True
      then have "r = of_char b" "w = 1" using more.hyps(2) bs decode_rune_ascii by auto
      then show ?thesis
        using more.hyps(5) [of "i + 1" d] True bs
        by (simp add: position_map_from_unfold utf16_rune_len_ascii algebra_simps)
    next
      case False
      then show ?thesis
        using more.hyps(5) [of "i + int w" "d + (int w - utf16_rune_len r)"] more.hyps(2) bs u
        by (simp add: position_map_from_unfold Let_def algebra_simps)
    qed
  }
qed

lemma rune_prefix_bounds:
  "rune_prefix decode_rune bs k u \<Longrightarrow> k \<le> length bs \<and> u \<le> 2 * int k"
proof (induction decode_rune bs k u rule: rune_prefix.induct)
  case (more bs r w k u)
  then have "0 < w" "w \<le> length bs" "k \<le> length bs - w" "u \<le> 2 * int k"
    using decode_rune_progress [of bs r w] by simp_all
  then show ?case using utf16_rune_len_pos [of r] by auto
qed simp

lemma position_map_queries:
  "utf8_to_utf16 (position_map_new t) i =
     (let d = last_delta (\<lambda>e. e_byte_offset e \<le> i) 0 (position_map_from t 0 0) in
      if partition_point (\<lambda>e. e_byte_offset e \<le> i) (position_map_from t 0 0) = 0 then i else wrap64 (i - d))"
  "utf16_to_utf8 (position_map_new t) i =
     (let d = last_delta (\<lambda>e. e_byte_offset e - e_delta e \<le> i) 0 (position_map_from t 0 0) in
      if partition_point (\<lambda>e. e_byte_offset e - e_delta e \<le> i) (position_map_from t 0 0) = 0
      then i else wrap64 (i + d))"
  by (simp_all add: utf8_to_utf16_def utf16_to_utf8_def position_map_new_def last_delta_partition Let_def)

lemma position_map_roundtrip:
  assumes "rune_prefix decode_rune t k u" "int (length t) < 2 ^ 61"
  shows "utf8_to_utf16 (position_map_new t) (int k) = u" "utf16_to_utf8 (position_map_new t) u = int k"
proof -
  have b: "int k < 2 ^ 61" "0 \<le> u" "u < 2 ^ 62"
    using rune_prefix_bounds [OF assms(1)] rune_prefix_units [OF assms(1)] assms(2) by auto
  then have "wrap64 u = u" "wrap64 (int k) = int k" by (auto intro!: wrap64_id)
  then show "utf8_to_utf16 (position_map_new t) (int k) = u" "utf16_to_utf8 (position_map_new t) u = int k"
    using position_map_deltas [OF assms(1), of 0 0]
      last_delta_partition [of "\<lambda>e. e_byte_offset e \<le> int k" 0 "position_map_from t 0 0"]
      last_delta_partition [of "\<lambda>e. e_byte_offset e - e_delta e \<le> u" 0 "position_map_from t 0 0"]
    by (auto simp: position_map_queries Let_def split: if_splits)
qed

section \<open>Properties\<close>

text \<open>
  C35. Scanner positions. Every byte position of a text converts to a line and offset without a
  panic. Converting the line and byte offset back gives the position; and so does converting the
  line and UTF-16 character back, at every position that lies between whole runes of its line.
\<close>

theorem scanner_position_roundtrip:
  assumes "fits_i32 t" "0 \<le> pos" "pos \<le> int (length t)"
  shows "\<exists>starts line ch. compute_ecma_line_starts t = Some starts \<and>
    get_ecma_line_and_utf16_character_of_position t pos = Some (line, ch) \<and>
    get_ecma_line_and_byte_offset_of_position t pos = Some (line, pos - starts ! nat line) \<and>
    get_ecma_position_of_line_and_byte_offset t line (pos - starts ! nat line) = Some pos \<and>
    (\<forall>u. rune_prefix decode_utf8 (drop (nat (starts ! nat line)) t) (nat (pos - starts ! nat line)) u
       \<longrightarrow> u = ch \<and> get_ecma_position_of_line_and_utf16_character t line ch = Some pos)"
proof -
  obtain ss where ss: "compute_ecma_line_starts t = Some (0 # ss)" "starts_ok t 0 (0 # ss)"
    using line_maps [OF assms(1)] by metis
  let ?s = "0 # ss"
  obtain line start where b: "compute_line_of_position ?s pos = Some line"
    "index ?s line = Some start" "0 \<le> line" "line < int (length ?s)" "0 \<le> start" "start \<le> pos"
    "start = ?s ! nat line"
    using line_bounds [OF ss(2) assms(2,3)] by metis
  have sl: "slice t start pos = Some (take (nat (pos - start)) (drop (nat start) t))"
    using b assms by (simp add: slice_def)
  define ch where "ch = utf16_len (take (nat (pos - start)) (drop (nat start) t))"
  have w: "wrap64 (pos - start) = pos - start" "wrap64 pos = pos"
    using b(5,6) assms by (auto intro!: wrap64_id simp: fits_i32_def)
  have "get_ecma_line_and_utf16_character_of_position t pos = Some (line, ch)"
    "get_ecma_line_and_byte_offset_of_position t pos = Some (line, pos - start)"
    "get_ecma_position_of_line_and_byte_offset t line (pos - start) = Some pos"
    using ss(1) b sl w ch_def
    by (simp_all add: get_ecma_line_and_utf16_character_of_position_def
        get_ecma_line_and_byte_offset_of_position_def get_ecma_position_of_line_and_byte_offset_def
        compute_position_of_line_and_byte_offset_def)
  moreover have "u = ch \<and> get_ecma_position_of_line_and_utf16_character t line ch = Some pos"
    if "rune_prefix decode_utf8 (drop (nat start) t) (nat (pos - start)) u" for u
    using scanner_roundtrip [OF ss(2) assms(2,3) b(1)] utf16_count_prefix [OF that] that b(7) ss(1)
    by (simp add: ch_def utf16_len_count get_ecma_position_of_line_and_utf16_character_def)
  ultimately show ?thesis using ss(1) b(7) by blast
qed

theorem scanner_position_roundtrip_witness:
  "\<exists>starts line ch. compute_ecma_line_starts ''ab'' = Some starts \<and>
    get_ecma_line_and_utf16_character_of_position ''ab'' 2 = Some (line, ch) \<and>
    get_ecma_position_of_line_and_byte_offset ''ab'' line (2 - starts ! nat line) = Some 2"
  using scanner_position_roundtrip [of "''ab''" 2] by (auto simp: fits_i32_def)

text \<open>
  C25. Language server positions. In a text shorter than \<open>2 ^ 29\<close> bytes, with the line map of the text, a position
  converts to a line and character without a panic, and converting back gives the position: always when the map is
  ASCII or the encoding is UTF-8, and in UTF-16 when it is between whole runes of its line.
\<close>

theorem lsp_position_roundtrip:
  assumes "lsp_line_map_new t = Some m" "int (length t) < 2 ^ 29" "0 \<le> pos" "pos \<le> int (length t)"
    "compute_line_of_position (line_starts m) pos = Some line"
    "ascii_only m \<or> enc = Utf8 \<or> rune_prefix decode_utf8
      (drop (nat (line_starts m ! nat line)) t) (nat (pos - line_starts m ! nat line)) u"
  shows "\<exists>lp. lsp_position_to_line_and_character t m pos enc = Some lp \<and>
    lsp_line_and_character_to_position t m lp enc = Some pos"
proof -
  have "fits_i32 t" using assms(2) by (simp add: fits_i32_def)
  then have "starts_ok t 0 (line_starts m)"
    using line_maps assms(1) by (fastforce simp: lsp_line_map_new_def)
  then show ?thesis using lsp_roundtrip assms(2-) by blast
qed

text \<open>A text with a character of four bytes and two UTF-16 units, at the position behind it.\<close>

definition sample_text :: bytes where
  "sample_text = [CHR 0xF0, CHR 0x9F, CHR 0x98, CHR 0x80, CHR ''a'']"

theorem lsp_position_roundtrip_witness:
  "\<exists>lp. lsp_position_to_line_and_character sample_text \<lparr>line_starts = [0], ascii_only = False\<rparr> 4 Utf16 = Some lp \<and>
    lsp_line_and_character_to_position sample_text \<lparr>line_starts = [0], ascii_only = False\<rparr> lp Utf16 = Some 4"
proof (rule lsp_position_roundtrip)
  show "lsp_line_map_new sample_text = Some \<lparr>line_starts = [0], ascii_only = False\<rparr>" by code_simp
  show "compute_line_of_position (line_starts \<lparr>line_starts = [0], ascii_only = False\<rparr>) 4 = Some 0" by code_simp
  have "decode_utf8 sample_text = (0x1f600, 4)" "sample_text \<noteq> []" by code_simp+
  from rune_prefix.more [where dec = decode_utf8, OF this(2,1) rune_prefix.none]
  show "ascii_only \<lparr>line_starts = [0], ascii_only = False\<rparr> \<or> Utf16 = Utf8 \<or> rune_prefix decode_utf8
      (drop (nat (line_starts \<lparr>line_starts = [0], ascii_only = False\<rparr> ! nat 0)) sample_text)
      (nat (4 - line_starts \<lparr>line_starts = [0], ascii_only = False\<rparr> ! nat 0)) (utf16_rune_len 0x1f600 + 0)"
    by simp
qed (simp_all add: sample_text_def)

text \<open>
  The position map. At the boundary behind any number of whole characters, lone surrogates
  included, \<open>utf8_to_utf16\<close> gives the number of UTF-16 units before it and \<open>utf16_to_utf8\<close> gives the
  byte offset back.
\<close>

theorem position_map_boundary:
  assumes "rune_prefix decode_rune t k u" "int (length t) < 2 ^ 61"
  shows "utf8_to_utf16 (position_map_new t) (int k) = u \<and>
    utf16_to_utf8 (position_map_new t) (utf8_to_utf16 (position_map_new t) (int k)) = int k"
  using position_map_roundtrip [OF assms] by simp

theorem position_map_boundary_witness:
  "utf8_to_utf16 (position_map_new (encode_rune 0x1f600 @ ''a'')) (int (length (encode_rune 0x1f600) + 0)) = 2 + 0 \<and>
   utf16_to_utf8 (position_map_new (encode_rune 0x1f600 @ ''a''))
     (utf8_to_utf16 (position_map_new (encode_rune 0x1f600 @ ''a'')) (int (length (encode_rune 0x1f600) + 0))) =
   int (length (encode_rune 0x1f600) + 0)"
proof (rule position_map_boundary)
  have d: "decode_rune (encode_rune 0x1f600 @ ''a'') = (0x1f600, length (encode_rune 0x1f600))"
    by (rule decode_rune_encode) (simp add: valid_rune_def)
  have "encode_rune 0x1f600 @ ''a'' \<noteq> []" by simp
  from rune_prefix.more [where dec = decode_rune, OF this d rune_prefix.none]
  show "rune_prefix decode_rune (encode_rune 0x1f600 @ ''a'') (length (encode_rune 0x1f600) + 0) (2 + 0)"
    by (simp only: utf16_rune_len_def) simp
  have "length (encode_rune 0x1f600) = length (encode_utf8 0x1f600)"
    by (subst encode_rune_scalar) (simp_all add: valid_rune_def is_surrogate_def)
  then show "int (length (encode_rune 0x1f600 @ ''a'')) < 2 ^ 61" by (simp add: encode_utf8_def)
qed

end
