(* ===== verification/Path_Extensions.thy ===== *)
theory Path_Extensions
  imports Path_Components
begin

text \<open>
  \<open>crates/tsr_tspath/src/extension.rs\<close>, and the declaration tests of \<open>crates/tsr_core/src/path.rs\<close>:
  the extension tables, and the predicates, extractors and rewrites over them. A case-insensitive
  comparison is the argument \<open>eqf\<close>, as for the component operations.
\<close>

section \<open>Tables\<close>

definition EXTENSION_TS :: bytes where "EXTENSION_TS = ''.ts''"
definition EXTENSION_TSX :: bytes where "EXTENSION_TSX = ''.tsx''"
definition EXTENSION_DTS :: bytes where "EXTENSION_DTS = ''.d.ts''"
definition EXTENSION_JS :: bytes where "EXTENSION_JS = ''.js''"
definition EXTENSION_JSX :: bytes where "EXTENSION_JSX = ''.jsx''"
definition EXTENSION_JSON :: bytes where "EXTENSION_JSON = ''.json''"
definition EXTENSION_TS_BUILD_INFO :: bytes where "EXTENSION_TS_BUILD_INFO = ''.tsbuildinfo''"
definition EXTENSION_MJS :: bytes where "EXTENSION_MJS = ''.mjs''"
definition EXTENSION_MTS :: bytes where "EXTENSION_MTS = ''.mts''"
definition EXTENSION_DMTS :: bytes where "EXTENSION_DMTS = ''.d.mts''"
definition EXTENSION_CJS :: bytes where "EXTENSION_CJS = ''.cjs''"
definition EXTENSION_CTS :: bytes where "EXTENSION_CTS = ''.cts''"
definition EXTENSION_DCTS :: bytes where "EXTENSION_DCTS = ''.d.cts''"

lemmas extension_defs =
  EXTENSION_TS_def EXTENSION_TSX_def EXTENSION_DTS_def EXTENSION_JS_def EXTENSION_JSX_def
  EXTENSION_JSON_def EXTENSION_TS_BUILD_INFO_def EXTENSION_MJS_def EXTENSION_MTS_def
  EXTENSION_DMTS_def EXTENSION_CJS_def EXTENSION_CTS_def EXTENSION_DCTS_def

definition SUPPORTED_DECLARATION_EXTENSIONS :: "bytes list" where
  "SUPPORTED_DECLARATION_EXTENSIONS = [EXTENSION_DTS, EXTENSION_DCTS, EXTENSION_DMTS]"

definition SUPPORTED_TS_IMPLEMENTATION_EXTENSIONS :: "bytes list" where
  "SUPPORTED_TS_IMPLEMENTATION_EXTENSIONS = [EXTENSION_TS, EXTENSION_TSX, EXTENSION_MTS, EXTENSION_CTS]"

definition SUPPORTED_TS_EXTENSIONS_FOR_EXTRACT :: "bytes list" where
  "SUPPORTED_TS_EXTENSIONS_FOR_EXTRACT =
     [EXTENSION_DTS, EXTENSION_DCTS, EXTENSION_DMTS, EXTENSION_TS, EXTENSION_TSX, EXTENSION_MTS,
      EXTENSION_CTS]"

definition SUPPORTED_TS_EXTENSIONS_FLAT :: "bytes list" where
  "SUPPORTED_TS_EXTENSIONS_FLAT =
     [EXTENSION_TS, EXTENSION_TSX, EXTENSION_DTS, EXTENSION_CTS, EXTENSION_DCTS, EXTENSION_MTS,
      EXTENSION_DMTS]"

definition SUPPORTED_JS_EXTENSIONS_FLAT :: "bytes list" where
  "SUPPORTED_JS_EXTENSIONS_FLAT = [EXTENSION_JS, EXTENSION_JSX, EXTENSION_MJS, EXTENSION_CJS]"

definition EXTENSIONS_TO_REMOVE :: "bytes list" where
  "EXTENSIONS_TO_REMOVE =
     [EXTENSION_DTS, EXTENSION_DMTS, EXTENSION_DCTS, EXTENSION_MJS, EXTENSION_MTS, EXTENSION_CJS,
      EXTENSION_CTS, EXTENSION_TS, EXTENSION_JS, EXTENSION_TSX, EXTENSION_JSX, EXTENSION_JSON]"

section \<open>Predicates\<close>

definition extension_is_ts :: "bytes \<Rightarrow> bool" where
  "extension_is_ts ext \<longleftrightarrow>
     ext \<in> set SUPPORTED_TS_EXTENSIONS_FLAT \<or>
     7 \<le> length ext \<and> starts_with ext ''.d.'' \<and> ends_with ext ''.ts''"

definition extension_is_one_of :: "bytes \<Rightarrow> bytes list \<Rightarrow> bool" where
  "extension_is_one_of ext extensions = list_ex (\<lambda>candidate. candidate = ext) extensions"

definition file_extension_is :: "bytes \<Rightarrow> bytes \<Rightarrow> bool" where
  "file_extension_is path extension \<longleftrightarrow> length extension < length path \<and> ends_with path extension"

definition file_extension_is_one_of :: "bytes \<Rightarrow> bytes list \<Rightarrow> bool" where
  "file_extension_is_one_of path extensions = list_ex (file_extension_is path) extensions"

definition has_ts_file_extension :: "bytes \<Rightarrow> bool" where
  "has_ts_file_extension path = file_extension_is_one_of path SUPPORTED_TS_EXTENSIONS_FLAT"

definition is_declaration_file_name :: "bytes \<Rightarrow> bool" where
  "is_declaration_file_name path =
     (let normalized = normalize_slashes path; root_end = root_length normalized in
      if root_end = length normalized then False
      else let without_trailing =
                 (case strip_suffix normalized ''/'' of Some q \<Rightarrow> q | None \<Rightarrow> normalized);
               basename_start =
                 (case rposition (\<lambda>b. b = SLASH) without_trailing of
                    None \<Rightarrow> root_end | Some i \<Rightarrow> max root_end (i + 1));
               base = drop basename_start without_trailing
           in ends_with base ''.d.ts'' \<or> ends_with base ''.d.cts'' \<or> ends_with base ''.d.mts'' \<or>
              ends_with base ''.ts'' \<and> has_window base ''.d.'')"

definition has_implementation_ts_file_extension :: "bytes \<Rightarrow> bool" where
  "has_implementation_ts_file_extension path \<longleftrightarrow>
     file_extension_is_one_of path SUPPORTED_TS_IMPLEMENTATION_EXTENSIONS \<and>
     \<not> is_declaration_file_name path"

definition has_js_file_extension :: "bytes \<Rightarrow> bool" where
  "has_js_file_extension path = file_extension_is_one_of path SUPPORTED_JS_EXTENSIONS_FLAT"

definition has_json_file_extension :: "bytes \<Rightarrow> bool" where
  "has_json_file_extension path = file_extension_is path EXTENSION_JSON"

section \<open>Extractors\<close>

definition try_get_extension_from_path_with ::
    "bytes \<Rightarrow> bytes \<Rightarrow> (bytes \<Rightarrow> bytes \<Rightarrow> bool) \<Rightarrow> bytes" where
  "try_get_extension_from_path_with path extension equal_to =
     (let extension = (if starts_with extension ''.'' then extension else ''.'' @ extension);
          candidate = drop (length path - length extension) path
      in if length extension \<le> length path \<and> path ! (length path - length extension) = CHR ''.'' \<and>
            equal_to candidate extension
         then candidate else [])"

definition any_extension_from_path_worker ::
    "bytes \<Rightarrow> bytes list \<Rightarrow> (bytes \<Rightarrow> bytes \<Rightarrow> bool) \<Rightarrow> bytes" where
  "any_extension_from_path_worker path extensions equal_to =
     (case find (\<lambda>found. found \<noteq> [])
             (map (\<lambda>e. try_get_extension_from_path_with path e equal_to) extensions) of
        Some found \<Rightarrow> found | None \<Rightarrow> [])"

definition any_extension_from_path ::
    "(bytes \<Rightarrow> bytes \<Rightarrow> bool) \<Rightarrow> bytes \<Rightarrow> bytes list \<Rightarrow> bool \<Rightarrow> bytes" where
  "any_extension_from_path eqf path extensions ignore_case =
     (if extensions \<noteq> []
      then any_extension_from_path_worker (remove_trailing_directory_separator path) extensions
             (component_equality eqf (\<not> ignore_case))
      else let base = base_name path in
        case rposition (\<lambda>b. b = CHR ''.'') base of None \<Rightarrow> [] | Some i \<Rightarrow> drop i base)"

definition longest_extension_from_path ::
    "(bytes \<Rightarrow> bytes \<Rightarrow> bool) \<Rightarrow> bytes \<Rightarrow> bytes list \<Rightarrow> bool \<Rightarrow> bytes" where
  "longest_extension_from_path eqf path extensions ignore_case =
     (let path = remove_trailing_directory_separator path;
          equal_to = component_equality eqf (\<not> ignore_case)
      in foldl (\<lambda>longest extension.
           if length longest < length extension
           then let matched = try_get_extension_from_path_with path extension equal_to in
             if matched \<noteq> [] then matched else longest
           else longest) [] extensions)"

definition first_file_extension :: "bytes \<Rightarrow> bytes list \<Rightarrow> bytes" where
  "first_file_extension path extensions =
     (case find (file_extension_is path) extensions of Some e \<Rightarrow> e | None \<Rightarrow> [])"

definition try_get_extension_from_path :: "bytes \<Rightarrow> bytes" where
  "try_get_extension_from_path path = first_file_extension path EXTENSIONS_TO_REMOVE"

definition try_extract_ts_extension :: "bytes \<Rightarrow> bytes" where
  "try_extract_ts_extension path = first_file_extension path SUPPORTED_TS_EXTENSIONS_FOR_EXTRACT"

definition declaration_file_extension :: "bytes \<Rightarrow> bytes" where
  "declaration_file_extension path =
     (let base = base_name path in
      case find (ends_with base) SUPPORTED_DECLARATION_EXTENSIONS of
        Some ext \<Rightarrow> drop (length base - length ext) base
      | None \<Rightarrow>
          if ends_with base EXTENSION_TS
          then case window_position base ''.d.'' of Some index \<Rightarrow> drop index base | None \<Rightarrow> []
          else [])"

definition declaration_emit_extension_for_path :: "(bytes \<Rightarrow> bytes \<Rightarrow> bool) \<Rightarrow> bytes \<Rightarrow> bytes" where
  "declaration_emit_extension_for_path eqf path =
     (if file_extension_is_one_of path [EXTENSION_MJS, EXTENSION_MTS] then EXTENSION_DMTS
      else if file_extension_is_one_of path [EXTENSION_CJS, EXTENSION_CTS] then EXTENSION_DCTS
      else if file_extension_is_one_of path [EXTENSION_TS, EXTENSION_TSX, EXTENSION_JS, EXTENSION_JSX]
      then EXTENSION_DTS
      else let ext = any_extension_from_path eqf path [] False in
        if ext = [] then EXTENSION_DTS else ''.d'' @ ext @ ''.ts'')"

definition possible_original_input_extensions :: "bytes \<Rightarrow> bytes list panicking" where
  "possible_original_input_extensions path =
     (if file_extension_is_one_of path [EXTENSION_DMTS, EXTENSION_MJS, EXTENSION_MTS]
      then Some [EXTENSION_MTS, EXTENSION_MJS]
      else if file_extension_is_one_of path [EXTENSION_DCTS, EXTENSION_CJS, EXTENSION_CTS]
      then Some [EXTENSION_CTS, EXTENSION_CJS]
      else let ext = declaration_file_extension path in
        if ext \<noteq> [] \<and> ext \<noteq> EXTENSION_DTS
        then if 6 \<le> length ext then Some [''.'' @ drop 3 (take (length ext - 3) ext)] else None
        else Some [EXTENSION_TSX, EXTENSION_TS, EXTENSION_JSX, EXTENSION_JS])"

section \<open>Rewrites\<close>

definition with_extension :: "bytes \<Rightarrow> bytes \<Rightarrow> bool \<Rightarrow> bytes" where
  "with_extension stem ext empty_deletes =
     (if ext = [] \<and> empty_deletes then stem
      else stem @ (if starts_with ext ''.'' then ext else ''.'' @ ext))"

definition change_any_extension ::
    "(bytes \<Rightarrow> bytes \<Rightarrow> bool) \<Rightarrow> bytes \<Rightarrow> bytes \<Rightarrow> bytes list \<Rightarrow> bool \<Rightarrow> bytes" where
  "change_any_extension eqf path ext extensions ignore_case =
     (let matched = length (any_extension_from_path eqf path extensions ignore_case) in
      if matched = 0 then path else with_extension (take (length path - matched) path) ext True)"

definition change_extension :: "(bytes \<Rightarrow> bytes \<Rightarrow> bool) \<Rightarrow> bytes \<Rightarrow> bytes \<Rightarrow> bytes" where
  "change_extension eqf path ext = change_any_extension eqf path ext EXTENSIONS_TO_REMOVE False"

definition change_full_extension :: "(bytes \<Rightarrow> bytes \<Rightarrow> bool) \<Rightarrow> bytes \<Rightarrow> bytes \<Rightarrow> bytes" where
  "change_full_extension eqf path ext =
     (let declaration = length (declaration_file_extension path) in
      if declaration = 0 then change_extension eqf path ext
      else with_extension (take (length path - declaration) path) ext False)"

definition remove_extension :: "bytes \<Rightarrow> bytes \<Rightarrow> bytes panicking" where
  "remove_extension path extension =
     (if length extension \<le> length path then Some (take (length path - length extension) path) else None)"

text \<open>The first suffix of the list that matches is removed.\<close>

fun strip_first_suffix :: "bytes \<Rightarrow> bytes list \<Rightarrow> bytes" where
  "strip_first_suffix path [] = path"
| "strip_first_suffix path (s # ss) =
     (case strip_suffix path s of Some p \<Rightarrow> p | None \<Rightarrow> strip_first_suffix path ss)"

definition remove_file_extension :: "bytes \<Rightarrow> bytes" where
  "remove_file_extension path = strip_first_suffix path
     [''.d.ts'', ''.d.mts'', ''.d.cts'', ''.mjs'', ''.mts'', ''.cjs'', ''.cts'', ''.ts'', ''.js'',
      ''.tsx'', ''.jsx'', ''.json'']"

definition remove_any_file_extension :: "(bytes \<Rightarrow> bytes \<Rightarrow> bool) \<Rightarrow> bytes \<Rightarrow> bytes panicking" where
  "remove_any_file_extension eqf path =
     (let removed = remove_file_extension path in
      if length removed \<noteq> length path then Some removed
      else let extension = any_extension_from_path eqf path [] False in
        if extension = [] then Some path else remove_extension path extension)"

definition path_is_relative :: "bytes \<Rightarrow> bool" where
  "path_is_relative path \<longleftrightarrow>
     path = ''.'' \<or> path = ''..'' \<or>
     2 \<le> length path \<and> path ! 0 = CHR ''.'' \<and> path ! 1 \<in> {SLASH, BACKSLASH} \<or>
     3 \<le> length path \<and> path ! 0 = CHR ''.'' \<and> path ! 1 = CHR ''.'' \<and> path ! 2 \<in> {SLASH, BACKSLASH}"

text \<open>The compiler option \<open>rewriteRelativeImportExtensions\<close> is the first argument.\<close>

definition should_rewrite_module_specifier :: "bool \<Rightarrow> bytes \<Rightarrow> bool" where
  "should_rewrite_module_specifier rewrite_relative_import_extensions specifier \<longleftrightarrow>
     rewrite_relative_import_extensions \<and> path_is_relative specifier \<and>
     \<not> is_declaration_file_name specifier \<and> has_ts_file_extension specifier"

end
