(* ===== verification/Semver.thy ===== *)
theory Semver
  imports Strings
begin

text \<open>
  \<open>crates/tsr_semver/src/version.rs\<close>: semantic versions, their parser, printer and precedence. The
  parser keeps the fields it has read when it fails, as the code does. An \<open>Ordering\<close> is the sign of
  an integer.
\<close>

section \<open>Data\<close>

record version =
  major :: u32
  minor :: u32
  patch :: u32
  prerelease :: "str list"
  build :: "str list"

definition version_default :: version where
  "version_default = \<lparr>major = 0, minor = 0, patch = 0, prerelease = [], build = []\<rparr>"

datatype parse_error = InvalidVersion bytes | ComponentOverflow str

record version_parts =
  p_major :: str
  p_minor :: "str option"
  p_patch :: "str option"
  p_prerelease :: "str option"
  p_build :: "str option"

section \<open>Lexical classes\<close>

definition folded_letter :: "int \<Rightarrow> bool" where
  "folded_letter c \<longleftrightarrow>
     65 \<le> c \<and> c \<le> 90 \<or> 97 \<le> c \<and> c \<le> 122 \<or> c = 0x017f \<or> c = 0x212a"

definition numeric :: "str \<Rightarrow> bool" where
  "numeric s \<longleftrightarrow> s \<noteq> [] \<and> list_all is_digit s \<and> (length s = 1 \<or> \<not> starts_with s [48])"

definition wildcard :: "str \<Rightarrow> bool" where
  "wildcard s \<longleftrightarrow> s = lit ''x'' \<or> s = lit ''X'' \<or> s = lit ''*''"

definition qualifier_char :: "int \<Rightarrow> bool" where
  "qualifier_char c \<longleftrightarrow> folded_letter c \<or> is_digit c \<or> c = 45 \<or> c = 46"

definition identifier_char :: "int \<Rightarrow> bool" where
  "identifier_char c \<longleftrightarrow> folded_letter c \<or> is_digit c \<or> c = 45"

section \<open>The outer match\<close>

text \<open>The part of the text behind the numbers: prerelease and build metadata, unless malformed.\<close>

definition qualifiers :: "bool \<Rightarrow> str \<Rightarrow> str option \<times> str option" where
  "qualifiers hyphen qualifier =
     (if hyphen
      then case position (\<lambda>c. c = 43) qualifier of
          Some i \<Rightarrow> (Some (take i qualifier), Some (drop (i + 1) qualifier))
        | None \<Rightarrow> (Some qualifier, None)
      else (None, Some qualifier))"

definition bad_qualifier :: "str option \<Rightarrow> bool" where
  "bad_qualifier q \<longleftrightarrow> (case q of None \<Rightarrow> False | Some part \<Rightarrow> part = [] \<or> \<not> list_all qualifier_char part)"

definition parts :: "str \<Rightarrow> bool \<Rightarrow> version_parts option" where
  "parts t partial =
     (let end_pos = (case position (\<lambda>c. c = 45 \<or> c = 43) t of Some i \<Rightarrow> i | None \<Rightarrow> length t);
          numbers = split_by (\<lambda>c. c = 46) (take end_pos t);
          third = (if 2 < length numbers then Some (numbers ! 2) else None);
          second = (if 1 < length numbers then Some (numbers ! 1) else None)
      in
      if 3 < length numbers \<or>
         list_ex (\<lambda>part. \<not> (numeric part \<or> partial \<and> wildcard part)) (take 3 numbers)
      then None
      else if end_pos \<noteq> length t \<and> third = None then None
      else let (pre, meta) =
             (if end_pos \<noteq> length t then qualifiers (t ! end_pos = 45) (drop (end_pos + 1) t)
              else (None, None)) in
        if bad_qualifier pre \<or> bad_qualifier meta then None
        else Some \<lparr>p_major = hd numbers, p_minor = second, p_patch = third,
                   p_prerelease = pre, p_build = meta\<rparr>)"

definition uint_component :: "str \<Rightarrow> parse_error + u32" where
  "uint_component s = (case parse_u32 s of Some v \<Rightarrow> Inr v | None \<Rightarrow> Inl (ComponentOverflow s))"

section \<open>The parser\<close>

text \<open>The loop over the three numbers: an overflowing one is set to the maximum and ends it.\<close>

fun read_components :: "((u32 \<Rightarrow> version \<Rightarrow> version) \<times> str option) list \<Rightarrow> version \<Rightarrow>
    version \<times> parse_error option" where
  "read_components [] v = (v, None)"
| "read_components ((put, source) # rest) v =
     (case source of
        None \<Rightarrow> read_components rest v
      | Some s \<Rightarrow>
          (case uint_component s of
             Inr value \<Rightarrow> read_components rest (put value v)
           | Inl error \<Rightarrow> (put (- 1) v, Some error)))"

definition put_major :: "u32 \<Rightarrow> version \<Rightarrow> version" where "put_major n v = v\<lparr>major := n\<rparr>"
definition put_minor :: "u32 \<Rightarrow> version \<Rightarrow> version" where "put_minor n v = v\<lparr>minor := n\<rparr>"
definition put_patch :: "u32 \<Rightarrow> version \<Rightarrow> version" where "put_patch n v = v\<lparr>patch := n\<rparr>"

definition prerelease_identifier :: "str \<Rightarrow> bool" where
  "prerelease_identifier part \<longleftrightarrow>
     numeric part \<or>
     (part \<noteq> [] \<and> (folded_letter (hd part) \<or> hd part = 45)) \<and> list_all identifier_char part"

definition build_identifier :: "str \<Rightarrow> bool" where
  "build_identifier part \<longleftrightarrow> part \<noteq> [] \<and> list_all identifier_char part"

abbreviation split_dots :: "str \<Rightarrow> str list" where
  "split_dots \<equiv> split_by (\<lambda>c. c = 46)"

definition finish_build :: "bytes \<Rightarrow> str option \<Rightarrow> version \<Rightarrow> version \<times> parse_error option" where
  "finish_build t meta v =
     (case meta of
        None \<Rightarrow> (v, None)
      | Some s \<Rightarrow>
          if list_all build_identifier (split_dots s) then (v\<lparr>build := split_dots s\<rparr>, None)
          else (v, Some (InvalidVersion t)))"

definition try_parse_version :: "bytes \<Rightarrow> version \<times> parse_error option" where
  "try_parse_version t =
     (case Option.bind (from_utf8 t) (\<lambda>s. parts s False) of
        None \<Rightarrow> (version_default, Some (InvalidVersion t))
      | Some p \<Rightarrow>
          (case read_components
             [(put_major, Some (p_major p)), (put_minor, p_minor p), (put_patch, p_patch p)]
             version_default of
             (v, Some error) \<Rightarrow> (v, Some error)
           | (v, None) \<Rightarrow>
               (case p_prerelease p of
                  None \<Rightarrow> finish_build t (p_build p) v
                | Some pre \<Rightarrow>
                    if list_all prerelease_identifier (split_dots pre)
                    then finish_build t (p_build p) (v\<lparr>prerelease := split_dots pre\<rparr>)
                    else (v, Some (InvalidVersion t)))))"

definition version_parse :: "bytes \<Rightarrow> parse_error + version" where
  "version_parse t =
     (case try_parse_version t of (v, Some error) \<Rightarrow> Inl error | (v, None) \<Rightarrow> Inr v)"

text \<open>\<open>must_parse\<close> panics on an error.\<close>

definition must_parse :: "bytes \<Rightarrow> version panicking" where
  "must_parse t = (case version_parse t of Inr v \<Rightarrow> Some v | Inl _ \<Rightarrow> None)"

section \<open>The printer\<close>

definition show_parts :: "int \<Rightarrow> str list \<Rightarrow> str" where
  "show_parts marker ps = (if ps = [] then [] else marker # join_with 46 ps)"

definition version_display :: "version \<Rightarrow> str" where
  "version_display v =
     show_decimal (unat (major v)) @ 46 # show_decimal (unat (minor v)) @ 46 #
     show_decimal (unat (patch v)) @ show_parts 45 (prerelease v) @ show_parts 43 (build v)"

section \<open>Precedence\<close>

definition compare_identifier :: "str \<Rightarrow> str \<Rightarrow> int" where
  "compare_identifier left right =
     (let lexical = compare_str left right in
      if lexical = 0 then 0
      else if numeric left \<and> \<not> numeric right then - 1
      else if \<not> numeric left \<and> numeric right then 1
      else if numeric left \<and> numeric right
      then (case (parse_u32 left, parse_u32 right) of
              (Some a, Some b) \<Rightarrow> sgn (uint a - uint b)
            | _ \<Rightarrow> if length left \<noteq> length right then sgn (int (length left) - int (length right))
                   else lexical)
      else lexical)"

definition compare_prereleases :: "str list \<Rightarrow> str list \<Rightarrow> int" where
  "compare_prereleases left right =
     (if left = [] then (if right = [] then 0 else 1)
      else if right = [] then - 1
      else compare_lists compare_identifier left right)"

definition compare_u32 :: "u32 \<Rightarrow> u32 \<Rightarrow> int" where
  "compare_u32 a b = sgn (uint a - uint b)"

definition compare_version :: "version \<Rightarrow> version \<Rightarrow> int" where
  "compare_version left right =
     then_with (compare_u32 (major left) (major right))
       (then_with (compare_u32 (minor left) (minor right))
         (then_with (compare_u32 (patch left) (patch right))
           (compare_prereleases (prerelease left) (prerelease right))))"

definition version_compare :: "version option \<Rightarrow> version option \<Rightarrow> int" where
  "version_compare left right =
     (case (left, right) of
        (None, None) \<Rightarrow> 0
      | (None, Some _) \<Rightarrow> - 1
      | (Some _, None) \<Rightarrow> 1
      | (Some l, Some r) \<Rightarrow> compare_version l r)"

definition increment_major :: "version \<Rightarrow> version" where
  "increment_major v = version_default\<lparr>major := major v + 1\<rparr>"

definition increment_minor :: "version \<Rightarrow> version" where
  "increment_minor v = version_default\<lparr>major := major v, minor := minor v + 1\<rparr>"

definition increment_patch :: "version \<Rightarrow> version" where
  "increment_patch v = version_default\<lparr>major := major v, minor := minor v, patch := patch v + 1\<rparr>"

definition zero_prerelease :: version where
  "zero_prerelease = version_default\<lparr>prerelease := [lit ''0'']\<rparr>"

section \<open>Precedence is a total preorder\<close>

lemma numeric_canonical: "numeric s = canonical_decimal s"
  by (cases s) (auto simp: numeric_def canonical_decimal_def)

lemma parse_u32_value:
  "numeric s \<Longrightarrow> parse_u32 s = Some w \<Longrightarrow> uint w = int (decimal_value s)"
  by (auto simp: numeric_canonical parse_u32_canonical unsigned_of_nat take_bit_nat_eq_self split: if_splits)

text \<open>The three ways of comparing two numbers are the comparison of their values.\<close>

lemma compare_identifier_eq:
  "compare_identifier l r =
     (if numeric l \<and> numeric r then sgn (int (decimal_value l) - int (decimal_value r))
      else if numeric l then - 1 else if numeric r then 1 else compare_str l r)"
proof (cases "numeric l \<and> numeric r \<and> compare_str l r \<noteq> 0")
  case True
  then have c: "canonical_decimal l" "canonical_decimal r" by (simp_all add: numeric_canonical)
  then have d: "list_all is_digit l" "list_all is_digit r" by (simp_all add: canonical_decimal_def)
  have "length l = length r \<Longrightarrow> compare_str l r = sgn (int (decimal_value l) - int (decimal_value r))"
    using compare_digits d by blast
  then show ?thesis
    using True longer_decimal [OF c] longer_decimal [OF c(2,1)] parse_u32_value [of l] parse_u32_value [of r]
    by (cases "length l" "length r" rule: linorder_cases)
       (auto simp: compare_identifier_def Let_def split: option.splits)
next
  case False
  then show ?thesis by (auto simp: compare_identifier_def Let_def compare_str_zero)
qed

lemma compare_identifier_zero: "compare_identifier l r = 0 \<longleftrightarrow> l = r"
proof -
  have "numeric l \<Longrightarrow> numeric r \<Longrightarrow> decimal_value l = decimal_value r \<Longrightarrow> l = r"
    by (metis numeric_canonical show_decimal_value)
  then show ?thesis
    by (cases "numeric l"; cases "numeric r")
       (auto simp: compare_identifier_eq compare_str_zero sgn_0_0)
qed

interpretation identifier_order: comparison compare_identifier
proof
  fix a b c
  show "compare_identifier a a = 0" by (simp add: compare_identifier_zero)
  show "compare_identifier a b \<le> 0 \<longleftrightarrow> 0 \<le> compare_identifier b a"
    using str_order.cmp_flip [of a b]
    by (cases "numeric a"; cases "numeric b") (simp_all add: compare_identifier_eq sgn_int_le)
  show "compare_identifier a b \<le> 0 \<Longrightarrow> compare_identifier b c \<le> 0 \<Longrightarrow> compare_identifier a c \<le> 0"
    using str_order.cmp_trans [of a b c]
    by (cases "numeric a"; cases "numeric b"; cases "numeric c")
       (simp_all add: compare_identifier_eq sgn_int_le)
qed

lemma compare_prereleases_zero: "compare_prereleases l r = 0 \<longleftrightarrow> l = r"
  using compare_lists_zero [of compare_identifier, OF compare_identifier_zero]
  by (auto simp: compare_prereleases_def)

interpretation prerelease_order: comparison compare_prereleases
proof
  fix a b c
  show "compare_prereleases a a = 0" by (simp add: compare_prereleases_zero)
  show "compare_prereleases a b \<le> 0 \<longleftrightarrow> 0 \<le> compare_prereleases b a"
    using identifier_order.lists_flip [of a b] by (auto simp: compare_prereleases_def)
  show "compare_prereleases a b \<le> 0 \<Longrightarrow> compare_prereleases b c \<le> 0 \<Longrightarrow> compare_prereleases a c \<le> 0"
    using identifier_order.lists_trans [of a b c] by (auto simp: compare_prereleases_def split: if_splits)
qed

interpretation version_order: comparison compare_version
  unfolding compare_version_def compare_u32_def
  by (intro comparison_then comparison_int comparison_key [OF prerelease_order.comparison_axioms])

interpretation precedence: comparison version_compare
proof
  fix a b c
  show "version_compare a a = 0"
    by (cases a) (simp_all add: version_compare_def version_order.cmp_refl)
  show "version_compare a b \<le> 0 \<longleftrightarrow> 0 \<le> version_compare b a"
    by (cases a; cases b) (simp_all add: version_compare_def version_order.cmp_flip)
  show "version_compare a b \<le> 0 \<Longrightarrow> version_compare b c \<le> 0 \<Longrightarrow> version_compare a c \<le> 0"
    by (cases a; cases b; cases c) (auto simp: version_compare_def intro: version_order.cmp_trans)
qed

lemma compare_version_zero:
  "compare_version l r = 0 \<longleftrightarrow> l\<lparr>build := []\<rparr> = r\<lparr>build := []\<rparr>"
  by (cases l; cases r)
     (simp add: compare_version_def then_with_zero compare_u32_def sgn_0_0 compare_prereleases_zero
       flip: word_uint_eq_iff)

section \<open>Printing and parsing\<close>

text \<open>
  What the printer's output needs in order to be matched by \<^term>\<open>parts\<close>: identifiers of the right
  characters, possibly empty ones, but not a single empty one.
\<close>

definition printable :: "str list \<Rightarrow> bool" where
  "printable ps \<longleftrightarrow> list_all (list_all identifier_char) ps \<and> ps \<noteq> [[]]"

definition wf_version :: "version \<Rightarrow> bool" where
  "wf_version v \<longleftrightarrow> list_all prerelease_identifier (prerelease v) \<and> list_all build_identifier (build v)"

lemma identifier_char_not: "identifier_char c \<Longrightarrow> c \<noteq> 46 \<and> c \<noteq> 43 \<and> scalar c \<and> qualifier_char c"
  by (auto simp: identifier_char_def qualifier_char_def folded_letter_def is_digit_def scalar_def
      valid_rune_def is_surrogate_def)

lemma numeric_identifier_char: "numeric s \<Longrightarrow> list_all identifier_char s"
  by (auto simp: numeric_def identifier_char_def list_all_iff)

lemma wf_printable:
  assumes "wf_version v"
  shows "printable (prerelease v)" "printable (build v)"
  using assms numeric_identifier_char
  by (auto simp: wf_version_def printable_def list_all_iff prerelease_identifier_def build_identifier_def numeric_def)

lemma printable_join:
  assumes "printable ps"
  shows "\<forall>c\<in>set (join_with 46 ps). qualifier_char c \<and> c \<noteq> 43 \<and> scalar c"
    and "ps \<noteq> [] \<Longrightarrow> join_with 46 ps \<noteq> []"
    and "ps \<noteq> [] \<Longrightarrow> split_dots (join_with 46 ps) = ps"
proof -
  have i: "\<forall>p\<in>set ps. \<forall>c\<in>set p. identifier_char c" using assms by (auto simp: printable_def list_all_iff)
  have "qualifier_char 46" "scalar 46"
    by (simp_all add: qualifier_char_def scalar_def valid_rune_def is_surrogate_def)
  then show "\<forall>c\<in>set (join_with 46 ps). qualifier_char c \<and> c \<noteq> 43 \<and> scalar c"
    using i identifier_char_not set_join_with [of 46 ps] by fastforce
  show "ps \<noteq> [] \<Longrightarrow> join_with 46 ps \<noteq> []"
    using assms by (auto simp: join_with_eq_Nil printable_def)
  show "ps \<noteq> [] \<Longrightarrow> split_dots (join_with 46 ps) = ps"
    using i identifier_char_not by (intro split_join) blast+
qed

definition show_numbers :: "version \<Rightarrow> str" where
  "show_numbers v = show_decimal (unat (major v)) @ 46 # show_decimal (unat (minor v)) @ 46 #
     show_decimal (unat (patch v))"

lemma show_decimal_digits: "c \<in> set (show_decimal n) \<Longrightarrow> is_digit c"
  using show_decimal_canonical [of n] by (auto simp: canonical_decimal_def list_all_iff)

lemma show_numbers_chars: "c \<in> set (show_numbers v) \<Longrightarrow> is_digit c \<or> c = 46"
  by (auto simp: show_numbers_def dest: show_decimal_digits)

lemma split_show_numbers:
  "split_dots (show_numbers v) =
     [show_decimal (unat (major v)), show_decimal (unat (minor v)), show_decimal (unat (patch v))]"
proof -
  have n: "\<forall>c\<in>set (show_decimal n). c \<noteq> 46" for n
    by (auto dest!: show_decimal_digits simp: is_digit_def)
  show ?thesis unfolding show_numbers_def by (simp add: split_by_append [OF _ n] split_by_none [OF n])
qed

lemma qualifiers_display:
  assumes "printable pre" "printable meta" "pre \<noteq> [] \<or> meta \<noteq> []"
  defines "rest \<equiv> show_parts 45 pre @ show_parts 43 meta"
  shows "qualifiers (hd rest = 45) (tl rest) =
     (if pre = [] then None else Some (join_with 46 pre), if meta = [] then None else Some (join_with 46 meta))"
proof -
  have "position (\<lambda>c. c = 43) (join_with 46 pre) = None"
    using printable_join(1) [OF assms(1)] by (auto simp: position_None)
  then have "position (\<lambda>c. c = 43) (join_with 46 pre @ show_parts 43 meta) =
      (if meta = [] then None else Some (length (join_with 46 pre)))"
    by (simp add: position_append show_parts_def)
  then show ?thesis
    using assms(3) by (auto simp: rest_def qualifiers_def show_parts_def)
qed

lemma parts_display:
  assumes "printable (prerelease v)" "printable (build v)"
  shows "parts (version_display v) partial = Some
    \<lparr>p_major = show_decimal (unat (major v)), p_minor = Some (show_decimal (unat (minor v))),
     p_patch = Some (show_decimal (unat (patch v))),
     p_prerelease = (if prerelease v = [] then None else Some (join_with 46 (prerelease v))),
     p_build = (if build v = [] then None else Some (join_with 46 (build v)))\<rparr>"
proof -
  let ?n = "show_numbers v" and ?r = "show_parts 45 (prerelease v) @ show_parts 43 (build v)"
  let ?pos = "position (\<lambda>c. c = 45 \<or> c = 43) (?n @ ?r)"
  have t: "version_display v = ?n @ ?r" by (simp add: version_display_def show_numbers_def)
  have n: "position (\<lambda>c. c = 45 \<or> c = 43) ?n = None"
    by (auto dest!: show_numbers_chars simp: position_None is_digit_def)
  have r: "?r \<noteq> [] \<Longrightarrow> position (\<lambda>c. c = 45 \<or> c = 43) ?r = Some 0"
    by (auto simp: show_parts_def)
  have e: "(case ?pos of Some i \<Rightarrow> i | None \<Rightarrow> length (?n @ ?r)) = length ?n"
    using n r by (cases "?r = []") (simp_all add: position_append)
  have num: "numeric (show_decimal k)" for k
    using show_decimal_canonical [of k] by (simp add: numeric_canonical)
  have bad: "printable ps \<Longrightarrow> \<not> bad_qualifier (if ps = [] then None else Some (join_with 46 ps))" for ps
    using printable_join [of ps] by (simp add: bad_qualifier_def list_all_iff)
  show ?thesis
  proof (cases "?r = []")
    case True
    then have "prerelease v = []" "build v = []" by (auto simp: show_parts_def split: if_splits)
    with True show ?thesis
      unfolding t parts_def e by (simp add: split_show_numbers num bad_qualifier_def Let_def)
  next
    case False
    then have q: "qualifiers (hd ?r = 45) (tl ?r) =
      (if prerelease v = [] then None else Some (join_with 46 (prerelease v)),
       if build v = [] then None else Some (join_with 46 (build v)))"
      by (intro qualifiers_display assms) (auto simp: show_parts_def)
    have "(?n @ ?r) ! length ?n = hd ?r" "drop (length ?n + 1) (?n @ ?r) = tl ?r"
      using False by (cases ?r; simp add: nth_append)+
    then show ?thesis
      using False bad [OF assms(1)] bad [OF assms(2)]
      unfolding t parts_def e by (simp add: split_show_numbers num q Let_def del: append_assoc)
  qed
qed

lemma version_display_scalar:
  assumes "printable (prerelease v)" "printable (build v)"
  shows "list_all scalar (version_display v)"
proof -
  have "scalar 43" "scalar 45" "scalar 46" and d: "is_digit c \<Longrightarrow> scalar c" for c
    by (auto simp: scalar_def valid_rune_def is_surrogate_def is_digit_def)
  moreover have "version_display v = show_numbers v @ show_parts 45 (prerelease v) @ show_parts 43 (build v)"
    by (simp add: version_display_def show_numbers_def)
  ultimately show ?thesis
    using printable_join(1) [OF assms(1)] printable_join(1) [OF assms(2)]
    by (auto simp: list_all_iff show_parts_def dest!: show_numbers_chars d)
qed

lemma uint_component_show [simp]: "uint_component (show_decimal (unat (w :: u32))) = Inr w"
  by (simp add: uint_component_def parse_show_u32)

lemma try_parse_display:
  assumes "wf_version v"
  shows "try_parse_version (encode_runes (version_display v)) = (v, None)"
proof -
  note p = wf_printable [OF assms]
  have "from_utf8 (encode_runes (version_display v)) = Some (version_display v)"
    by (rule from_utf8_encode [OF version_display_scalar [OF p]])
  then show ?thesis
    using assms parts_display [OF p, of False] printable_join(3) [OF p(1)] printable_join(3) [OF p(2)]
    by (cases v)
       (auto simp: try_parse_version_def finish_build_def wf_version_def version_default_def
         put_major_def put_minor_def put_patch_def)
qed

lemma read_components_keep:
  "read_components [(put_major, a), (put_minor, b), (put_patch, c)] v = (v', e) \<Longrightarrow>
   prerelease v' = prerelease v \<and> build v' = build v"
  by (auto simp: put_major_def put_minor_def put_patch_def split: option.splits sum.splits)

lemma version_parse_wf:
  assumes "version_parse t = Inr v"
  shows "wf_version v"
proof -
  have "try_parse_version t = (v, None)"
    using assms by (auto simp: version_parse_def split: prod.splits option.splits)
  then show ?thesis
    unfolding try_parse_version_def
    by (auto simp: finish_build_def wf_version_def version_default_def
        simp del: read_components.simps dest!: read_components_keep
        split: option.splits prod.splits if_splits)
qed

lemma uint_word_Suc: "uint (w + 1 :: u32) = (if w = - 1 then 0 else uint w + 1)"
proof (cases "w = - 1")
  case False
  then have "1 + w \<noteq> 0" by (simp add: add_eq_0_iff)
  then have "unat (1 + w) = Suc (unat w)" by (rule unatSuc)
  then have "int (unat (w + 1)) = int (unat w) + 1" by (simp only: add.commute)
  then show ?thesis using False by (simp only: uint_nat if_False)
qed simp

section \<open>Properties\<close>

text \<open>
  C18. Version precedence. \<open>Version::compare\<close> is a total preorder on versions and the missing version,
  although it compares numeric identifiers in three ways (as machine numbers, and by length and then
  text when one does not fit); two versions are equivalent exactly when they differ in build metadata
  at most, and a version is below its increments unless the counter wraps.
\<close>

theorem version_precedence:
  "(version_compare a b \<le> 0 \<longleftrightarrow> 0 \<le> version_compare b a) \<and>
   (version_compare a b \<le> 0 \<longrightarrow> version_compare b c \<le> 0 \<longrightarrow> version_compare a c \<le> 0) \<and>
   (version_compare (Some v) (Some w) = 0 \<longleftrightarrow> v\<lparr>build := []\<rparr> = w\<lparr>build := []\<rparr>) \<and>
   (version_compare (Some v) (Some (increment_major v)) < 0 \<longleftrightarrow> major v \<noteq> - 1)"
proof -
  have "0 \<le> uint (major v)" by simp
  moreover have "major v = - 1 \<Longrightarrow> 0 < uint (major v)" by (simp add: unsigned_minus_1_eq_mask mask_eq_exp_minus_1)
  ultimately have "version_compare (Some v) (Some (increment_major v)) < 0 \<longleftrightarrow> major v \<noteq> - 1"
    by (auto simp: version_compare_def compare_version_def compare_u32_def increment_major_def
        then_with_def version_default_def uint_word_Suc)
  then show ?thesis
    using precedence.cmp_flip precedence.cmp_trans compare_version_zero [of v w]
    by (simp add: version_compare_def [of "Some v" "Some w"])
qed

theorem version_precedence_witness:
  "version_compare (Some (version_default\<lparr>prerelease := [lit ''2'']\<rparr>)) (Some version_default) \<le> 0 \<and>
   version_compare (Some version_default) (Some (increment_major version_default)) < 0"
proof -
  let ?a = "Some (version_default\<lparr>prerelease := [lit ''2'']\<rparr>)"
    and ?b = "Some (version_default\<lparr>prerelease := [lit ''10'']\<rparr>)"
  have "version_compare ?a ?b \<le> 0" "version_compare ?b (Some version_default) \<le> 0" by code_simp+
  moreover have "major version_default \<noteq> - 1" by (simp add: version_default_def)
  ultimately show ?thesis
    using version_precedence [of ?a ?b "Some version_default" version_default version_default] by blast
qed

text \<open>
  Versions survive printing. Whatever the parser accepts is a well-formed version; and a version
  is well formed exactly when parsing its printed text gives it back, build metadata included.
\<close>

theorem version_roundtrip:
  "(version_parse t = Inr v \<longrightarrow> wf_version v) \<and>
   (wf_version v \<longleftrightarrow> version_parse (encode_runes (version_display v)) = Inr v)"
  using version_parse_wf try_parse_display [of v] by (auto simp: version_parse_def)

theorem version_roundtrip_witness:
  "version_parse ''1.2.3-rc.1+b7'' = Inr
     \<lparr>major = 1, minor = 2, patch = 3, prerelease = [lit ''rc'', lit ''1''], build = [lit ''b7'']\<rparr> \<and>
   wf_version \<lparr>major = 1, minor = 2, patch = 3, prerelease = [lit ''rc'', lit ''1''], build = [lit ''b7'']\<rparr>"
proof -
  have "version_parse ''1.2.3-rc.1+b7'' = Inr
     \<lparr>major = 1, minor = 2, patch = 3, prerelease = [lit ''rc'', lit ''1''], build = [lit ''b7'']\<rparr>"
    by code_simp
  with version_roundtrip show ?thesis by blast
qed

end
