(* ===== verification/Semver_Range.thy ===== *)
theory Semver_Range
  imports Semver
begin

text \<open>
  \<open>crates/tsr_semver/src/version_range.rs\<close>: version ranges as alternatives of comparator lists,
  their parser with partial versions and wildcards, the test of a version, and the printer.
\<close>

section \<open>Data\<close>

datatype operator = Less | LessEqual | Equal | GreaterEqual | Greater

fun operator_text :: "operator \<Rightarrow> str" where
  "operator_text Less = lit ''<''"
| "operator_text LessEqual = lit ''<=''"
| "operator_text Equal = lit ''=''"
| "operator_text GreaterEqual = lit ''>=''"
| "operator_text Greater = lit ''>''"

record comparator =
  operator :: operator
  operand :: version

record version_range =
  alternatives :: "comparator list list"

section \<open>Lexical helpers\<close>

definition go_space :: "int \<Rightarrow> bool" where
  "go_space c \<longleftrightarrow>
     0x9 \<le> c \<and> c \<le> 0xd \<or> c = 0x20 \<or> c = 0x85 \<or> c = 0xa0 \<or> c = 0x1680 \<or>
     0x2000 \<le> c \<and> c \<le> 0x200a \<or> c = 0x2028 \<or> c = 0x2029 \<or> c = 0x202f \<or> c = 0x205f \<or> c = 0x3000"

definition regex_space :: "int \<Rightarrow> bool" where
  "regex_space c \<longleftrightarrow> c = 0x9 \<or> c = 0xa \<or> c = 0xc \<or> c = 0xd \<or> c = 0x20"

text \<open>\<open>str::trim_matches(p)\<close> and \<open>str::split("||")\<close>.\<close>

definition trim_matches :: "(int \<Rightarrow> bool) \<Rightarrow> str \<Rightarrow> str" where
  "trim_matches p s = rev (dropWhile p (rev (dropWhile p s)))"

fun split_bars :: "str \<Rightarrow> str list" where
  "split_bars [] = [[]]"
| "split_bars (c # s) =
     (if starts_with (c # s) [124, 124] then [] # split_bars (tl s)
      else (c # hd (split_bars s)) # tl (split_bars s))"

lemma split_bars_not_Nil [simp]: "split_bars s \<noteq> []"
  by (cases s) auto

lemma split_bars_code [code]:
  "split_bars [] = [[]]"
  "split_bars (c # s) =
     (if starts_with (c # s) [124, 124] then [] # split_bars (tl s)
      else case split_bars s of y # ys \<Rightarrow> (c # y) # ys | [] \<Rightarrow> [[c]])"
  by (simp_all split: list.split)

section \<open>Partial versions\<close>

record partial_version =
  version :: version
  pv_major :: str
  pv_minor :: str
  pv_patch :: str

definition ok_component :: "str \<Rightarrow> u32 option" where
  "ok_component s = (case uint_component s of Inr n \<Rightarrow> Some n | Inl _ \<Rightarrow> None)"

definition partial_numbers :: "str \<Rightarrow> str \<Rightarrow> str \<Rightarrow> version option" where
  "partial_numbers a b c =
     (if wildcard a then Some version_default
      else Option.bind (ok_component a) (\<lambda>x.
        if wildcard b then Some (version_default\<lparr>major := x\<rparr>)
        else Option.bind (ok_component b) (\<lambda>y.
          if wildcard c then Some (version_default\<lparr>major := x, minor := y\<rparr>)
          else Option.bind (ok_component c) (\<lambda>z.
            Some (version_default\<lparr>major := x, minor := y, patch := z\<rparr>)))))"

definition or_star :: "str option \<Rightarrow> str" where
  "or_star s = (case s of Some t \<Rightarrow> t | None \<Rightarrow> lit ''*'')"

definition dotted :: "str option \<Rightarrow> str list" where
  "dotted s = (case s of Some t \<Rightarrow> split_dots t | None \<Rightarrow> [])"

definition parse_partial :: "str \<Rightarrow> partial_version option" where
  "parse_partial t =
     Option.bind (parts t True) (\<lambda>p.
       let mn = or_star (p_minor p); pt = or_star (p_patch p) in
       Option.bind (partial_numbers (p_major p) mn pt) (\<lambda>v.
         Some \<lparr>version = v\<lparr>prerelease := dotted (p_prerelease p), build := dotted (p_build p)\<rparr>,
               pv_major = p_major p, pv_minor = mn, pv_patch = pt\<rparr>))"

definition parse_hyphen :: "str \<Rightarrow> str \<Rightarrow> comparator list option" where
  "parse_hyphen left right =
     Option.bind (parse_partial left) (\<lambda>l.
     Option.bind (parse_partial right) (\<lambda>r.
       Some ((if wildcard (pv_major l) then []
              else [\<lparr>operator = GreaterEqual, operand = version l\<rparr>]) @
             (if wildcard (pv_major r) then []
              else if wildcard (pv_minor r)
              then [\<lparr>operator = Less, operand = increment_major (version r)\<rparr>]
              else if wildcard (pv_patch r)
              then [\<lparr>operator = Less, operand = increment_minor (version r)\<rparr>]
              else [\<lparr>operator = LessEqual, operand = version r\<rparr>]))))"

definition zero_pre :: "version \<Rightarrow> version" where
  "zero_pre v = v\<lparr>prerelease := [lit ''0'']\<rparr>"

text \<open>The upper bound of \<open>~\<close> and \<open>^\<close>.\<close>

definition upper_bound :: "str \<Rightarrow> version \<Rightarrow> bool \<Rightarrow> bool \<Rightarrow> version" where
  "upper_bound op v minor_wildcard patch_wildcard =
     (if op = lit ''~'' \<and> minor_wildcard \<or> op = lit ''^'' \<and> (0 < major v \<or> minor_wildcard)
      then increment_major v
      else if op = lit ''~'' \<or> 0 < minor v \<or> patch_wildcard then increment_minor v
      else increment_patch v)"

text \<open>The version behind a partial one.\<close>

definition bump :: "version \<Rightarrow> bool \<Rightarrow> version" where
  "bump v minor_wildcard = (if minor_wildcard then increment_major v else increment_minor v)"

definition parse_comparator :: "str \<Rightarrow> str \<Rightarrow> comparator list option" where
  "parse_comparator op t =
     Option.bind (parse_partial t) (\<lambda>p.
       if wildcard (pv_major p)
       then Some (if op = lit ''<'' \<or> op = lit ''>''
                  then [\<lparr>operator = Less, operand = zero_prerelease\<rparr>] else [])
       else
         let v = version p; mw = wildcard (pv_minor p); pw = wildcard (pv_patch p) in
         if op = lit ''~'' \<or> op = lit ''^''
         then Some [\<lparr>operator = GreaterEqual, operand = v\<rparr>,
                    \<lparr>operator = Less, operand = upper_bound op v mw pw\<rparr>]
         else if op = lit ''<'' \<or> op = lit ''>=''
         then Some [\<lparr>operator = (if op = lit ''<'' then Less else GreaterEqual),
                     operand = (if mw \<or> pw then zero_pre v else v)\<rparr>]
         else if op = lit ''<='' \<or> op = lit ''>''
         then Some (if mw \<or> pw
                    then [\<lparr>operator = (if op = lit ''<='' then Less else GreaterEqual),
                           operand = zero_pre (bump v mw)\<rparr>]
                    else [\<lparr>operator = (if op = lit ''<='' then LessEqual else Greater), operand = v\<rparr>])
         else if op = lit ''='' \<or> op = []
         then Some (if mw \<or> pw
                    then [\<lparr>operator = GreaterEqual, operand = zero_pre v\<rparr>,
                          \<lparr>operator = Less, operand = zero_pre (bump v mw)\<rparr>]
                    else [\<lparr>operator = Equal, operand = v\<rparr>])
         else None)"

section \<open>Ranges\<close>

definition operator_size :: "str \<Rightarrow> nat" where
  "operator_size token =
     (if token \<noteq> [] \<and> hd token \<in> {60, 62, 61, 126, 94}
      then (if starts_with token (lit ''<='') \<or> starts_with token (lit ''>='') then 2 else 1)
      else 0)"

fun parse_tokens :: "str list \<Rightarrow> comparator list option" where
  "parse_tokens [] = Some []"
| "parse_tokens (token # tokens) =
     (let token = trim_matches go_space token; size = operator_size token in
      Option.bind (parse_comparator (take size token) (drop size token)) (\<lambda>cs.
      Option.bind (parse_tokens tokens) (\<lambda>ds. Some (cs @ ds))))"

definition parse_alternative :: "str \<Rightarrow> comparator list option" where
  "parse_alternative alt =
     (let tokens = filter (\<lambda>token. token \<noteq> []) (split_by regex_space alt) in
      if length tokens = 3 \<and> tokens ! 1 = lit ''-'' then parse_hyphen (tokens ! 0) (tokens ! 2)
      else parse_tokens tokens)"

fun parse_alternatives :: "str list \<Rightarrow> comparator list list option" where
  "parse_alternatives [] = Some []"
| "parse_alternatives (alt # alts) =
     (let alt = trim_matches go_space alt in
      if alt = [] then parse_alternatives alts
      else Option.bind (parse_alternative alt) (\<lambda>cs.
           Option.bind (parse_alternatives alts) (\<lambda>rest. Some (cs # rest))))"

definition range_parse :: "bytes \<Rightarrow> version_range option" where
  "range_parse t =
     Option.bind (from_utf8 t) (\<lambda>s.
     Option.bind (parse_alternatives (split_bars (trim_matches go_space s))) (\<lambda>as.
       Some \<lparr>alternatives = as\<rparr>))"

definition try_parse_version_range :: "bytes \<Rightarrow> version_range \<times> bool" where
  "try_parse_version_range t =
     (case range_parse t of Some r \<Rightarrow> (r, True) | None \<Rightarrow> (\<lparr>alternatives = []\<rparr>, False))"

definition satisfies :: "version option \<Rightarrow> comparator \<Rightarrow> bool" where
  "satisfies v c \<longleftrightarrow>
     (let order = version_compare v (Some (operand c)) in
      case operator c of
        Less \<Rightarrow> order < 0
      | LessEqual \<Rightarrow> order \<le> 0
      | Equal \<Rightarrow> order = 0
      | GreaterEqual \<Rightarrow> 0 \<le> order
      | Greater \<Rightarrow> 0 < order)"

definition range_test :: "version_range \<Rightarrow> version option \<Rightarrow> bool" where
  "range_test r v \<longleftrightarrow>
     alternatives r = [] \<or> list_ex (list_all (satisfies v)) (alternatives r)"

definition show_comparator :: "comparator \<Rightarrow> str" where
  "show_comparator c = operator_text (operator c) @ version_display (operand c)"

text \<open>Alternatives joined by bars, comparators by spaces; a star when nothing was written.\<close>

definition range_display :: "version_range \<Rightarrow> str" where
  "range_display r =
     (let s = concat (map (\<lambda>(i, alternative).
            (if i \<noteq> 0 then lit '' || '' else []) @ join_with 32 (map show_comparator alternative))
            (enumerate 0 (alternatives r)))
      in if length (alternatives r) \<le> 1 \<and> concat (alternatives r) = [] then lit ''*'' else s)"

section \<open>Reading printed ranges\<close>

lemma wildcard_show [simp]: "\<not> wildcard (show_decimal n)"
  using show_decimal_canonical [of n]
  by (auto simp: wildcard_def lit_def canonical_decimal_def is_digit_def)

lemma parse_partial_display:
  assumes "printable (prerelease v)" "printable (build v)"
  shows "parse_partial (version_display v) = Some
    \<lparr>version = v, pv_major = show_decimal (unat (major v)), pv_minor = show_decimal (unat (minor v)),
     pv_patch = show_decimal (unat (patch v))\<rparr>"
  using parts_display [OF assms, of True] printable_join(3) [OF assms(1)] printable_join(3) [OF assms(2)]
  by (cases v)
     (simp add: parse_partial_def or_star_def dotted_def partial_numbers_def ok_component_def
       version_default_def)

lemma parse_comparator_display:
  assumes "printable (prerelease (operand c))" "printable (build (operand c))"
  shows "parse_comparator (operator_text (operator c)) (version_display (operand c)) = Some [c]"
  using parse_partial_display [OF assms]
  by (cases c; cases "operator c") (simp_all add: parse_comparator_def lit_def)

lemma operator_text_chars: "c \<in> set (operator_text op) \<Longrightarrow> c \<in> {60, 61, 62}"
  by (cases op) (auto simp: lit_def)

definition wf_comparator :: "comparator \<Rightarrow> bool" where
  "wf_comparator c \<longleftrightarrow> printable (prerelease (operand c)) \<and> printable (build (operand c))"

lemma qualifier_char_ranges: "qualifier_char c \<Longrightarrow> \<not> go_space c \<and> \<not> regex_space c \<and> c \<noteq> 124"
  by (auto simp: qualifier_char_def folded_letter_def is_digit_def go_space_def regex_space_def)

lemma version_display_chars:
  assumes "printable (prerelease v)" "printable (build v)" "c \<in> set (version_display v)"
  shows "qualifier_char c \<or> c = 43"
proof -
  have "version_display v = show_numbers v @ show_parts 45 (prerelease v) @ show_parts 43 (build v)"
    by (simp add: version_display_def show_numbers_def)
  moreover have "qualifier_char 45" "is_digit c \<Longrightarrow> qualifier_char c" "qualifier_char 46"
    by (simp_all add: qualifier_char_def)
  ultimately show ?thesis
    using assms(3) printable_join(1) [OF assms(1)] printable_join(1) [OF assms(2)] show_numbers_chars [of c v]
    by (auto simp: show_parts_def split: if_splits)
qed

lemma show_comparator_chars:
  assumes "wf_comparator c" "x \<in> set (show_comparator c)"
  shows "\<not> go_space x \<and> \<not> regex_space x \<and> x \<noteq> 124 \<and> scalar x"
proof -
  have "x \<in> {60, 61, 62, 43} \<or> qualifier_char x"
    using assms version_display_chars [of "operand c" x] operator_text_chars [of x]
    by (auto simp: show_comparator_def wf_comparator_def)
  then show ?thesis
    using qualifier_char_ranges [of x]
    by (auto simp: go_space_def regex_space_def scalar_def valid_rune_def is_surrogate_def
        qualifier_char_def folded_letter_def is_digit_def)
qed

lemma show_comparator_split:
  "operator_size (show_comparator c) = length (operator_text (operator c))"
proof -
  obtain d ds where d: "version_display (operand c) = d # ds" "is_digit d"
    using show_decimal_canonical [of "unat (major (operand c))"]
    by (cases "show_decimal (unat (major (operand c)))")
       (auto simp: version_display_def canonical_decimal_def)
  then have "d \<noteq> 61" by (auto simp: is_digit_def)
  then show ?thesis
    by (cases "operator c") (auto simp: show_comparator_def operator_size_def lit_def d)
qed

lemma trim_matches_around:
  assumes "\<forall>c\<in>set l. p c" "\<forall>c\<in>set r. p c" "s \<noteq> []" "\<not> p (hd s)" "\<not> p (last s)"
  shows "trim_matches p (l @ s @ r) = s"
proof -
  have "\<not> (\<forall>c\<in>set s. p c)" using assms(3,4) by (meson hd_in_set)
  then have "dropWhile p (l @ s @ r) = s @ r"
    using assms by (auto simp: dropWhile_append3 dropWhile_eq_self_iff dropWhile_append)
  moreover have "dropWhile p (rev r @ rev s) = rev s"
    using assms by (simp add: dropWhile_append dropWhile_eq_self_iff hd_rev)
  ultimately show ?thesis by (simp add: trim_matches_def)
qed

lemma trim_matches_none: "\<forall>c\<in>set s. \<not> p c \<Longrightarrow> trim_matches p s = s"
  using trim_matches_around [of "[]" p "[]" s] by (cases "s = []") (simp_all add: trim_matches_def)

lemma parse_tokens_show:
  "list_all wf_comparator cs \<Longrightarrow> parse_tokens (map show_comparator cs) = Some cs"
proof (induction cs)
  case (Cons c cs)
  then have "trim_matches go_space (show_comparator c) = show_comparator c"
    using show_comparator_chars [of c] by (intro trim_matches_none) auto
  moreover have "take (operator_size (show_comparator c)) (show_comparator c) = operator_text (operator c)"
    "drop (operator_size (show_comparator c)) (show_comparator c) = version_display (operand c)"
    unfolding show_comparator_split by (simp_all add: show_comparator_def)
  moreover have "parse_comparator (operator_text (operator c)) (version_display (operand c)) = Some [c]"
    using Cons.prems by (intro parse_comparator_display) (simp_all add: wf_comparator_def)
  ultimately show ?case using Cons by (simp add: Let_def)
qed simp

definition show_alternative :: "comparator list \<Rightarrow> str" where
  "show_alternative cs = join_with 32 (map show_comparator cs)"

lemma show_comparator_Cons: "\<exists>x xs. show_comparator c = x # xs \<and> x \<in> {60, 61, 62}"
  by (cases "operator c") (auto simp: show_comparator_def lit_def)

lemma parse_alternative_show:
  assumes "list_all wf_comparator cs" "cs \<noteq> []"
  shows "parse_alternative (show_alternative cs) = Some cs"
proof -
  have "split_by regex_space (show_alternative cs) = map show_comparator cs"
    unfolding show_alternative_def
    using assms show_comparator_chars by (intro split_join_by) (auto simp: regex_space_def list_all_iff)
  moreover have "filter (\<lambda>t. t \<noteq> []) (map show_comparator cs) = map show_comparator cs"
    using show_comparator_Cons by (auto simp: filter_id_conv) (metis list.distinct(1))
  moreover have "map show_comparator cs ! 1 \<noteq> lit ''-''" if "1 < length cs"
    using show_comparator_Cons [of "cs ! 1"] that by (auto simp: lit_def)
  ultimately show ?thesis
    using parse_tokens_show [OF assms(1)] by (auto simp: parse_alternative_def Let_def)
qed

lemma show_alternative_chars:
  assumes "list_all wf_comparator cs" "x \<in> set (show_alternative cs)"
  shows "x \<noteq> 124 \<and> scalar x"
proof -
  have "scalar 32" by (simp add: scalar_def valid_rune_def is_surrogate_def)
  then show ?thesis
    using assms set_join_with [of 32 "map show_comparator cs"] show_comparator_chars
    by (fastforce simp: show_alternative_def list_all_iff)
qed

lemma join_with_ends:
  assumes "xss \<noteq> []" "[] \<notin> set xss"
  shows "join_with s xss \<noteq> [] \<and> hd (join_with s xss) = hd (hd xss) \<and> last (join_with s xss) = last (last xss)"
  using assms by (induction s xss rule: join_with.induct) auto

lemma show_alternative_ends:
  assumes "list_all wf_comparator cs" "cs \<noteq> []"
  shows "show_alternative cs \<noteq> [] \<and> \<not> go_space (hd (show_alternative cs)) \<and>
    \<not> go_space (last (show_alternative cs))"
proof -
  have n: "[] \<notin> set (map show_comparator cs)" using show_comparator_Cons by auto (metis list.distinct(1))
  note e = join_with_ends [of "map show_comparator cs" 32, OF _ n]
  have "hd (show_comparator c) \<in> set (show_comparator c)" "last (show_comparator c) \<in> set (show_comparator c)" for c
    using show_comparator_Cons [of c] by auto
  then show ?thesis
    using e assms show_comparator_chars
    by (simp add: show_alternative_def hd_map last_map list_all_iff) (meson hd_in_set last_in_set)
qed

lemma trim_show_alternative:
  assumes "list_all wf_comparator cs" "cs \<noteq> []" "set l \<subseteq> {32}" "set r \<subseteq> {32}"
  shows "trim_matches go_space (l @ show_alternative cs @ r) = show_alternative cs"
  using assms show_alternative_ends [OF assms(1,2)]
  by (intro trim_matches_around) (auto simp: go_space_def)

lemma split_bars_append:
  "124 \<notin> set a \<Longrightarrow> split_bars (a @ 124 # 124 # t) = a # split_bars t"
  by (induction a) auto

lemma split_bars_none: "124 \<notin> set a \<Longrightarrow> split_bars a = [a]"
  by (induction a) auto

fun show_alternatives :: "comparator list list \<Rightarrow> str" where
  "show_alternatives [] = []"
| "show_alternatives [a] = show_alternative a"
| "show_alternatives (a # b # as) = show_alternative a @ lit '' || '' @ show_alternatives (b # as)"

definition wf_alternatives :: "comparator list list \<Rightarrow> bool" where
  "wf_alternatives as \<longleftrightarrow> list_all (\<lambda>a. a \<noteq> [] \<and> list_all wf_comparator a) as"

lemma split_show_alternatives:
  "wf_alternatives as \<Longrightarrow> as \<noteq> [] \<Longrightarrow> set l \<subseteq> {32} \<Longrightarrow>
   map (trim_matches go_space) (split_bars (l @ show_alternatives as)) = map show_alternative as"
proof (induction as arbitrary: l rule: show_alternatives.induct)
  case (2 a)
  then have "124 \<notin> set (l @ show_alternative a)"
    using show_alternative_chars [of a] by (auto simp: wf_alternatives_def)
  then show ?case
    using 2 trim_show_alternative [of a l "[]"] by (simp add: split_bars_none wf_alternatives_def)
next
  case (3 a b as)
  have n: "124 \<notin> set (l @ show_alternative a @ [32])"
    using show_alternative_chars [of a] 3 by (auto simp: wf_alternatives_def)
  have "l @ show_alternatives (a # b # as) =
    (l @ show_alternative a @ [32]) @ 124 # 124 # [32] @ show_alternatives (b # as)"
    by (simp add: lit_def)
  then have "split_bars (l @ show_alternatives (a # b # as)) =
    (l @ show_alternative a @ [32]) # split_bars ([32] @ show_alternatives (b # as))"
    using split_bars_append [OF n] by (simp only:)
  moreover have "trim_matches go_space (l @ show_alternative a @ [32]) = show_alternative a"
    using 3 by (intro trim_show_alternative) (auto simp: wf_alternatives_def)
  moreover have "map (trim_matches go_space) (split_bars ([32] @ show_alternatives (b # as))) =
      map show_alternative (b # as)"
    using 3 by (intro "3.IH") (auto simp: wf_alternatives_def)
  ultimately show ?case by simp
qed simp

lemma parse_alternatives_trimmed:
  "map (trim_matches go_space) xs = map show_alternative as \<Longrightarrow> wf_alternatives as \<Longrightarrow>
   parse_alternatives xs = Some as"
proof (induction as arbitrary: xs)
  case (Cons a as)
  then obtain x xs' where x: "xs = x # xs'" "trim_matches go_space x = show_alternative a"
    "map (trim_matches go_space) xs' = map show_alternative as" by (cases xs) auto
  have a: "list_all wf_comparator a" "a \<noteq> []" "wf_alternatives as"
    using Cons.prems by (auto simp: wf_alternatives_def)
  have "show_alternative a \<noteq> []"
    using a show_comparator_Cons [of "hd a"] by (cases a rule: list.exhaust; cases "tl a")
      (auto simp: show_alternative_def join_with_eq_Nil)
  then show ?case
    using Cons.IH [OF x(3) a(3)] parse_alternative_show [OF a(1,2)] x by (simp add: Let_def)
qed simp

lemma range_display_eq:
  assumes "wf_alternatives (alternatives r)" "alternatives r \<noteq> []"
  shows "range_display r = show_alternatives (alternatives r)"
proof -
  have e: "concat (map (\<lambda>(i, alternative). (if i \<noteq> 0 then lit '' || '' else []) @
      join_with 32 (map show_comparator alternative)) (enumerate (Suc n) as)) =
    concat (map (\<lambda>a. lit '' || '' @ show_alternative a) as)" for n as
    by (induction as arbitrary: n) (simp_all add: show_alternative_def)
  have f: "show_alternatives (a # as) = show_alternative a @ concat (map (\<lambda>a. lit '' || '' @ show_alternative a) as)" for a as
    by (induction as arbitrary: a) simp_all
  obtain a as where "alternatives r = a # as" "a \<noteq> []"
    using assms by (cases "alternatives r") (auto simp: wf_alternatives_def)
  then show ?thesis
    using e [of 0 as] by (simp add: range_display_def f show_alternative_def)
qed

lemma show_alternatives_ends:
  "wf_alternatives as \<Longrightarrow> as \<noteq> [] \<Longrightarrow> show_alternatives as \<noteq> [] \<and>
   \<not> go_space (hd (show_alternatives as)) \<and> \<not> go_space (last (show_alternatives as)) \<and>
   list_all scalar (show_alternatives as)"
proof (induction as rule: show_alternatives.induct)
  case (2 a)
  then show ?case
    using show_alternative_ends [of a] show_alternative_chars [of a]
    by (auto simp: wf_alternatives_def list_all_iff)
next
  case (3 a b as)
  then have "list_all wf_comparator a" "a \<noteq> []" by (simp_all add: wf_alternatives_def)
  then show ?case
    using 3 show_alternative_ends [of a] show_alternative_chars [of a]
    by (auto simp: wf_alternatives_def list_all_iff lit_def scalar_def valid_rune_def is_surrogate_def)
qed simp

lemma range_parse_display:
  assumes "wf_alternatives (alternatives r)" "alternatives r \<noteq> []"
  shows "range_parse (encode_runes (range_display r)) = Some r"
proof -
  let ?s = "show_alternatives (alternatives r)"
  note e = show_alternatives_ends [OF assms]
  have "trim_matches go_space ?s = ?s" using trim_matches_around [of "[]" go_space "[]" ?s] e by simp
  moreover have "from_utf8 (encode_runes ?s) = Some ?s" using e from_utf8_encode by blast
  moreover have "parse_alternatives (split_bars ?s) = Some (alternatives r)"
    using split_show_alternatives [OF assms, of "[]"] parse_alternatives_trimmed assms(1) by simp
  ultimately show ?thesis by (simp add: range_parse_def range_display_eq [OF assms])
qed

section \<open>What the parser accepts\<close>

lemma printable_split:
  assumes "s \<noteq> []" "list_all qualifier_char s"
  shows "printable (split_dots s)"
proof -
  have "set p \<subseteq> set s" if "p \<in> set (split_dots s)" for p
    using that by (induction s arbitrary: p) (auto split: if_splits, (meson list.set_sel in_mono split_by_not_Nil)+)
  moreover have "c \<noteq> 46" if "p \<in> set (split_dots s)" "c \<in> set p" for p c
    using split_by_no_sep that by fastforce
  moreover have "split_dots s \<noteq> [[]]"
    by (metis assms(1) join_split join_with.simps(2))
  ultimately show ?thesis
    using assms(2) by (fastforce simp: printable_def list_all_iff identifier_char_def qualifier_char_def)
qed

lemma parts_printable:
  assumes "parts t partial = Some p"
  shows "printable (dotted (p_prerelease p))" "printable (dotted (p_build p))"
proof -
  have "\<not> bad_qualifier (p_prerelease p) \<and> \<not> bad_qualifier (p_build p)"
    using assms by (auto simp: parts_def Let_def split: if_splits prod.splits)
  moreover have "\<not> bad_qualifier q \<Longrightarrow> printable (dotted q)" for q
    using printable_split by (auto simp: bad_qualifier_def dotted_def printable_def split: option.splits)
  ultimately show "printable (dotted (p_prerelease p))" "printable (dotted (p_build p))" by blast+
qed

abbreviation printable_version :: "version \<Rightarrow> bool" where
  "printable_version v \<equiv> printable (prerelease v) \<and> printable (build v)"

lemma parse_partial_printable: "parse_partial t = Some p \<Longrightarrow> printable_version (version p)"
  using parts_printable by (auto simp: parse_partial_def bind_Some_iff Let_def)

lemma printable_increments:
  "printable_version version_default" "printable_version (increment_major v)"
  "printable_version (increment_minor v)" "printable_version (increment_patch v)"
  "printable_version zero_prerelease" "printable (prerelease (zero_pre v))"
  by (simp_all add: version_default_def increment_major_def increment_minor_def increment_patch_def
      zero_prerelease_def zero_pre_def printable_def lit_def identifier_char_def is_digit_def)

lemma printable_derived:
  "printable_version v \<Longrightarrow> printable_version (zero_pre v)"
  "printable_version (upper_bound op v mw pw)" "printable_version (bump v mw)"
  using printable_increments by (auto simp: zero_pre_def upper_bound_def bump_def)

lemma parse_comparator_wf:
  assumes "parse_comparator op t = Some cs"
  shows "list_all wf_comparator cs"
proof -
  obtain p where p: "parse_partial t = Some p"
    using assms by (auto simp: parse_comparator_def bind_Some_iff)
  note pv = parse_partial_printable [OF p]
  show ?thesis
    using assms p pv printable_increments printable_derived(1) [OF pv] printable_derived(1) [OF printable_derived(3)]
      printable_derived
    by (auto simp: parse_comparator_def Let_def wf_comparator_def split: if_splits)
qed

lemma parse_hyphen_wf: "parse_hyphen l r = Some cs \<Longrightarrow> list_all wf_comparator cs"
  using parse_partial_printable [of l] parse_partial_printable [of r] printable_increments
  by (auto simp: parse_hyphen_def bind_Some_iff wf_comparator_def split: if_splits)

lemma parse_tokens_wf: "parse_tokens ts = Some cs \<Longrightarrow> list_all wf_comparator cs"
proof (induction ts arbitrary: cs)
  case (Cons t ts)
  then show ?case using parse_comparator_wf by (auto simp: bind_Some_iff Let_def)
qed simp

lemma parse_alternatives_wf:
  "parse_alternatives xs = Some as \<Longrightarrow> list_all (list_all wf_comparator) as"
proof (induction xs arbitrary: as)
  case (Cons x xs)
  then show ?case
    using parse_tokens_wf parse_hyphen_wf
    by (auto simp: bind_Some_iff Let_def parse_alternative_def split: if_splits)
qed simp

section \<open>The operators on release versions\<close>

lemma range_parse_single:
  assumes "\<forall>c\<in>set tok. \<not> go_space c \<and> \<not> regex_space c \<and> c \<noteq> 124 \<and> scalar c" "tok \<noteq> []"
  shows "range_parse (encode_runes tok) = map_option (\<lambda>cs. \<lparr>alternatives = [cs]\<rparr>)
    (parse_comparator (take (operator_size tok) tok) (drop (operator_size tok) tok))"
proof -
  have "from_utf8 (encode_runes tok) = Some tok" using assms(1) by (intro from_utf8_encode) (simp add: list_all_iff)
  moreover have "trim_matches go_space tok = tok" using assms(1) by (intro trim_matches_none) simp
  moreover have "split_bars tok = [tok]" using assms(1) by (intro split_bars_none) auto
  moreover have "split_by regex_space tok = [tok]" using assms(1) by (intro split_by_none) simp
  ultimately show ?thesis
    using assms(2) by (simp add: range_parse_def parse_alternative_def Let_def)
      (cases "parse_comparator (take (operator_size tok) tok) (drop (operator_size tok) tok)"; simp)
qed

lemma range_parse_operator:
  assumes "printable_version w" "op = 94 \<or> op = 126"
  shows "range_parse (encode_runes (op # version_display w)) = Some \<lparr>alternatives =
    [[\<lparr>operator = GreaterEqual, operand = w\<rparr>,
      \<lparr>operator = Less, operand = upper_bound [op] w False False\<rparr>]]\<rparr>"
proof -
  let ?t = "op # version_display w"
  have "\<not> go_space c \<and> \<not> regex_space c \<and> c \<noteq> 124 \<and> scalar c" if "c \<in> set ?t" for c
  proof -
    have "c \<in> {94, 126, 43} \<or> qualifier_char c"
      using that assms version_display_chars [of w c] by auto
    then show ?thesis
      using qualifier_char_ranges [of c]
      by (auto simp: go_space_def regex_space_def scalar_def valid_rune_def is_surrogate_def
          qualifier_char_def folded_letter_def is_digit_def)
  qed
  moreover have "operator_size ?t = 1" using assms by (auto simp: operator_size_def lit_def)
  moreover have "parse_partial (version_display w) = Some
    \<lparr>version = w, pv_major = show_decimal (unat (major w)), pv_minor = show_decimal (unat (minor w)),
     pv_patch = show_decimal (unat (patch w))\<rparr>"
    using parse_partial_display assms(1) by blast
  ultimately show ?thesis
    using assms(2) range_parse_single [of ?t] by (auto simp: parse_comparator_def Let_def lit_def)
qed

text \<open>Operands in which numbers are missing or wildcards.\<close>

definition plain_char :: "int \<Rightarrow> bool" where
  "plain_char c \<longleftrightarrow> is_digit c \<or> c = 46 \<or> c = 120 \<or> c = 88 \<or> c = 42"

lemma component_chars:
  assumes "numeric p \<or> wildcard p"
  shows "\<forall>c\<in>set p. c \<noteq> 46" "\<forall>c\<in>set p. plain_char c"
  using assms by (auto simp: numeric_def wildcard_def lit_def list_all_iff is_digit_def plain_char_def)

lemma join_with_components:
  "list_all (\<lambda>p. numeric p \<or> wildcard p) ps \<Longrightarrow> ps \<noteq> [] \<Longrightarrow>
   split_by (\<lambda>c. c = 46) (join_with 46 ps) = ps \<and> (\<forall>c\<in>set (join_with 46 ps). plain_char c)"
proof (induction ps rule: induct_list012)
  case (2 p)
  then show ?case using component_chars [of p] split_by_none [of p "\<lambda>c. c = 46"] by simp
next
  case (3 p q ps)
  then have IH: "split_by (\<lambda>c. c = 46) (join_with 46 (q # ps)) = q # ps" "\<forall>c\<in>set (join_with 46 (q # ps)). plain_char c"
    by simp_all
  have p: "\<forall>c\<in>set p. c \<noteq> 46" "\<forall>c\<in>set p. plain_char c" using component_chars [of p] 3(3) by simp_all
  have "split_by (\<lambda>c. c = 46) (p @ 46 # join_with 46 (q # ps)) = p # q # ps"
    using split_by_append [of "\<lambda>c. c = 46" 46 p "join_with 46 (q # ps)"] p(1) IH(1) by simp
  then show ?case using p(2) IH(2) by (auto simp: plain_char_def)
qed simp

lemma parts_join:
  assumes "list_all (\<lambda>p. numeric p \<or> wildcard p) ps" "ps \<noteq> []" "length ps \<le> 3"
  shows "parts (join_with 46 ps) True = Some \<lparr>p_major = hd ps, p_minor = if 1 < length ps then Some (ps ! 1) else None,
    p_patch = if 2 < length ps then Some (ps ! 2) else None, p_prerelease = None, p_build = None\<rparr>"
proof -
  note join = join_with_components [OF assms(1,2)]
  have "position (\<lambda>c. c = 45 \<or> c = 43) (join_with 46 ps) = None"
    using join by (auto simp: position_None plain_char_def is_digit_def)
  moreover have "\<not> list_ex (\<lambda>part. \<not> (numeric part \<or> wildcard part)) (take 3 ps)"
    using assms(1,3) by (auto simp: list_ex_iff list_all_iff)
  ultimately show ?thesis using join assms(3) by (simp add: parts_def Let_def bad_qualifier_def)
qed

lemma numeric_show [simp]: "numeric (show_decimal n)"
  using show_decimal_canonical [of n] by (simp add: numeric_canonical)

lemma wildcard_star [simp]: "wildcard (lit ''*'')"
  by (simp add: wildcard_def)

lemma parse_partial_major:
  assumes "list_all wildcard ws" "length ws \<le> 2"
  obtains mn pt where "parse_partial (join_with 46 (show_decimal (unat a) # ws)) = Some
    \<lparr>version = version_default\<lparr>major := a\<rparr>, pv_major = show_decimal (unat a), pv_minor = mn, pv_patch = pt\<rparr>" "wildcard mn"
proof -
  let ?mn = "or_star (if 1 < length (show_decimal (unat a) # ws) then Some ((show_decimal (unat a) # ws) ! 1) else None)"
  have "wildcard ?mn" using assms(1) by (cases ws) (simp_all add: or_star_def)
  moreover have "parts (join_with 46 (show_decimal (unat a) # ws)) True = Some \<lparr>p_major = show_decimal (unat a),
      p_minor = if 1 < length (show_decimal (unat a) # ws) then Some ((show_decimal (unat a) # ws) ! 1) else None,
      p_patch = if 2 < length (show_decimal (unat a) # ws) then Some ((show_decimal (unat a) # ws) ! 2) else None,
      p_prerelease = None, p_build = None\<rparr>"
    using parts_join [of "show_decimal (unat a) # ws"] assms by (simp add: list_all_iff)
  ultimately show thesis
    by (intro that [of ?mn]) (simp_all add: parse_partial_def partial_numbers_def ok_component_def dotted_def version_default_def)
qed

lemma parse_partial_minor:
  assumes "list_all wildcard us" "length us \<le> 1"
  obtains pt where "parse_partial (join_with 46 (show_decimal (unat a) # show_decimal (unat b) # us)) = Some
    \<lparr>version = version_default\<lparr>major := a, minor := b\<rparr>, pv_major = show_decimal (unat a), pv_minor = show_decimal (unat b),
     pv_patch = pt\<rparr>" "wildcard pt"
proof -
  let ?ps = "show_decimal (unat a) # show_decimal (unat b) # us"
  let ?pt = "or_star (if 2 < length ?ps then Some (?ps ! 2) else None)"
  have "wildcard ?pt" using assms(1) by (cases us) (simp_all add: or_star_def)
  moreover have "parts (join_with 46 ?ps) True = Some \<lparr>p_major = show_decimal (unat a), p_minor = Some (show_decimal (unat b)),
      p_patch = if 2 < length ?ps then Some (?ps ! 2) else None, p_prerelease = None, p_build = None\<rparr>"
    using parts_join [of ?ps] assms by (simp add: list_all_iff)
  ultimately show thesis
    by (intro that [of ?pt])
       (simp_all add: parse_partial_def partial_numbers_def ok_component_def dotted_def version_default_def or_star_def)
qed

lemma range_parse_partial:
  assumes "parse_partial t = Some p" "\<not> wildcard (pv_major p)" "op = 94 \<or> op = 126" "\<forall>c\<in>set t. plain_char c"
  shows "range_parse (encode_runes (op # t)) = Some \<lparr>alternatives =
    [[\<lparr>operator = GreaterEqual, operand = version p\<rparr>,
      \<lparr>operator = Less, operand = upper_bound [op] (version p) (wildcard (pv_minor p)) (wildcard (pv_patch p))\<rparr>]]\<rparr>"
proof -
  have "\<not> go_space c \<and> \<not> regex_space c \<and> c \<noteq> 124 \<and> scalar c" if "c \<in> set (op # t)" for c
  proof -
    have "c = 94 \<or> c = 126 \<or> plain_char c" using that assms(3,4) by auto
    then show ?thesis
      by (auto simp: go_space_def regex_space_def scalar_def valid_rune_def is_surrogate_def plain_char_def is_digit_def)
  qed
  moreover have "operator_size (op # t) = 1" using assms(3) by (auto simp: operator_size_def lit_def)
  ultimately show ?thesis
    using assms(1-3) range_parse_single [of "op # t"] by (auto simp: parse_comparator_def Let_def lit_def)
qed

lemma compare_release:
  "prerelease v = [] \<Longrightarrow> prerelease w = [] \<Longrightarrow> 0 \<le> compare_version v w \<longleftrightarrow>
     major w < major v \<or> major w = major v \<and>
       (minor w < minor v \<or> minor w = minor v \<and> patch w \<le> patch v)"
  "prerelease v = [] \<Longrightarrow> prerelease w = [] \<Longrightarrow> compare_version v w < 0 \<longleftrightarrow>
     major v < major w \<or> major w = major v \<and>
       (minor v < minor w \<or> minor w = minor v \<and> patch v < patch w)"
  by (auto simp: compare_version_def compare_u32_def then_with_def compare_prereleases_def
      word_less_def word_le_def sgn_if word_uint_eq_iff)

lemma less_Suc_word: "w \<noteq> - 1 \<Longrightarrow> (x :: u32) < w + 1 \<longleftrightarrow> x \<le> w"
  by (auto simp: word_less_def word_le_def uint_word_Suc)

lemma satisfies_bounds:
  "range_test \<lparr>alternatives = [[\<lparr>operator = GreaterEqual, operand = lo\<rparr>, \<lparr>operator = Less, operand = hi\<rparr>]]\<rparr>
     (Some v) \<longleftrightarrow> 0 \<le> compare_version v lo \<and> compare_version v hi < 0"
  by (simp add: range_test_def satisfies_def version_compare_def)

lemma major_range:
  assumes "list_all wildcard ws" "length ws \<le> 2" "op = 94 \<or> op = 126" "prerelease v = []" "a \<noteq> - 1"
  shows "\<exists>r. range_parse (encode_runes (op # join_with 46 (show_decimal (unat a) # ws))) = Some r \<and>
    (range_test r (Some v) \<longleftrightarrow> major v = a)"
proof -
  let ?w = "version_default\<lparr>major := a\<rparr>"
  obtain mn pt where p: "parse_partial (join_with 46 (show_decimal (unat a) # ws)) = Some
      \<lparr>version = ?w, pv_major = show_decimal (unat a), pv_minor = mn, pv_patch = pt\<rparr>" "wildcard mn"
    using parse_partial_major [OF assms(1,2)] by blast
  have c: "\<forall>c\<in>set (join_with 46 (show_decimal (unat a) # ws)). plain_char c"
    using join_with_components [of "show_decimal (unat a) # ws"] assms(1) by (simp add: list_all_iff)
  have w: "prerelease ?w = []" "prerelease (increment_major ?w) = []" by (simp_all add: version_default_def increment_major_def)
  have u: "upper_bound [op] ?w True (wildcard pt) = increment_major ?w"
    using assms(3) by (auto simp: upper_bound_def lit_def)
  have "0 \<le> compare_version v ?w \<and> compare_version v (increment_major ?w) < 0 \<longleftrightarrow> major v = a"
    unfolding compare_release(1) [OF assms(4) w(1)] compare_release(2) [OF assms(4) w(2)]
    using assms(5) by (auto simp: increment_major_def version_default_def less_Suc_word word_gt_0)
  then show ?thesis
    using range_parse_partial [OF p(1) _ assms(3) c] p(2) by (simp add: satisfies_bounds u)
qed

lemma minor_range:
  assumes "list_all wildcard us" "length us \<le> 1" "op = 94 \<or> op = 126" "prerelease v = []" "a \<noteq> - 1" "b \<noteq> - 1"
  shows "\<exists>r. range_parse (encode_runes (op # join_with 46 (show_decimal (unat a) # show_decimal (unat b) # us))) = Some r \<and>
    (range_test r (Some v) \<longleftrightarrow> major v = a \<and> (if op = 94 \<and> 0 < a then b \<le> minor v else minor v = b))"
proof -
  let ?w = "version_default\<lparr>major := a, minor := b\<rparr>" and ?t = "join_with 46 (show_decimal (unat a) # show_decimal (unat b) # us)"
  obtain pt where p: "parse_partial ?t = Some
      \<lparr>version = ?w, pv_major = show_decimal (unat a), pv_minor = show_decimal (unat b), pv_patch = pt\<rparr>" "wildcard pt"
    using parse_partial_minor [OF assms(1,2)] by blast
  have c: "\<forall>c\<in>set ?t. plain_char c"
    using join_with_components [of "show_decimal (unat a) # show_decimal (unat b) # us"] assms(1) by (simp add: list_all_iff)
  have w: "prerelease ?w = []" "prerelease (increment_major ?w) = []" "prerelease (increment_minor ?w) = []"
    by (simp_all add: version_default_def increment_major_def increment_minor_def)
  have u: "upper_bound [op] ?w False True = (if op = 94 \<and> 0 < a then increment_major ?w else increment_minor ?w)"
    using assms(3) by (auto simp: upper_bound_def lit_def version_default_def)
  have major: "0 \<le> compare_version v ?w \<and> compare_version v (increment_major ?w) < 0 \<longleftrightarrow> major v = a \<and> b \<le> minor v"
    unfolding compare_release(1) [OF assms(4) w(1)] compare_release(2) [OF assms(4) w(2)]
    using assms(5) by (auto simp: increment_major_def version_default_def less_Suc_word)
  have minor: "0 \<le> compare_version v ?w \<and> compare_version v (increment_minor ?w) < 0 \<longleftrightarrow> major v = a \<and> minor v = b"
    unfolding compare_release(1) [OF assms(4) w(1)] compare_release(2) [OF assms(4) w(3)]
    using assms(6) by (auto simp: increment_minor_def version_default_def less_Suc_word)
  show ?thesis
    using range_parse_partial [OF p(1) _ assms(3) c] p(2) major minor by (simp add: satisfies_bounds u)
qed

lemma tilde_test:
  assumes "prerelease w = []" "prerelease v = []" "minor w \<noteq> - 1"
  shows "0 \<le> compare_version v w \<and> compare_version v (upper_bound [126] w False False) < 0 \<longleftrightarrow>
    major v = major w \<and> minor v = minor w \<and> patch w \<le> patch v"
proof -
  have u: "upper_bound [126] w False False = increment_minor w" by (simp add: upper_bound_def lit_def)
  have "compare_version v (increment_minor w) < 0 \<longleftrightarrow>
      major v < major w \<or> major w = major v \<and> minor v \<le> minor w"
    using assms by (simp add: compare_release increment_minor_def version_default_def less_Suc_word)
  then show ?thesis unfolding u compare_release(1) [OF assms(2,1)] by (simp only:) auto
qed

lemma caret_test:
  assumes "prerelease w = []" "prerelease v = []" "major w \<noteq> - 1" "minor w \<noteq> - 1" "patch w \<noteq> - 1"
  shows "0 \<le> compare_version v w \<and> compare_version v (upper_bound [94] w False False) < 0 \<longleftrightarrow>
    major v = major w \<and>
      (if 0 < major w then minor w < minor v \<or> minor v = minor w \<and> patch w \<le> patch v
       else minor v = minor w \<and> (if 0 < minor w then patch w \<le> patch v else patch v = patch w))"
proof -
  have major: "compare_version v (increment_major w) < 0 \<longleftrightarrow> major v \<le> major w"
    using assms by (simp add: compare_release increment_major_def version_default_def less_Suc_word)
  have minor: "compare_version v (increment_minor w) < 0 \<longleftrightarrow>
      major v < major w \<or> major w = major v \<and> minor v \<le> minor w"
    using assms by (simp add: compare_release increment_minor_def version_default_def less_Suc_word)
  have patch: "compare_version v (increment_patch w) < 0 \<longleftrightarrow>
      major v < major w \<or> major w = major v \<and> (minor v < minor w \<or> minor w = minor v \<and> patch v \<le> patch w)"
    using assms by (simp add: compare_release increment_patch_def version_default_def less_Suc_word)
  consider "0 < major w" | "\<not> 0 < major w" "0 < minor w" | "\<not> 0 < major w" "\<not> 0 < minor w" by blast
  then show ?thesis
  proof cases
    case 1
    then have u: "upper_bound [94] w False False = increment_major w" by (simp add: upper_bound_def lit_def)
    show ?thesis unfolding u major compare_release(1) [OF assms(2,1)] using 1 by auto
  next
    case 2
    then have u: "upper_bound [94] w False False = increment_minor w" by (simp add: upper_bound_def lit_def)
    show ?thesis unfolding u minor compare_release(1) [OF assms(2,1)] using 2 by auto
  next
    case 3
    then have u: "upper_bound [94] w False False = increment_patch w" by (simp add: upper_bound_def lit_def)
    show ?thesis unfolding u patch compare_release(1) [OF assms(2,1)] using 3 by auto
  qed
qed

section \<open>Properties\<close>

text \<open>
  C32. Ranges survive printing. A range that the parser accepted, with at least one alternative and none
  that is empty, is read back unchanged from its printed text. (An alternative without comparators prints as
  nothing and is not read back: \<open>* || 1.x\<close> prints as \<open> || >=1.0.0-0 <2.0.0-0\<close>. The empty text is a range without
  alternatives, which prints as a star and is read back as one empty alternative.)
\<close>

theorem range_roundtrip:
  assumes "range_parse t = Some r" "alternatives r \<noteq> []" "[] \<notin> set (alternatives r)"
  shows "range_parse (encode_runes (range_display r)) = Some r"
proof (rule range_parse_display)
  have "list_all (list_all wf_comparator) (alternatives r)"
    using assms(1) parse_alternatives_wf by (auto simp: range_parse_def bind_Some_iff)
  with assms(3) show "wf_alternatives (alternatives r)"
    by (auto simp: wf_alternatives_def list_all_iff)
qed (rule assms(2))

theorem range_roundtrip_witness:
  "map_option (\<lambda>r. range_parse (encode_runes (range_display r))) (range_parse ''~1.2 || >=3.0.0-rc.1'') =
   Some (range_parse ''~1.2 || >=3.0.0-rc.1'')"
proof -
  let ?r = "\<lparr>alternatives =
    [[\<lparr>operator = GreaterEqual, operand = version_default\<lparr>major := 1, minor := 2\<rparr>\<rparr>,
      \<lparr>operator = Less, operand = version_default\<lparr>major := 1, minor := 3\<rparr>\<rparr>],
     [\<lparr>operator = GreaterEqual,
       operand = version_default\<lparr>major := 3, prerelease := [lit ''rc'', lit ''1'']\<rparr>\<rparr>]]\<rparr>"
  have p: "range_parse ''~1.2 || >=3.0.0-rc.1'' = Some ?r" by code_simp
  have a: "alternatives ?r \<noteq> []" 
     by (simp only: version_range.select_convs list.distinct not_False_eq_True)
  have b: "[] \<notin> set (alternatives ?r)"
     by (simp only: version_range.select_convs set_simps insert_iff empty_iff list.distinct simp_thms)
  have "range_parse (encode_runes (range_display ?r)) = Some ?r" by (rule range_roundtrip [OF p a b])
  with p show ?thesis by (simp only: option.map)
qed

text \<open>
  C33. Caret and tilde with all three numbers. For a release version \<open>w\<close> whose counters are not at their maximum, \<open>~w\<close> accepts
  among the release versions exactly those with the same major and minor number and no smaller patch
  number; \<open>^w\<close> accepts those that agree with \<open>w\<close> up to its first nonzero number and are not smaller.
\<close>

theorem caret_tilde_ranges:
  assumes "prerelease w = []" "printable (build w)" "prerelease v = []"
    "major w \<noteq> - 1" "minor w \<noteq> - 1" "patch w \<noteq> - 1"
  shows "\<exists>c t. range_parse (encode_runes (lit ''^'' @ version_display w)) = Some c \<and>
    range_parse (encode_runes (lit ''~'' @ version_display w)) = Some t \<and>
    (range_test t (Some v) \<longleftrightarrow> major v = major w \<and> minor v = minor w \<and> patch w \<le> patch v) \<and>
    (range_test c (Some v) \<longleftrightarrow> major v = major w \<and>
      (if 0 < major w then minor w < minor v \<or> minor v = minor w \<and> patch w \<le> patch v
       else minor v = minor w \<and> (if 0 < minor w then patch w \<le> patch v else patch v = patch w)))"
proof -
  have pw: "printable_version w" using assms(1,2) by (simp add: printable_def)
  have e: "lit ''^'' @ version_display w = 94 # version_display w"
    "lit ''~'' @ version_display w = 126 # version_display w" by (simp_all add: lit_def)
  show ?thesis
    unfolding e range_parse_operator [OF pw disjI1 [OF refl]] range_parse_operator [OF pw disjI2 [OF refl]]
    by (intro exI conjI, rule refl, rule refl,
        rule trans [OF satisfies_bounds tilde_test [OF assms(1,3,5)]],
        rule trans [OF satisfies_bounds caret_test [OF assms(1,3,4,5,6)]])
qed

theorem caret_tilde_ranges_witness:
  "\<exists>c t. range_parse (encode_runes (lit ''^'' @ version_display (version_default\<lparr>minor := 2\<rparr>))) = Some c \<and>
    range_parse (encode_runes (lit ''~'' @ version_display (version_default\<lparr>minor := 2\<rparr>))) = Some t \<and>
    range_test t (Some (version_default\<lparr>minor := 2, patch := 7\<rparr>)) \<and>
    range_test c (Some (version_default\<lparr>minor := 2, patch := 7\<rparr>))"
proof -
  let ?w = "version_default\<lparr>minor := 2\<rparr>" and ?v = "version_default\<lparr>minor := 2, patch := 7\<rparr>"
  have "prerelease ?w = []" "printable (build ?w)" "prerelease ?v = []"
    "major ?w \<noteq> - 1" "minor ?w \<noteq> - 1" "patch ?w \<noteq> - 1" "\<not> 0 < major ?w" "0 < minor ?w"
    "major ?v = major ?w" "minor ?v = minor ?w" "patch ?w \<le> patch ?v"
    by (simp_all add: version_default_def printable_def)
  with caret_tilde_ranges [of ?w ?v] show ?thesis by (simp only: if_True if_False simp_thms)
qed

text \<open>
  C34. Caret and tilde with missing numbers or wildcards. For numbers below the maximum, \<open>~a\<close> and \<open>^a\<close>, alone or with
  wildcards behind, accept among the release versions exactly those with major number \<open>a\<close>; \<open>~a.b\<close>, alone or with a
  wildcard behind, exactly those with these two numbers; and \<open>^a.b\<close> those with major number \<open>a\<close> and no smaller
  minor number, or for \<open>a = 0\<close> the same one.
\<close>

theorem caret_tilde_wildcards:
  assumes "list_all wildcard ws" "length ws \<le> 2" "list_all wildcard us" "length us \<le> 1" "prerelease v = []"
    "a \<noteq> - 1" "b \<noteq> - 1"
  shows "\<exists>t c t' c'.
    range_parse (encode_runes (lit ''~'' @ join_with 46 (show_decimal (unat a) # ws))) = Some t \<and>
    range_parse (encode_runes (lit ''^'' @ join_with 46 (show_decimal (unat a) # ws))) = Some c \<and>
    range_parse (encode_runes (lit ''~'' @ join_with 46 (show_decimal (unat a) # show_decimal (unat b) # us))) = Some t' \<and>
    range_parse (encode_runes (lit ''^'' @ join_with 46 (show_decimal (unat a) # show_decimal (unat b) # us))) = Some c' \<and>
    (range_test t (Some v) \<longleftrightarrow> major v = a) \<and> (range_test c (Some v) \<longleftrightarrow> major v = a) \<and>
    (range_test t' (Some v) \<longleftrightarrow> major v = a \<and> minor v = b) \<and>
    (range_test c' (Some v) \<longleftrightarrow> major v = a \<and> (if 0 < a then b \<le> minor v else minor v = b))"
proof -
  have e: "lit ''^'' @ t = 94 # t" "lit ''~'' @ t = 126 # t" for t by (simp_all add: lit_def)
  show ?thesis
    unfolding e using major_range [OF assms(1,2) disjI1 [OF refl] assms(5,6)] major_range [OF assms(1,2) disjI2 [OF refl] assms(5,6)]
      minor_range [OF assms(3,4) disjI1 [OF refl] assms(5-7)] minor_range [OF assms(3,4) disjI2 [OF refl] assms(5-7)]
    by (auto simp del: join_with.simps)
qed

theorem caret_tilde_wildcards_witness:
  "\<exists>t. range_parse (encode_runes (lit ''~'' @ join_with 46 [show_decimal (unat (1 :: u32)), lit ''x''])) = Some t \<and>
    range_test t (Some (version_default\<lparr>major := 1, minor := 7\<rparr>))"
proof -
  let ?v = "version_default\<lparr>major := 1, minor := 7\<rparr>"
  have "list_all wildcard [lit ''x'']" "prerelease ?v = []" "major ?v = 1"
    by (simp_all add: wildcard_def version_default_def)
  then show ?thesis using caret_tilde_wildcards [of "[lit ''x'']" "[]" ?v 1 2] by auto
qed

end
