(* ===== verification/Glob.thy ===== *)
theory Glob
  imports Strings
begin

text \<open>
  \<open>crates/tsr_glob/src/lib.rs\<close>: the glob patterns of the language server. The parser returns an
  error or a pattern, the matcher a truth value or a panic (\<open>None\<close>), which the code documents for
  inputs that end in a separator.
\<close>

section \<open>Data\<close>

datatype error = StarStarPlacement | UnmatchedBrace | BadRange | InvalidUtf8

datatype element =
    Slash
  | Literal bytes
  | Star
  | AnyChar
  | StarStar
  | Group "element list list"
  | CharRange bool int int

type_synonym glob = "element list"

section \<open>Printing\<close>

definition push_rune :: "int \<Rightarrow> bytes" where
  "push_rune rune =
     encode_utf8 (if 0 \<le> rune \<and> rune \<le> 0x10ffff \<and> \<not> is_surrogate rune then rune else 0xfffd)"

fun to_bytes :: "element \<Rightarrow> bytes" where
  "to_bytes Slash = ''/''"
| "to_bytes (Literal bs) = bs"
| "to_bytes Star = ''*''"
| "to_bytes AnyChar = ''?''"
| "to_bytes StarStar = ''**''"
| "to_bytes (Group members) =
     ''{'' @ join_with (CHR '','') (map (\<lambda>member. concat (map to_bytes member)) members) @ ''}''"
| "to_bytes (CharRange negate low high) = ''['' @ push_rune low @ ''-'' @ push_rune high @ '']''"

definition glob_to_bytes :: "glob \<Rightarrow> bytes" where
  "glob_to_bytes g = concat (map to_bytes g)"

section \<open>Parsing\<close>

definition parse_literal :: "bytes \<Rightarrow> bool \<Rightarrow> bytes \<times> bytes" where
  "parse_literal pattern nested =
     (let special = (if nested then ''*?{[/},'' else ''*?{[/'');
          end_pos = (case position (\<lambda>b. b \<in> set special) pattern of Some i \<Rightarrow> i | None \<Rightarrow> length pattern)
      in (take end_pos pattern, drop end_pos pattern))"

definition read_range_rune :: "bytes \<Rightarrow> error + int \<times> nat" where
  "read_range_rune input =
     (let (rune, n) = decode_utf8 input in
      if rune = RUNE_ERROR \<and> n = 0 then Inl BadRange
      else if rune = RUNE_ERROR \<and> n = 1 then Inl InvalidUtf8
      else Inr (rune, n))"

text \<open>One bound of a range and the character that must follow it.\<close>

definition read_bound :: "bytes \<Rightarrow> bytes \<Rightarrow> error + int \<times> bytes" where
  "read_bound pattern closing =
     (case read_range_rune pattern of
        Inl e \<Rightarrow> Inl e
      | Inr (rune, n) \<Rightarrow>
          (case strip_prefix (drop n pattern) closing of
             None \<Rightarrow> Inl BadRange
           | Some rest \<Rightarrow> Inr (rune, rest)))"

text \<open>The arm for \<open>[\<close>, on the pattern behind it.\<close>

definition parse_range :: "bytes \<Rightarrow> error + element \<times> bytes" where
  "parse_range pattern =
     (if pattern = [] then Inl BadRange
      else
        let negate = (hd pattern = CHR ''!'');
            pattern = (if negate then tl pattern else pattern) in
        case read_bound pattern ''-'' of
          Inl e \<Rightarrow> Inl e
        | Inr (low, pattern) \<Rightarrow>
            (case read_bound pattern '']'' of
               Inl e \<Rightarrow> Inl e
             | Inr (high, pattern) \<Rightarrow> Inr (CharRange negate low high, pattern)))"

lemma parse_literal_append: "parse_literal p n = (l, r) \<Longrightarrow> l @ r = p"
  by (auto simp: parse_literal_def Let_def)

lemma parse_literal_progress:
  assumes "parse_literal p n = (l, r)" "p \<noteq> []" "\<not> (hd p \<in> set (if n then ''*?{[/},'' else ''*?{[/''))"
  shows "length r < length p"
proof -
  let ?q = "\<lambda>b. b \<in> set (if n then ''*?{[/},'' else ''*?{[/'')"
  have "position ?q p \<noteq> Some 0" using assms(2,3) by (cases p) auto
  then show ?thesis
    using assms(1,2) by (auto simp: parse_literal_def Let_def split: option.splits)
qed

lemma read_bound_length: "read_bound p c = Inr (x, r) \<Longrightarrow> length r \<le> length p"
  by (auto simp: read_bound_def strip_prefix_def split: sum.splits prod.splits option.splits if_splits)

lemma parse_range_length: "parse_range p = Inr (e, r) \<Longrightarrow> length r \<le> length p"
  by (auto simp: parse_range_def Let_def dest!: read_bound_length split: sum.splits prod.splits if_splits)

text \<open>
  The loop of \<open>parse\<close> with the elements read so far, and the loop over the members of a group. The
  second one is entered at the opening brace and continued at commas; it never sees an empty pattern.
\<close>

function parse_loop :: "glob \<Rightarrow> bytes \<Rightarrow> bool \<Rightarrow> error + glob \<times> bytes"
  and parse_group :: "glob list \<Rightarrow> bytes \<Rightarrow> error + glob list \<times> bytes" where
  "parse_loop glob [] nested = Inr (glob, [])"
| "parse_loop glob (first # rest) nested =
     (if first = CHR ''/'' then parse_loop (glob @ [Slash]) rest nested
      else if first = CHR ''*'' \<and> starts_with rest ''*'' then
        (if glob \<noteq> [] \<and> last glob \<noteq> Slash \<or> 1 < length rest \<and> rest ! 1 \<noteq> CHR ''/''
         then Inl StarStarPlacement
         else parse_loop (glob @ [StarStar]) (tl rest) nested)
      else if first = CHR ''*'' then parse_loop (glob @ [Star]) rest nested
      else if first = CHR ''?'' then parse_loop (glob @ [AnyChar]) rest nested
      else if first = CHR ''{'' then
        (case parse_group [] (first # rest) of
           Inl e \<Rightarrow> Inl e
         | Inr (members, pattern) \<Rightarrow> parse_loop (glob @ [Group members]) pattern nested)
      else if (first = CHR ''}'' \<or> first = CHR '','') \<and> nested then Inr (glob, first # rest)
      else if first = CHR ''}'' \<or> first = CHR '','' then
        (case parse_literal (first # rest) False of
           (bs, pattern) \<Rightarrow> parse_loop (glob @ [Literal bs]) pattern nested)
      else if first = CHR ''['' then
        (case parse_range rest of
           Inl e \<Rightarrow> Inl e
         | Inr (e, pattern) \<Rightarrow> parse_loop (glob @ [e]) pattern nested)
      else
        (case parse_literal (first # rest) nested of
           (bs, pattern) \<Rightarrow> parse_loop (glob @ [Literal bs]) pattern nested))"
| "parse_group members [] = Inl UnmatchedBrace"
| "parse_group members (first # rest) =
     (if first = CHR ''}'' then Inr (members, rest)
      else case parse_loop [] rest True of
        Inl e \<Rightarrow> Inl e
      | Inr (member, pattern) \<Rightarrow>
          if pattern = [] then Inl UnmatchedBrace else parse_group (members @ [member]) pattern)"
  by pat_completeness auto

text \<open>
  The termination proof first shows that what either loop leaves of the pattern is no longer than
  what it was given.
\<close>

termination
proof -
  have lengths:
    "parse_loop_parse_group_dom (Inl (g, p, n)) \<Longrightarrow> parse_loop g p n = Inr (g', r) \<Longrightarrow> length r \<le> length p"
    "parse_loop_parse_group_dom (Inr (ms, p)) \<Longrightarrow> parse_group ms p = Inr (ms', r) \<Longrightarrow> length r < length p"
    for g p n g' r ms ms'
  proof (induction g p n and ms p arbitrary: g' r and ms' r rule: parse_loop_parse_group.pinduct)
    case (2 g first rest n)
    note eq = parse_loop.psimps(2) [OF "2.hyps"] and res = "2.prems"
    have lit: "length q \<le> Suc (length rest)" if "parse_literal (first # rest) b = (l, q)" for b l q
      using parse_literal_append [OF that] by (metis length_Cons length_append le_add2)
    consider "first = CHR ''/''" | "first = CHR ''*''" "starts_with rest ''*''"
      | "first = CHR ''*''" "\<not> starts_with rest ''*''" | "first = CHR ''?''" | "first = CHR ''{''"
      | "first = CHR ''}'' \<or> first = CHR '',''" | "first = CHR ''[''"
      | "first \<notin> set ''/*?{},[''" by auto
    then show ?case
    proof cases
      case 1
      then show ?thesis using res "2.IH"(1) unfolding eq by simp
    next
      case 2
      then show ?thesis using res "2.IH"(2) unfolding eq by (auto split: if_splits)
    next
      case 3
      then show ?thesis using res "2.IH"(3) unfolding eq by auto
    next
      case 4
      then show ?thesis using res "2.IH"(4) unfolding eq by auto
    next
      case 5
      then obtain ms q where m: "parse_group [] (first # rest) = Inr (ms, q)"
        "parse_loop (g @ [Group ms]) q n = Inr (g', r)"
        using res unfolding eq by (auto split: sum.splits)
      then show ?thesis using 5 "2.IH"(5,6) by fastforce
    next
      case 6
      then show ?thesis using res lit "2.IH"(7) unfolding eq by (fastforce split: if_splits prod.splits)
    next
      case 7
      then obtain e q where m: "parse_range rest = Inr (e, q)" "parse_loop (g @ [e]) q n = Inr (g', r)"
        using res unfolding eq by (auto split: sum.splits)
      then show ?thesis using 7 "2.IH"(8) parse_range_length by fastforce
    next
      case 8
      then show ?thesis using res lit "2.IH"(9) unfolding eq by (fastforce split: prod.splits)
    qed
  next
    case (4 ms first rest)
    then show ?case by (auto simp: parse_group.psimps split: if_splits sum.splits) fastforce
  qed (auto simp: parse_loop.psimps parse_group.psimps split: if_splits sum.splits prod.splits)
  show ?thesis
  proof (relation "measure (case_sum (\<lambda>(g, p, n). 2 * length p + 1) (\<lambda>(ms, p). 2 * length p))", goal_cases)
    case (7 g first rest n y members pattern)
    then show ?case using lengths(2) by fastforce
  next
    case (8 g first rest n l q)
    then show ?case using parse_literal_progress [of "first # rest" False l q] by auto
  next
    case (9 g first rest n y e q)
    then show ?case using parse_range_length [of rest e q] by simp
  next
    case (10 g first rest n l q)
    then show ?case using parse_literal_progress [of "first # rest" n l q] by (cases n) auto
  next
    case (12 ms first rest y member pattern)
    then show ?case using lengths(1) by fastforce
  qed auto
qed

declare parse_loop.simps [simp del] parse_group.simps [simp del]

definition parse :: "bytes \<Rightarrow> bool \<Rightarrow> error + glob \<times> bytes" where
  "parse pattern nested = parse_loop [] pattern nested"

definition glob_parse :: "bytes \<Rightarrow> error + glob" where
  "glob_parse pattern = map_sum id fst (parse pattern False)"

section \<open>Matching\<close>

text \<open>The bytes before the first separator, and the bytes behind that run of separators.\<close>

definition split :: "bytes \<Rightarrow> bytes \<times> bytes" where
  "split input =
     (case position (\<lambda>b. b = CHR ''/'') input of
        None \<Rightarrow> (input, [])
      | Some index \<Rightarrow>
          (take index input,
           case position (\<lambda>b. b \<noteq> CHR ''/'') (drop index input) of
             None \<Rightarrow> []
           | Some n \<Rightarrow> drop (index + n) input))"

text \<open>The loop \<open>while input[0] == b'/'\<close>, which panics at the end of the input.\<close>

fun skip_slashes :: "bytes \<Rightarrow> bytes panicking" where
  "skip_slashes [] = None"
| "skip_slashes (c # input) = (if c = CHR ''/'' then skip_slashes input else Some (c # input))"

text \<open>\<open>Iterator::any\<close> with a predicate that may panic.\<close>

fun any_panicking :: "('a \<Rightarrow> bool panicking) \<Rightarrow> 'a list \<Rightarrow> bool panicking" where
  "any_panicking f [] = Some False"
| "any_panicking f (x # xs) =
     (case f x of None \<Rightarrow> None | Some True \<Rightarrow> Some True | Some False \<Rightarrow> any_panicking f xs)"

lemma any_panicking_cong [fundef_cong]:
  "xs = ys \<Longrightarrow> (\<And>x. x \<in> set ys \<Longrightarrow> f x = g x) \<Longrightarrow> any_panicking f xs = any_panicking g ys"
  by (induction xs arbitrary: ys) (auto split: option.splits bool.splits)

lemma split_shorter: "input \<noteq> [] \<Longrightarrow> length (snd (split input)) < length input"
proof (cases "position (\<lambda>b. b = CHR ''/'') input")
  case (Some index)
  assume "input \<noteq> []"
  have i: "index < length input" "input ! index = CHR ''/''" using Some by (simp_all add: position_Some)
  show ?thesis
  proof (cases "position (\<lambda>b. b \<noteq> CHR ''/'') (drop index input)")
    case (Some n)
    then have "n \<noteq> 0" using i by (cases n) (auto simp: position_Some)
    with Some \<open>position (\<lambda>b. b = CHR ''/'') input = Some index\<close> i show ?thesis
      by (simp add: split_def)
  qed (use Some \<open>input \<noteq> []\<close> in \<open>simp add: split_def\<close>)
qed (simp add: split_def)

abbreviation elements_size :: "element list \<Rightarrow> nat" where
  "elements_size \<equiv> size_list size"

lemma size_list_take: "size_list f (take n xs) \<le> size_list f xs"
  by (metis append_take_drop_id le_add1 size_list_append)

lemma size_list_drop: "size_list f (drop n xs) \<le> size_list f xs"
  by (metis append_take_drop_id le_add2 size_list_append)

function match_elements :: "element list \<Rightarrow> bytes \<Rightarrow> bool panicking"
  and match_segments :: "element list \<Rightarrow> bytes \<Rightarrow> bool panicking" where
  "match_elements [] input = Some (input = [])"
| "match_elements (Slash # elements) input =
     (if input = [] \<or> hd input \<noteq> CHR ''/'' then Some False
      else case skip_slashes input of
        None \<Rightarrow> None
      | Some rest \<Rightarrow> match_elements elements rest)"
| "match_elements (StarStar # elements) input =
     (if drop 1 elements = [] then Some True else match_segments (drop 1 elements) input)"
| "match_elements (Literal bs # elements) input =
     (case strip_prefix input bs of None \<Rightarrow> Some False | Some rest \<Rightarrow> match_elements elements rest)"
| "match_elements (Star # elements) input =
     (let (segment, rest) = split input;
          end_pos = (case position (\<lambda>e. e = Slash) elements of Some i \<Rightarrow> i | None \<Rightarrow> length elements);
          segment_elements = take end_pos elements
      in
      if segment_elements = [] then match_elements (drop end_pos elements) rest
      else case any_panicking (\<lambda>i. match_elements segment_elements (drop i segment)) [0..<length segment] of
        None \<Rightarrow> None
      | Some False \<Rightarrow> Some False
      | Some True \<Rightarrow> match_elements (drop end_pos elements) rest)"
| "match_elements (AnyChar # elements) input =
     (if input = [] \<or> hd input = CHR ''/'' then Some False else match_elements elements (tl input))"
| "match_elements (Group members # elements) input =
     any_panicking (\<lambda>member. match_elements (member @ elements) input) members"
| "match_elements (CharRange negate low high # elements) input =
     (if input = [] \<or> hd input = CHR ''/'' then Some False
      else let (rune, width) = decode_utf8 input in
        if rune < low \<or> high < rune then Some False else match_elements elements (drop width input))"
| "match_segments elements input =
     (if input = [] then Some False
      else case match_elements elements input of
        None \<Rightarrow> None
      | Some True \<Rightarrow> Some True
      | Some False \<Rightarrow> match_segments elements (snd (split input)))"
  by pat_completeness auto
termination
proof (relation "inv_image (less_than <*lex*> less_than <*lex*> less_than)
    (case_sum (\<lambda>(es, i). (elements_size es, 0, length i)) (\<lambda>(es, i). (elements_size es, 1 :: nat, length i)))",
    goal_cases)
  case 1
  show ?case by (intro wf_inv_image wf_lex_prod wf_less_than)
next
  case (3 elements input)
  then show ?case using size_list_drop [of size 1 elements] by simp
next
  case (5 elements input x segment rest end_pos segment_elements)
  then show ?case using size_list_drop [of size end_pos elements] by simp
next
  case (6 elements input x segment rest end_pos segment_elements i)
  then show ?case using size_list_take [of size end_pos elements] by simp
next
  case (7 elements input x segment rest end_pos segment_elements b)
  then show ?case using size_list_drop [of size end_pos elements] by simp
next
  case (9 members elements input member)
  then have "elements_size member \<le> size_list elements_size members"
    by (simp add: size_list_estimation')
  then show ?case by simp
next
  case (12 elements input y)
  then show ?case using split_shorter [of input] by simp
qed simp_all

declare match_segments.simps [simp del]

definition glob_matches :: "glob \<Rightarrow> bytes \<Rightarrow> bool panicking" where
  "glob_matches g input = match_elements g input"

section \<open>What a pattern denotes\<close>

lemma position_takeWhile:
  "take (case position p xs of Some i \<Rightarrow> i | None \<Rightarrow> length xs) xs = takeWhile (\<lambda>x. \<not> p x) xs"
  "drop (case position p xs of Some i \<Rightarrow> i | None \<Rightarrow> length xs) xs = dropWhile (\<lambda>x. \<not> p x) xs"
  by (induction xs) (auto split: option.splits)

lemma split_eq:
  "split input = (takeWhile (\<lambda>c. c \<noteq> CHR ''/'') input,
     dropWhile (\<lambda>c. c = CHR ''/'') (dropWhile (\<lambda>c. c \<noteq> CHR ''/'') input))"
proof (cases "position (\<lambda>b. b = CHR ''/'') input")
  case None
  then have "\<forall>x\<in>set input. x \<noteq> CHR ''/''" by (auto simp: position_None)
  then have "takeWhile (\<lambda>c. c \<noteq> CHR ''/'') input = input" "dropWhile (\<lambda>c. c \<noteq> CHR ''/'') input = []"
    by (simp_all add: takeWhile_eq_all_conv dropWhile_eq_Nil_conv)
  with None show ?thesis unfolding split_def by (simp only: option.case dropWhile.simps)
next
  case (Some i)
  then have "takeWhile (\<lambda>c. c \<noteq> CHR ''/'') input = take i input"
    "dropWhile (\<lambda>c. c \<noteq> CHR ''/'') input = drop i input"
    using position_takeWhile [where p = "\<lambda>b. b = CHR ''/''" and xs = input] by simp_all
  moreover have "(case position (\<lambda>b. b \<noteq> CHR ''/'') xs of None \<Rightarrow> [] | Some n \<Rightarrow> drop n xs) =
      dropWhile (\<lambda>c. c = CHR ''/'') xs" for xs
    using position_takeWhile(2) [where p = "\<lambda>b. b \<noteq> CHR ''/''" and xs = xs] by (auto split: option.splits)
  from this [of "drop i input"]
  have "(case position (\<lambda>b. b \<noteq> CHR ''/'') (drop i input) of None \<Rightarrow> [] | Some n \<Rightarrow> drop (i + n) input) =
      dropWhile (\<lambda>c. c = CHR ''/'') (drop i input)"
    by (simp add: add.commute cong: option.case_cong)
  ultimately show ?thesis using Some by (simp add: split_def)
qed

text \<open>An input at which the matcher does not panic: it does not end in a separator.\<close>

definition no_trailing :: "bytes \<Rightarrow> bool" where
  "no_trailing input \<longleftrightarrow> input \<noteq> [] \<longrightarrow> last input \<noteq> CHR ''/''"

text \<open>
  The segments at which \<open>**\<close> tries to continue: the input itself, and what starts behind a separator
  without being one.
\<close>

definition segment_start :: "bytes \<Rightarrow> bytes \<Rightarrow> bool" where
  "segment_start input t \<longleftrightarrow> t \<noteq> [] \<and>
     (t = input \<or> hd t \<noteq> CHR ''/'' \<and> (\<exists>pre. input = pre @ CHR ''/'' # t))"

inductive denotes :: "element list \<Rightarrow> bytes \<Rightarrow> bool" where
  "denotes [] []"
| "denotes es (c # t) \<Longrightarrow> c \<noteq> CHR ''/'' \<Longrightarrow> denotes (Slash # es) (CHR ''/'' # replicate n (CHR ''/'') @ c # t)"
| "denotes es t \<Longrightarrow> denotes (Literal bs # es) (bs @ t)"
| "denotes es t \<Longrightarrow> c \<noteq> CHR ''/'' \<Longrightarrow> denotes (AnyChar # es) (c # t)"
| "denotes es (drop w (c # t)) \<Longrightarrow> c \<noteq> CHR ''/'' \<Longrightarrow> decode_utf8 (c # t) = (r, w) \<Longrightarrow> low \<le> r \<Longrightarrow> r \<le> high \<Longrightarrow>
   denotes (CharRange negate low high # es) (c # t)"
| "denotes (m @ es) t \<Longrightarrow> m \<in> set ms \<Longrightarrow> denotes (Group ms # es) t"
| "length es \<le> 1 \<Longrightarrow> denotes (StarStar # es) t"
| "denotes es t \<Longrightarrow> es \<noteq> [] \<Longrightarrow> segment_start input t \<Longrightarrow> denotes (StarStar # e # es) input"
| "split input = (seg, rest) \<Longrightarrow> denotes es rest \<Longrightarrow> es = [] \<or> hd es = Slash \<Longrightarrow> denotes (Star # es) input"
| "split input = (seg, rest) \<Longrightarrow> denotes es rest \<Longrightarrow> es = [] \<or> hd es = Slash \<Longrightarrow>
   Slash \<notin> set ss \<Longrightarrow> ss \<noteq> [] \<Longrightarrow> i < length seg \<Longrightarrow> denotes ss (drop i seg) \<Longrightarrow>
   denotes (Star # ss @ es) input"

inductive_cases denotes_cases [elim!]:
  "denotes [] t" "denotes (Slash # es) t" "denotes (Literal bs # es) t" "denotes (AnyChar # es) t"
  "denotes (CharRange negate low high # es) t" "denotes (Group ms # es) t"

inductive_cases denotes_star: "denotes (Star # es) t"
inductive_cases denotes_starstar: "denotes (StarStar # es) t"

lemma no_trailing_suffix: "no_trailing (a @ b) \<Longrightarrow> no_trailing b"
  by (auto simp: no_trailing_def)

lemma no_trailing_drop: "no_trailing input \<Longrightarrow> no_trailing (drop n input)"
  using no_trailing_suffix [of "take n input" "drop n input"] by simp

lemma no_trailing_dropWhile: "no_trailing input \<Longrightarrow> no_trailing (dropWhile p input)"
  using no_trailing_suffix [of "takeWhile p input" "dropWhile p input"] by simp

lemma no_trailing_split: "no_trailing input \<Longrightarrow> split input = (seg, rest) \<Longrightarrow> no_trailing rest \<and> no_trailing (drop i seg)"
  by (auto simp: split_eq intro!: no_trailing_dropWhile no_trailing_drop)
     (auto simp: no_trailing_def dest!: last_in_set set_takeWhileD)

lemma skip_slashes_eq:
  "no_trailing input \<Longrightarrow> input \<noteq> [] \<Longrightarrow>
   \<exists>n c t. skip_slashes input = Some (c # t) \<and> c \<noteq> CHR ''/'' \<and> input = replicate n (CHR ''/'') @ c # t"
proof (induction input)
  case (Cons c input)
  show ?case
  proof (cases "c = CHR ''/''")
    case True
    then have "input \<noteq> []" "no_trailing input" using Cons.prems by (auto simp: no_trailing_def)
    then obtain n d t where "skip_slashes input = Some (d # t)" "d \<noteq> CHR ''/''"
      "input = replicate n (CHR ''/'') @ d # t" using Cons.IH by blast
    with True show ?thesis by (intro exI [of _ "Suc n"]) simp
  qed simp
qed simp

lemma any_panicking_Some:
  "(\<And>x. x \<in> set xs \<Longrightarrow> f x = Some (P x)) \<Longrightarrow> any_panicking f xs = Some (\<exists>x\<in>set xs. P x)"
  by (induction xs) (auto split: bool.splits)

lemma takeWhile_unique:
  "Slash \<notin> set ss \<Longrightarrow> es = [] \<or> hd es = Slash \<Longrightarrow>
   takeWhile (\<lambda>e. e \<noteq> Slash) (ss @ es) = ss \<and> dropWhile (\<lambda>e. e \<noteq> Slash) (ss @ es) = es"
  by (cases es) (auto simp: takeWhile_append dropWhile_append)

lemma denotes_star_iff:
  fixes elements :: "element list"
  assumes "split input = (seg, rest)"
  defines "ss \<equiv> takeWhile (\<lambda>e. e \<noteq> Slash) elements" and "es \<equiv> dropWhile (\<lambda>e. e \<noteq> Slash) elements"
  shows "denotes (Star # elements) input \<longleftrightarrow>
    denotes es rest \<and> (ss = [] \<or> (\<exists>i<length seg. denotes ss (drop i seg)))"
proof
  assume "denotes (Star # elements) input"
  then show "denotes es rest \<and> (ss = [] \<or> (\<exists>i<length seg. denotes ss (drop i seg)))"
  proof (rule denotes_star)
    fix seg' rest'
    assume "split input = (seg', rest')" "denotes elements rest'" "elements = [] \<or> hd elements = Slash"
    then show ?thesis
      using assms(1) takeWhile_unique [of "[]" elements] by (simp add: ss_def es_def)
  next
    fix seg' rest' es' ss' i
    assume "elements = ss' @ es'" "split input = (seg', rest')" "denotes es' rest'" "es' = [] \<or> hd es' = Slash"
      "Slash \<notin> set ss'" "ss' \<noteq> []" "i < length seg'" "denotes ss' (drop i seg')"
    then show ?thesis using assms(1) takeWhile_unique [of ss' es'] by (auto simp: ss_def es_def)
  qed
next
  assume r: "denotes es rest \<and> (ss = [] \<or> (\<exists>i<length seg. denotes ss (drop i seg)))"
  have e: "elements = ss @ es" "Slash \<notin> set ss" "es = [] \<or> hd es = Slash"
    using hd_dropWhile [of "\<lambda>e. e \<noteq> Slash" elements]
    by (auto simp: ss_def es_def dest: set_takeWhileD)
  show "denotes (Star # elements) input"
  proof (cases "ss = []")
    case True
    then show ?thesis using r e assms(1) by (auto intro: denotes.intros)
  next
    case False
    then show ?thesis using r e assms(1) denotes.intros(10) [of input seg rest es ss] by auto
  qed
qed

lemma denotes_starstar_iff:
  "denotes (StarStar # elements) input \<longleftrightarrow>
     drop 1 elements = [] \<or> (\<exists>t. segment_start input t \<and> denotes (drop 1 elements) t)"
proof (cases elements)
  case (Cons e es)
  then show ?thesis
    by (cases es) (auto intro: denotes.intros elim!: denotes_starstar)
qed (auto intro: denotes.intros)

lemma segment_start_step:
  assumes "input \<noteq> []"
  shows "(\<exists>t. segment_start input t \<and> P t) \<longleftrightarrow> P input \<or> (\<exists>t. segment_start (snd (split input)) t \<and> P t)"
proof -
  define d where "d = dropWhile (\<lambda>c. c \<noteq> CHR ''/'') input"
  define rest where "rest = dropWhile (\<lambda>c. c = CHR ''/'') d"
  have s: "snd (split input) = rest" by (simp add: split_eq rest_def d_def)
  have input: "input = takeWhile (\<lambda>c. c \<noteq> CHR ''/'') input @ d" by (simp add: d_def)
  have d: "d = takeWhile (\<lambda>c. c = CHR ''/'') d @ rest" by (simp add: rest_def)
  have up: "segment_start input t" if t: "segment_start rest t" for t
  proof -
    have "rest \<noteq> []" using t by (auto simp: segment_start_def)
    then have h: "hd rest \<noteq> CHR ''/''" "d \<noteq> []" using hd_dropWhile [of "\<lambda>c. c = CHR ''/''" d] by (auto simp: rest_def)
    then have "hd d = CHR ''/''" using hd_dropWhile [of "\<lambda>c. c \<noteq> CHR ''/''" input] by (auto simp: d_def)
    then have "takeWhile (\<lambda>c. c = CHR ''/'') d \<noteq> []" using h by (cases d) auto
    then obtain p c where "takeWhile (\<lambda>c. c = CHR ''/'') d = p @ [c]" by (meson rev_exhaust)
    moreover from this have "c = CHR ''/''" by (metis in_set_conv_decomp set_takeWhileD)
    ultimately have "\<exists>pre. input = pre @ CHR ''/'' # rest"
      by (metis append.assoc append_Cons append_Nil d input)
    with t h show ?thesis
      by (auto simp: segment_start_def)
  qed
  have down: "t = input \<or> segment_start rest t" if t: "segment_start input t" for t
  proof (cases "t = input")
    case False
    then obtain pre where pre: "input = pre @ CHR ''/'' # t" "t \<noteq> []" "hd t \<noteq> CHR ''/''"
      using t by (auto simp: segment_start_def)
    have "\<exists>q. d = q @ CHR ''/'' # t"
      unfolding d_def pre(1) by (cases "\<forall>c\<in>set pre. c \<noteq> CHR ''/''") (auto simp: dropWhile_append)
    then obtain q where q: "d = q @ CHR ''/'' # t" by blast
    have "dropWhile (\<lambda>c. c = CHR ''/'') t = t" using pre by (cases t) auto
    then show ?thesis
      unfolding rest_def q using pre
      by (cases "\<forall>c\<in>set q. c = CHR ''/''") (auto simp: dropWhile_append segment_start_def)
  qed simp
  have "segment_start input input" using assms by (simp add: segment_start_def)
  then show ?thesis unfolding s using up down by blast
qed

lemma denotes_slash_iff:
  assumes "c \<noteq> CHR ''/''" "input = CHR ''/'' # replicate n (CHR ''/'') @ c # t"
  shows "denotes (Slash # elements) input \<longleftrightarrow> denotes elements (c # t)"
proof
  assume "denotes (Slash # elements) input"
  then obtain m d u where "denotes elements (d # u)" "d \<noteq> CHR ''/''"
    "input = CHR ''/'' # replicate m (CHR ''/'') @ d # u" by blast
  moreover from this have "dropWhile (\<lambda>c. c = CHR ''/'') input = d # u" by (simp add: dropWhile_append)
  moreover have "dropWhile (\<lambda>c. c = CHR ''/'') input = c # t" using assms by (simp add: dropWhile_append)
  ultimately show "denotes elements (c # t)" by simp
qed (use assms in \<open>auto intro: denotes.intros\<close>)

text \<open>The arm of \<open>*\<close>, given that the matches it tries are right.\<close>

lemma match_star:
  fixes elements :: "element list"
  assumes "split input = (seg, rest)"
  defines "ss \<equiv> takeWhile (\<lambda>e. e \<noteq> Slash) elements" and "es \<equiv> dropWhile (\<lambda>e. e \<noteq> Slash) elements"
  assumes a: "ss \<noteq> [] \<Longrightarrow> any_panicking (\<lambda>i. match_elements ss (drop i seg)) [0..<length seg] =
      Some (\<exists>i\<in>set [0..<length seg]. denotes ss (drop i seg))"
    and r: "ss = [] \<or> any_panicking (\<lambda>i. match_elements ss (drop i seg)) [0..<length seg] = Some True \<Longrightarrow>
      match_elements es rest = Some (denotes es rest)"
  shows "match_elements (Star # elements) input = Some (denotes (Star # elements) input)"
proof -
  let ?stop = "case position (\<lambda>e. e = Slash) elements of Some i \<Rightarrow> i | None \<Rightarrow> length elements"
  have e: "take ?stop elements = ss" "drop ?stop elements = es"
    unfolding ss_def es_def by (rule position_takeWhile)+
  show ?thesis
    using r a unfolding denotes_star_iff [OF assms(1)] match_elements.simps(5) assms(1) Let_def e
      ss_def [symmetric] es_def [symmetric]
    by (auto split: option.splits bool.splits)
qed

lemma match_correct:
  "no_trailing input \<Longrightarrow> match_elements es input = Some (denotes es input)"
  "no_trailing input \<Longrightarrow> match_segments es input = Some (\<exists>t. segment_start input t \<and> denotes es t)"
proof (induction es input and es input rule: match_elements_match_segments.induct)
  case (1 input)
  then show ?case by (auto intro: denotes.intros)
next
  case (2 elements input)
  show ?case
  proof (cases "input = [] \<or> hd input \<noteq> CHR ''/''")
    case True
    then have "\<not> denotes (Slash # elements) input" by auto
    with True show ?thesis by simp
  next
    case False
    then obtain n c t where s: "skip_slashes input = Some (c # t)" "c \<noteq> CHR ''/''"
      "input = replicate n (CHR ''/'') @ c # t" using skip_slashes_eq [OF "2.prems"] by blast
    then obtain k where k: "n = Suc k" using False by (cases n) auto
    have "no_trailing (c # t)" using "2.prems" no_trailing_suffix s(3) by blast
    then have m: "match_elements elements (c # t) = Some (denotes elements (c # t))"
      using "2.IH" False s(1) by blast
    have "denotes (Slash # elements) input \<longleftrightarrow> denotes elements (c # t)"
      using s k by (intro denotes_slash_iff) simp_all
    with False s m show ?thesis by simp
  qed
next
  case (3 elements input)
  then show ?case by (simp add: denotes_starstar_iff)
next
  case (4 bs elements input)
  show ?case
  proof (cases "strip_prefix input bs")
    case None
    then have "\<not> denotes (Literal bs # elements) input" by (auto simp: strip_prefix_def)
    with None show ?thesis by simp
  next
    case (Some rest)
    then have "input = bs @ rest" by (simp add: strip_prefix_Some)
    moreover from this have "no_trailing rest" using "4.prems" no_trailing_suffix by blast
    ultimately show ?thesis using "4.IH" [OF Some] Some by (auto intro: denotes.intros)
  qed
next
  case (5 elements input)
  obtain seg rest where sp: "split input = (seg, rest)" by (cases "split input") auto
  let ?stop = "case position (\<lambda>e. e = Slash) elements of Some i \<Rightarrow> i | None \<Rightarrow> length elements"
  have e: "take ?stop elements = takeWhile (\<lambda>e. e \<noteq> Slash) elements"
    "drop ?stop elements = dropWhile (\<lambda>e. e \<noteq> Slash) elements" by (rule position_takeWhile)+
  have nt: "no_trailing rest" "no_trailing (drop i seg)" for i
    using no_trailing_split [OF "5.prems" sp] by blast+
  show ?case
  proof (rule match_star [OF sp])
    show "any_panicking (\<lambda>i. match_elements (takeWhile (\<lambda>e. e \<noteq> Slash) elements) (drop i seg)) [0..<length seg] =
      Some (\<exists>i\<in>set [0..<length seg]. denotes (takeWhile (\<lambda>e. e \<noteq> Slash) elements) (drop i seg))"
      if "takeWhile (\<lambda>e. e \<noteq> Slash) elements \<noteq> []"
      using "5.IH"(2) [OF sp [symmetric] refl refl refl] nt(2) that unfolding e
      by (intro any_panicking_Some) blast
    show "match_elements (dropWhile (\<lambda>e. e \<noteq> Slash) elements) rest =
        Some (denotes (dropWhile (\<lambda>e. e \<noteq> Slash) elements) rest)"
      if "takeWhile (\<lambda>e. e \<noteq> Slash) elements = [] \<or> any_panicking (\<lambda>i. match_elements
        (takeWhile (\<lambda>e. e \<noteq> Slash) elements) (drop i seg)) [0..<length seg] = Some True"
      using "5.IH"(1,3) [OF sp [symmetric] refl refl refl] nt(1) that unfolding e by auto
  qed
next
  case (6 elements input)
  then show ?case by (cases input) (auto intro: denotes.intros simp: no_trailing_def split: if_splits)
next
  case (7 members elements input)
  then have "any_panicking (\<lambda>member. match_elements (member @ elements) input) members =
      Some (\<exists>m\<in>set members. denotes (m @ elements) input)"
    by (intro any_panicking_Some) blast
  then show ?case by (auto intro: denotes.intros)
next
  case (8 negate low high elements input)
  obtain r w where d: "decode_utf8 input = (r, w)" by (cases "decode_utf8 input") auto
  show ?case
  proof (cases input)
    case (Cons c t)
    then show ?thesis
      using 8 d no_trailing_drop [OF "8.prems", of w] by (auto intro: denotes.intros)
  qed auto
next
  case (9 elements input)
  show ?case
  proof (cases "input = []")
    case False
    have "no_trailing (snd (split input))" using no_trailing_split [OF "9.prems"] by (metis prod.collapse)
    with False show ?thesis
      using "9.IH" "9.prems"
      by (subst match_segments.simps) (auto simp: segment_start_step split: bool.splits)
  qed (simp add: match_segments.simps segment_start_def)
qed

section \<open>Printing what was parsed\<close>

fun no_negated :: "element \<Rightarrow> bool" where
  "no_negated (CharRange negate low high) = (\<not> negate)"
| "no_negated (Group members) = list_all (list_all no_negated) members"
| "no_negated _ = True"

lemma read_bound_print: "read_bound p closing = Inr (rune, rest) \<Longrightarrow> push_rune rune @ closing @ rest = p"
proof -
  assume b: "read_bound p closing = Inr (rune, rest)"
  obtain r w where d: "decode_utf8 p = (r, w)" by (cases "decode_utf8 p") auto
  from b d have r: "r = rune" "strip_prefix (drop w p) closing = Some rest" "(r, w) \<noteq> (RUNE_ERROR, 1)" "p \<noteq> []"
    by (auto simp: read_bound_def read_range_rune_def split: if_splits option.splits)
  have "encode_utf8 rune = take w p" "scalar rune" using encode_decode_utf8 [OF d r(4,3)] r(1) by simp_all
  moreover have "drop w p = closing @ rest" using r(2) by (simp add: strip_prefix_Some)
  ultimately show ?thesis by (simp add: push_rune_def scalar_def valid_rune_def) (metis append_take_drop_id)
qed

lemma parse_range_print:
  "parse_range p = Inr (e, rest) \<Longrightarrow> no_negated e \<Longrightarrow> to_bytes e @ rest = CHR ''['' # p"
  by (auto simp: parse_range_def Let_def dest!: read_bound_print split: if_splits sum.splits prod.splits)

lemma to_bytes_Group: "to_bytes (Group ms) = ''{'' @ join_with (CHR '','') (map glob_to_bytes ms) @ ''}''"
  by (simp add: glob_to_bytes_def [abs_def])

lemma glob_to_bytes_simps:
  "glob_to_bytes [] = []" "glob_to_bytes (e # es) = to_bytes e @ glob_to_bytes es"
  by (simp_all add: glob_to_bytes_def)

text \<open>The loop has read elements whose text, followed by what is left, is the given pattern.\<close>

definition printed :: "glob \<Rightarrow> bytes \<Rightarrow> bool \<Rightarrow> glob \<Rightarrow> bytes \<Rightarrow> bool" where
  "printed g p n g' r \<longleftrightarrow> (\<exists>es. g' = g @ es \<and>
     (list_all no_negated es \<longrightarrow> glob_to_bytes es @ r = p) \<and>
     (r = [] \<or> n \<and> (hd r = CHR ''}'' \<or> hd r = CHR '','')))"

lemma printed_step:
  assumes "printed (g @ [e]) q n g' r" "no_negated e \<Longrightarrow> to_bytes e @ q = p"
  shows "printed g p n g' r"
proof -
  obtain es where "g' = (g @ [e]) @ es" "list_all no_negated es \<longrightarrow> glob_to_bytes es @ r = q"
    "r = [] \<or> n \<and> (hd r = CHR ''}'' \<or> hd r = CHR '','')" using assms(1) unfolding printed_def by blast
  with assms(2) show ?thesis
    unfolding printed_def by (intro exI [of _ "e # es"]) (auto simp: glob_to_bytes_simps)
qed

lemma parse_print:
  "parse_loop g p n = Inr (g', r) \<Longrightarrow> printed g p n g' r"
  "parse_group ms p = Inr (ms', r) \<Longrightarrow> \<exists>c p' new. p = c # p' \<and> ms' = ms @ new \<and>
     (if c = CHR ''}'' then new = [] \<and> r = p'
      else new \<noteq> [] \<and> (list_all (list_all no_negated) new \<longrightarrow>
        join_with (CHR '','') (map glob_to_bytes new) @ CHR ''}'' # r = p'))"
proof (induction g p n and ms p arbitrary: g' r and ms' r rule: parse_loop_parse_group.induct)
  case (1 g n)
  then show ?case by (simp add: parse_loop.simps glob_to_bytes_simps printed_def)
next
  case (2 g first rest n)
  note eq = parse_loop.simps(2) [of g first rest n] and res = "2.prems"
  consider "first = CHR ''/''" | "first = CHR ''*''" "starts_with rest ''*''"
    | "first = CHR ''*''" "\<not> starts_with rest ''*''" | "first = CHR ''?''" | "first = CHR ''{''"
    | "first = CHR ''}'' \<or> first = CHR '',''" n | "first = CHR ''}'' \<or> first = CHR '',''" "\<not> n"
    | "first = CHR ''[''" | "first \<notin> set ''/*?{},[''" by auto
  then show ?case
  proof cases
    case 1
    then have "printed (g @ [Slash]) rest n g' r" using res unfolding eq by (intro "2.IH"(1)) simp_all
    with 1 show ?thesis by (auto elim: printed_step)
  next
    case 2
    then obtain t where t: "rest = CHR ''*'' # t" by (cases rest) auto
    with 2 have "printed (g @ [StarStar]) t n g' r"
      using res unfolding eq by (intro "2.IH"(2) [unfolded t list.sel]) (simp_all split: if_splits)
    with 2 t show ?thesis by (auto elim: printed_step)
  next
    case 3
    then have "printed (g @ [Star]) rest n g' r" using res unfolding eq by (intro "2.IH"(3)) simp_all
    with 3 show ?thesis by (auto elim: printed_step)
  next
    case 4
    then have "printed (g @ [AnyChar]) rest n g' r" using res unfolding eq by (intro "2.IH"(4)) simp_all
    with 4 show ?thesis by (auto elim: printed_step)
  next
    case 5
    then obtain ms q where m: "parse_group [] (first # rest) = Inr (ms, q)"
      "parse_loop (g @ [Group ms]) q n = Inr (g', r)"
      using res unfolding eq by (auto split: sum.splits)
    have "\<exists>c p' new. first # rest = c # p' \<and> ms = [] @ new \<and>
     (if c = CHR ''}'' then new = [] \<and> q = p'
      else new \<noteq> [] \<and> (list_all (list_all no_negated) new \<longrightarrow>
        join_with (CHR '','') (map glob_to_bytes new) @ CHR ''}'' # q = p'))"
      by (rule "2.IH"(5)) (use 5 m in simp_all)
    then have "no_negated (Group ms) \<Longrightarrow> to_bytes (Group ms) @ q = first # rest"
      using 5 by (auto simp: to_bytes_Group simp del: to_bytes.simps(6))
    moreover have "printed (g @ [Group ms]) q n g' r" using 5 m by (intro "2.IH"(6)) simp_all
    ultimately show ?thesis by (rule printed_step [rotated])
  next
    case 6
    then show ?thesis using res unfolding eq by (auto simp: glob_to_bytes_simps printed_def)
  next
    case 7
    then obtain l q where l: "parse_literal (first # rest) False = (l, q)"
      "parse_loop (g @ [Literal l]) q n = Inr (g', r)"
      using res unfolding eq by (auto split: prod.splits)
    then have "printed (g @ [Literal l]) q n g' r" using 7 by (intro "2.IH"(7)) auto
    then show ?thesis by (rule printed_step) (use parse_literal_append [OF l(1)] in simp)
  next
    case 8
    then obtain e q where m: "parse_range rest = Inr (e, q)" "parse_loop (g @ [e]) q n = Inr (g', r)"
      using res unfolding eq by (auto split: sum.splits)
    then have "printed (g @ [e]) q n g' r" using 8 by (intro "2.IH"(8)) auto
    then show ?thesis by (rule printed_step) (use parse_range_print [OF m(1)] 8 in simp)
  next
    case 9
    then obtain l q where l: "parse_literal (first # rest) n = (l, q)"
      "parse_loop (g @ [Literal l]) q n = Inr (g', r)"
      using res unfolding eq by (auto split: prod.splits)
    then have "printed (g @ [Literal l]) q n g' r" using 9 by (intro "2.IH"(9)) auto
    then show ?thesis by (rule printed_step) (use parse_literal_append [OF l(1)] in simp)
  qed
next
  case (3 ms)
  then show ?case by (simp add: parse_group.simps)
next
  case (4 ms first rest)
  show ?case
  proof (cases "first = CHR ''}''")
    case True
    then show ?thesis using "4.prems" by (simp add: parse_group.simps)
  next
    case False
    then obtain m q where m: "parse_loop [] rest True = Inr (m, q)" "q \<noteq> []"
      "parse_group (ms @ [m]) q = Inr (ms', r)"
      using "4.prems" by (auto simp: parse_group.simps split: sum.splits if_splits)
    have q: "list_all no_negated m \<longrightarrow> glob_to_bytes m @ q = rest" "hd q = CHR ''}'' \<or> hd q = CHR '',''"
      using "4.IH"(1) [OF False m(1)] m(2) by (auto simp: printed_def)
    obtain c p' new where n: "q = c # p'" "ms' = (ms @ [m]) @ new"
      "if c = CHR ''}'' then new = [] \<and> r = p' else new \<noteq> [] \<and> (list_all (list_all no_negated) new \<longrightarrow>
        join_with (CHR '','') (map glob_to_bytes new) @ CHR ''}'' # r = p')"
      using "4.IH"(2) [OF False m(1) refl m(2,3)] by auto
    show ?thesis
      using False q n by (intro exI [of _ first] exI [of _ rest] exI [of _ "m # new"])
        (auto simp: join_with_Cons split: if_splits)
  qed
qed

section \<open>Properties\<close>

text \<open>
  C17. Matching. For every pattern and every input that does not end in a separator the matcher
  answers, without a panic and without running on, and its answer is membership in the language that
  the pattern denotes: the declarative reading of its elements, backtracking on \<open>*\<close>, \<open>**\<close> and groups
  included.
\<close>

theorem glob_match_correct:
  assumes "input = [] \<or> last input \<noteq> CHR ''/''"
  shows "glob_matches g input = Some (denotes g input)"
  using match_correct(1) [of input g] assms by (auto simp: glob_matches_def no_trailing_def)

theorem glob_match_correct_witness:
  "glob_matches [StarStar, Slash, Star, Literal ''.rs''] ''a/b/c.rs'' =
   Some (denotes [StarStar, Slash, Star, Literal ''.rs''] ''a/b/c.rs'')"
  by (rule glob_match_correct) simp

text \<open>
  C31. Patterns survive printing. The parser consumes the whole pattern, and a parsed pattern without
  a negated range prints as the bytes it was parsed from, malformed UTF-8 in literals included.
\<close>

theorem glob_parse_print:
  assumes "glob_parse pattern = Inr g" "list_all no_negated g"
  shows "glob_to_bytes g = pattern"
proof -
  obtain r where "parse_loop [] pattern False = Inr (g, r)"
    using assms(1) by (cases "parse_loop [] pattern False") (auto simp: glob_parse_def parse_def)
  then have "printed [] pattern False g r" by (rule parse_print)
  with assms(2) show ?thesis by (auto simp: printed_def)
qed

theorem glob_parse_print_witness:
  "glob_to_bytes [StarStar, Slash, Literal ''x'', Group [[Literal ''a''], [CharRange False 48 57]]] = ''**/x{a,[0-9]}''"
proof (rule glob_parse_print)
  show "glob_parse ''**/x{a,[0-9]}'' =
      Inr [StarStar, Slash, Literal ''x'', Group [[Literal ''a''], [CharRange False 48 57]]]"
    by code_simp
qed simp

end
