(* ===== verification/Text_Edits.thy ===== *)
theory Text_Edits
  imports Interfaces
begin

text \<open>
  Text ranges and text edits: \<open>TextRange\<close> of \<open>crates/tsr_core/src/lib.rs\<close> with the predicates of
  \<open>ranges.rs\<close>, and the edit lists of \<open>text_change.rs\<close>. A position is an \<open>i32\<close>, kept as an \<^typ>\<open>int\<close> in
  the range of \<^const>\<open>wrap32\<close>; an edit list that cannot be applied is a value of the error type, as
  in the source.
\<close>

section \<open>Text ranges\<close>

record text_range =
  pos32 :: int
  end32 :: int

definition new_range :: "int \<Rightarrow> int \<Rightarrow> text_range" where
  "new_range p e = \<lparr>pos32 = wrap32 p, end32 = wrap32 e\<rparr>"

definition range_pos :: "text_range \<Rightarrow> int" where
  "range_pos r = pos32 r"

definition range_end :: "text_range \<Rightarrow> int" where
  "range_end r = end32 r"

definition range_len :: "text_range \<Rightarrow> int" where
  "range_len r = wrap32 (end32 r - pos32 r)"

definition range_is_empty :: "text_range \<Rightarrow> bool" where
  "range_is_empty r \<longleftrightarrow> pos32 r = end32 r"

definition undefined_range :: text_range where
  "undefined_range = new_range (- 1) (- 1)"

definition range_is_valid :: "text_range \<Rightarrow> bool" where
  "range_is_valid r \<longleftrightarrow> pos32 r \<ge> 0 \<or> end32 r \<ge> 0"

definition contains :: "text_range \<Rightarrow> int \<Rightarrow> bool" where
  "contains r p \<longleftrightarrow> range_pos r \<le> p \<and> p < range_end r"

definition contains_inclusive :: "text_range \<Rightarrow> int \<Rightarrow> bool" where
  "contains_inclusive r p \<longleftrightarrow> range_pos r \<le> p \<and> p \<le> range_end r"

definition contains_exclusive :: "text_range \<Rightarrow> int \<Rightarrow> bool" where
  "contains_exclusive r p \<longleftrightarrow> range_pos r < p \<and> p < range_end r"

definition with_pos :: "text_range \<Rightarrow> int \<Rightarrow> text_range" where
  "with_pos r p = new_range p (range_end r)"

definition with_end :: "text_range \<Rightarrow> int \<Rightarrow> text_range" where
  "with_end r e = new_range (range_pos r) e"

definition contained_by :: "text_range \<Rightarrow> text_range \<Rightarrow> bool" where
  "contained_by r s \<longleftrightarrow> pos32 s \<le> pos32 r \<and> end32 r \<le> end32 s"

definition overlaps :: "text_range \<Rightarrow> text_range \<Rightarrow> bool" where
  "overlaps r s \<longleftrightarrow> max (pos32 r) (pos32 s) < min (end32 r) (end32 s)"

definition intersects :: "text_range \<Rightarrow> text_range \<Rightarrow> bool" where
  "intersects r s \<longleftrightarrow> max (pos32 r) (pos32 s) \<le> min (end32 r) (end32 s)"

definition compare_ranges :: "text_range \<Rightarrow> text_range \<Rightarrow> int" where
  "compare_ranges r s =
     (let p = range_pos r - range_pos s in
      if p \<noteq> 0 then p else range_end r - range_end s)"

text \<open>What the type promises: both fields are \<open>i32\<close> values.\<close>

definition wf_range :: "text_range \<Rightarrow> bool" where
  "wf_range r \<longleftrightarrow>
     - (2 ^ 31) \<le> pos32 r \<and> pos32 r < 2 ^ 31 \<and> - (2 ^ 31) \<le> end32 r \<and> end32 r < 2 ^ 31"

lemmas range_accessors [simp] = range_pos_def range_end_def

lemma new_range_fields [simp]: "pos32 (new_range p e) = wrap32 p" "end32 (new_range p e) = wrap32 e"
  by (simp_all add: new_range_def)

lemma wf_new_range: "wf_range (new_range p e)"
  using wrap32_range by (simp add: wf_range_def)

lemma wrap32_wf: "wf_range r \<Longrightarrow> wrap32 (pos32 r) = pos32 r \<and> wrap32 (end32 r) = end32 r"
  by (simp add: wf_range_def wrap32_id)

interpretation range_order: comparison compare_ranges
  by unfold_locales (auto simp: compare_ranges_def Let_def split: if_splits)

section \<open>Text edits\<close>

record text_change =
  change_range :: text_range
  new_text :: bytes

record unappliable_edits =
  low :: int
  high :: int
  capacity :: "nat option"

type_synonym edit_result = "unappliable_edits + bytes"

definition slice :: "bytes \<Rightarrow> int \<Rightarrow> int \<Rightarrow> edit_result" where
  "slice t lo hi =
     (if hi < 0 \<or> hi > int (length t)
      then Inl \<lparr>low = lo, high = hi, capacity = Some (length t)\<rparr>
      else if lo < 0 \<or> lo > hi
      then Inl \<lparr>low = lo, high = hi, capacity = None\<rparr>
      else Inr (drop (nat lo) (take (nat hi) t)))"

definition and_then :: "'e + 'a \<Rightarrow> ('a \<Rightarrow> 'e + 'b) \<Rightarrow> 'e + 'b" where
  "and_then r f = (case r of Inl e \<Rightarrow> Inl e | Inr a \<Rightarrow> f a)"

definition apply_to :: "text_change \<Rightarrow> bytes \<Rightarrow> edit_result" where
  "apply_to c t =
     and_then (slice t 0 (range_pos (change_range c))) (\<lambda>before.
     and_then (slice t (range_end (change_range c)) (int (length t))) (\<lambda>after.
     Inr (before @ new_text c @ after)))"

fun bulk_loop :: "bytes \<Rightarrow> bytes \<Rightarrow> int \<Rightarrow> text_change list \<Rightarrow> edit_result" where
  "bulk_loop t out last_end [] =
     and_then (slice t last_end (int (length t))) (\<lambda>rest. Inr (out @ rest))"
| "bulk_loop t out last_end (e # es) =
     (let start = range_pos (change_range e) in
      and_then (if start \<noteq> last_end then slice t last_end start else Inr []) (\<lambda>kept.
      bulk_loop t (out @ kept @ new_text e) (range_end (change_range e)) es))"

definition apply_bulk_edits :: "bytes \<Rightarrow> text_change list \<Rightarrow> edit_result" where
  "apply_bulk_edits t edits = bulk_loop t [] 0 edits"

text \<open>
  The specification: the edits are in order from \<open>l\<close> on when each one starts at or after the end
  of the one before, and the last one ends within the text.
\<close>

fun in_order :: "nat \<Rightarrow> int \<Rightarrow> text_change list \<Rightarrow> bool" where
  "in_order n l [] \<longleftrightarrow> l \<le> int n"
| "in_order n l (e # es) \<longleftrightarrow>
     l \<le> range_pos (change_range e) \<and> in_order n (range_end (change_range e)) es"

definition forward :: "text_change \<Rightarrow> bool" where
  "forward e \<longleftrightarrow> range_pos (change_range e) \<le> range_end (change_range e)"

text \<open>The reference: apply the edits one at a time, the last one first.\<close>

definition apply_each :: "bytes \<Rightarrow> text_change list \<Rightarrow> edit_result" where
  "apply_each t edits = foldr (\<lambda>e r. and_then r (apply_to e)) edits (Inr t)"

section \<open>Lemmas\<close>

lemma and_then_simps [simp]: "and_then (Inl e) f = Inl e" "and_then (Inr a) f = f a"
  by (simp_all add: and_then_def)

lemma and_then_Inr: "and_then r f = Inr b \<longleftrightarrow> (\<exists>a. r = Inr a \<and> f a = Inr b)"
  by (cases r) auto

lemma slice_Inr:
  "slice t lo hi = Inr s \<longleftrightarrow>
     0 \<le> lo \<and> lo \<le> hi \<and> hi \<le> int (length t) \<and> s = drop (nat lo) (take (nat hi) t)"
  by (auto simp: slice_def)

lemma slice_ok: "0 \<le> lo \<Longrightarrow> lo \<le> hi \<Longrightarrow> hi \<le> int (length t) \<Longrightarrow>
  slice t lo hi = Inr (drop (nat lo) (take (nat hi) t))"
  by (simp add: slice_Inr)

lemma in_order_le: "in_order n l es \<Longrightarrow> \<forall>e\<in>set es. forward e \<Longrightarrow> l \<le> int n"
  by (induction es arbitrary: l) (force simp: forward_def)+

text \<open>The loop returns exactly on the edit lists that are in order.\<close>

lemma bulk_loop_Inr_iff:
  "0 \<le> l \<Longrightarrow> \<forall>e\<in>set es. forward e \<Longrightarrow>
   (\<exists>r. bulk_loop t out l es = Inr r) \<longleftrightarrow> in_order (length t) l es"
proof (induction es arbitrary: l out)
  case Nil
  then show ?case by (auto simp: and_then_Inr slice_Inr)
next
  case (Cons e es)
  let ?p = "range_pos (change_range e)" and ?q = "range_end (change_range e)"
  have fwd: "?p \<le> ?q" "\<forall>e\<in>set es. forward e"
    using Cons.prems by (simp_all add: forward_def)
  show ?case
  proof (cases "l \<le> ?p")
    case True
    with Cons.prems fwd have q: "0 \<le> ?q" by simp
    note IH = Cons.IH [OF q fwd(2)]
    show ?thesis
    proof (cases "?p \<le> int (length t) \<or> ?p = l")
      case True
      then show ?thesis using \<open>l \<le> ?p\<close> Cons.prems(1)
        by (cases "?p = l") (simp_all add: Let_def slice_ok IH [simplified])
    next
      case False
      have "\<not> in_order (length t) ?q es"
        using in_order_le [OF _ fwd(2), of "length t" ?q] False fwd(1) by auto
      then show ?thesis using False by (auto simp: Let_def and_then_Inr slice_Inr)
    qed
  next
    case False
    then show ?thesis by (auto simp: Let_def and_then_Inr slice_Inr)
  qed
qed

lemma slice_append: "0 \<le> l \<Longrightarrow> l \<le> m \<Longrightarrow> m \<le> int (length t) \<Longrightarrow>
  take (nat m) t = take (nat l) t @ drop (nat l) (take (nat m) t)"
  by (metis append_take_drop_id min.absorb_iff1 nat_mono take_take)

text \<open>
  Applying one at a time leaves the text in front of the first edit alone; the loop returns what
  stands behind \<open>l\<close> after all of the edits.
\<close>

lemma bulk_loop_apply_each:
  assumes "0 \<le> l" "\<forall>e\<in>set es. forward e" "in_order (length t) l es"
  shows "\<exists>r. bulk_loop t out l es = Inr (out @ r) \<and> apply_each t es = Inr (take (nat l) t @ r)"
  using assms
proof (induction es arbitrary: l out)
  case Nil
  then show ?case by (simp add: slice_ok apply_each_def)
next
  case (Cons e es)
  let ?p = "range_pos (change_range e)" and ?q = "range_end (change_range e)"
  have le: "0 \<le> l" "l \<le> ?p" "?p \<le> ?q" and fwd: "\<forall>e\<in>set es. forward e"
    and ord: "in_order (length t) ?q es"
    using Cons.prems by (simp_all add: forward_def)
  have q: "?q \<le> int (length t)" by (rule in_order_le [OF ord fwd])
  define kept where "kept = drop (nat l) (take (nat ?p) t)"
  have kept: "(if ?p \<noteq> l then slice t l ?p else Inr []) = Inr kept"
    using le q by (simp add: kept_def slice_ok)
  have "0 \<le> ?q" using le by linarith
  then obtain r where r: "bulk_loop t (out @ kept @ new_text e) ?q es = Inr ((out @ kept @ new_text e) @ r)"
      "apply_each t es = Inr (take (nat ?q) t @ r)"
    using Cons.IH [OF _ fwd ord] by blast
  have len: "length (take (nat ?q) t) = nat ?q" using q by simp
  have "apply_to e (take (nat ?q) t @ r) = Inr (take (nat ?p) t @ new_text e @ r)"
    using le q by (simp add: apply_to_def slice_ok min_def nat_le_iff)
  moreover have "take (nat ?p) t = take (nat l) t @ kept"
    unfolding kept_def using le q by (intro slice_append) auto
  moreover have "bulk_loop t out l (e # es) = bulk_loop t (out @ kept @ new_text e) ?q es"
    unfolding bulk_loop.simps Let_def kept by simp
  ultimately show ?case
    using r by (intro exI [of _ "kept @ new_text e @ r"]) (simp add: apply_each_def)
qed

section \<open>Properties\<close>

text \<open>
  For edits whose ranges are not inverted, \<open>apply_bulk_edits\<close> returns a text exactly when the
  edits are sorted, do not overlap and stay within the text; on every other list it returns the
  error value, whatever the texts are.
\<close>

theorem bulk_edits_error_iff:
  assumes "\<forall>e\<in>set edits. forward e"
  shows "(\<exists>err. apply_bulk_edits t edits = Inl err) \<longleftrightarrow> \<not> in_order (length t) 0 edits"
proof -
  have "(\<exists>r. apply_bulk_edits t edits = Inr r) \<longleftrightarrow> in_order (length t) 0 edits"
    unfolding apply_bulk_edits_def using bulk_loop_Inr_iff [OF _ assms, of 0 t "[]"] by simp
  then show ?thesis by (cases "apply_bulk_edits t edits") auto
qed

theorem bulk_edits_error_iff_witness:
  "\<exists>err. apply_bulk_edits ''0123456789''
     [\<lparr>change_range = new_range 2 6, new_text = []\<rparr>, \<lparr>change_range = new_range 4 8, new_text = []\<rparr>] = Inl err"
  using bulk_edits_error_iff [of "[\<lparr>change_range = new_range 2 6, new_text = []\<rparr>,
      \<lparr>change_range = new_range 4 8, new_text = []\<rparr>]" "''0123456789''"]
  by (simp add: forward_def wrap32_def)

text \<open>
  C40. On edits that are in order the one pass of \<open>apply_bulk_edits\<close> produces the text that applying
  the edits separately with \<open>TextChange::apply_to\<close> produces, from the last edit to the first.
\<close>

theorem bulk_edits_one_by_one:
  assumes "\<forall>e\<in>set edits. forward e" "in_order (length t) 0 edits"
  shows "apply_bulk_edits t edits = apply_each t edits"
  using bulk_loop_apply_each [OF _ assms, of "[]"] by (auto simp: apply_bulk_edits_def)

theorem bulk_edits_one_by_one_witness:
  "apply_bulk_edits ''var x= 1''
     [\<lparr>change_range = new_range 5 5, new_text = '' ''\<rparr>, \<lparr>change_range = new_range 7 8, new_text = ''2''\<rparr>] =
   Inr ''var x = 2''"
proof -
  let ?es = "[\<lparr>change_range = new_range 5 5, new_text = '' ''\<rparr>, \<lparr>change_range = new_range 7 8, new_text = ''2''\<rparr>]"
  have "apply_bulk_edits ''var x= 1'' ?es = apply_each ''var x= 1'' ?es"
    by (rule bulk_edits_one_by_one) (simp_all add: forward_def wrap32_def)
  also have "\<dots> = Inr ''var x = 2''" by code_simp
  finally show ?thesis .
qed

text \<open>
  What the range predicates say of positions: \<open>overlaps\<close> and \<open>intersects\<close> hold exactly when
  some position is contained, half-open or inclusively, in both ranges; \<open>contained_by\<close> is inclusion
  of the positions of a nonempty range; \<open>len\<close> is the number of positions of a range with
  nonnegative ends; and \<open>compare\<close> is zero on equal ranges only.
\<close>

theorem range_predicates:
  assumes "wf_range r" "wf_range s"
  shows "(overlaps r s \<longleftrightarrow> (\<exists>p. contains r p \<and> contains s p)) \<and>
    (intersects r s \<longleftrightarrow> (\<exists>p. contains_inclusive r p \<and> contains_inclusive s p)) \<and>
    (pos32 r < end32 r \<longrightarrow> (contained_by r s \<longleftrightarrow> (\<forall>p. contains r p \<longrightarrow> contains s p))) \<and>
    (0 \<le> pos32 r \<and> pos32 r \<le> end32 r \<longrightarrow> range_len r = int (card {p. contains r p})) \<and>
    (compare_ranges r s = 0 \<longleftrightarrow> r = s)"
proof (intro conjI impI)
  show "overlaps r s \<longleftrightarrow> (\<exists>p. contains r p \<and> contains s p)"
    by (auto simp: overlaps_def contains_def intro!: exI [of _ "max (pos32 r) (pos32 s)"])
  show "intersects r s \<longleftrightarrow> (\<exists>p. contains_inclusive r p \<and> contains_inclusive s p)"
    by (auto simp: intersects_def contains_inclusive_def intro!: exI [of _ "max (pos32 r) (pos32 s)"])
  show "contained_by r s \<longleftrightarrow> (\<forall>p. contains r p \<longrightarrow> contains s p)" if "pos32 r < end32 r"
  proof
    assume "\<forall>p. contains r p \<longrightarrow> contains s p"
    moreover have "contains r (pos32 r)" "contains r (end32 r - 1)"
      using that by (simp_all add: contains_def)
    ultimately have "contains s (pos32 r)" "contains s (end32 r - 1)" by blast+
    then show "contained_by r s" by (simp add: contained_by_def contains_def)
  qed (auto simp: contained_by_def contains_def)
  show "range_len r = int (card {p. contains r p})" if "0 \<le> pos32 r \<and> pos32 r \<le> end32 r"
  proof -
    have "{p. contains r p} = {pos32 r..<end32 r}" by (auto simp: contains_def)
    then show ?thesis using that assms by (simp add: range_len_def wf_range_def wrap32_id)
  qed
  show "compare_ranges r s = 0 \<longleftrightarrow> r = s"
    by (auto simp: compare_ranges_def Let_def)
qed

theorem range_predicates_witness:
  "overlaps (new_range 2 6) (new_range 4 8) \<and> range_len (new_range 2 6) = 4"
proof -
  have "{p. contains (new_range 2 6) p} = {2..<6}" by (auto simp: contains_def wrap32_def)
  moreover have "contains (new_range 2 6) 5" "contains (new_range 4 8) 5"
    by (simp_all add: contains_def wrap32_def)
  ultimately show ?thesis
    using range_predicates [OF wf_new_range wf_new_range, of 2 6 4 8] by (auto simp: wrap32_def)
qed

end
