(* ===== verification/Patterns.thy ===== *)
theory Patterns
  imports Prelude
begin

text \<open>
  Single-wildcard patterns, \<open>crates/tsr_core/src/pattern.rs\<close>: the patterns of \<open>paths\<close> mappings and
  of package exports. The zero value \<open>Pattern::default()\<close>, which \<open>parse\<close> returns for a text with two
  stars, makes \<open>matches\<close> panic; a panic is \<^term>\<open>None\<close>.
\<close>

section \<open>The model\<close>

record pattern =
  pattern_text :: bytes
  star_index :: int

definition default_pattern :: pattern where
  "default_pattern = \<lparr>pattern_text = [], star_index = 0\<rparr>"

abbreviation is_star :: "byte \<Rightarrow> bool" where
  "is_star c \<equiv> c = CHR ''*''"

definition parse_pattern :: "bytes \<Rightarrow> pattern" where
  "parse_pattern p =
     (case position is_star p of
        None \<Rightarrow> \<lparr>pattern_text = p, star_index = - 1\<rparr>
      | Some i \<Rightarrow>
          if CHR ''*'' \<notin> set (drop (i + 1) p) then \<lparr>pattern_text = p, star_index = int i\<rparr>
          else default_pattern)"

definition try_parse_pattern :: "bytes \<Rightarrow> pattern" where
  "try_parse_pattern p = parse_pattern p"

definition pattern_is_valid :: "pattern \<Rightarrow> bool" where
  "pattern_is_valid p \<longleftrightarrow> star_index p = - 1 \<or> star_index p < int (length (pattern_text p))"

text \<open>
  The slices \<open>text[..star]\<close> and \<open>text[star + 1..]\<close> panic out of range; a negative index is a huge
  \<open>usize\<close>. The conjunction is evaluated from the left and stops at the first false conjunct.
\<close>

definition slice_to :: "bytes \<Rightarrow> int \<Rightarrow> bytes panicking" where
  "slice_to t i = (if 0 \<le> i \<and> i \<le> int (length t) then Some (take (nat i) t) else None)"

definition slice_from :: "bytes \<Rightarrow> int \<Rightarrow> bytes panicking" where
  "slice_from t i = (if 0 \<le> i \<and> i \<le> int (length t) then Some (drop (nat i) t) else None)"

definition matches :: "pattern \<Rightarrow> bytes \<Rightarrow> bool panicking" where
  "matches p c =
     (if star_index p = - 1 then Some (pattern_text p = c)
      else if length c < length (pattern_text p) - 1 then Some False
      else case slice_to (pattern_text p) (star_index p) of
        None \<Rightarrow> None
      | Some pre \<Rightarrow>
          if \<not> starts_with c pre then Some False
          else map_option (ends_with c) (slice_from (pattern_text p) (star_index p + 1)))"

definition matched_text :: "pattern \<Rightarrow> bytes \<Rightarrow> bytes panicking" where
  "matched_text p c =
     (case matches p c of
        Some True \<Rightarrow>
          (if star_index p = - 1 then Some (take 0 c)
           else
             let start = star_index p;
                 e = int (length c) - (int (length (pattern_text p)) - start - 1) in
             if 0 \<le> start \<and> start \<le> e \<and> e \<le> int (length c)
             then Some (drop (nat start) (take (nat e) c)) else None)
      | _ \<Rightarrow> None)"

fun best_loop :: "('t \<Rightarrow> pattern) \<Rightarrow> bytes \<Rightarrow> 't \<Rightarrow> int \<Rightarrow> 't list \<Rightarrow> 't panicking" where
  "best_loop get c best longest [] = Some best"
| "best_loop get c best longest (v # vs) =
     (let p = get v in
      if star_index p = - 1 \<or> star_index p > longest
      then case matches p c of
          None \<Rightarrow> None
        | Some True \<Rightarrow> best_loop get c v (star_index p) vs
        | Some False \<Rightarrow> best_loop get c best longest vs
      else best_loop get c best longest vs)"

definition find_best_pattern_match :: "'t \<Rightarrow> 't list \<Rightarrow> ('t \<Rightarrow> pattern) \<Rightarrow> bytes \<Rightarrow> 't panicking" where
  "find_best_pattern_match default_value vs get c = best_loop get c default_value (- 1) vs"

section \<open>Lemmas\<close>

lemma position_star: "CHR ''*'' \<notin> set pre \<Longrightarrow> position is_star (pre @ CHR ''*'' # suf) = Some (length pre)"
  by (induction pre) auto

lemma parse_pattern_star:
  "CHR ''*'' \<notin> set pre \<Longrightarrow> CHR ''*'' \<notin> set suf \<Longrightarrow>
   parse_pattern (pre @ CHR ''*'' # suf) =
     \<lparr>pattern_text = pre @ CHR ''*'' # suf, star_index = int (length pre)\<rparr>"
  by (simp add: parse_pattern_def position_star)

lemma parse_pattern_exact:
  "CHR ''*'' \<notin> set p \<Longrightarrow> parse_pattern p = \<lparr>pattern_text = p, star_index = - 1\<rparr>"
proof -
  assume "CHR ''*'' \<notin> set p"
  then have "position is_star p = None" unfolding position_None by blast
  then show ?thesis by (simp add: parse_pattern_def)
qed

lemma matches_star:
  "matches \<lparr>pattern_text = pre @ s # suf, star_index = int (length pre)\<rparr> c =
     Some (\<exists>mid. c = pre @ mid @ suf)"
proof -
  let ?g = "length pre + length suf \<le> length c \<and> starts_with c pre \<and> ends_with c suf"
  have "matches \<lparr>pattern_text = pre @ s # suf, star_index = int (length pre)\<rparr> c = Some ?g"
    by (auto simp: matches_def slice_to_def slice_from_def nat_add_distrib)
  moreover have "?g \<longleftrightarrow> (\<exists>mid. c = pre @ mid @ suf)"
  proof
    assume g: ?g
    then obtain r where r: "c = pre @ r" by (auto simp: starts_with_prefix prefix_def)
    from g have l: "length suf \<le> length r" "drop (length c - length suf) c = suf"
      by (simp_all add: r ends_with_def)
    then have "drop (length r - length suf) r = suf" by (simp add: r)
    then have "r = take (length r - length suf) r @ suf" by (metis append_take_drop_id)
    then show "\<exists>mid. c = pre @ mid @ suf" using r by blast
  qed (auto simp: starts_with_def ends_with_suffix suffix_append)
  ultimately show ?thesis by simp
qed

text \<open>The two kinds of valid pattern, as \<open>parse\<close> builds them.\<close>

definition parsed :: "pattern \<Rightarrow> bool" where
  "parsed p \<longleftrightarrow> (\<exists>t. p = parse_pattern t) \<and> pattern_is_valid p"

lemma parsed_cases:
  assumes "parsed p"
  obtains (exact) "star_index p = - 1"
  | (star) pre suf where "p = \<lparr>pattern_text = pre @ CHR ''*'' # suf, star_index = int (length pre)\<rparr>"
proof (cases "star_index p = - 1")
  case False
  obtain t where t: "p = parse_pattern t" using assms by (auto simp: parsed_def)
  obtain i where i: "position is_star t = Some i"
    using False t by (auto simp: parse_pattern_def split: option.splits)
  have "p \<noteq> default_pattern"
    using assms by (auto simp: parsed_def pattern_is_valid_def default_pattern_def)
  with t i have p: "p = \<lparr>pattern_text = t, star_index = int i\<rparr>"
    by (auto simp: parse_pattern_def split: if_splits)
  have "t = take i t @ CHR ''*'' # drop (Suc i) t" "length (take i t) = i"
    using position_split [OF i] i by (simp_all add: position_Some)
  then show thesis using star [of "take i t" "drop (Suc i) t"] p by simp
qed (use exact in blast)

lemma parsed_matches: "parsed p \<Longrightarrow> \<exists>b. matches p c = Some b"
  by (erule parsed_cases) (metis matches_def, metis matches_star)

text \<open>The values a search considers, and the one it prefers: the longest prefix, the first of equals.\<close>

definition hits :: "('t \<Rightarrow> pattern) \<Rightarrow> bytes \<Rightarrow> 't list \<Rightarrow> 't list" where
  "hits get c vs = filter (\<lambda>v. matches (get v) c = Some True) vs"

fun first_longest :: "('t \<Rightarrow> int) \<Rightarrow> 't \<Rightarrow> 't list \<Rightarrow> 't" where
  "first_longest key d [] = d"
| "first_longest key d (v # vs) = first_longest key (if key v > key d then v else d) vs"

lemma first_longest_max:
  "first_longest key d vs \<in> set (d # vs) \<and> (\<forall>v\<in>set (d # vs). key v \<le> key (first_longest key d vs))"
proof (induction vs arbitrary: d)
  case (Cons v vs)
  show ?case
    using Cons.IH [of v] Cons.IH [of d] by (cases "key v > key d") force+
qed simp

lemma best_loop_stars:
  assumes "\<forall>v\<in>set vs. parsed (get v) \<and> star_index (get v) \<noteq> - 1"
  shows "best_loop get c d (star_index (get d)) vs =
    Some (first_longest (\<lambda>v. star_index (get v)) d (hits get c vs))"
  using assms
proof (induction vs arbitrary: d)
  case (Cons v vs)
  obtain b where b: "matches (get v) c = Some b" using Cons.prems parsed_matches by force
  show ?case using Cons b by (cases b) (auto simp: hits_def Let_def)
qed (simp add: hits_def)

lemma best_loop_from_start:
  assumes "\<forall>v\<in>set vs. parsed (get v) \<and> star_index (get v) \<noteq> - 1"
  shows "best_loop get c d (- 1) vs =
    Some (case hits get c vs of [] \<Rightarrow> d | v # ws \<Rightarrow> first_longest (\<lambda>v. star_index (get v)) v ws)"
  using assms
proof (induction vs)
  case (Cons v vs)
  obtain b where b: "matches (get v) c = Some b" using Cons.prems parsed_matches by force
  have "- 1 < star_index (get v)"
    using Cons.prems by (auto elim!: parsed_cases [of "get v"])
  then show ?case
    using Cons b best_loop_stars [of vs get c v] by (cases b) (auto simp: hits_def Let_def)
qed (simp add: hits_def)

section \<open>Properties\<close>

text \<open>
  A pattern with one star matches exactly the candidates that are the text before the star, some
  text, and the text after the star; \<open>matched_text\<close> is that middle text, also where prefix and
  suffix would overlap. A pattern without a star matches itself only. A text with two stars parses
  to the invalid zero value, on which \<open>matches\<close> panics for every candidate.
\<close>

theorem pattern_matches_spec:
  assumes "CHR ''*'' \<notin> set pre" "CHR ''*'' \<notin> set suf"
  shows "matches (parse_pattern (pre @ ''*'' @ suf)) c = Some (\<exists>mid. c = pre @ mid @ suf) \<and>
    matched_text (parse_pattern (pre @ ''*'' @ suf)) (pre @ mid @ suf) = Some mid \<and>
    matches (parse_pattern pre) c = Some (c = pre) \<and>
    (\<not> pattern_is_valid (parse_pattern (pre @ ''*'' @ q @ ''*'' @ suf)) \<and>
     matches (parse_pattern (pre @ ''*'' @ q @ ''*'' @ suf)) c = None)"
proof (intro conjI)
  let ?p = "parse_pattern (pre @ ''*'' @ suf)"
  have p: "?p = \<lparr>pattern_text = pre @ CHR ''*'' # suf, star_index = int (length pre)\<rparr>"
    using parse_pattern_star [OF assms] by simp
  show "matches ?p c = Some (\<exists>mid. c = pre @ mid @ suf)"
    unfolding p by (rule matches_star)
  have "matches ?p (pre @ mid @ suf) = Some True"
    unfolding p by (simp only: matches_star) blast
  then show "matched_text ?p (pre @ mid @ suf) = Some mid"
    unfolding p by (simp add: matched_text_def Let_def nat_add_distrib)
  show "matches (parse_pattern pre) c = Some (c = pre)"
    using parse_pattern_exact [OF assms(1)] by (auto simp: matches_def)
  have d: "parse_pattern (pre @ ''*'' @ q @ ''*'' @ suf) = default_pattern"
    using assms(1) by (simp add: parse_pattern_def position_star)
  show "\<not> pattern_is_valid (parse_pattern (pre @ ''*'' @ q @ ''*'' @ suf))"
    unfolding d by (simp add: default_pattern_def pattern_is_valid_def)
  show "matches (parse_pattern (pre @ ''*'' @ q @ ''*'' @ suf)) c = None"
    unfolding d by (simp add: default_pattern_def matches_def slice_to_def slice_from_def)
qed

theorem pattern_matches_spec_witness:
  "matched_text (parse_pattern ''ab*ab'') ''abXab'' = Some ''X'' \<and>
   matches (parse_pattern ''ab*c*ab'') ''ab'' = None"
  using pattern_matches_spec [of "''ab''" "''ab''" "''ab''" "''X''" "''c''"] by simp

text \<open>
  Among valid patterns with a star the search returns the first of the matching values whose
  text before the star is longest, and the default value when none matches. A matching pattern
  without a star displaces everything found before it and starts the search again, so that values
  after it with a star are preferred to it.
\<close>

theorem best_pattern_match_spec:
  assumes "\<forall>v\<in>set ws. parsed (get v) \<and> star_index (get v) \<noteq> - 1"
  shows "find_best_pattern_match d ws get c =
      Some (case hits get c ws of [] \<Rightarrow> d | v # vs \<Rightarrow> first_longest (\<lambda>v. star_index (get v)) v vs) \<and>
    (\<forall>us e. (\<forall>u\<in>set us. parsed (get u)) \<and> star_index (get e) = - 1 \<and> matches (get e) c = Some True \<longrightarrow>
      find_best_pattern_match d (us @ e # ws) get c =
        Some (case hits get c ws of [] \<Rightarrow> e | v # vs \<Rightarrow> first_longest (\<lambda>v. star_index (get v)) v vs))"
proof (intro conjI allI impI)
  show "find_best_pattern_match d ws get c =
      Some (case hits get c ws of [] \<Rightarrow> d | v # vs \<Rightarrow> first_longest (\<lambda>v. star_index (get v)) v vs)"
    unfolding find_best_pattern_match_def by (rule best_loop_from_start [OF assms])
next
  fix us e
  assume "(\<forall>u\<in>set us. parsed (get u)) \<and> star_index (get e) = - 1 \<and> matches (get e) c = Some True"
  then have us: "\<forall>u\<in>set us. parsed (get u)" and e: "star_index (get e) = - 1" "matches (get e) c = Some True"
    by simp_all
  have "best_loop get c d l (us @ e # ws) = best_loop get c e (- 1) ws" for d l
    using us
  proof (induction us arbitrary: d l)
    case (Cons u us)
    obtain b where "matches (get u) c = Some b" using Cons.prems parsed_matches by force
    then show ?case using Cons by (cases b) (auto simp: Let_def)
  qed (simp add: e Let_def)
  then show "find_best_pattern_match d (us @ e # ws) get c =
      Some (case hits get c ws of [] \<Rightarrow> e | v # vs \<Rightarrow> first_longest (\<lambda>v. star_index (get v)) v vs)"
    unfolding find_best_pattern_match_def using best_loop_from_start [OF assms] by simp
qed

theorem best_pattern_match_spec_witness:
  "find_best_pattern_match [] [''a*'', ''ab*'', ''x*''] parse_pattern ''abc'' = Some ''ab*''"
proof -
  let ?ws = "[''a*'', ''ab*'', ''x*'']"
  have p: "parsed (parse_pattern t) \<longleftrightarrow> pattern_is_valid (parse_pattern t)" for t
    by (auto simp: parsed_def)
  have "\<forall>v\<in>set ?ws. parsed (parse_pattern v) \<and> star_index (parse_pattern v) \<noteq> - 1"
    unfolding p by code_simp
  note spec = conjunct1 [OF best_pattern_match_spec [OF this, of "[]" "''abc''"]]
  have "hits parse_pattern ''abc'' ?ws = [''a*'', ''ab*'']" by code_simp
  moreover have "first_longest (\<lambda>v. star_index (parse_pattern v)) ''a*'' [''ab*''] = ''ab*''" by code_simp
  ultimately show ?thesis using spec by (simp only: list.case)
qed

end
