(* ===== verification/Ordered_Map.thy ===== *)
theory Ordered_Map
  imports Prelude "HOL-Library.AList"
begin

text \<open>
  Insertion-ordered maps and sets, \<open>crates/tsr_core/src/collections/ordered_map.rs\<close> and
  \<open>ordered_set.rs\<close>: a deque of keys beside a hash map of values. The \<open>expect\<close> calls and index
  expressions that rely on the two agreeing are branches to \<^term>\<open>None\<close>; they are dead on every map
  the operations build. The specification is an association list, with \<^const>\<open>AList.update\<close> and
  \<^const>\<open>AList.delete\<close> of the library.
\<close>

section \<open>Ordered maps\<close>

record ('k, 'v) ordered_map =
  om_keys :: "'k list"
  om_values :: "'k \<rightharpoonup> 'v"

definition om_default :: "('k, 'v) ordered_map" where
  "om_default = \<lparr>om_keys = [], om_values = Map.empty\<rparr>"

definition om_with_capacity :: "nat \<Rightarrow> ('k, 'v) ordered_map" where
  "om_with_capacity capacity = om_default"

definition om_len :: "('k, 'v) ordered_map \<Rightarrow> nat" where
  "om_len m = length (om_keys m)"

definition om_is_empty :: "('k, 'v) ordered_map \<Rightarrow> bool" where
  "om_is_empty m \<longleftrightarrow> om_keys m = []"

definition om_key_at :: "('k, 'v) ordered_map \<Rightarrow> nat \<Rightarrow> 'k option" where
  "om_key_at m i = (if i < length (om_keys m) then Some (om_keys m ! i) else None)"

definition om_clear :: "('k, 'v) ordered_map \<Rightarrow> ('k, 'v) ordered_map" where
  "om_clear m = m\<lparr>om_keys := [], om_values := Map.empty\<rparr>"

definition om_get :: "('k, 'v) ordered_map \<Rightarrow> 'k \<Rightarrow> 'v option" where
  "om_get m k = om_values m k"

text \<open>\<open>get_mut\<close> hands out a reference; \<open>f\<close> is what the caller does to the value behind it.\<close>

definition om_get_mut :: "('k, 'v) ordered_map \<Rightarrow> 'k \<Rightarrow> ('v \<Rightarrow> 'v) \<Rightarrow> ('k, 'v) ordered_map" where
  "om_get_mut m k f =
     (case om_values m k of None \<Rightarrow> m | Some v \<Rightarrow> m\<lparr>om_values := (om_values m)(k \<mapsto> f v)\<rparr>)"

definition om_contains_key :: "('k, 'v) ordered_map \<Rightarrow> 'k \<Rightarrow> bool" where
  "om_contains_key m k \<longleftrightarrow> om_values m k \<noteq> None"

definition om_entry_at :: "('k, 'v) ordered_map \<Rightarrow> int \<Rightarrow> ('k \<times> 'v) option panicking" where
  "om_entry_at m i =
     (if i < 0 then Some None
      else case om_key_at m (nat i) of
        None \<Rightarrow> Some None
      | Some k \<Rightarrow> (case om_values m k of None \<Rightarrow> None | Some v \<Rightarrow> Some (Some (k, v))))"

fun lookup_all :: "('k \<rightharpoonup> 'v) \<Rightarrow> 'k list \<Rightarrow> ('k \<times> 'v) list panicking" where
  "lookup_all m [] = Some []"
| "lookup_all m (k # ks) =
     (case m k of None \<Rightarrow> None | Some v \<Rightarrow> map_option ((#) (k, v)) (lookup_all m ks))"

definition om_entries :: "('k, 'v) ordered_map \<Rightarrow> ('k \<times> 'v) list panicking" where
  "om_entries m = lookup_all (om_values m) (om_keys m)"

definition om_values_list :: "('k, 'v) ordered_map \<Rightarrow> 'v list panicking" where
  "om_values_list m = map_option (map snd) (om_entries m)"

text \<open>The consuming iterators take each value out of the map as they go.\<close>

fun take_all :: "('k \<rightharpoonup> 'v) \<Rightarrow> 'k list \<Rightarrow> ('k \<times> 'v) list panicking" where
  "take_all m [] = Some []"
| "take_all m (k # ks) =
     (case m k of None \<Rightarrow> None | Some v \<Rightarrow> map_option ((#) (k, v)) (take_all (m(k := None)) ks))"

definition om_into_iter :: "('k, 'v) ordered_map \<Rightarrow> ('k \<times> 'v) list panicking" where
  "om_into_iter m = take_all (om_values m) (om_keys m)"

definition om_into_values :: "('k, 'v) ordered_map \<Rightarrow> 'v list panicking" where
  "om_into_values m = map_option (map snd) (take_all (om_values m) (om_keys m))"

text \<open>\<open>for_each_value_mut\<close>: the callback sees a key and a value and may replace the value.\<close>

fun for_each_loop ::
  "('k \<Rightarrow> 'v \<Rightarrow> 's \<Rightarrow> 'v \<times> 's) \<Rightarrow> 'k list \<Rightarrow> ('k \<rightharpoonup> 'v) \<Rightarrow> 's \<Rightarrow> (('k \<rightharpoonup> 'v) \<times> 's) panicking" where
  "for_each_loop visit [] m s = Some (m, s)"
| "for_each_loop visit (k # ks) m s =
     (case m k of
        None \<Rightarrow> None
      | Some v \<Rightarrow> (case visit k v s of (w, t) \<Rightarrow> for_each_loop visit ks (m(k \<mapsto> w)) t))"

definition om_for_each_value_mut ::
  "('k \<Rightarrow> 'v \<Rightarrow> 's \<Rightarrow> 'v \<times> 's) \<Rightarrow> ('k, 'v) ordered_map \<Rightarrow> 's \<Rightarrow> (('k, 'v) ordered_map \<times> 's) panicking" where
  "om_for_each_value_mut visit m s =
     map_option (\<lambda>(vs, t). (m\<lparr>om_values := vs\<rparr>, t)) (for_each_loop visit (om_keys m) (om_values m) s)"

definition remove_at :: "nat \<Rightarrow> 'a list \<Rightarrow> 'a list" where
  "remove_at i xs = take i xs @ drop (Suc i) xs"

definition om_remove ::
  "('k, 'v) ordered_map \<Rightarrow> 'k \<Rightarrow> (('k, 'v) ordered_map \<times> 'v option) panicking" where
  "om_remove m k =
     (case om_values m k of
        None \<Rightarrow> Some (m, None)
      | Some v \<Rightarrow>
          (case position (\<lambda>item. item = k) (om_keys m) of
             None \<Rightarrow> None
           | Some i \<Rightarrow>
               Some (m\<lparr>om_keys := remove_at i (om_keys m), om_values := (om_values m)(k := None)\<rparr>, Some v)))"

definition om_insert ::
  "('k, 'v) ordered_map \<Rightarrow> 'k \<Rightarrow> 'v \<Rightarrow> ('k, 'v) ordered_map \<times> 'v option" where
  "om_insert m k v =
     (case om_values m k of
        Some old \<Rightarrow> (m\<lparr>om_values := (om_values m)(k \<mapsto> v)\<rparr>, Some old)
      | None \<Rightarrow> (m\<lparr>om_keys := om_keys m @ [k], om_values := (om_values m)(k \<mapsto> v)\<rparr>, None))"

datatype ('k, 'v) map_change = Added 'k 'v | Removed 'k 'v | Modified 'k 'v 'v

definition om_diff_by ::
  "('v \<Rightarrow> 'v \<Rightarrow> bool) \<Rightarrow> ('k, 'v) ordered_map \<Rightarrow> ('k, 'v) ordered_map \<Rightarrow> ('k, 'v) map_change list panicking" where
  "om_diff_by eq m other =
     do {
       new \<leftarrow> om_entries other;
       old \<leftarrow> om_entries m;
       Some (map (\<lambda>(k, v). Added k v) (filter (\<lambda>(k, v). \<not> om_contains_key m k) new) @
             List.map_filter (\<lambda>(k, v).
               case om_get other k of
                 Some w \<Rightarrow> if \<not> eq v w then Some (Modified k v w) else None
               | None \<Rightarrow> Some (Removed k v)) old)
     }"

definition om_diff ::
  "('k, 'v) ordered_map \<Rightarrow> ('k, 'v) ordered_map \<Rightarrow> ('k, 'v) map_change list panicking" where
  "om_diff m other = om_diff_by (=) m other"

text \<open>
  Live iteration: the callback may change the map, which is read again after each call. It may go on
  for ever, when the callback keeps adding keys, so that the loop is a partial function; \<open>None\<close> is
  a loop that never returns (or a panic, in \<open>visit_entries_mut\<close>).
\<close>

partial_function (option) visit_from ::
  "(('k, 'v) ordered_map \<Rightarrow> 's \<Rightarrow> 'k \<Rightarrow> (('k, 'v) ordered_map \<times> 's \<times> bool) option) \<Rightarrow>
   nat \<Rightarrow> ('k, 'v) ordered_map \<Rightarrow> 's \<Rightarrow> (('k, 'v) ordered_map \<times> 's) option" where
  [code]: "visit_from visit i m s =
     (case om_key_at m i of
        None \<Rightarrow> Some (m, s)
      | Some k \<Rightarrow>
          (case visit m s k of
             None \<Rightarrow> None
           | Some (m', s', continue) \<Rightarrow> if continue then visit_from visit (i + 1) m' s' else Some (m', s')))"

definition om_visit_keys_mut ::
  "(('k, 'v) ordered_map \<Rightarrow> 's \<Rightarrow> 'k \<Rightarrow> (('k, 'v) ordered_map \<times> 's \<times> bool) option) \<Rightarrow>
   ('k, 'v) ordered_map \<Rightarrow> 's \<Rightarrow> (('k, 'v) ordered_map \<times> 's) option" where
  "om_visit_keys_mut visit m s = visit_from visit 0 m s"

definition om_visit_entries_mut ::
  "(('k, 'v) ordered_map \<Rightarrow> 's \<Rightarrow> 'k \<Rightarrow> 'v \<Rightarrow> ('k, 'v) ordered_map \<times> 's \<times> bool) \<Rightarrow>
   ('k, 'v) ordered_map \<Rightarrow> 's \<Rightarrow> (('k, 'v) ordered_map \<times> 's) option" where
  "om_visit_entries_mut visit =
     om_visit_keys_mut (\<lambda>m s k. map_option (\<lambda>v. visit m s k v) (om_values m k))"

definition om_get_or_default :: "'v \<Rightarrow> ('k, 'v) ordered_map \<Rightarrow> 'k \<Rightarrow> 'v" where
  "om_get_or_default d m k = (case om_get m k of None \<Rightarrow> d | Some v \<Rightarrow> v)"

definition om_from_iter :: "('k \<times> 'v) list \<Rightarrow> ('k, 'v) ordered_map" where
  "om_from_iter items = fold (\<lambda>(k, v) m. fst (om_insert m k v)) items (om_with_capacity (length items))"

section \<open>Ordered sets\<close>

record 'k ordered_set =
  os_map :: "('k, unit) ordered_map"

definition os_default :: "'k ordered_set" where
  "os_default = \<lparr>os_map = om_default\<rparr>"

definition os_with_capacity :: "nat \<Rightarrow> 'k ordered_set" where
  "os_with_capacity n = \<lparr>os_map = om_with_capacity n\<rparr>"

definition os_len :: "'k ordered_set \<Rightarrow> nat" where
  "os_len s = om_len (os_map s)"

definition os_is_empty :: "'k ordered_set \<Rightarrow> bool" where
  "os_is_empty s = om_is_empty (os_map s)"

definition os_values :: "'k ordered_set \<Rightarrow> 'k list" where
  "os_values s = om_keys (os_map s)"

definition os_clear :: "'k ordered_set \<Rightarrow> 'k ordered_set" where
  "os_clear s = s\<lparr>os_map := om_clear (os_map s)\<rparr>"

definition os_contains :: "'k ordered_set \<Rightarrow> 'k \<Rightarrow> bool" where
  "os_contains s k = om_contains_key (os_map s) k"

definition os_remove :: "'k ordered_set \<Rightarrow> 'k \<Rightarrow> ('k ordered_set \<times> bool) panicking" where
  "os_remove s k = map_option (\<lambda>(m, r). (s\<lparr>os_map := m\<rparr>, r \<noteq> None)) (om_remove (os_map s) k)"

definition os_insert :: "'k ordered_set \<Rightarrow> 'k \<Rightarrow> 'k ordered_set \<times> bool" where
  "os_insert s k = (case om_insert (os_map s) k () of (m, r) \<Rightarrow> (s\<lparr>os_map := m\<rparr>, r = None))"

partial_function (option) os_visit_from ::
  "('k ordered_set \<Rightarrow> 's \<Rightarrow> 'k \<Rightarrow> 'k ordered_set \<times> 's \<times> bool) \<Rightarrow>
   nat \<Rightarrow> 'k ordered_set \<Rightarrow> 's \<Rightarrow> ('k ordered_set \<times> 's) option" where
  [code]: "os_visit_from visit i os s =
     (case om_key_at (os_map os) i of
        None \<Rightarrow> Some (os, s)
      | Some k \<Rightarrow>
          (case visit os s k of
             (os', s', continue) \<Rightarrow> if continue then os_visit_from visit (i + 1) os' s' else Some (os', s')))"

definition os_visit_values_mut ::
  "('k ordered_set \<Rightarrow> 's \<Rightarrow> 'k \<Rightarrow> 'k ordered_set \<times> 's \<times> bool) \<Rightarrow>
   'k ordered_set \<Rightarrow> 's \<Rightarrow> ('k ordered_set \<times> 's) option" where
  "os_visit_values_mut visit os s = os_visit_from visit 0 os s"

section \<open>Invariant and abstraction\<close>

definition om_wf :: "('k, 'v) ordered_map \<Rightarrow> bool" where
  "om_wf m \<longleftrightarrow> distinct (om_keys m) \<and> dom (om_values m) = set (om_keys m)"

definition om_abs :: "('k, 'v) ordered_map \<Rightarrow> ('k \<times> 'v) list" where
  "om_abs m = map (\<lambda>k. (k, the (om_values m k))) (om_keys m)"

text \<open>
  The contract of an ordered dictionary, over an abstraction to association lists. What a client
  learns from it holds of every implementation.
\<close>

locale ordered_dictionary =
  fixes wf :: "'m \<Rightarrow> bool"
    and abs :: "'m \<Rightarrow> ('k \<times> 'v) list"
    and empty :: 'm
    and lookup :: "'m \<Rightarrow> 'k \<Rightarrow> 'v option"
    and insert :: "'m \<Rightarrow> 'k \<Rightarrow> 'v \<Rightarrow> 'm \<times> 'v option"
    and remove :: "'m \<Rightarrow> 'k \<Rightarrow> ('m \<times> 'v option) option"
  assumes wf_empty: "wf empty"
    and abs_empty: "abs empty = []"
    and wf_distinct: "wf m \<Longrightarrow> distinct (map fst (abs m))"
    and lookup_abs: "wf m \<Longrightarrow> lookup m k = map_of (abs m) k"
    and insert_law: "wf m \<Longrightarrow>
      \<exists>m'. insert m k v = (m', map_of (abs m) k) \<and> wf m' \<and> abs m' = AList.update k v (abs m)"
    and remove_law: "wf m \<Longrightarrow>
      \<exists>m'. remove m k = Some (m', map_of (abs m) k) \<and> wf m' \<and> abs m' = AList.delete k (abs m)"
begin

lemma wf_insert: "wf m \<Longrightarrow> wf (fst (insert m k v))"
  using insert_law [of m k v] by force

lemma abs_insert: "wf m \<Longrightarrow> abs (fst (insert m k v)) = AList.update k v (abs m)"
  using insert_law [of m k v] by force

lemma lookup_insert: "wf m \<Longrightarrow> lookup (fst (insert m k v)) k' = (if k' = k then Some v else lookup m k')"
  by (simp add: lookup_abs wf_insert abs_insert update_conv)

lemma remove_Some:
  "wf m \<Longrightarrow> remove m k = Some (m', r) \<Longrightarrow> wf m' \<and> abs m' = AList.delete k (abs m) \<and> r = lookup m k"
  using remove_law [of m k] by (auto simp: lookup_abs)

lemma lookup_remove:
  "wf m \<Longrightarrow> remove m k = Some (m', r) \<Longrightarrow> lookup m' k' = (if k' = k then None else lookup m k')"
  using remove_Some [of m k m' r] by (simp add: lookup_abs delete_conv)

text \<open>Deleting a key and inserting it again moves it to the end.\<close>

lemma remove_insert_end:
  assumes "wf m" "remove m k = Some (m', r)"
  shows "abs (fst (insert m' k v)) = AList.delete k (abs m) @ [(k, v)]"
proof -
  from remove_Some [OF assms] have m': "wf m'" "abs m' = AList.delete k (abs m)" by auto
  have "k \<notin> fst ` set xs \<Longrightarrow> AList.update k v xs = xs @ [(k, v)]" for xs
    by (induction xs) auto
  then have "AList.update k v (AList.delete k (abs m)) = AList.delete k (abs m) @ [(k, v)]"
    using delete_notin_dom by metis
  then show ?thesis using m' by (simp add: abs_insert)
qed

text \<open>Inserting a list of entries: the first occurrence fixes the place, the last one the value.\<close>

lemma insert_all_abs:
  "wf m \<Longrightarrow> wf (fold (\<lambda>(k, v) m. fst (insert m k v)) items m) \<and>
    abs (fold (\<lambda>(k, v) m. fst (insert m k v)) items m) = fold (\<lambda>(k, v). AList.update k v) items (abs m)"
  by (induction items arbitrary: m) (auto simp: wf_insert abs_insert)

lemma insert_all_lookup:
  "wf m \<Longrightarrow> lookup (fold (\<lambda>(k, v) m. fst (insert m k v)) items m) k =
    (case map_of (rev items) k of Some v \<Rightarrow> Some v | None \<Rightarrow> lookup m k)"
proof (induction items arbitrary: m)
  case (Cons p items)
  obtain j v where p: "p = (j, v)" by force
  show ?case
    using Cons.IH [OF wf_insert [OF Cons.prems], of j v] Cons.prems
    by (simp add: p lookup_insert map_add_def split: option.splits)
qed simp

end

section \<open>The model provides the contract\<close>

lemma map_fst_om_abs [simp]: "map fst (om_abs m) = om_keys m"
  by (simp add: om_abs_def comp_def)

lemma om_wf_key: "om_wf m \<Longrightarrow> k \<in> set (om_keys m) \<longleftrightarrow> (\<exists>v. om_values m k = Some v)"
  unfolding om_wf_def by blast

lemma map_of_om_abs:
  assumes "om_wf m"
  shows "map_of (om_abs m) k = om_values m k"
proof -
  have "map_of (om_abs m) = (\<lambda>k. Some (the (om_values m k))) |` set (om_keys m)"
    unfolding om_abs_def by (simp add: map_of_map_restrict comp_def)
  then show ?thesis
    using om_wf_key [OF assms, of k] by (cases "om_values m k") (auto simp: restrict_map_def)
qed

lemma update_new: "k \<notin> fst ` set xs \<Longrightarrow> AList.update k v xs = xs @ [(k, v)]"
  by (induction xs) auto

lemma abs_update_old:
  "distinct ks \<Longrightarrow> k \<in> set ks \<Longrightarrow>
   map (\<lambda>j. (j, the ((vs(k \<mapsto> v)) j))) ks = AList.update k v (map (\<lambda>j. (j, the (vs j))) ks)"
proof (induction ks)
  case (Cons j ks)
  then show ?case by (cases "j = k") auto
qed simp

lemma om_insert_law:
  assumes "om_wf m"
  shows "\<exists>m'. om_insert m k v = (m', map_of (om_abs m) k) \<and> om_wf m' \<and> om_abs m' = AList.update k v (om_abs m)"
proof (cases "om_values m k")
  case None
  then have new: "k \<notin> set (om_keys m)" using assms by (auto simp: om_wf_def)
  have "om_abs (fst (om_insert m k v)) = om_abs m @ [(k, v)]"
    using new None by (auto simp: om_insert_def om_abs_def)
  also have "\<dots> = AList.update k v (om_abs m)"
    using new by (intro update_new [symmetric]) (auto simp: om_abs_def)
  finally show ?thesis
    using assms new None by (auto simp: om_insert_def map_of_om_abs om_wf_def)
next
  case (Some old)
  then have "k \<in> set (om_keys m)" using assms by (auto simp: om_wf_def)
  then show ?thesis
    using assms Some abs_update_old [of "om_keys m" k "om_values m" v] map_of_om_abs [OF assms]
    by (auto simp: om_insert_def om_wf_def om_abs_def)
qed

lemma position_remove: "position (\<lambda>x. x = k) xs = Some i \<Longrightarrow> remove_at i xs = remove1 k xs"
  by (induction xs arbitrary: i) (auto simp: remove_at_def split: if_splits)

lemma om_remove_law:
  assumes "om_wf m"
  shows "\<exists>m'. om_remove m k = Some (m', map_of (om_abs m) k) \<and> om_wf m' \<and> om_abs m' = AList.delete k (om_abs m)"
proof (cases "om_values m k")
  case None
  then have "k \<notin> fst ` set (om_abs m)" using om_wf_key [OF assms, of k] by (auto simp: om_abs_def)
  then show ?thesis using assms None by (simp add: om_remove_def map_of_om_abs)
next
  case (Some v)
  then have "k \<in> set (om_keys m)" using assms by (auto simp: om_wf_def)
  then obtain i where i: "position (\<lambda>x. x = k) (om_keys m) = Some i"
    by (cases "position (\<lambda>x. x = k) (om_keys m)") (auto simp: position_None)
  have keys: "remove_at i (om_keys m) = filter (\<lambda>j. j \<noteq> k) (om_keys m)"
    using position_remove [OF i] assms
    by (simp add: om_wf_def distinct_remove1_removeAll removeAll_filter_not_eq) metis
  have "om_abs (m\<lparr>om_keys := filter (\<lambda>j. j \<noteq> k) (om_keys m), om_values := (om_values m)(k := None)\<rparr>) =
      AList.delete k (om_abs m)"
    by (auto simp: om_abs_def AList.delete_eq filter_map comp_def intro!: map_cong filter_cong)
  then show ?thesis using assms Some i keys by (auto simp: om_remove_def map_of_om_abs om_wf_def)
qed

interpretation om: ordered_dictionary om_wf om_abs om_default om_get om_insert om_remove
proof
  show "om_wf om_default" by (simp add: om_wf_def om_default_def)
  show "om_abs om_default = []" by (simp add: om_abs_def om_default_def)
  show "om_wf m \<Longrightarrow> distinct (map fst (om_abs m))" for m :: "('a, 'b) ordered_map"
    by (simp add: om_wf_def)
  show "om_wf m \<Longrightarrow> om_get m k = map_of (om_abs m) k" for m :: "('a, 'b) ordered_map" and k
    by (simp add: om_get_def map_of_om_abs)
qed (fact om_insert_law om_remove_law)+

section \<open>The other operations\<close>

lemma lookup_all_Some:
  "set ks \<subseteq> dom m \<Longrightarrow> lookup_all m ks = Some (map (\<lambda>k. (k, the (m k))) ks)"
  by (induction ks) auto

lemma om_entries_abs: "om_wf m \<Longrightarrow> om_entries m = Some (om_abs m)"
  by (simp add: om_entries_def om_abs_def om_wf_def lookup_all_Some)

lemma take_all_Some:
  "distinct ks \<Longrightarrow> set ks \<subseteq> dom m \<Longrightarrow> take_all m ks = Some (map (\<lambda>k. (k, the (m k))) ks)"
proof (induction ks arbitrary: m)
  case (Cons k ks)
  have "take_all (m(k := None)) ks = Some (map (\<lambda>j. (j, the ((m(k := None)) j))) ks)"
    using Cons.prems by (intro Cons.IH) auto
  moreover have "map (\<lambda>j. (j, the ((m(k := None)) j))) ks = map (\<lambda>j. (j, the (m j))) ks"
    using Cons.prems by auto
  ultimately show ?case using Cons.prems by auto
qed simp

lemma om_into_iter_abs: "om_wf m \<Longrightarrow> om_into_iter m = Some (om_abs m)"
  by (simp add: om_into_iter_def om_abs_def om_wf_def take_all_Some)

lemma om_entry_at_abs:
  assumes "om_wf m"
  shows "om_entry_at m i = Some (if 0 \<le> i \<and> i < int (om_len m) then Some (om_abs m ! nat i) else None)"
proof (cases "0 \<le> i \<and> i < int (om_len m)")
  case True
  then have n: "nat i < length (om_keys m)" by (simp add: om_len_def nat_less_iff)
  then have "om_keys m ! nat i \<in> set (om_keys m)" by simp
  then obtain v where "om_values m (om_keys m ! nat i) = Some v" using om_wf_key [OF assms] by blast
  then show ?thesis using True n by (simp add: om_entry_at_def om_key_at_def om_abs_def)
qed (auto simp: om_entry_at_def om_key_at_def om_len_def)

lemma for_each_loop_Some:
  "set ks \<subseteq> dom m \<Longrightarrow> \<exists>m' t. for_each_loop visit ks m s = Some (m', t) \<and> dom m' = dom m"
proof (induction ks arbitrary: m s)
  case (Cons k ks)
  obtain v where v: "m k = Some v" using Cons.prems by auto
  obtain w t where w: "visit k v s = (w, t)" by force
  have "set ks \<subseteq> dom (m(k \<mapsto> w))" using Cons.prems by auto
  from Cons.IH [OF this, of t] obtain m' t' where
    r: "for_each_loop visit ks (m(k \<mapsto> w)) t = Some (m', t')" "dom m' = dom (m(k \<mapsto> w))" by blast
  moreover have "dom (m(k \<mapsto> w)) = dom m" using v by auto
  ultimately show ?case using v w by simp
qed simp

text \<open>The maps a program can build, from the empty one by any sequence of the mutating operations.\<close>

inductive om_reachable :: "('k, 'v) ordered_map \<Rightarrow> bool" where
  start: "om_reachable (om_with_capacity n)"
| insert: "om_reachable m \<Longrightarrow> om_reachable (fst (om_insert m k v))"
| remove: "om_reachable m \<Longrightarrow> om_remove m k = Some (m', r) \<Longrightarrow> om_reachable m'"
| get_mut: "om_reachable m \<Longrightarrow> om_reachable (om_get_mut m k f)"
| for_each: "om_reachable m \<Longrightarrow>
    om_for_each_value_mut (visit :: 'k \<Rightarrow> 'v \<Rightarrow> nat \<Rightarrow> 'v \<times> nat) m s = Some (m', t) \<Longrightarrow> om_reachable m'"
| clear: "om_reachable m \<Longrightarrow> om_reachable (om_clear m)"

lemma om_reachable_wf: "om_reachable m \<Longrightarrow> om_wf m"
proof (induction rule: om_reachable.induct)
  case (start n)
  then show ?case by (simp add: om_with_capacity_def om.wf_empty)
next
  case (remove m k m' r)
  then show ?case using om.remove_Some [OF remove.IH remove.hyps(2)] by simp
next
  case (for_each m visit s m' t)
  then have "set (om_keys m) \<subseteq> dom (om_values m)" by (simp add: om_wf_def)
  from for_each_loop_Some [OF this, of visit s] obtain vs u where
    vs: "for_each_loop visit (om_keys m) (om_values m) s = Some (vs, u)" "dom vs = dom (om_values m)" by blast
  with for_each.hyps have "m' = m\<lparr>om_values := vs\<rparr>" by (simp add: om_for_each_value_mut_def)
  then show ?case using for_each.IH vs by (simp add: om_wf_def)
next
  case (get_mut m k f)
  then show ?case by (cases "om_values m k") (auto simp: om_get_mut_def om_wf_def)
next
  case (clear m)
  show ?case by (simp add: om_clear_def om_wf_def)
qed (rule om.wf_insert)

lemma visit_from_returns:
  assumes total: "\<And>m s k. visit m s k \<noteq> None"
    and shrink: "\<And>m s k m' s' c. visit m s k = Some (m', s', c) \<Longrightarrow> om_len m' \<le> om_len m"
  shows "\<exists>r. visit_from visit i m s = Some r"
proof (induction "om_len m - i" arbitrary: i m s rule: less_induct)
  case less
  show ?case
  proof (cases "om_key_at m i")
    case None
    then show ?thesis by (simp add: visit_from.simps)
  next
    case (Some k)
    obtain m' s' c where v: "visit m s k = Some (m', s', c)"
      using total [of m s k] by (cases "visit m s k") auto
    have "om_len m' - (i + 1) < om_len m - i"
      using shrink [OF v] Some by (auto simp: om_key_at_def om_len_def split: if_splits)
    from less [OF this, of s'] show ?thesis
      using Some v by (auto simp: visit_from.simps [of visit i])
  qed
qed

text \<open>A callback that leaves the keys alone sees each key once, in order, until it stops.\<close>

fun visit_list :: "('s \<Rightarrow> 'k \<Rightarrow> 's \<times> bool) \<Rightarrow> 'k list \<Rightarrow> 's \<Rightarrow> 's" where
  "visit_list f [] s = s"
| "visit_list f (k # ks) s = (case f s k of (s', continue) \<Rightarrow> if continue then visit_list f ks s' else s')"

lemma visit_from_readonly:
  "visit_from (\<lambda>m s k. case f s k of (s', c) \<Rightarrow> Some (m, s', c)) i m s =
     Some (m, visit_list f (drop i (om_keys m)) s)"
proof (induction "om_len m - i" arbitrary: i s rule: less_induct)
  case less
  show ?case
  proof (cases "i < om_len m")
    case True
    then have "drop i (om_keys m) = om_keys m ! i # drop (Suc i) (om_keys m)"
      by (simp add: om_len_def Cons_nth_drop_Suc)
    then show ?thesis
      using True less [of "i + 1"] by (auto simp: visit_from.simps [of _ i] om_key_at_def om_len_def split: prod.splits)
  next
    case False
    then show ?thesis by (simp add: visit_from.simps [of _ i] om_key_at_def om_len_def)
  qed
qed

text \<open>Replaying a diff.\<close>

fun apply_change :: "('k, 'v) map_change \<Rightarrow> ('k, 'v) ordered_map panicking \<Rightarrow> ('k, 'v) ordered_map panicking" where
  "apply_change c None = None"
| "apply_change (Added k v) (Some m) = Some (fst (om_insert m k v))"
| "apply_change (Modified k old new) (Some m) = Some (fst (om_insert m k new))"
| "apply_change (Removed k v) (Some m) = map_option fst (om_remove m k)"

fun change_key :: "('k, 'v) map_change \<Rightarrow> 'k" where
  "change_key (Added k v) = k"
| "change_key (Modified k old new) = k"
| "change_key (Removed k v) = k"

fun change_value :: "('k, 'v) map_change \<Rightarrow> 'v option" where
  "change_value (Added k v) = Some v"
| "change_value (Modified k old new) = Some new"
| "change_value (Removed k v) = None"

lemma apply_change_get:
  assumes "om_wf m"
  shows "\<exists>m'. apply_change c (Some m) = Some m' \<and> om_wf m' \<and>
    om_get m' = (om_get m)(change_key c := change_value c)"
proof (cases c)
  case (Removed k v)
  obtain m' where "om_remove m k = Some (m', map_of (om_abs m) k)" "om_wf m'"
    using om.remove_law [OF assms] by blast
  then show ?thesis using Removed om.lookup_remove [OF assms] by auto
qed (use om.wf_insert [OF assms] om.lookup_insert [OF assms] in auto)

lemma apply_changes_get:
  "om_wf m \<Longrightarrow> \<forall>c\<in>set cs. change_value c = f (change_key c) \<Longrightarrow>
   \<exists>m'. fold apply_change cs (Some m) = Some m' \<and> om_wf m' \<and>
     (\<forall>k. om_get m' k = (if k \<in> change_key ` set cs then f k else om_get m k))"
proof (induction cs arbitrary: m)
  case (Cons c cs)
  obtain m1 where m1: "apply_change c (Some m) = Some m1" "om_wf m1"
      "om_get m1 = (om_get m)(change_key c := change_value c)"
    using apply_change_get [OF Cons.prems(1)] by blast
  from Cons.IH [OF m1(2)] Cons.prems(2) obtain m' where
    "fold apply_change cs (Some m1) = Some m'" "om_wf m'"
    "\<forall>k. om_get m' k = (if k \<in> change_key ` set cs then f k else om_get m1 k)" by auto
  then show ?case using m1 Cons.prems(2) by auto
qed simp

definition changes :: "('k, 'v) ordered_map \<Rightarrow> ('k, 'v) ordered_map \<Rightarrow> ('k, 'v) map_change set" where
  "changes a b =
     {Added k v | k v. om_get b k = Some v \<and> om_get a k = None} \<union>
     {Modified k v w | k v w. om_get a k = Some v \<and> om_get b k = Some w \<and> v \<noteq> w} \<union>
     {Removed k v | k v. om_get a k = Some v \<and> om_get b k = None}"

lemma changes_complete:
  assumes "om_get a k \<noteq> om_get b k"
  shows "\<exists>c\<in>changes a b. change_key c = k"
proof (cases "om_get a k")
  case None
  then obtain v where "om_get b k = Some v" using assms by (cases "om_get b k") simp_all
  with None have "Added k v \<in> changes a b" by (simp add: changes_def)
  then show ?thesis by force
next
  case (Some v)
  then have "Removed k v \<in> changes a b \<or> (\<exists>w. Modified k v w \<in> changes a b)"
    using assms by (cases "om_get b k") (auto simp: changes_def)
  then show ?thesis by force
qed

lemma changes_sound: "c \<in> changes a b \<Longrightarrow> change_value c = om_get b (change_key c)"
  by (auto simp: changes_def)

lemma set_om_abs: "om_wf m \<Longrightarrow> (k, v) \<in> set (om_abs m) \<longleftrightarrow> om_get m k = Some v"
  using om.lookup_abs [of m k] om.wf_distinct [of m] by (simp add: map_of_eq_Some_iff)

lemma om_diff_changes:
  assumes "om_wf a" "om_wf b"
  shows "\<exists>cs. om_diff a b = Some cs \<and> set cs = changes a b"
proof -
  let ?f = "\<lambda>(k, v). case om_get b k of Some w \<Rightarrow> if v \<noteq> w then Some (Modified k v w) else None
    | None \<Rightarrow> Some (Removed k v)"
  let ?added = "map (\<lambda>(k, v). Added k v) (filter (\<lambda>(k, v). \<not> om_contains_key a k) (om_abs b))"
  have d: "om_diff a b = Some (?added @ List.map_filter ?f (om_abs a))"
    using assms by (simp add: om_diff_def om_diff_by_def om_entries_abs)
  have "set ?added = {Added k v | k v. om_get b k = Some v \<and> om_get a k = None}"
    using set_om_abs [OF assms(2)] by (force simp: om_contains_key_def om_get_def image_iff)
  moreover have "set (List.map_filter ?f (om_abs a)) =
      {Modified k v w | k v w. om_get a k = Some v \<and> om_get b k = Some w \<and> v \<noteq> w} \<union>
      {Removed k v | k v. om_get a k = Some v \<and> om_get b k = None}"
    using set_om_abs [OF assms(1)]
    by (force simp: map_filter_def image_iff split: option.splits if_splits)
  ultimately show ?thesis using d by (auto simp: changes_def)
qed

text \<open>An ordered set is the list of its values in insertion order, through the map's contract.\<close>

lemma os_insert_spec:
  assumes "om_wf (os_map s)"
  shows "\<exists>s'. os_insert s k = (s', k \<notin> set (os_values s)) \<and> om_wf (os_map s') \<and>
    os_values s' = (if k \<in> set (os_values s) then os_values s else os_values s @ [k])"
proof -
  have *: "om_keys (fst (om_insert (os_map s) k ())) =
      (if k \<in> set (os_values s) then os_values s else os_values s @ [k])"
    using om_wf_key [OF assms, of k] by (auto simp: om_insert_def os_values_def split: option.split)
  moreover have "snd (om_insert (os_map s) k ()) = None \<longleftrightarrow> k \<notin> set (os_values s)"
    using om_wf_key [OF assms, of k] by (auto simp: om_insert_def os_values_def split: option.split)
  ultimately show ?thesis
    using om.wf_insert [OF assms, of k "()"]
    by (cases "om_insert (os_map s) k ()") (auto simp: os_insert_def os_values_def)
qed

lemma os_remove_spec:
  assumes "om_wf (os_map s)"
  shows "\<exists>s'. os_remove s k = Some (s', k \<in> set (os_values s)) \<and> om_wf (os_map s') \<and>
    os_values s' = removeAll k (os_values s)"
proof -
  obtain m where m: "om_remove (os_map s) k = Some (m, map_of (om_abs (os_map s)) k)" "om_wf m"
      "om_abs m = AList.delete k (om_abs (os_map s))"
    using om.remove_law [OF assms] by blast
  from arg_cong [OF m(3), of "map fst"] have "om_keys m = removeAll k (os_values s)"
    by (simp only: delete_keys map_fst_om_abs os_values_def)
  moreover have "map_of (om_abs (os_map s)) k \<noteq> None \<longleftrightarrow> k \<in> set (os_values s)"
    using om_wf_key [OF assms, of k] by (auto simp: map_of_om_abs [OF assms] os_values_def)
  ultimately show ?thesis using m by (auto simp: os_remove_def os_values_def)
qed

section \<open>Properties\<close>

text \<open>
  C27. Every ordered map that the operations can build refines an association list without duplicate
  keys: \<open>insert\<close> is \<open>AList.update\<close> (a new key goes to the end, a known one keeps its place), \<open>remove\<close>
  is \<open>AList.delete\<close>, both return the previous value, and \<open>entries\<close>, \<open>into_iter\<close> and \<open>entry_at\<close> read
  the list. No \<open>expect\<close> and no index of the code can fail.
\<close>

theorem ordered_map_refines:
  assumes "om_reachable m"
  shows "distinct (map fst (om_abs m)) \<and>
    (\<exists>m'. om_insert m k v = (m', map_of (om_abs m) k) \<and> om_abs m' = AList.update k v (om_abs m)) \<and>
    (\<exists>m'. om_remove m k = Some (m', map_of (om_abs m) k) \<and> om_abs m' = AList.delete k (om_abs m)) \<and>
    om_get m k = map_of (om_abs m) k \<and>
    om_entries m = Some (om_abs m) \<and> om_into_iter m = Some (om_abs m) \<and>
    om_entry_at m i = Some (if 0 \<le> i \<and> i < int (om_len m) then Some (om_abs m ! nat i) else None)"
proof -
  have wf: "om_wf m" by (rule om_reachable_wf [OF assms])
  then show ?thesis
    using om.wf_distinct [OF wf] om.insert_law [OF wf] om.remove_law [OF wf] om.lookup_abs [OF wf]
      om_entries_abs [OF wf] om_into_iter_abs [OF wf] om_entry_at_abs [OF wf] by blast
qed

theorem ordered_map_refines_witness:
  "om_entry_at (fst (om_insert (om_with_capacity 4) (1 :: nat) ''a'')) 0 = Some (Some (1, ''a''))"
proof -
  let ?m = "fst (om_insert (om_with_capacity 4) (1 :: nat) ''a'')"
  have "om_reachable ?m" by (intro om_reachable.intros)
  note conjunct2 [OF conjunct2 [OF conjunct2 [OF conjunct2 [OF conjunct2 [OF conjunct2 [OF
    ordered_map_refines [OF this, where i = 0]]]]]]]
  then show ?thesis
    by (simp add: om_insert_def om_with_capacity_def om_default_def om_len_def om_abs_def)
qed

text \<open>
  Replaying the notifications of \<open>diff\<close> on the old map gives the new map's contents: every key
  has the value it has in the new map, and no other key is left.
\<close>

theorem diff_replays:
  assumes "om_reachable a" "om_reachable b"
  shows "\<exists>cs m. om_diff a b = Some cs \<and> fold apply_change cs (Some a) = Some m \<and> om_get m = om_get b"
proof -
  note wf = om_reachable_wf [OF assms(1)] om_reachable_wf [OF assms(2)]
  obtain cs where cs: "om_diff a b = Some cs" "set cs = changes a b"
    using om_diff_changes [OF wf] by blast
  have "\<forall>c\<in>set cs. change_value c = om_get b (change_key c)" by (simp add: cs changes_sound)
  from apply_changes_get [OF wf(1) this] obtain m where
    m: "fold apply_change cs (Some a) = Some m"
      "\<forall>k. om_get m k = (if k \<in> change_key ` set cs then om_get b k else om_get a k)" by blast
  have "om_get a k = om_get b k" if "k \<notin> change_key ` set cs" for k
  proof (rule ccontr)
    assume "om_get a k \<noteq> om_get b k"
    then have "\<exists>c\<in>changes a b. change_key c = k" by (rule changes_complete)
    with that cs show False by auto
  qed
  with m(2) have "om_get m k = om_get b k" for k by (cases "k \<in> change_key ` set cs") simp_all
  then show ?thesis using cs(1) m(1) by blast
qed

theorem diff_replays_witness:
  "\<exists>cs m. om_diff (fst (om_insert (om_with_capacity 1) (1 :: nat) ''a'')) (om_with_capacity 0) = Some cs \<and>
     fold apply_change cs (Some (fst (om_insert (om_with_capacity 1) 1 ''a''))) = Some m \<and>
     om_get m = om_get (om_with_capacity 0)"
  by (rule diff_replays) (intro om_reachable.intros)+

text \<open>
  The live iteration of \<open>visit_keys_mut\<close> returns whenever the callback does not make the map
  longer, also when it deletes keys while the loop runs; and when the callback leaves the map alone
  it is called on each key in insertion order until it returns false.
\<close>

theorem visit_keys_mut_returns:
  "((\<forall>m s k. \<exists>m' s' c. visit m s k = Some (m', s', c) \<and> om_len m' \<le> om_len m) \<longrightarrow>
     (\<exists>r. om_visit_keys_mut visit m s = Some r)) \<and>
   om_visit_keys_mut (\<lambda>m s k. case f s k of (s', c) \<Rightarrow> Some (m, s', c)) n t =
     Some (n, visit_list f (om_keys n) t)"
proof (intro conjI impI)
  assume v: "\<forall>m s k. \<exists>m' s' c. visit m s k = Some (m', s', c) \<and> om_len m' \<le> om_len m"
  show "\<exists>r. om_visit_keys_mut visit m s = Some r"
    unfolding om_visit_keys_mut_def
  proof (rule visit_from_returns)
    show "visit m s k \<noteq> None" for m s k using v [rule_format, of m s k] by auto
    show "om_len m' \<le> om_len m" if "visit m s k = Some (m', s', c)" for m s k m' s' c
      using v [rule_format, of m s k] that by auto
  qed
next
  show "om_visit_keys_mut (\<lambda>m s k. case f s k of (s', c) \<Rightarrow> Some (m, s', c)) n t =
     Some (n, visit_list f (om_keys n) t)"
    unfolding om_visit_keys_mut_def using visit_from_readonly [of f 0 n t] by (simp only: drop_0)
qed

theorem visit_keys_mut_returns_witness:
  "\<exists>r. om_visit_keys_mut (\<lambda>m s k. Some (om_clear m, Suc s, True))
     (fst (om_insert (om_with_capacity 1) (1 :: nat) ''a'')) 0 = Some r"
  by (rule conjunct1 [OF visit_keys_mut_returns, THEN mp]) (auto simp: om_len_def om_clear_def)

end
