(* ===== verification/Link_Store.thy ===== *)
theory Link_Store
  imports Prelude
begin

text \<open>
  The stores that attach a value to a node or symbol on first use, \<open>crates/tsr_core/src/linkstore.rs\<close>,
  and the stack of \<open>stack.rs\<close>. \<open>LinkStore\<close> is a hash map; \<open>PagedLinkStore\<close> keeps pages of 256 values
  under a 64-bit key, in a list below 65536 pages and in a map above. \<open>get\<close> returns a mutable
  reference: its model takes the function that the caller applies behind the reference, which
  returns a result and the value left there.
\<close>

section \<open>Link stores\<close>

record ('k, 'v) link_store =
  entries :: "'k \<rightharpoonup> 'v"

definition ls_default :: "('k, 'v) link_store" where
  "ls_default = \<lparr>entries = Map.empty\<rparr>"

definition ls_get ::
  "'v \<Rightarrow> ('k, 'v) link_store \<Rightarrow> 'k \<Rightarrow> ('v \<Rightarrow> 'r \<times> 'v) \<Rightarrow> ('k, 'v) link_store \<times> 'r" where
  "ls_get d s k f =
     (let present = entries s k \<noteq> None;
          s = if \<not> present then s\<lparr>entries := (entries s)(k \<mapsto> d)\<rparr> else s;
          v = (case entries s k of None \<Rightarrow> d | Some v \<Rightarrow> v) in
      case f v of (r, w) \<Rightarrow> (s\<lparr>entries := (entries s)(k \<mapsto> w)\<rparr>, r))"

definition ls_has :: "('k, 'v) link_store \<Rightarrow> 'k \<Rightarrow> bool" where
  "ls_has s k \<longleftrightarrow> entries s k \<noteq> None"

definition ls_try_get :: "('k, 'v) link_store \<Rightarrow> 'k \<Rightarrow> 'v option" where
  "ls_try_get s k = entries s k"

section \<open>Paged link stores\<close>

definition PAGE_SHIFT :: nat where
  "PAGE_SHIFT = 8"

definition PAGE_SIZE :: nat where
  "PAGE_SIZE = 2 ^ PAGE_SHIFT"

definition PAGE_MASK :: "64 word" where
  "PAGE_MASK = push_bit PAGE_SHIFT 1 - 1"

definition MAX_PAGE_COUNT :: "64 word" where
  "MAX_PAGE_COUNT = 65536"

type_synonym 'v page = "'v list"

record 'v paged_link_store =
  page_map :: "64 word \<rightharpoonup> 'v page"
  page_list :: "'v page option list"

definition paged_default :: "'v paged_link_store" where
  "paged_default = \<lparr>page_map = Map.empty, page_list = []\<rparr>"

definition new_page :: "'v \<Rightarrow> 'v page" where
  "new_page d = replicate PAGE_SIZE d"

definition page_of :: "64 word \<Rightarrow> 64 word" where
  "page_of key = drop_bit PAGE_SHIFT key"

definition slot_of :: "64 word \<Rightarrow> nat" where
  "slot_of key = unat (key AND PAGE_MASK)"

definition paged_get ::
  "'v \<Rightarrow> 'v paged_link_store \<Rightarrow> 64 word \<Rightarrow> ('v \<Rightarrow> 'r \<times> 'v) \<Rightarrow> 'v paged_link_store \<times> 'r" where
  "paged_get d s key f =
     (let page_index = page_of key; slot = slot_of key in
      if page_index < MAX_PAGE_COUNT then
        let index = unat page_index;
            pages = (if index \<ge> length (page_list s)
                     then page_list s @ replicate (index + 1 - length (page_list s)) None
                     else page_list s);
            page = (case pages ! index of None \<Rightarrow> new_page d | Some p \<Rightarrow> p) in
        case f (page ! slot) of
          (r, w) \<Rightarrow> (s\<lparr>page_list := pages[index := Some (page[slot := w])]\<rparr>, r)
      else
        let page = (case page_map s page_index of Some p \<Rightarrow> p | None \<Rightarrow> new_page d) in
        case f (page ! slot) of
          (r, w) \<Rightarrow> (s\<lparr>page_map := (page_map s)(page_index \<mapsto> page[slot := w])\<rparr>, r))"

definition paged_try_get :: "'v paged_link_store \<Rightarrow> 64 word \<Rightarrow> 'v option" where
  "paged_try_get s key =
     (let page_index = page_of key;
          page = (if page_index < MAX_PAGE_COUNT
                  then if unat page_index < length (page_list s) then page_list s ! unat page_index else None
                  else page_map s page_index) in
      map_option (\<lambda>p. p ! slot_of key) page)"

definition paged_has :: "'v paged_link_store \<Rightarrow> 64 word \<Rightarrow> bool" where
  "paged_has s key \<longleftrightarrow> paged_try_get s key \<noteq> None"

text \<open>The page at an index, wherever it is kept, and the invariant: a page is an array of 256.\<close>

definition page_at :: "'v paged_link_store \<Rightarrow> 64 word \<Rightarrow> 'v page option" where
  "page_at s i =
     (if i < MAX_PAGE_COUNT
      then if unat i < length (page_list s) then page_list s ! unat i else None
      else page_map s i)"

definition paged_wf :: "'v paged_link_store \<Rightarrow> bool" where
  "paged_wf s \<longleftrightarrow> (\<forall>i p. page_at s i = Some p \<longrightarrow> length p = PAGE_SIZE)"

section \<open>The contract\<close>

text \<open>
  What a client of a store may rely on: reading and writing behind the reference is reading and
  writing a total function that is the default everywhere at first.
\<close>

definition value_or :: "'v \<Rightarrow> 'v option \<Rightarrow> 'v" where
  "value_or d v = (case v of None \<Rightarrow> d | Some w \<Rightarrow> w)"

fun run_gets :: "('s \<Rightarrow> 'k \<Rightarrow> ('v \<Rightarrow> 'r \<times> 'v) \<Rightarrow> 's \<times> 'r) \<Rightarrow> 's \<Rightarrow> ('k \<times> ('v \<Rightarrow> 'r \<times> 'v)) list \<Rightarrow> 's \<times> 'r list" where
  "run_gets get s [] = (s, [])"
| "run_gets get s ((k, f) # ops) =
     (case get s k f of (s', r) \<Rightarrow> (case run_gets get s' ops of (t, rs) \<Rightarrow> (t, r # rs)))"

fun run_function :: "('k \<Rightarrow> 'v) \<Rightarrow> ('k \<times> ('v \<Rightarrow> 'r \<times> 'v)) list \<Rightarrow> 'r list" where
  "run_function m [] = []"
| "run_function m ((k, f) # ops) = (case f (m k) of (r, w) \<Rightarrow> r # run_function (m(k := w)) ops)"

locale store =
  fixes wf :: "'s \<Rightarrow> bool"
    and empty :: 's
    and dflt :: 'v
    and get :: "'s \<Rightarrow> 'k \<Rightarrow> ('v \<Rightarrow> 'r \<times> 'v) \<Rightarrow> 's \<times> 'r"
    and try_get :: "'s \<Rightarrow> 'k \<Rightarrow> 'v option"
    and near :: "'k \<Rightarrow> 'k \<Rightarrow> bool"
  assumes wf_empty: "wf empty"
    and try_get_empty: "try_get empty k = None"
    and wf_get: "wf s \<Longrightarrow> wf (fst (get s k f))"
    and get_result: "wf s \<Longrightarrow> snd (get s k f) = fst (f (value_or dflt (try_get s k)))"
    and get_value: "wf s \<Longrightarrow> value_or dflt (try_get (fst (get s k f)) j) =
      (if j = k then snd (f (value_or dflt (try_get s k))) else value_or dflt (try_get s j))"
    and get_present: "wf s \<Longrightarrow> try_get (fst (get s k f)) j = None \<longleftrightarrow> try_get s j = None \<and> \<not> near k j"
begin

lemma run_gets_function:
  "wf s \<Longrightarrow> snd (run_gets get s ops) = run_function (\<lambda>k. value_or dflt (try_get s k)) ops"
proof (induction ops arbitrary: s)
  case (Cons op ops)
  obtain k f where op: "op = (k, f)" by force
  obtain s' r where g: "get s k f = (s', r)" by force
  have "(\<lambda>j. value_or dflt (try_get s' j)) =
      (\<lambda>k. value_or dflt (try_get s k))(k := snd (f (value_or dflt (try_get s k))))"
    using get_value [OF Cons.prems, of k f] g by auto
  moreover have "r = fst (f (value_or dflt (try_get s k)))"
    using get_result [OF Cons.prems, of k f] g by simp
  moreover have "wf s'" using wf_get [OF Cons.prems, of k f] g by simp
  ultimately show ?case using Cons.IH [of s'] g op by (simp add: case_prod_beta)
qed simp

lemma run_gets_empty: "snd (run_gets get empty ops) = run_function (\<lambda>_. dflt) ops"
  using run_gets_function [OF wf_empty, of ops] by (simp add: try_get_empty value_or_def)

text \<open>A key is present after a run when it was, or when a key near it was used.\<close>

lemma run_gets_present:
  "wf s \<Longrightarrow> try_get (fst (run_gets get s ops)) j = None \<longleftrightarrow>
    try_get s j = None \<and> (\<forall>k\<in>fst ` set ops. \<not> near k j)"
proof (induction ops arbitrary: s)
  case (Cons op ops)
  obtain k f where op: "op = (k, f)" by force
  obtain s' r where g: "get s k f = (s', r)" by force
  have "wf s'" using wf_get [OF Cons.prems, of k f] g by simp
  moreover have "try_get s' j = None \<longleftrightarrow> try_get s j = None \<and> \<not> near k j"
    using get_present [OF Cons.prems, of k f j] g by simp
  ultimately show ?case using Cons.IH [of s'] g op by (auto simp: case_prod_beta)
qed simp

end

section \<open>Both stores provide it\<close>

interpretation ls: store "\<lambda>_. True" ls_default d "ls_get d" ls_try_get "(=)" for d
  by unfold_locales
     (auto simp: ls_default_def ls_try_get_def ls_get_def value_or_def Let_def
       split: prod.splits option.splits)

lemma PAGE_MASK_and: "key AND PAGE_MASK = take_bit 8 key"
  by (simp add: PAGE_MASK_def PAGE_SHIFT_def take_bit_eq_mask mask_eq_exp_minus_1)

lemma slot_less: "slot_of key < PAGE_SIZE"
proof -
  have "unat (take_bit 8 key) < 2 ^ 8"
    unfolding unsigned_take_bit_eq by (rule take_bit_nat_less_exp)
  then show ?thesis by (simp add: slot_of_def PAGE_MASK_and PAGE_SIZE_def PAGE_SHIFT_def)
qed

lemma page_slot_inj: "page_of a = page_of b \<Longrightarrow> slot_of a = slot_of b \<Longrightarrow> a = b"
  unfolding page_of_def slot_of_def PAGE_MASK_and PAGE_SHIFT_def
  by (metis bits_ident word_unat_eq_iff)

lemma paged_try_get_page: "paged_try_get s key = map_option (\<lambda>p. p ! slot_of key) (page_at s (page_of key))"
  by (simp add: paged_try_get_def page_at_def Let_def)

definition page_or_new :: "'v \<Rightarrow> 'v page option \<Rightarrow> 'v page" where
  "page_or_new d p = (case p of None \<Rightarrow> new_page d | Some q \<Rightarrow> q)"

text \<open>Both branches of \<open>get\<close> update one page and leave every other one alone.\<close>

lemma paged_get_page:
  "page_at (fst (paged_get d s key f)) i =
     (if i = page_of key
      then Some ((page_or_new d (page_at s i))[slot_of key := snd (f (page_or_new d (page_at s i) ! slot_of key))])
      else page_at s i)"
proof (cases "page_of key < MAX_PAGE_COUNT")
  case True
  then show ?thesis
    by (auto simp: paged_get_def page_at_def page_or_new_def Let_def nth_append nth_list_update
        word_unat_eq_iff [symmetric]
        split: prod.splits option.splits)
next
  case False
  then show ?thesis
    by (auto simp: paged_get_def page_at_def page_or_new_def Let_def split: prod.splits option.splits)
qed

lemma paged_get_result:
  "snd (paged_get d s key f) = fst (f (page_or_new d (page_at s (page_of key)) ! slot_of key))"
  by (auto simp: paged_get_def page_at_def page_or_new_def Let_def nth_append split: prod.splits option.splits)

lemma page_or_new_value:
  "value_or d (paged_try_get s key) = page_or_new d (page_at s (page_of key)) ! slot_of key"
  by (simp add: paged_try_get_page value_or_def page_or_new_def new_page_def slot_less split: option.split)

lemma length_page_or_new: "paged_wf s \<Longrightarrow> length (page_or_new d (page_at s i)) = PAGE_SIZE"
  by (auto simp: page_or_new_def new_page_def paged_wf_def split: option.split)

interpretation paged: store paged_wf paged_default d "paged_get d" paged_try_get
  "\<lambda>k j. page_of k = page_of j" for d
proof
  show "paged_wf paged_default" by (simp add: paged_wf_def page_at_def paged_default_def)
  show "paged_try_get paged_default k = None" for k
    by (simp add: paged_try_get_page page_at_def paged_default_def)
  fix s :: "'a paged_link_store" and k j :: "64 word" and f :: "'a \<Rightarrow> 'b \<times> 'a"
  assume wf: "paged_wf s"
  show "paged_wf (fst (paged_get d s k f))"
    using wf length_page_or_new [OF wf] by (auto simp: paged_wf_def paged_get_page)
  show "snd (paged_get d s k f) = fst (f (value_or d (paged_try_get s k)))"
    by (simp add: paged_get_result page_or_new_value)
  show "value_or d (paged_try_get (fst (paged_get d s k f)) j) =
      (if j = k then snd (f (value_or d (paged_try_get s k))) else value_or d (paged_try_get s j))"
    using page_slot_inj [of j k] length_page_or_new [OF wf] slot_less [of k] slot_less [of j]
    by (auto simp: page_or_new_value paged_get_page page_or_new_def [of _ "Some _"] nth_list_update)
  show "paged_try_get (fst (paged_get d s k f)) j = None \<longleftrightarrow>
      paged_try_get s j = None \<and> page_of k \<noteq> page_of j"
    by (auto simp: paged_try_get_page paged_get_page)
qed

section \<open>Stacks\<close>

record 'a stack =
  stack_data :: "'a list"

definition stack_push :: "'a stack \<Rightarrow> 'a \<Rightarrow> 'a stack" where
  "stack_push s item = s\<lparr>stack_data := stack_data s @ [item]\<rparr>"

definition peek_index :: "'a stack \<Rightarrow> nat panicking" where
  "peek_index s = (let l = length (stack_data s) in if l \<noteq> 0 then Some (l - 1) else None)"

definition stack_peek :: "'a stack \<Rightarrow> 'a panicking" where
  "stack_peek s = map_option (\<lambda>i. stack_data s ! i) (peek_index s)"

definition pop_index :: "'a stack \<Rightarrow> nat panicking" where
  "pop_index s = (let l = length (stack_data s) in if l \<noteq> 0 then Some (l - 1) else None)"

definition stack_pop :: "'a stack \<Rightarrow> ('a stack \<times> 'a) panicking" where
  "stack_pop s =
     map_option (\<lambda>i. (s\<lparr>stack_data := take i (stack_data s) @ drop (i + 1) (stack_data s)\<rparr>, stack_data s ! i))
       (pop_index s)"

definition stack_len :: "'a stack \<Rightarrow> nat" where
  "stack_len s = length (stack_data s)"

definition stack_is_empty :: "'a stack \<Rightarrow> bool" where
  "stack_is_empty s \<longleftrightarrow> stack_data s = []"

lemma stack_pop_push: "stack_pop (stack_push s x) = Some (s, x)"
  by (simp add: stack_pop_def stack_push_def pop_index_def)

lemma stack_peek_push: "stack_peek (stack_push s x) = Some x"
  by (simp add: stack_peek_def stack_push_def peek_index_def)

lemma stack_pop_None: "stack_pop s = None \<longleftrightarrow> stack_is_empty s"
  by (simp add: stack_pop_def pop_index_def stack_is_empty_def Let_def)

section \<open>Properties\<close>

text \<open>
  C39. Whatever sequence of accesses a program makes, the paged store and the hash-map store hand out
  the same values: every result is the one of a function that maps every key to the default at
  first. No two keys share a slot, on either side of the boundary of 65536 pages. The stores differ
  in \<open>has\<close> only: the hash map has the keys that were used, the paged store every key of a page that
  was used.
\<close>

theorem paged_store_equivalent:
  "snd (run_gets (paged_get d) paged_default ops) = snd (run_gets (ls_get d) ls_default ops) \<and>
   snd (run_gets (paged_get d) paged_default ops) = run_function (\<lambda>_. d) ops \<and>
   (ls_has (fst (run_gets (ls_get d) ls_default ops)) key \<longleftrightarrow> key \<in> fst ` set ops) \<and>
   (paged_has (fst (run_gets (paged_get d) paged_default ops)) key \<longleftrightarrow> page_of key \<in> page_of ` fst ` set ops)"
proof (intro conjI)
  show f: "snd (run_gets (paged_get d) paged_default ops) = run_function (\<lambda>_. d) ops"
    by (rule paged.run_gets_empty)
  show "snd (run_gets (paged_get d) paged_default ops) = snd (run_gets (ls_get d) ls_default ops)"
    unfolding f by (rule ls.run_gets_empty [symmetric])
  show "ls_has (fst (run_gets (ls_get d) ls_default ops)) key \<longleftrightarrow> key \<in> fst ` set ops"
    using ls.run_gets_present [where s = ls_default and ops = ops and d = d and j = key]
    by (auto simp: ls_has_def ls_try_get_def ls_default_def)
  show "paged_has (fst (run_gets (paged_get d) paged_default ops)) key \<longleftrightarrow> page_of key \<in> page_of ` fst ` set ops"
  proof -
    have "paged_try_get (fst (run_gets (paged_get d) paged_default ops)) key = None \<longleftrightarrow>
        (\<forall>k\<in>fst ` set ops. page_of k \<noteq> page_of key)"
      using paged.run_gets_present [OF paged.wf_empty, where ops = ops and d = d and j = key]
      by (simp only: paged.try_get_empty simp_thms)
    then show ?thesis unfolding paged_has_def by (metis (no_types, lifting) imageE imageI)
  qed
qed

end
