(* ===== verification/Go_Sort.thy ===== *)
theory Go_Sort
  imports Interfaces "HOL-Library.Multiset"
begin

text \<open>
  The pattern-defeating quicksort of \<open>crates/tsr_core/src/go_sort.rs\<close>, kept in the comparison and
  swap order of Go's \<open>slices.SortFunc\<close>. A slice is a list; reading or swapping outside it, and a
  subtraction below zero of a \<open>usize\<close>, are panics (\<^term>\<open>None\<close>), so that returning \<^term>\<open>Some\<close> is
  part of what is proved. \<open>compare(x, y).is_lt()\<close> is \<^term>\<open>cmp x y < (0::int)\<close>. The source repeats
  the scans of its two partitions; here they are \<open>scan_up\<close>, \<open>scan_down\<close> and \<open>hoare_loop\<close>, with the
  test on an element and the pivot as argument.
\<close>

section \<open>The model\<close>

definition at :: "'a list \<Rightarrow> nat \<Rightarrow> 'a panicking" where
  "at xs i = (if i < length xs then Some (xs ! i) else None)"

definition swap_at :: "'a list \<Rightarrow> nat \<Rightarrow> nat \<Rightarrow> 'a list panicking" where
  "swap_at xs i j =
     (if i < length xs \<and> j < length xs then Some (xs[i := xs ! j, j := xs ! i]) else None)"

definition less_at :: "('a \<Rightarrow> 'a \<Rightarrow> int) \<Rightarrow> 'a list \<Rightarrow> nat \<Rightarrow> nat \<Rightarrow> bool panicking" where
  "less_at cmp xs i j = do { x \<leftarrow> at xs i; y \<leftarrow> at xs j; Some (cmp x y < 0) }"

fun for_each :: "('i \<Rightarrow> 's \<Rightarrow> 's panicking) \<Rightarrow> 'i list \<Rightarrow> 's \<Rightarrow> 's panicking" where
  "for_each body [] s = Some s"
| "for_each body (i # is) s = Option.bind (body i s) (for_each body is)"

subsection \<open>Insertion sort and heap sort\<close>

fun insert_down :: "('a \<Rightarrow> 'a \<Rightarrow> int) \<Rightarrow> 'a list \<Rightarrow> nat \<Rightarrow> nat \<Rightarrow> 'a list panicking" where
  "insert_down cmp xs a j =
     (if j > a then do {
        l \<leftarrow> less_at cmp xs j (j - 1);
        if l then do { xs \<leftarrow> swap_at xs j (j - 1); insert_down cmp xs a (j - 1) }
        else Some xs
      } else Some xs)"

definition insertion_sort :: "('a \<Rightarrow> 'a \<Rightarrow> int) \<Rightarrow> 'a list \<Rightarrow> nat \<Rightarrow> nat \<Rightarrow> 'a list panicking" where
  "insertion_sort cmp xs a b = for_each (\<lambda>i xs. insert_down cmp xs a i) [a + 1..<b] xs"

function sift_down :: "('a \<Rightarrow> 'a \<Rightarrow> int) \<Rightarrow> 'a list \<Rightarrow> nat \<Rightarrow> nat \<Rightarrow> nat \<Rightarrow> 'a list panicking" where
  "sift_down cmp xs root hi first =
     (let child = 2 * root + 1 in
      if child \<ge> hi then Some xs
      else do {
        right \<leftarrow> (if child + 1 < hi then less_at cmp xs (first + child) (first + child + 1) else Some False);
        let child = (if right then child + 1 else child);
        l \<leftarrow> less_at cmp xs (first + root) (first + child);
        if \<not> l then Some xs
        else do {
          xs \<leftarrow> swap_at xs (first + root) (first + child);
          sift_down cmp xs child hi first
        }
      })"
  by pat_completeness auto
termination
  by (relation "measure (\<lambda>(cmp, xs, root, hi, first). hi - root)") (auto split: if_splits)

definition heap_sort :: "('a \<Rightarrow> 'a \<Rightarrow> int) \<Rightarrow> 'a list \<Rightarrow> nat \<Rightarrow> nat \<Rightarrow> 'a list panicking" where
  "heap_sort cmp xs a b =
     (let n = b - a in do {
        xs \<leftarrow> for_each (\<lambda>i xs. sift_down cmp xs i n a) (rev [0..<(n - 1) div 2 + 1]) xs;
        for_each (\<lambda>i xs. do { xs \<leftarrow> swap_at xs a (a + i); sift_down cmp xs 0 i a }) (rev [0..<n]) xs
      })"

subsection \<open>Partitions\<close>

text \<open>\<open>while i <= j && test(data[i], data[a]) { i += 1 }\<close> and its mirror image, where \<open>j -= 1\<close> may underflow.\<close>

function scan_up :: "('a \<Rightarrow> 'a \<Rightarrow> bool) \<Rightarrow> 'a list \<Rightarrow> nat \<Rightarrow> nat \<Rightarrow> nat \<Rightarrow> nat panicking" where
  "scan_up t xs a i j =
     (if i \<le> j then do {
        x \<leftarrow> at xs i; p \<leftarrow> at xs a;
        if t x p then scan_up t xs a (i + 1) j else Some i
      } else Some i)"
  by pat_completeness auto
termination
  by (relation "measure (\<lambda>(t, xs, a, i, j). Suc j - i)") auto

function scan_down :: "('a \<Rightarrow> 'a \<Rightarrow> bool) \<Rightarrow> 'a list \<Rightarrow> nat \<Rightarrow> nat \<Rightarrow> nat \<Rightarrow> nat panicking" where
  "scan_down t xs a i j =
     (if i \<le> j then do {
        x \<leftarrow> at xs j; p \<leftarrow> at xs a;
        if t x p then if j = 0 then None else scan_down t xs a i (j - 1) else Some j
      } else Some j)"
  by pat_completeness auto
termination
  by (relation "measure (\<lambda>(t, xs, a, i, j). j)") auto

declare insert_down.simps [simp del] sift_down.simps [simp del] scan_up.simps [simp del] scan_down.simps [simp del]

lemma scan_up_le: "scan_up t xs a i j = Some i' \<Longrightarrow> i \<le> i'"
proof (induction t xs a i j rule: scan_up.induct)
  case (1 t xs a i j)
  from "1.prems" show ?case
    by (subst (asm) scan_up.simps) (auto simp: bind_Some_iff split: if_splits dest: "1.IH")
qed

lemma scan_down_le: "scan_down t xs a i j = Some j' \<Longrightarrow> j' \<le> j"
proof (induction t xs a i j rule: scan_down.induct)
  case (1 t xs a i j)
  from "1.prems" show ?case
    by (subst (asm) scan_down.simps) (auto simp: bind_Some_iff split: if_splits dest: "1.IH")
qed

function hoare_loop ::
  "('a \<Rightarrow> 'a \<Rightarrow> bool) \<Rightarrow> 'a list \<Rightarrow> nat \<Rightarrow> nat \<Rightarrow> nat \<Rightarrow> ('a list \<times> nat \<times> nat) panicking" where
  "hoare_loop t xs a i j =
     do {
       i' \<leftarrow> scan_up t xs a i j;
       j' \<leftarrow> scan_down (\<lambda>x p. \<not> t x p) xs a i' j;
       if i' > j' then Some (xs, i', j')
       else do {
         xs \<leftarrow> swap_at xs i' j';
         if j' = 0 then None else hoare_loop t xs a (i' + 1) (j' - 1)
       }
     }"
  by pat_completeness auto
termination
  by (relation "measure (\<lambda>(t, xs, a, i, j). Suc j - i)") (auto dest!: scan_up_le scan_down_le)

declare hoare_loop.simps [simp del]

definition partition ::
  "('a \<Rightarrow> 'a \<Rightarrow> int) \<Rightarrow> 'a list \<Rightarrow> nat \<Rightarrow> nat \<Rightarrow> nat \<Rightarrow> ('a list \<times> nat \<times> bool) panicking" where
  "partition cmp xs a b pivot =
     do {
       xs \<leftarrow> swap_at xs a pivot;
       i \<leftarrow> scan_up (\<lambda>x p. cmp x p < 0) xs a (a + 1) (b - 1);
       j \<leftarrow> scan_down (\<lambda>x p. \<not> cmp x p < 0) xs a i (b - 1);
       if i > j then do { xs \<leftarrow> swap_at xs j a; Some (xs, j, True) }
       else do {
         xs \<leftarrow> swap_at xs i j;
         if j = 0 then None else do {
           (xs, i, j) \<leftarrow> hoare_loop (\<lambda>x p. cmp x p < 0) xs a (i + 1) (j - 1);
           xs \<leftarrow> swap_at xs j a;
           Some (xs, j, False)
         }
       }
     }"

definition partition_equal ::
  "('a \<Rightarrow> 'a \<Rightarrow> int) \<Rightarrow> 'a list \<Rightarrow> nat \<Rightarrow> nat \<Rightarrow> nat \<Rightarrow> ('a list \<times> nat) panicking" where
  "partition_equal cmp xs a b pivot =
     do {
       xs \<leftarrow> swap_at xs a pivot;
       (xs, i, j) \<leftarrow> hoare_loop (\<lambda>x p. \<not> cmp p x < 0) xs a (a + 1) (b - 1);
       Some (xs, i)
     }"

subsection \<open>Partial insertion sort\<close>

function scan_sorted :: "('a \<Rightarrow> 'a \<Rightarrow> int) \<Rightarrow> 'a list \<Rightarrow> nat \<Rightarrow> nat \<Rightarrow> nat panicking" where
  "scan_sorted cmp xs i b =
     (if i < b then do {
        l \<leftarrow> less_at cmp xs i (i - 1);
        if \<not> l then scan_sorted cmp xs (i + 1) b else Some i
      } else Some i)"
  by pat_completeness auto
termination
  by (relation "measure (\<lambda>(cmp, xs, i, b). b - i)") auto

text \<open>\<open>for j in (1..i).rev()\<close>, from \<open>j = i - 1\<close>: the loop stops at index 1 and not at \<open>a + 1\<close>.\<close>

fun shift_down :: "('a \<Rightarrow> 'a \<Rightarrow> int) \<Rightarrow> 'a list \<Rightarrow> nat \<Rightarrow> 'a list panicking" where
  "shift_down cmp xs 0 = Some xs"
| "shift_down cmp xs (Suc j) =
     do {
       l \<leftarrow> less_at cmp xs (Suc j) j;
       if \<not> l then Some xs else do { xs \<leftarrow> swap_at xs (Suc j) j; shift_down cmp xs j }
     }"

function shift_up :: "('a \<Rightarrow> 'a \<Rightarrow> int) \<Rightarrow> 'a list \<Rightarrow> nat \<Rightarrow> nat \<Rightarrow> 'a list panicking" where
  "shift_up cmp xs j b =
     (if j < b then do {
        l \<leftarrow> less_at cmp xs j (j - 1);
        if \<not> l then Some xs else do { xs \<leftarrow> swap_at xs j (j - 1); shift_up cmp xs (j + 1) b }
      } else Some xs)"
  by pat_completeness auto
termination
  by (relation "measure (\<lambda>(cmp, xs, j, b). b - j)") auto

declare scan_sorted.simps [simp del] shift_up.simps [simp del]

fun partial_rounds ::
  "('a \<Rightarrow> 'a \<Rightarrow> int) \<Rightarrow> nat \<Rightarrow> 'a list \<Rightarrow> nat \<Rightarrow> nat \<Rightarrow> nat \<Rightarrow> ('a list \<times> bool) panicking" where
  "partial_rounds cmp 0 xs a b i = Some (xs, False)"
| "partial_rounds cmp (Suc n) xs a b i =
     do {
       i \<leftarrow> scan_sorted cmp xs i b;
       if i = b then Some (xs, True)
       else if b - a < 50 then Some (xs, False)
       else do {
         xs \<leftarrow> swap_at xs i (i - 1);
         xs \<leftarrow> (if i - a \<ge> 2 then shift_down cmp xs (i - 1) else Some xs);
         xs \<leftarrow> (if b - i \<ge> 2 then shift_up cmp xs (i + 1) b else Some xs);
         partial_rounds cmp n xs a b i
       }
     }"

definition partial_insertion_sort ::
  "('a \<Rightarrow> 'a \<Rightarrow> int) \<Rightarrow> 'a list \<Rightarrow> nat \<Rightarrow> nat \<Rightarrow> ('a list \<times> bool) panicking" where
  "partial_insertion_sort cmp xs a b = partial_rounds cmp 5 xs a b (a + 1)"

subsection \<open>Choosing the pivot\<close>

text \<open>\<open>usize::BITS - n.leading_zeros()\<close>\<close>

fun bit_length :: "nat \<Rightarrow> nat" where
  "bit_length n = (if n = 0 then 0 else Suc (bit_length (n div 2)))"

declare bit_length.simps [simp del]

definition xorshift :: "64 word \<Rightarrow> 64 word" where
  "xorshift r =
     (let r = r XOR push_bit 13 r;
          r = r XOR drop_bit 7 r
      in r XOR push_bit 17 r)"

definition break_patterns :: "'a list \<Rightarrow> nat \<Rightarrow> nat \<Rightarrow> 'a list panicking" where
  "break_patterns xs a b =
     (let n = b - a in
      if n \<ge> 8 then
        let modulus = (if bit_length n < 64 then push_bit (bit_length n) 1 else 0 :: 64 word) in
        map_option snd (for_each (\<lambda>index (random, xs).
            let random = xorshift random;
                other = unat (random AND (modulus - 1));
                other = (if other \<ge> n then other - n else other) in
            map_option (Pair random) (swap_at xs index (a + other)))
          [a + n div 4 * 2 - 1..<a + n div 4 * 2 + 2] (of_nat n, xs))
      else Some xs)"

datatype hint = Unknown | Increasing | Decreasing

definition order2 ::
  "('a \<Rightarrow> 'a \<Rightarrow> int) \<Rightarrow> 'a list \<Rightarrow> nat \<Rightarrow> nat \<Rightarrow> nat \<Rightarrow> (nat \<times> nat \<times> nat) panicking" where
  "order2 cmp xs a b swaps =
     do {
       l \<leftarrow> less_at cmp xs b a;
       if l then Some (b, a, swaps + 1) else Some (a, b, swaps)
     }"

definition median ::
  "('a \<Rightarrow> 'a \<Rightarrow> int) \<Rightarrow> 'a list \<Rightarrow> nat \<Rightarrow> nat \<Rightarrow> nat \<Rightarrow> nat \<Rightarrow> (nat \<times> nat) panicking" where
  "median cmp xs a b c swaps =
     do {
       (a, b, swaps) \<leftarrow> order2 cmp xs a b swaps;
       (b, _, swaps) \<leftarrow> order2 cmp xs b c swaps;
       (_, b, swaps) \<leftarrow> order2 cmp xs a b swaps;
       Some (b, swaps)
     }"

definition choose_pivot :: "('a \<Rightarrow> 'a \<Rightarrow> int) \<Rightarrow> 'a list \<Rightarrow> nat \<Rightarrow> nat \<Rightarrow> (nat \<times> hint) panicking" where
  "choose_pivot cmp xs a b =
     (let n = b - a;
          i = a + n div 4; j = a + n div 4 * 2; k = a + n div 4 * 3 in
      do {
        (j, swaps) \<leftarrow> (if n \<ge> 8 then do {
            (i, j, k, swaps) \<leftarrow> (if n \<ge> 50 then do {
                (i, swaps) \<leftarrow> median cmp xs (i - 1) i (i + 1) 0;
                (j, swaps) \<leftarrow> median cmp xs (j - 1) j (j + 1) swaps;
                (k, swaps) \<leftarrow> median cmp xs (k - 1) k (k + 1) swaps;
                Some (i, j, k, swaps)
              } else Some (i, j, k, 0));
            median cmp xs i j k swaps
          } else Some (j, 0));
        Some (j, if swaps = 0 then Increasing else if swaps = 12 then Decreasing else Unknown)
      })"

text \<open>\<open>data[a..b].reverse()\<close>\<close>

definition reverse_range :: "'a list \<Rightarrow> nat \<Rightarrow> nat \<Rightarrow> 'a list panicking" where
  "reverse_range xs a b =
     (if a \<le> b \<and> b \<le> length xs then Some (take a xs @ rev (take (b - a) (drop a xs)) @ drop b xs) else None)"

subsection \<open>The sort\<close>

text \<open>What the recursion needs of the partitions: where they may end.\<close>

lemma scan_down_ge: "scan_down t xs a i j = Some j' \<Longrightarrow> a < i \<Longrightarrow> a \<le> j \<Longrightarrow> a \<le> j'"
proof (induction t xs a i j rule: scan_down.induct)
  case (1 t xs a i j)
  from "1.prems" show ?case
    by (subst (asm) scan_down.simps)
       (auto simp: bind_Some_iff split: if_splits intro: "1.IH" [simplified])
qed

lemma scan_down_range:
  "scan_down t xs a i j = Some j' \<Longrightarrow> j' \<le> j \<and> (a < i \<longrightarrow> a \<le> j \<longrightarrow> a \<le> j')"
  using scan_down_le scan_down_ge by metis

lemma hoare_loop_range:
  "hoare_loop t xs a i j = Some (ys, i', j') \<Longrightarrow> i \<le> i' \<and> j' \<le> j \<and> (a < i \<longrightarrow> a \<le> j \<longrightarrow> a \<le> j')"
proof (induction t xs a i j rule: hoare_loop.induct)
  case (1 t xs a i j)
  from "1.prems" obtain i1 j1 where
    s: "scan_up t xs a i j = Some i1" "scan_down (\<lambda>x p. \<not> t x p) xs a i1 j = Some j1"
    and r: "(if i1 > j1 then Some (xs, i1, j1) else do { xs \<leftarrow> swap_at xs i1 j1;
        if j1 = 0 then None else hoare_loop t xs a (i1 + 1) (j1 - 1) }) = Some (ys, i', j')"
    by (subst (asm) hoare_loop.simps) (auto simp: bind_Some_iff)
  note le = scan_up_le [OF s(1)] scan_down_le [OF s(2)] scan_down_ge [OF s(2)]
  show ?case
  proof (cases "i1 > j1")
    case False
    with r obtain zs where zs: "swap_at xs i1 j1 = Some zs" "j1 \<noteq> 0"
      "hoare_loop t zs a (i1 + 1) (j1 - 1) = Some (ys, i', j')" by (auto simp: bind_Some_iff split: if_splits)
    from "1.IH" [OF s False zs] show ?thesis using le False by auto
  qed (use r le in auto)
qed

lemma partition_range: "partition cmp xs a b pivot = Some (ys, mid, fl) \<Longrightarrow> a < b \<Longrightarrow> a \<le> mid \<and> mid < b"
  by (auto simp: partition_def bind_Some_iff split: if_splits
      dest!: scan_up_le scan_down_range hoare_loop_range)

lemma partition_equal_range: "partition_equal cmp xs a b pivot = Some (ys, i) \<Longrightarrow> a < i"
  by (auto simp: partition_equal_def bind_Some_iff dest!: hoare_loop_range)

function pdqsort ::
  "('a \<Rightarrow> 'a \<Rightarrow> int) \<Rightarrow> 'a list \<Rightarrow> nat \<Rightarrow> nat \<Rightarrow> nat \<Rightarrow> bool \<Rightarrow> bool \<Rightarrow> 'a list panicking" where
  "pdqsort cmp xs a b limit was_balanced was_partitioned =
     (if b < a then None
      else if b - a \<le> 12 then insertion_sort cmp xs a b
      else if limit = 0 then heap_sort cmp xs a b
      else do {
        (xs, limit) \<leftarrow> (if \<not> was_balanced then do { xs \<leftarrow> break_patterns xs a b; Some (xs, limit - 1) }
                        else Some (xs, limit));
        (pivot, hint) \<leftarrow> choose_pivot cmp xs a b;
        (xs, pivot, hint) \<leftarrow> (if hint = Decreasing then do {
                                 xs \<leftarrow> reverse_range xs a b;
                                 Some (xs, b - 1 - (pivot - a), Increasing)
                               } else Some (xs, pivot, hint));
        (xs, sorted_now) \<leftarrow> (if was_balanced \<and> was_partitioned \<and> hint = Increasing
                             then partial_insertion_sort cmp xs a b else Some (xs, False));
        if sorted_now then Some xs
        else do {
          equal \<leftarrow> (if a > 0 then map_option Not (less_at cmp xs (a - 1) pivot) else Some False);
          if equal then do {
            (xs, a') \<leftarrow> partition_equal cmp xs a b pivot;
            pdqsort cmp xs a' b limit was_balanced was_partitioned
          } else do {
            (xs, mid, already_partitioned) \<leftarrow> partition cmp xs a b pivot;
            if mid - a < b - mid then do {
              xs \<leftarrow> pdqsort cmp xs a mid limit True True;
              pdqsort cmp xs (mid + 1) b limit (mid - a \<ge> (b - a) div 8) already_partitioned
            } else do {
              xs \<leftarrow> pdqsort cmp xs (mid + 1) b limit True True;
              pdqsort cmp xs a mid limit (b - mid \<ge> (b - a) div 8) already_partitioned
            }
          }
        }
      })"
  by pat_completeness auto
termination
  by (relation "measure (\<lambda>(cmp, xs, a, b, limit, was_balanced, was_partitioned). b - a)")
     (auto dest!: partition_range partition_equal_range)

declare pdqsort.simps [simp del]

definition go_sort :: "('a \<Rightarrow> 'a \<Rightarrow> int) \<Rightarrow> 'a list \<Rightarrow> 'a list panicking" where
  "go_sort cmp xs = pdqsort cmp xs 0 (length xs) (bit_length (length xs)) True True"

end
