(* ===== verification/Go_Sort_Correct.thy ===== *)
theory Go_Sort_Correct
  imports Go_Sort
begin

text \<open>
  Correctness of the sort of \<open>Go_Sort\<close>: with any comparison function at all it returns, without a
  panic, a permutation of its input; with a comparison that meets the ordering contract the result
  is sorted. Every routine is shown to permute the range it is given and to leave the rest of the
  slice alone (\<open>perm_range\<close>); the sortedness lemmas are proved over that frame.
\<close>

section \<open>Permutations of a range\<close>

definition perm_range :: "nat \<Rightarrow> nat \<Rightarrow> 'a list \<Rightarrow> 'a list \<Rightarrow> bool" where
  "perm_range a b xs ys \<longleftrightarrow>
     length ys = length xs \<and> mset ys = mset xs \<and> (\<forall>k. k < a \<or> b \<le> k \<longrightarrow> ys ! k = xs ! k)"

lemma perm_range_refl [simp]: "perm_range a b xs xs"
  by (simp add: perm_range_def)

lemma perm_range_trans [trans]: "perm_range a b xs ys \<Longrightarrow> perm_range a b ys zs \<Longrightarrow> perm_range a b xs zs"
  by (simp add: perm_range_def)

lemma perm_range_mono: "perm_range a b xs ys \<Longrightarrow> a' \<le> a \<Longrightarrow> b \<le> b' \<Longrightarrow> perm_range a' b' xs ys"
  by (auto simp: perm_range_def)

lemma perm_range_length: "perm_range a b xs ys \<Longrightarrow> length ys = length xs"
  by (simp add: perm_range_def)

lemma perm_range_outside: "perm_range a b xs ys \<Longrightarrow> k < a \<or> b \<le> k \<Longrightarrow> ys ! k = xs ! k"
  by (auto simp: perm_range_def)

definition exch :: "'a list \<Rightarrow> nat \<Rightarrow> nat \<Rightarrow> 'a list" where
  "exch xs i j = xs[i := xs ! j, j := xs ! i]"

lemma length_exch [simp]: "length (exch xs i j) = length xs"
  by (simp add: exch_def)

lemma nth_exch:
  "i < length xs \<Longrightarrow> j < length xs \<Longrightarrow>
   exch xs i j ! k = (if k = j then xs ! i else if k = i then xs ! j else xs ! k)"
  by (simp add: exch_def nth_list_update)

lemma swap_at_exch [simp]: "i < length xs \<Longrightarrow> j < length xs \<Longrightarrow> swap_at xs i j = Some (exch xs i j)"
  by (simp add: swap_at_def exch_def)

lemma perm_range_exch:
  "a \<le> i \<Longrightarrow> i < b \<Longrightarrow> a \<le> j \<Longrightarrow> j < b \<Longrightarrow> b \<le> length xs \<Longrightarrow> perm_range a b xs (exch xs i j)"
  by (auto simp: perm_range_def nth_exch) (simp add: exch_def mset_swap)

lemma perm_range_exchI:
  "perm_range a b (exch xs i j) ys \<Longrightarrow> a \<le> i \<Longrightarrow> i < b \<Longrightarrow> a \<le> j \<Longrightarrow> j < b \<Longrightarrow> b \<le> length xs \<Longrightarrow>
   perm_range a b xs ys"
  by (rule perm_range_trans [OF perm_range_exch])

text \<open>The elements of the range are the same: what holds of all of them still does.\<close>

lemma perm_range_set:
  assumes "perm_range a b xs ys" "a \<le> b" "b \<le> length xs"
  shows "set (drop a (take b ys)) = set (drop a (take b xs))"
proof -
  have len: "length ys = length xs" and out: "\<forall>k. k < a \<or> b \<le> k \<longrightarrow> ys ! k = xs ! k"
    and ms: "mset ys = mset xs"
    using assms(1) by (auto simp: perm_range_def)
  have split3: "mset zs = mset (take a zs) + mset (drop a (take b zs)) + mset (drop b zs)" for zs :: "'a list"
  proof -
    have "zs = take a zs @ drop a (take b zs) @ drop b zs"
      using assms(2) by (metis append_assoc append_take_drop_id min.absorb_iff1 take_take)
    then have "mset zs = mset (take a zs @ drop a (take b zs) @ drop b zs)" by simp
    then show ?thesis by simp
  qed
  have "take a ys = take a xs" using len out by (intro nth_equalityI) auto
  moreover have "drop b ys = drop b xs" using len out by (intro nth_equalityI) auto
  ultimately have "mset (drop a (take b ys)) = mset (drop a (take b xs))"
    using ms split3 [of xs] split3 [of ys] by simp
  then show ?thesis by (metis set_mset_mset)
qed

lemma range_set: "b \<le> length xs \<Longrightarrow> set (drop a (take b xs)) = {xs ! k | k. a \<le> k \<and> k < b}"
proof -
  assume "b \<le> length xs"
  then have "set (drop a (take b xs)) = {(drop a (take b xs)) ! k | k. k < b - a}"
    by (auto simp: set_conv_nth)
  also have "\<dots> = {xs ! k | k. a \<le> k \<and> k < b}"
  proof (safe)
    fix k assume "k < b - a"
    then show "\<exists>ka. drop a (take b xs) ! k = xs ! ka \<and> a \<le> ka \<and> ka < b"
      using \<open>b \<le> length xs\<close> by (intro exI [of _ "a + k"]) auto
  next
    fix k assume "a \<le> k" "k < b"
    then show "\<exists>ka. xs ! k = drop a (take b xs) ! ka \<and> ka < b - a"
      using \<open>b \<le> length xs\<close> by (intro exI [of _ "k - a"]) auto
  qed
  finally show ?thesis .
qed

lemma perm_range_all:
  assumes "perm_range a b xs ys" "b \<le> length xs" "\<forall>k. a \<le> k \<longrightarrow> k < b \<longrightarrow> P (xs ! k)"
    "a \<le> j" "j < b"
  shows "P (ys ! j)"
proof -
  have "ys ! j \<in> set (drop a (take b ys))"
    using assms range_set [of b ys a] perm_range_length [OF assms(1)] by auto
  then have "ys ! j \<in> {xs ! k | k. a \<le> k \<and> k < b}"
    using perm_range_set [OF assms(1)] assms range_set [of b xs a] by auto
  then show ?thesis using assms(3) by auto
qed

section \<open>Reading and loops\<close>

lemma at_Some [simp]: "i < length xs \<Longrightarrow> at xs i = Some (xs ! i)"
  by (simp add: at_def)

lemma less_at_Some [simp]: "i < length xs \<Longrightarrow> j < length xs \<Longrightarrow> less_at cmp xs i j = Some (cmp (xs ! i) (xs ! j) < 0)"
  by (simp add: less_at_def)

text \<open>A loop invariant over the indices done so far.\<close>

lemma for_each_invariant:
  assumes "I [] s"
    and "\<And>pre i post s. is = pre @ i # post \<Longrightarrow> I pre s \<Longrightarrow> \<exists>t. body i s = Some t \<and> I (pre @ [i]) t"
  shows "\<exists>t. for_each body is s = Some t \<and> I is t"
proof -
  have "is = pre @ post \<Longrightarrow> I pre s \<Longrightarrow> \<exists>t. for_each body post s = Some t \<and> I is t" for pre post s
  proof (induction post arbitrary: pre s)
    case (Cons i post)
    obtain t where "body i s = Some t" "I (pre @ [i]) t" using assms(2) Cons.prems by blast
    then show ?case using Cons.IH [of "pre @ [i]" t] Cons.prems by simp
  qed simp
  from this [of "[]"] assms(1) show ?thesis by simp
qed

text \<open>The two shapes of index list: upwards and downwards.\<close>

lemma for_each_up:
  assumes "m \<le> n" "I m s" "\<And>i s. m \<le> i \<Longrightarrow> i < n \<Longrightarrow> I i s \<Longrightarrow> \<exists>t. body i s = Some t \<and> I (Suc i) t"
  shows "\<exists>t. for_each body [m..<n] s = Some t \<and> I n t"
  using assms
proof (induction "n - m" arbitrary: m s)
  case (Suc d)
  then have "[m..<n] = m # [Suc m..<n]" by (simp add: upt_conv_Cons)
  moreover obtain t where "body m s = Some t" "I (Suc m) t" using Suc by (metis diff_is_0_eq nat.distinct(1) not_le order_refl)
  ultimately show ?case using Suc.hyps(1) [of "Suc m" t] Suc.hyps(2) Suc.prems by simp
qed simp

lemma for_each_down:
  assumes "I n s" "\<And>i s. i < n \<Longrightarrow> I (Suc i) s \<Longrightarrow> \<exists>t. body i s = Some t \<and> I i t"
  shows "\<exists>t. for_each body (rev [0..<n]) s = Some t \<and> I 0 t"
  using assms
proof (induction n arbitrary: s)
  case (Suc n)
  obtain t where "body n s = Some t" "I n t" using Suc.prems by blast
  then show ?case using Suc.IH [of t] Suc.prems(2) by simp
qed simp

section \<open>Every routine permutes its range\<close>

lemma insert_down_Suc:
  "Suc j < length xs \<Longrightarrow> insert_down cmp xs a (Suc j) =
     (if a \<le> j \<and> cmp (xs ! Suc j) (xs ! j) < 0 then insert_down cmp (exch xs (Suc j) j) a j else Some xs)"
  by (subst insert_down.simps) auto

lemma insert_down_base [simp]: "j \<le> a \<Longrightarrow> insert_down cmp xs a j = Some xs"
  by (simp add: insert_down.simps)

lemma insert_down_perm:
  "a \<le> j \<Longrightarrow> j < length xs \<Longrightarrow> \<exists>ys. insert_down cmp xs a j = Some ys \<and> perm_range a (Suc j) xs ys"
proof (induction j arbitrary: xs)
  case (Suc j)
  show ?case
  proof (cases "a \<le> j \<and> cmp (xs ! Suc j) (xs ! j) < 0")
    case True
    then obtain ys where "insert_down cmp (exch xs (Suc j) j) a j = Some ys"
        "perm_range a (Suc j) (exch xs (Suc j) j) ys"
      using Suc.IH [of "exch xs (Suc j) j"] Suc.prems by auto
    moreover from this(2) have "perm_range a (Suc (Suc j)) (exch xs (Suc j) j) ys"
      by (rule perm_range_mono) auto
    ultimately show ?thesis
      using True Suc.prems by (auto simp: insert_down_Suc intro!: perm_range_exchI [of a _ xs "Suc j" j])
  qed (use Suc.prems in \<open>auto simp: insert_down_Suc\<close>)
qed simp

text \<open>The child that \<open>sift_down\<close> looks at.\<close>

definition max_child :: "('a \<Rightarrow> 'a \<Rightarrow> int) \<Rightarrow> 'a list \<Rightarrow> nat \<Rightarrow> nat \<Rightarrow> nat \<Rightarrow> nat" where
  "max_child cmp xs root hi first =
     (if 2 * root + 2 < hi \<and> cmp (xs ! (first + (2 * root + 1))) (xs ! (first + (2 * root + 2))) < 0
      then 2 * root + 2 else 2 * root + 1)"

lemma max_child_range: "2 * root + 1 < hi \<Longrightarrow> root < max_child cmp xs root hi first \<and> max_child cmp xs root hi first < hi"
  by (simp add: max_child_def)

lemma sift_down_step:
  assumes "2 * root + 1 < hi" "first + hi \<le> length xs" "c = max_child cmp xs root hi first"
  shows "sift_down cmp xs root hi first =
    (if cmp (xs ! (first + root)) (xs ! (first + c)) < 0
     then sift_down cmp (exch xs (first + root) (first + c)) c hi first else Some xs)"
proof -
  have "c < hi" using max_child_range [OF assms(1), of cmp xs first] assms(3) by simp
  then show ?thesis
    unfolding sift_down.simps [of cmp xs root] assms(3) max_child_def
    using assms(1,2) by (cases "2 * root + 2 < hi") (auto simp: Let_def)
qed

lemma sift_down_leaf: "hi \<le> 2 * root + 1 \<Longrightarrow> sift_down cmp xs root hi first = Some xs"
  by (simp add: sift_down.simps)

lemma sift_down_perm:
  "first + hi \<le> length xs \<Longrightarrow>
   \<exists>ys. sift_down cmp xs root hi first = Some ys \<and> perm_range first (first + hi) xs ys"
proof (induction "hi - root" arbitrary: xs root rule: less_induct)
  case less
  show ?case
  proof (cases "2 * root + 1 < hi")
    case True
    define c where "c = max_child cmp xs root hi first"
    have c: "root < c" "c < hi" using max_child_range [OF True, of cmp xs first] by (simp_all add: c_def)
    then have "hi - c < hi - root" by linarith
    then obtain ys where "sift_down cmp (exch xs (first + root) (first + c)) c hi first = Some ys"
        "perm_range first (first + hi) (exch xs (first + root) (first + c)) ys"
      using less.hyps [of c "exch xs (first + root) (first + c)"] less.prems by auto
    then show ?thesis
      using c less.prems
      by (auto simp: sift_down_step [OF True less.prems c_def] intro: perm_range_exchI)
  qed (simp add: sift_down_leaf)
qed

lemma scan_up_spec:
  "a < length xs \<Longrightarrow> j < length xs \<Longrightarrow> i \<le> Suc j \<Longrightarrow>
   \<exists>i'. scan_up t xs a i j = Some i' \<and> i \<le> i' \<and> i' \<le> Suc j \<and>
     (\<forall>k. i \<le> k \<longrightarrow> k < i' \<longrightarrow> t (xs ! k) (xs ! a)) \<and> (i' \<le> j \<longrightarrow> \<not> t (xs ! i') (xs ! a))"
proof (induction "Suc j - i" arbitrary: i)
  case 0
  then show ?case by (intro exI [of _ i]) (simp add: scan_up.simps)
next
  case (Suc d)
  then have ij: "i \<le> j" by simp
  show ?case
  proof (cases "t (xs ! i) (xs ! a)")
    case True
    have "d = Suc j - Suc i" "Suc i \<le> Suc j" using Suc.hyps(2) ij by simp_all
    from Suc.hyps(1) [OF this(1) Suc.prems(1,2) this(2)] obtain i' where
      i': "scan_up t xs a (Suc i) j = Some i'" "Suc i \<le> i'" "i' \<le> Suc j"
        "\<forall>k. Suc i \<le> k \<longrightarrow> k < i' \<longrightarrow> t (xs ! k) (xs ! a)" "i' \<le> j \<longrightarrow> \<not> t (xs ! i') (xs ! a)" by blast
    have "t (xs ! k) (xs ! a)" if "i \<le> k" "k < i'" for k
      using that True i'(4) by (cases "k = i") auto
    then show ?thesis
      using True ij i' Suc.prems by (intro exI [of _ i']) (auto simp: scan_up.simps [of t xs a i])
  next
    case False
    then show ?thesis
      using ij Suc.prems by (intro exI [of _ i]) (auto simp: scan_up.simps [of t xs a i])
  qed
qed

lemma scan_down_spec:
  "a < length xs \<Longrightarrow> j < length xs \<Longrightarrow> 0 < i \<Longrightarrow> i \<le> Suc j \<Longrightarrow>
   \<exists>j'. scan_down t xs a i j = Some j' \<and> i \<le> Suc j' \<and> j' \<le> j \<and>
     (\<forall>k. j' < k \<longrightarrow> k \<le> j \<longrightarrow> t (xs ! k) (xs ! a)) \<and> (i \<le> j' \<longrightarrow> \<not> t (xs ! j') (xs ! a))"
proof (induction j)
  case 0
  then show ?case by (intro exI [of _ 0]) (simp add: scan_down.simps)
next
  case (Suc j)
  show ?case
  proof (cases "i \<le> Suc j \<and> t (xs ! Suc j) (xs ! a)")
    case True
    then obtain j' where
      j': "scan_down t xs a i j = Some j'" "i \<le> Suc j'" "j' \<le> j"
        "\<forall>k. j' < k \<longrightarrow> k \<le> j \<longrightarrow> t (xs ! k) (xs ! a)" "i \<le> j' \<longrightarrow> \<not> t (xs ! j') (xs ! a)"
      using Suc.IH Suc.prems by auto
    have "t (xs ! k) (xs ! a)" if "j' < k" "k \<le> Suc j" for k
      using that True j'(4) by (cases "k = Suc j") auto
    then show ?thesis
      using True j' Suc.prems by (intro exI [of _ j']) (auto simp: scan_down.simps [of t xs a i "Suc j"])
  next
    case False
    then show ?thesis
      using Suc.prems by (intro exI [of _ "Suc j"]) (auto simp: scan_down.simps [of t xs a i "Suc j"])
  qed
qed

lemma hoare_loop_spec:
  assumes "a < i" "i \<le> Suc j" "j < length xs"
  shows "\<exists>ys j'. hoare_loop t xs a i j = Some (ys, Suc j', j') \<and> i \<le> Suc j' \<and> j' \<le> j \<and>
    perm_range i (Suc j) xs ys \<and>
    (\<forall>k. i \<le> k \<longrightarrow> k \<le> j' \<longrightarrow> t (ys ! k) (xs ! a)) \<and> (\<forall>k. j' < k \<longrightarrow> k \<le> j \<longrightarrow> \<not> t (ys ! k) (xs ! a))"
  using assms
proof (induction "Suc j - i" arbitrary: xs i j rule: less_induct)
  case less
  obtain i1 where i1: "scan_up t xs a i j = Some i1" "i \<le> i1" "i1 \<le> Suc j"
      "\<forall>k. i \<le> k \<longrightarrow> k < i1 \<longrightarrow> t (xs ! k) (xs ! a)" "i1 \<le> j \<longrightarrow> \<not> t (xs ! i1) (xs ! a)"
    using scan_up_spec [of a xs j i t] less.prems by auto
  obtain j1 where j1: "scan_down (\<lambda>x p. \<not> t x p) xs a i1 j = Some j1" "i1 \<le> Suc j1" "j1 \<le> j"
      "\<forall>k. j1 < k \<longrightarrow> k \<le> j \<longrightarrow> \<not> t (xs ! k) (xs ! a)" "i1 \<le> j1 \<longrightarrow> t (xs ! j1) (xs ! a)"
    using scan_down_spec [of a xs j i1 "\<lambda>x p. \<not> t x p"] less.prems i1 by auto
  show ?case
  proof (cases "i1 > j1")
    case True
    then have "i1 = Suc j1" using j1(2) by simp
    then show ?thesis
      using i1 j1 True by (intro exI [of _ xs] exI [of _ j1]) (simp add: hoare_loop.simps)
  next
    case False
    with i1(5) j1(3,5) have ij: "i1 < j1" by (metis le_trans less_or_eq_imp_le linorder_neqE_nat not_less)
    define zs where "zs = exch xs i1 j1"
    have len: "length zs = length xs" by (simp add: zs_def)
    have za: "zs ! a = xs ! a" using ij i1(2) j1(3) less.prems by (simp add: zs_def nth_exch)
    have m: "Suc (j1 - 1) - Suc i1 < Suc j - i" "a < Suc i1" "Suc i1 \<le> Suc (j1 - 1)" "j1 - 1 < length zs"
      using ij i1(2) j1(3) less.prems by (auto simp: len)
    from less.hyps [OF m] obtain ys j' where r:
      "hoare_loop t zs a (Suc i1) (j1 - 1) = Some (ys, Suc j', j')" "Suc i1 \<le> Suc j'" "j' \<le> j1 - 1"
      "perm_range (Suc i1) (Suc (j1 - 1)) zs ys"
      "\<forall>k. Suc i1 \<le> k \<longrightarrow> k \<le> j' \<longrightarrow> t (ys ! k) (xs ! a)"
      "\<forall>k. j' < k \<longrightarrow> k \<le> j1 - 1 \<longrightarrow> \<not> t (ys ! k) (xs ! a)" unfolding za by blast
    have ysk: "ys ! k = zs ! k" if "k \<le> i1 \<or> j1 \<le> k" for k
      using perm_range_outside [OF r(4), of k] that ij by auto
    have "hoare_loop t xs a i j = Some (ys, Suc j', j')"
      using i1(1) j1(1,3) ij less.prems r(1) by (subst hoare_loop.simps) (simp add: zs_def)
    moreover have "perm_range i (Suc j) xs ys"
      using perm_range_mono [OF r(4), of i "Suc j"] i1(2) j1(3) ij less.prems
      by (intro perm_range_exchI [of i "Suc j" xs i1 j1]) (auto simp: zs_def)
    moreover have "t (ys ! k) (xs ! a)" if "i \<le> k" "k \<le> j'" for k
    proof (cases "k \<le> i1")
      case True
      then have "ys ! k = (if k = i1 then xs ! j1 else xs ! k)"
        using ysk [of k] ij j1(3) less.prems by (simp add: zs_def nth_exch)
      then show ?thesis using True that i1(4) j1(5) ij by (cases "k = i1") auto
    qed (use r(5) that in auto)
    moreover have "\<not> t (ys ! k) (xs ! a)" if "j' < k" "k \<le> j" for k
    proof (cases "j1 \<le> k")
      case True
      then have "ys ! k = (if k = j1 then xs ! i1 else xs ! k)"
        using ysk [of k] ij j1(3) less.prems by (simp add: zs_def nth_exch)
      then show ?thesis using True that j1(3,4) i1(5) ij by (cases "k = j1") auto
    qed (use r(6) that in auto)
    ultimately show ?thesis
      using r(2,3) i1(2) j1(3) by (intro exI [of _ ys] exI [of _ j']) auto
  qed
qed

text \<open>\<open>partition\<close> is one run of the loop; its flag tells whether the first round was the last one.\<close>

lemma partition_loop:
  assumes "a < length xs" "pivot < length xs" "j < length ys" "length ys = length xs"
    and "hoare_loop (\<lambda>x p. cmp x p < 0) (exch xs a pivot) a (a + 1) (b - 1) = Some (ys, i, j)"
  shows "\<exists>fl. partition cmp xs a b pivot = Some (exch ys j a, j, fl)"
proof -
  let ?t = "\<lambda>x p. cmp x p < 0" and ?xs = "exch xs a pivot"
  obtain i1 j1 where s: "scan_up ?t ?xs a (a + 1) (b - 1) = Some i1"
      "scan_down (\<lambda>x p. \<not> cmp x p < 0) ?xs a i1 (b - 1) = Some j1"
    and r: "(if i1 > j1 then Some (?xs, i1, j1) else do { xs \<leftarrow> swap_at ?xs i1 j1;
        if j1 = 0 then None else hoare_loop ?t xs a (i1 + 1) (j1 - 1) }) = Some (ys, i, j)"
    using assms(5) by (subst (asm) hoare_loop.simps) (auto simp: bind_Some_iff)
  show ?thesis
  proof (cases "i1 > j1")
    case True
    with r s assms(1-4) show ?thesis by (auto simp: partition_def)
  next
    case False
    with r obtain zs where "swap_at ?xs i1 j1 = Some zs" "j1 \<noteq> 0"
        "hoare_loop ?t zs a (i1 + 1) (j1 - 1) = Some (ys, i, j)"
      by (auto simp: bind_Some_iff split: if_splits)
    with False s assms(1-4) show ?thesis by (auto simp: partition_def)
  qed
qed

lemma partition_spec:
  assumes "a \<le> pivot" "pivot < b" "b \<le> length xs"
  shows "\<exists>ys mid fl. partition cmp xs a b pivot = Some (ys, mid, fl) \<and> a \<le> mid \<and> mid < b \<and>
    perm_range a b xs ys \<and> (\<forall>k. a \<le> k \<longrightarrow> k < mid \<longrightarrow> cmp (ys ! k) (ys ! mid) < 0) \<and>
    (\<forall>k. mid < k \<longrightarrow> k < b \<longrightarrow> \<not> cmp (ys ! k) (ys ! mid) < 0)"
proof -
  define xs1 where "xs1 = exch xs a pivot"
  have ab: "a < b" and b: "b - 1 < length xs1" "Suc (b - 1) = b" "a + 1 \<le> Suc (b - 1)"
    using assms by (auto simp: xs1_def)
  obtain ys j where r: "hoare_loop (\<lambda>x p. cmp x p < 0) xs1 a (a + 1) (b - 1) = Some (ys, Suc j, j)"
      "a + 1 \<le> Suc j" "j \<le> b - 1" "perm_range (a + 1) b xs1 ys"
      "\<forall>k. a + 1 \<le> k \<longrightarrow> k \<le> j \<longrightarrow> cmp (ys ! k) (xs1 ! a) < 0"
      "\<forall>k. j < k \<longrightarrow> k \<le> b - 1 \<longrightarrow> \<not> cmp (ys ! k) (xs1 ! a) < 0"
    using hoare_loop_spec [of a "a + 1", OF _ b(3,1), of "\<lambda>x p. cmp x p < 0"] b(2) by auto
  have len: "length ys = length xs" using perm_range_length [OF r(4)] by (simp add: xs1_def)
  have ya: "ys ! a = xs1 ! a" using perm_range_outside [OF r(4), of a] by simp
  have "j < length ys" using r(3) b(1) len by (simp add: xs1_def)
  then obtain fl where fl: "partition cmp xs a b pivot = Some (exch ys j a, j, fl)"
    using partition_loop [of a xs pivot j ys cmp b "Suc j"] r(1,3) assms ab len by (auto simp: xs1_def)
  have nth: "exch ys j a ! k = (if k = a then ys ! j else if k = j then xs1 ! a else ys ! k)" for k
    using r(3) ab assms(3) len by (simp add: nth_exch ya)
  have "perm_range a b xs1 ys" by (rule perm_range_mono [OF r(4)]) simp_all
  then have "perm_range a b xs ys"
    using assms ab by (auto simp: xs1_def intro: perm_range_exchI)
  then have "perm_range a b xs (exch ys j a)"
    using r(2,3) ab assms(3) len by (intro perm_range_trans [OF _ perm_range_exch]) auto
  moreover have "cmp (exch ys j a ! k) (exch ys j a ! j) < 0" if "a \<le> k" "k < j" for k
    using that r(5) by (auto simp: nth)
  moreover have "\<not> cmp (exch ys j a ! k) (exch ys j a ! j) < 0" if "j < k" "k < b" for k
    using that r(2,6) by (auto simp: nth ya)
  moreover have "a \<le> j" "j < b" using r(2,3) ab by auto
  ultimately show ?thesis using fl by blast
qed

lemma partition_equal_spec:
  assumes "a \<le> pivot" "pivot < b" "b \<le> length xs"
  shows "\<exists>ys i. partition_equal cmp xs a b pivot = Some (ys, i) \<and> a < i \<and> i \<le> b \<and>
    perm_range a b xs ys \<and> ys ! a = xs ! pivot \<and>
    (\<forall>k. a < k \<longrightarrow> k < i \<longrightarrow> \<not> cmp (ys ! a) (ys ! k) < 0) \<and> (\<forall>k. i \<le> k \<longrightarrow> k < b \<longrightarrow> cmp (ys ! a) (ys ! k) < 0)"
proof -
  define xs1 where "xs1 = exch xs a pivot"
  have ab: "a < b" and b: "b - 1 < length xs1" "Suc (b - 1) = b" "a + 1 \<le> Suc (b - 1)"
    using assms by (auto simp: xs1_def)
  obtain ys j where r: "hoare_loop (\<lambda>x p. \<not> cmp p x < 0) xs1 a (a + 1) (b - 1) = Some (ys, Suc j, j)"
      "a + 1 \<le> Suc j" "j \<le> b - 1" "perm_range (a + 1) b xs1 ys"
      "\<forall>k. a + 1 \<le> k \<longrightarrow> k \<le> j \<longrightarrow> \<not> cmp (xs1 ! a) (ys ! k) < 0"
      "\<forall>k. j < k \<longrightarrow> k \<le> b - 1 \<longrightarrow> \<not> \<not> cmp (xs1 ! a) (ys ! k) < 0"
    using hoare_loop_spec [of a "a + 1", OF _ b(3,1), of "\<lambda>x p. \<not> cmp p x < 0"] b(2) by auto
  have ya: "ys ! a = xs1 ! a" using perm_range_outside [OF r(4), of a] by simp
  have "xs1 ! a = xs ! pivot" using assms ab by (simp add: xs1_def nth_exch)
  moreover have "perm_range a b xs1 ys" by (rule perm_range_mono [OF r(4)]) simp_all
  then have "perm_range a b xs ys"
    using assms ab by (auto simp: xs1_def intro: perm_range_exchI)
  moreover have "partition_equal cmp xs a b pivot = Some (ys, Suc j)"
    using assms ab r(1) by (simp add: partition_equal_def xs1_def)
  ultimately show ?thesis
    using r(2,3,5,6) ya ab by (intro exI [of _ ys] exI [of _ "Suc j"]) auto
qed

lemma scan_sorted_spec:
  "0 < i \<Longrightarrow> i \<le> b \<Longrightarrow> b \<le> length xs \<Longrightarrow>
   \<exists>i'. scan_sorted cmp xs i b = Some i' \<and> i \<le> i' \<and> i' \<le> b \<and>
     (\<forall>k. i \<le> k \<longrightarrow> k < i' \<longrightarrow> \<not> cmp (xs ! k) (xs ! (k - 1)) < 0)"
proof (induction "b - i" arbitrary: i)
  case 0
  then show ?case by (intro exI [of _ i]) (simp add: scan_sorted.simps)
next
  case (Suc d)
  then have ib: "i < b" by simp
  show ?case
  proof (cases "cmp (xs ! i) (xs ! (i - 1)) < 0")
    case True
    then show ?thesis
      using ib Suc.prems by (intro exI [of _ i]) (auto simp: scan_sorted.simps [of cmp xs i])
  next
    case False
    have "d = b - Suc i" using Suc.hyps(2) by simp
    from Suc.hyps(1) [OF this] ib Suc.prems obtain i' where
      i': "scan_sorted cmp xs (Suc i) b = Some i'" "Suc i \<le> i'" "i' \<le> b"
        "\<forall>k. Suc i \<le> k \<longrightarrow> k < i' \<longrightarrow> \<not> cmp (xs ! k) (xs ! (k - 1)) < 0" by auto
    have "\<not> cmp (xs ! k) (xs ! (k - 1)) < 0" if "i \<le> k" "k < i'" for k
      using that False i'(4) by (cases "k = i") auto
    then show ?thesis
      using ib i' False Suc.prems by (intro exI [of _ i']) (auto simp: scan_sorted.simps [of cmp xs i])
  qed
qed

lemma shift_down_insert: "j < length xs \<Longrightarrow> shift_down cmp xs j = insert_down cmp xs 0 j"
  by (induction j arbitrary: xs) (simp_all add: insert_down_Suc)

lemma shift_up_perm:
  "0 < j \<Longrightarrow> b \<le> length xs \<Longrightarrow> \<exists>ys. shift_up cmp xs j b = Some ys \<and> perm_range (j - 1) b xs ys"
proof (induction "b - j" arbitrary: xs j)
  case 0
  then show ?case by (simp add: shift_up.simps)
next
  case (Suc d)
  then have jb: "j < b" by simp
  define zs where "zs = exch xs j (j - 1)"
  have "d = b - Suc j" "b \<le> length zs" using Suc by (simp_all add: zs_def)
  from Suc.hyps(1) [OF this(1) _ this(2)] obtain ys where
    ys: "shift_up cmp zs (Suc j) b = Some ys" "perm_range (Suc j - 1) b zs ys" by auto
  have "perm_range (j - 1) b zs ys" by (rule perm_range_mono [OF ys(2)]) auto
  then have "perm_range (j - 1) b xs ys"
    using jb Suc.prems by (auto simp: zs_def intro: perm_range_exchI)
  then show ?case using ys(1) jb Suc.prems by (subst shift_up.simps) (auto simp: zs_def)
qed

lemma order2_spec:
  "a < length xs \<Longrightarrow> b < length xs \<Longrightarrow>
   \<exists>p q s. order2 cmp xs a b swaps = Some (p, q, s) \<and> p \<in> {a, b} \<and> q \<in> {a, b}"
  by (auto simp: order2_def)

lemma median_spec:
  assumes "a < length xs" "b < length xs" "c < length xs"
  shows "\<exists>m s. median cmp xs a b c swaps = Some (m, s) \<and> m \<in> {a, b, c}"
proof -
  obtain p q s where 1: "order2 cmp xs a b swaps = Some (p, q, s)" "p \<in> {a, b}" "q \<in> {a, b}"
    using order2_spec assms by blast
  obtain p' q' s' where 2: "order2 cmp xs q c s = Some (p', q', s')" "p' \<in> {q, c}"
    using order2_spec [of q xs c cmp s] assms 1 by blast
  obtain u v w where 3: "order2 cmp xs p p' s' = Some (u, v, w)" "v \<in> {p, p'}"
    using order2_spec [of p xs p' cmp s'] assms 1 2 by blast
  show ?thesis using 1 2 3 by (auto simp: median_def)
qed

lemma choose_pivot_spec:
  assumes "b - a \<ge> 8" "b \<le> length xs"
  shows "\<exists>pivot h. choose_pivot cmp xs a b = Some (pivot, h) \<and> a \<le> pivot \<and> pivot < b"
proof -
  define q where "q = (b - a) div 4"
  have q: "4 * q \<le> b - a" "2 \<le> q" using assms(1) by (auto simp: q_def)
  let ?i = "a + q" and ?j = "a + q * 2" and ?k = "a + q * 3"
  have len: "?i - 1 < length xs" "?i < length xs" "?i + 1 < length xs" "?j - 1 < length xs" "?j < length xs"
      "?j + 1 < length xs" "?k - 1 < length xs" "?k < length xs" "?k + 1 < length xs"
    using q assms by linarith+
  have "\<exists>i j k s. (if b - a \<ge> 50 then do {
                (i, swaps) \<leftarrow> median cmp xs (?i - 1) ?i (?i + 1) 0;
                (j, swaps) \<leftarrow> median cmp xs (?j - 1) ?j (?j + 1) swaps;
                (k, swaps) \<leftarrow> median cmp xs (?k - 1) ?k (?k + 1) swaps;
                Some (i, j, k, swaps)
              } else Some (?i, ?j, ?k, 0)) = Some (i, j, k, s) \<and>
      {i, j, k} \<subseteq> {a..<b}"
  proof (cases "b - a \<ge> 50")
    case True
    obtain i s where i: "median cmp xs (?i - 1) ?i (?i + 1) 0 = Some (i, s)" "i \<in> {?i - 1, ?i, ?i + 1}"
      using median_spec [OF len(1-3), of cmp 0] by blast
    obtain j s' where j: "median cmp xs (?j - 1) ?j (?j + 1) s = Some (j, s')" "j \<in> {?j - 1, ?j, ?j + 1}"
      using median_spec [OF len(4-6), of cmp s] by blast
    obtain k s'' where k: "median cmp xs (?k - 1) ?k (?k + 1) s' = Some (k, s'')" "k \<in> {?k - 1, ?k, ?k + 1}"
      using median_spec [OF len(7-9), of cmp s'] by blast
    have "{i, j, k} \<subseteq> {a..<b}" using i(2) j(2) k(2) q by auto
    then show ?thesis using True i(1) j(1) k(1) by simp
  qed (use q in auto)
  then obtain i j k s where r: "(if b - a \<ge> 50 then do {
                (i, swaps) \<leftarrow> median cmp xs (?i - 1) ?i (?i + 1) 0;
                (j, swaps) \<leftarrow> median cmp xs (?j - 1) ?j (?j + 1) swaps;
                (k, swaps) \<leftarrow> median cmp xs (?k - 1) ?k (?k + 1) swaps;
                Some (i, j, k, swaps)
              } else Some (?i, ?j, ?k, 0)) = Some (i, j, k, s)" "{i, j, k} \<subseteq> {a..<b}" by blast
  obtain m t where m: "median cmp xs i j k s = Some (m, t)" "m \<in> {i, j, k}"
    using median_spec [of i xs j k cmp s] r(2) assms(2) by auto
  then have "a \<le> m \<and> m < b" using r(2) by auto
  then show ?thesis
    unfolding choose_pivot_def q_def [symmetric] Let_def r(1) using assms(1) m(1) by simp
qed

lemma reverse_range_spec:
  assumes "a \<le> b" "b \<le> length xs"
  shows "\<exists>ys. reverse_range xs a b = Some ys \<and> perm_range a b xs ys"
proof -
  define ys where "ys = take a xs @ rev (take (b - a) (drop a xs)) @ drop b xs"
  have "xs = take a xs @ take (b - a) (drop a xs) @ drop b xs"
    using assms by (metis append_take_drop_id drop_drop le_add_diff_inverse2)
  then have "mset xs = mset (take a xs) + mset (take (b - a) (drop a xs)) + mset (drop b xs)"
    by (metis mset_append add.assoc)
  then have "mset ys = mset xs" by (simp add: ys_def)
  moreover have "ys ! k = xs ! k" if "k < a \<or> b \<le> k" for k
    using that assms by (auto simp: ys_def nth_append)
  ultimately have "perm_range a b xs ys" using assms by (auto simp: perm_range_def ys_def)
  then show ?thesis using assms by (simp add: reverse_range_def ys_def)
qed

lemma bit_length_bound: "0 < n \<Longrightarrow> 2 ^ bit_length n \<le> 2 * n"
proof (induction n rule: bit_length.induct)
  case (1 n)
  show ?case
  proof (cases "n div 2 = 0")
    case True
    then have "n = 1" using "1.prems" by auto
    then show ?thesis by (simp add: bit_length.simps)
  next
    case False
    then have "2 ^ bit_length (n div 2) \<le> 2 * (n div 2)" using 1 by simp
    also have "\<dots> \<le> n" by simp
    finally show ?thesis using "1.prems" by (subst bit_length.simps) simp
  qed
qed

lemma random_bound:
  assumes "0 < n"
  shows "unat (r AND ((if bit_length n < 64 then push_bit (bit_length n) 1 else 0 :: 64 word) - 1)) < 2 * n"
proof (cases "bit_length n < 64")
  case True
  have "r AND (push_bit (bit_length n) 1 - 1) = take_bit (bit_length n) r"
    by (simp add: take_bit_eq_mask mask_eq_exp_minus_1 push_bit_eq_mult)
  moreover have "unat (take_bit (bit_length n) r) < 2 ^ bit_length n"
    unfolding unsigned_take_bit_eq by (rule take_bit_nat_less_exp)
  ultimately show ?thesis using True bit_length_bound [OF assms] by simp
next
  case False
  have "unat (r AND (- 1)) < 2 ^ 64" using unsigned_less [of r] by simp
  also have "\<dots> \<le> 2 ^ bit_length n" using False by (intro power_increasing) auto
  finally show ?thesis using False bit_length_bound [OF assms] by simp
qed

lemma break_patterns_spec:
  assumes "b - a \<ge> 8" "b \<le> length xs"
  shows "\<exists>ys. break_patterns xs a b = Some ys \<and> perm_range a b xs ys"
proof -
  define n where "n = b - a"
  define lo where "lo = a + n div 4 * 2 - 1"
  define body where "body = (\<lambda>index (random, xs :: 'a list).
      let random = xorshift random;
          other = unat (random AND ((if bit_length n < 64 then push_bit (bit_length n) 1 else 0 :: 64 word) - 1));
          other = (if other \<ge> n then other - n else other) in
      map_option (Pair random) (swap_at xs index (a + other)))"
  have n: "8 \<le> n" "a + n = b" using assms by (simp_all add: n_def)
  have "\<exists>t. for_each body [lo..<lo + 3] (of_nat n, xs) = Some t \<and> perm_range a b xs (snd t)"
  proof (rule for_each_up)
    fix i and s :: "64 word \<times> 'a list"
    assume i: "lo \<le> i" "i < lo + 3" and s: "perm_range a b xs (snd s)"
    obtain r ys where rs: "s = (r, ys)" by force
    have len: "length ys = length xs" using perm_range_length [OF s] rs by simp
    define o1 where "o1 = unat (xorshift r AND ((if bit_length n < 64 then push_bit (bit_length n) 1 else 0 :: 64 word) - 1))"
    define other where "other = (if o1 \<ge> n then o1 - n else o1)"
    have "o1 < 2 * n" unfolding o1_def by (rule random_bound) (use n in simp)
    then have "other < n" by (auto simp: other_def)
    then have o: "a + other < b" using n by simp
    have "n div 4 * 2 + 2 \<le> n" "2 \<le> n div 4 * 2" using n(1) by linarith+
    then have i': "a \<le> i" "i < b" using i n(2) by (auto simp: lo_def)
    have "body i s = Some (xorshift r, exch ys i (a + other))"
      unfolding body_def rs prod.case Let_def o1_def [symmetric] other_def [symmetric]
      using i' o assms len by simp
    moreover have "perm_range a b xs (exch ys i (a + other))"
      using s rs i' o assms len by (intro perm_range_trans [OF _ perm_range_exch]) auto
    ultimately show "\<exists>t. body i s = Some t \<and> perm_range a b xs (snd t)" by simp
  qed simp_all
  moreover have "lo + 3 = a + n div 4 * 2 + 2" using n(1) by (simp add: lo_def)
  moreover have "break_patterns xs a b =
      map_option snd (for_each body [lo..<a + n div 4 * 2 + 2] (of_nat n, xs))"
    unfolding break_patterns_def n_def [symmetric] body_def lo_def Let_def by (simp only: n(1) if_True)
  ultimately show ?thesis by auto
qed

section \<open>Sortedness\<close>

definition sorted_on :: "('a \<Rightarrow> 'a \<Rightarrow> int) \<Rightarrow> 'a list \<Rightarrow> nat \<Rightarrow> nat \<Rightarrow> bool" where
  "sorted_on cmp xs a b \<longleftrightarrow> (\<forall>p q. a \<le> p \<longrightarrow> p < q \<longrightarrow> q < b \<longrightarrow> cmp (xs ! p) (xs ! q) \<le> 0)"

text \<open>Nothing to the left of the range is greater than an element of it.\<close>

definition below :: "('a \<Rightarrow> 'a \<Rightarrow> int) \<Rightarrow> 'a list \<Rightarrow> nat \<Rightarrow> nat \<Rightarrow> bool" where
  "below cmp xs a b \<longleftrightarrow> (\<forall>p q. p < a \<longrightarrow> a \<le> q \<longrightarrow> q < b \<longrightarrow> cmp (xs ! p) (xs ! q) \<le> 0)"

definition heap :: "('a \<Rightarrow> 'a \<Rightarrow> int) \<Rightarrow> 'a list \<Rightarrow> nat \<Rightarrow> nat \<Rightarrow> nat \<Rightarrow> bool" where
  "heap cmp xs first lo hi \<longleftrightarrow>
     (\<forall>c. 0 < c \<longrightarrow> c < hi \<longrightarrow> lo \<le> (c - 1) div 2 \<longrightarrow> cmp (xs ! (first + c)) (xs ! (first + (c - 1) div 2)) \<le> 0)"

lemma below_perm:
  assumes "perm_range a b xs ys" "b \<le> length xs" "below cmp xs a b"
  shows "below cmp ys a b"
  unfolding below_def
proof (intro allI impI)
  fix p q assume *: "p < a" "a \<le> q" "q < b"
  have "\<forall>k. a \<le> k \<longrightarrow> k < b \<longrightarrow> cmp (ys ! p) (xs ! k) \<le> 0"
    using assms(3) * perm_range_outside [OF assms(1), of p] by (simp add: below_def)
  from perm_range_all [OF assms(1,2) this *(2,3)] show "cmp (ys ! p) (ys ! q) \<le> 0" .
qed

lemma below_mono: "below cmp xs a b \<Longrightarrow> b' \<le> b \<Longrightarrow> below cmp xs a b'"
  by (auto simp: below_def)

text \<open>A sorted range, then a sorted range that is nowhere smaller.\<close>

lemma sorted_on_join:
  assumes "sorted_on cmp xs a m" "sorted_on cmp xs m b"
    "\<And>p q. a \<le> p \<Longrightarrow> p < m \<Longrightarrow> m \<le> q \<Longrightarrow> q < b \<Longrightarrow> cmp (xs ! p) (xs ! q) \<le> 0"
  shows "sorted_on cmp xs a b"
  unfolding sorted_on_def
proof (intro allI impI)
  fix p q assume "a \<le> p" "p < q" "q < b"
  then show "cmp (xs ! p) (xs ! q) \<le> 0"
    using assms by (cases "q < m"; cases "p < m") (auto simp: sorted_on_def)
qed

lemma sorted_on_cong:
  "(\<And>k. a \<le> k \<Longrightarrow> k < b \<Longrightarrow> ys ! k = xs ! k) \<Longrightarrow> sorted_on cmp xs a b \<Longrightarrow> sorted_on cmp ys a b"
  by (simp add: sorted_on_def)

lemma sorted_on_mono: "sorted_on cmp xs a b \<Longrightarrow> a \<le> a' \<Longrightarrow> b' \<le> b \<Longrightarrow> sorted_on cmp xs a' b'"
  by (auto simp: sorted_on_def)

context comparison
begin

lemma not_less: "\<not> cmp x y < 0 \<Longrightarrow> cmp y x \<le> 0"
  using cmp_flip [of y x] by linarith

lemma sorted_on_extend:
  assumes "sorted_on cmp xs a i" "a < i" "cmp (xs ! (i - 1)) (xs ! i) \<le> 0"
  shows "sorted_on cmp xs a (Suc i)"
  unfolding sorted_on_def
proof (intro allI impI)
  fix p q assume *: "a \<le> p" "p < q" "q < Suc i"
  show "cmp (xs ! p) (xs ! q) \<le> 0"
  proof (cases "q = i")
    case True
    have "cmp (xs ! p) (xs ! (i - 1)) \<le> 0"
      using assms(1) * True by (cases "p = i - 1") (auto simp: sorted_on_def cmp_refl)
    then show ?thesis using assms(3) True cmp_trans by blast
  qed (use assms(1) * in \<open>auto simp: sorted_on_def\<close>)
qed

text \<open>The inner loop of insertion sort: only the pairs that end at \<open>j\<close> may be out of order.\<close>

lemma insert_down_sorted:
  "(\<And>p q. a \<le> p \<Longrightarrow> p < q \<Longrightarrow> q \<le> m \<Longrightarrow> q \<noteq> j \<Longrightarrow> cmp (xs ! p) (xs ! q) \<le> 0) \<Longrightarrow>
   a \<le> j \<Longrightarrow> j \<le> m \<Longrightarrow> m < length xs \<Longrightarrow> insert_down cmp xs a j = Some ys \<Longrightarrow> sorted_on cmp ys a (Suc m)"
proof (induction j arbitrary: xs)
  case 0
  then show ?case by (auto simp: sorted_on_def)
next
  case (Suc j)
  show ?case
  proof (cases "a \<le> j \<and> cmp (xs ! Suc j) (xs ! j) < 0")
    case True
    define zs where "zs = exch xs (Suc j) j"
    have nth: "zs ! k = (if k = j then xs ! Suc j else if k = Suc j then xs ! j else xs ! k)" for k
      using Suc.prems by (simp add: zs_def nth_exch)
    have "cmp (zs ! p) (zs ! q) \<le> 0" if "a \<le> p" "p < q" "q \<le> m" "q \<noteq> j" for p q
      using that Suc.prems(1) [of p q] Suc.prems(1) [of p j] Suc.prems(1) [of "Suc j" q] Suc.prems(1) [of j q]
        True Suc.prems(3)
      by (cases "q = Suc j"; cases "p = j"; cases "p = Suc j") (auto simp: nth)
    then show ?thesis
      using Suc.IH [of zs] True Suc.prems by (simp add: insert_down_Suc zs_def)
  next
    case False
    then have ys: "ys = xs" using Suc.prems by (auto simp: insert_down_Suc split: if_splits)
    show ?thesis
      unfolding sorted_on_def ys
    proof (intro allI impI)
      fix p q assume *: "a \<le> p" "p < q" "q < Suc m"
      show "cmp (xs ! p) (xs ! q) \<le> 0"
      proof (cases "q = Suc j")
        case True
        then have "cmp (xs ! j) (xs ! q) \<le> 0" using False * not_less by auto
        moreover have "cmp (xs ! p) (xs ! j) \<le> 0"
          using Suc.prems(1) [of p j] True * Suc.prems(3) cmp_refl by (cases "p = j") auto
        ultimately show ?thesis using cmp_trans by blast
      qed (use * Suc.prems(1) in auto)
    qed
  qed
qed

text \<open>Inserting the last element of a range whose other elements are sorted.\<close>

lemma insert_down_last:
  "sorted_on cmp xs a j \<Longrightarrow> a \<le> j \<Longrightarrow> j < length xs \<Longrightarrow> insert_down cmp xs a j = Some ys \<Longrightarrow> sorted_on cmp ys a (Suc j)"
  by (rule insert_down_sorted [of a j j xs]) (auto simp: sorted_on_def)

text \<open>
  Sifting down: the heap order holds everywhere but below the root, and the root's children are not
  greater than its parent.
\<close>

lemma sift_down_heap:
  assumes "\<And>c. 0 < c \<Longrightarrow> c < hi \<Longrightarrow> lo \<le> (c - 1) div 2 \<Longrightarrow> (c - 1) div 2 \<noteq> root \<Longrightarrow>
      cmp (xs ! (first + c)) (xs ! (first + (c - 1) div 2)) \<le> 0"
    and "\<And>c. 0 < c \<Longrightarrow> c < hi \<Longrightarrow> (c - 1) div 2 = root \<Longrightarrow> 0 < root \<Longrightarrow> lo \<le> (root - 1) div 2 \<Longrightarrow>
      cmp (xs ! (first + c)) (xs ! (first + (root - 1) div 2)) \<le> 0"
    and "lo \<le> root" "first + hi \<le> length xs" "sift_down cmp xs root hi first = Some ys"
  shows "heap cmp ys first lo hi"
  using assms
proof (induction "hi - root" arbitrary: xs root rule: less_induct)
  case less
  note ord = less.prems(1) and grand = less.prems(2)
  show ?case
  proof (cases "2 * root + 1 < hi")
    case False
    then have "ys = xs" using less.prems(5) by (simp add: sift_down_leaf)
    moreover have "(c - 1) div 2 \<noteq> root" if "0 < c" "c < hi" for c using that False by linarith
    ultimately show ?thesis using ord by (auto simp: heap_def)
  next
    case True
    define c where "c = max_child cmp xs root hi first"
    have c: "root < c" "c < hi" using max_child_range [OF True, of cmp xs first] by (simp_all add: c_def)
    have cp: "(c - 1) div 2 = root" by (auto simp: c_def max_child_def)
    have sib: "cmp (xs ! (first + d)) (xs ! (first + c)) \<le> 0" if "0 < d" "d < hi" "(d - 1) div 2 = root" for d
    proof -
      have "d = 2 * root + 1 \<or> d = 2 * root + 2" using that by linarith
      then show ?thesis
        using that(2) not_less [of "xs ! (first + (2 * root + 1))" "xs ! (first + (2 * root + 2))"]
        by (auto simp: c_def max_child_def cmp_refl)
    qed
    show ?thesis
    proof (cases "cmp (xs ! (first + root)) (xs ! (first + c)) < 0")
      case False
      then have "ys = xs" using less.prems(5) by (simp add: sift_down_step [OF True less.prems(4) c_def])
      moreover have "cmp (xs ! (first + d)) (xs ! (first + root)) \<le> 0"
        if "0 < d" "d < hi" "(d - 1) div 2 = root" for d
        using sib [OF that] not_less [OF False] cmp_trans by blast
      ultimately show ?thesis using ord unfolding heap_def by metis
    next
      case swap: True
      define zs where "zs = exch xs (first + root) (first + c)"
      have nth: "zs ! (first + k) = (if k = c then xs ! (first + root) else if k = root then xs ! (first + c) else xs ! (first + k))" for k
        using c less.prems(4) by (simp add: zs_def nth_exch)
      have s: "sift_down cmp zs c hi first = Some ys"
        using less.prems(5) swap by (simp add: sift_down_step [OF True less.prems(4) c_def] zs_def)
      show ?thesis
      proof (rule less.hyps [OF _ _ _ _ _ s])
        show "hi - c < hi - root" "lo \<le> c" "first + hi \<le> length zs"
          using c less.prems(3,4) by (auto simp: zs_def)
        show "cmp (zs ! (first + d)) (zs ! (first + (d - 1) div 2)) \<le> 0"
          if d: "0 < d" "d < hi" "lo \<le> (d - 1) div 2" "(d - 1) div 2 \<noteq> c" for d
        proof (cases "(d - 1) div 2 = root")
          case True
          then have "d \<noteq> root" using d(1) by linarith
          then show ?thesis using sib [OF d(1,2) True] swap True c by (auto simp: nth)
        next
          case False
          then have "d \<noteq> c" using cp by auto
          then show ?thesis
            using ord [OF d(1-3) False] grand [OF _ c(2) cp] c cp d False by (cases "d = root") (auto simp: nth)
        qed
        show "cmp (zs ! (first + d)) (zs ! (first + (c - 1) div 2)) \<le> 0"
          if d: "0 < d" "d < hi" "(d - 1) div 2 = c" "0 < c" "lo \<le> (c - 1) div 2" for d
        proof -
          have "d \<noteq> c" "d \<noteq> root" using d(1,3) c(1) by linarith+
          then show ?thesis using ord [of d] d c cp less.prems(3) by (auto simp: nth)
        qed
      qed
    qed
  qed
qed

lemma heap_max: "heap cmp xs first 0 hi \<Longrightarrow> k < hi \<Longrightarrow> cmp (xs ! (first + k)) (xs ! first) \<le> 0"
proof (induction k rule: less_induct)
  case (less k)
  show ?case
  proof (cases "k = 0")
    case False
    then have "cmp (xs ! (first + (k - 1) div 2)) (xs ! first) \<le> 0" using less by auto
    moreover have "cmp (xs ! (first + k)) (xs ! (first + (k - 1) div 2)) \<le> 0"
      using False less.prems by (simp add: heap_def)
    ultimately show ?thesis using cmp_trans by blast
  qed (simp add: cmp_refl)
qed

end

lemma insertion_sort_spec:
  assumes "a \<le> b" "b \<le> length xs"
  shows "\<exists>ys. insertion_sort cmp xs a b = Some ys \<and> perm_range a b xs ys \<and>
    (comparison cmp \<longrightarrow> sorted_on cmp ys a b)"
proof (cases "a < b")
  case True
  have "\<exists>ys. for_each (\<lambda>i xs. insert_down cmp xs a i) [a + 1..<b] xs = Some ys \<and>
      (perm_range a b xs ys \<and> (comparison cmp \<longrightarrow> sorted_on cmp ys a b))"
  proof (rule for_each_up [where I = "\<lambda>i ys. perm_range a b xs ys \<and> (comparison cmp \<longrightarrow> sorted_on cmp ys a i)"])
    fix i ys
    assume i: "a + 1 \<le> i" "i < b"
      and ys: "perm_range a b xs ys \<and> (comparison cmp \<longrightarrow> sorted_on cmp ys a i)"
    have il: "i < length ys" using i assms perm_range_length [of a b xs ys] ys by simp
    then obtain zs where zs: "insert_down cmp ys a i = Some zs" "perm_range a (Suc i) ys zs"
      using insert_down_perm [of a i ys cmp] i by auto
    have "perm_range a b xs zs"
      using ys perm_range_mono [OF zs(2), of a b] i perm_range_trans by fastforce
    moreover have "comparison cmp \<longrightarrow> sorted_on cmp zs a (Suc i)"
      using comparison.insert_down_last [OF _ _ _ il zs(1)] ys i by simp
    ultimately show "\<exists>t. insert_down cmp ys a i = Some t \<and>
        (perm_range a b xs t \<and> (comparison cmp \<longrightarrow> sorted_on cmp t a (Suc i)))"
      using zs(1) by blast
  qed (use True in \<open>auto simp: sorted_on_def\<close>)
  then show ?thesis by (simp add: insertion_sort_def)
qed (use assms in \<open>auto simp: insertion_sort_def sorted_on_def\<close>)

lemma heap_phase:
  assumes "a + n \<le> length xs"
  shows "\<exists>ys. for_each (\<lambda>i xs. sift_down cmp xs i n a) (rev [0..<(n - 1) div 2 + 1]) xs = Some ys \<and>
    perm_range a (a + n) xs ys \<and> (comparison cmp \<longrightarrow> heap cmp ys a 0 n)"
proof (rule for_each_down [where I = "\<lambda>i ys. perm_range a (a + n) xs ys \<and> (comparison cmp \<longrightarrow> heap cmp ys a i n)"])
  have "\<not> (n - 1) div 2 + 1 \<le> (c - 1) div 2" if "c < n" for c
    using div_le_mono [of "c - 1" "n - 1" 2] that by auto
  then show "perm_range a (a + n) xs xs \<and> (comparison cmp \<longrightarrow> heap cmp xs a ((n - 1) div 2 + 1) n)"
    by (auto simp: heap_def)
next
  fix i ys
  assume I: "perm_range a (a + n) xs ys \<and> (comparison cmp \<longrightarrow> heap cmp ys a (Suc i) n)"
  then have len: "a + n \<le> length ys" using assms perm_range_length by metis
  then obtain zs where zs: "sift_down cmp ys i n a = Some zs" "perm_range a (a + n) ys zs"
    using sift_down_perm by blast
  have "heap cmp zs a i n" if "comparison cmp"
  proof (rule comparison.sift_down_heap [OF that _ _ order_refl len zs(1)])
    show "cmp (ys ! (a + c)) (ys ! (a + (c - 1) div 2)) \<le> 0"
      if "0 < c" "c < n" "i \<le> (c - 1) div 2" "(c - 1) div 2 \<noteq> i" for c
      using I that \<open>comparison cmp\<close> by (auto simp: heap_def)
  qed linarith
  then show "\<exists>t. sift_down cmp ys i n a = Some t \<and>
      perm_range a (a + n) xs t \<and> (comparison cmp \<longrightarrow> heap cmp t a i n)"
    using I zs perm_range_trans by blast
qed

text \<open>One step of the second phase: the greatest element of the heap goes behind it.\<close>

lemma pop_step:
  assumes "comparison cmp" "heap cmp ys a 0 (Suc i)" "sorted_on cmp ys (a + Suc i) b"
    and cross: "\<And>p q. a \<le> p \<Longrightarrow> p < a + Suc i \<Longrightarrow> a + Suc i \<le> q \<Longrightarrow> q < b \<Longrightarrow> cmp (ys ! p) (ys ! q) \<le> 0"
    and len: "a + i < b" "b \<le> length ys"
    and ws: "sift_down cmp (exch ys a (a + i)) 0 i a = Some ws" "perm_range a (a + i) (exch ys a (a + i)) ws"
  shows "heap cmp ws a 0 i" "sorted_on cmp ws (a + i) b"
    "\<And>p q. a \<le> p \<Longrightarrow> p < a + i \<Longrightarrow> a + i \<le> q \<Longrightarrow> q < b \<Longrightarrow> cmp (ws ! p) (ws ! q) \<le> 0"
proof -
  define zs where "zs = exch ys a (a + i)"
  have nth: "zs ! k = (if k = a + i then ys ! a else if k = a then ys ! (a + i) else ys ! k)" for k
    using len by (simp add: zs_def nth_exch)
  have out: "ws ! q = (if q = a + i then ys ! a else ys ! q)" if "a + i \<le> q" for q
    using perm_range_outside [OF ws(2)] that by (auto simp: zs_def [symmetric] nth)
  show "heap cmp ws a 0 i"
  proof (rule comparison.sift_down_heap [OF assms(1) _ _ order_refl _ ws(1)])
    show "cmp (exch ys a (a + i) ! (a + c)) (exch ys a (a + i) ! (a + (c - 1) div 2)) \<le> 0"
      if "0 < c" "c < i" "(c - 1) div 2 \<noteq> 0" for c
      using that assms(2) by (auto simp: zs_def [symmetric] nth heap_def)
  qed (use len in simp_all)
  show "sorted_on cmp ws (a + i) b"
    unfolding sorted_on_def
  proof (intro allI impI)
    fix p q assume "a + i \<le> p" "p < q" "q < b"
    then show "cmp (ws ! p) (ws ! q) \<le> 0"
      using cross [of a q] assms(3) by (auto simp: out sorted_on_def)
  qed
  show "cmp (ws ! p) (ws ! q) \<le> 0" if pq: "a \<le> p" "p < a + i" "a + i \<le> q" "q < b" for p q
  proof (rule perm_range_all [OF ws(2) _ _ pq(1,2), where P = "\<lambda>x. cmp x (ws ! q) \<le> 0"])
    have top: "cmp (ys ! (a + k)) (ys ! a) \<le> 0" if "k < Suc i" for k
      using comparison.heap_max [OF assms(1,2) that] .
    have "cmp (ys ! k) (ws ! q) \<le> 0" if "a \<le> k" "k < a + Suc i" for k
      using top [of "k - a"] cross [OF that] that pq by (cases "q = a + i") (auto simp: out)
    then show "\<forall>k. a \<le> k \<longrightarrow> k < a + i \<longrightarrow> cmp (exch ys a (a + i) ! k) (ws ! q) \<le> 0"
      by (auto simp: zs_def [symmetric] nth)
  qed (use len in simp)
qed

lemma heap_sort_spec:
  assumes "a \<le> b" "b \<le> length xs"
  shows "\<exists>ys. heap_sort cmp xs a b = Some ys \<and> perm_range a b xs ys \<and>
    (comparison cmp \<longrightarrow> sorted_on cmp ys a b)"
proof -
  define n where "n = b - a"
  have b: "a + n = b" using assms by (simp add: n_def)
  obtain hs where hs: "for_each (\<lambda>i xs. sift_down cmp xs i n a) (rev [0..<(n - 1) div 2 + 1]) xs = Some hs"
      "perm_range a b xs hs" "comparison cmp \<longrightarrow> heap cmp hs a 0 n"
    using heap_phase [of a n xs cmp] assms(2) b by auto
  define I where "I = (\<lambda>i ys. perm_range a b xs ys \<and> (comparison cmp \<longrightarrow> heap cmp ys a 0 i \<and>
      sorted_on cmp ys (a + i) b \<and>
      (\<forall>p q. a \<le> p \<longrightarrow> p < a + i \<longrightarrow> a + i \<le> q \<longrightarrow> q < b \<longrightarrow> cmp (ys ! p) (ys ! q) \<le> 0)))"
  have "\<exists>ys. for_each (\<lambda>i xs. do { xs \<leftarrow> swap_at xs a (a + i); sift_down cmp xs 0 i a }) (rev [0..<n]) hs = Some ys \<and> I 0 ys"
  proof (rule for_each_down)
    show "I n hs" using hs b by (auto simp: I_def sorted_on_def)
    fix i ys assume i: "i < n" and ys: "I (Suc i) ys"
    then have perm: "perm_range a b xs ys" by (simp add: I_def)
    then have len: "a + i < b" "b \<le> length ys" using i b assms perm_range_length by fastforce+
    obtain ws where ws: "sift_down cmp (exch ys a (a + i)) 0 i a = Some ws"
        "perm_range a (a + i) (exch ys a (a + i)) ws"
      using sift_down_perm [of a i "exch ys a (a + i)" cmp 0] len by auto
    have "perm_range a b ys ws"
      using perm_range_mono [OF ws(2), of a b] len by (auto intro: perm_range_exchI)
    with perm have "perm_range a b xs ws" by (rule perm_range_trans)
    moreover have "heap cmp ws a 0 i \<and> sorted_on cmp ws (a + i) b \<and>
        (\<forall>p q. a \<le> p \<longrightarrow> p < a + i \<longrightarrow> a + i \<le> q \<longrightarrow> q < b \<longrightarrow> cmp (ws ! p) (ws ! q) \<le> 0)" if "comparison cmp"
      using pop_step [OF that _ _ _ len ws] ys that unfolding I_def by blast
    ultimately have "I i ws" by (simp add: I_def)
    then show "\<exists>t. do { xs \<leftarrow> swap_at ys a (a + i); sift_down cmp xs 0 i a } = Some t \<and> I i t"
      using len ws(1) by simp
  qed
  then show ?thesis
    unfolding heap_sort_def n_def [symmetric] Let_def hs(1) by (auto simp: I_def)
qed

context comparison
begin

lemma sorted_on_scan:
  "sorted_on cmp xs a i \<Longrightarrow> a < i \<Longrightarrow> i \<le> i' \<Longrightarrow>
   (\<And>k. i \<le> k \<Longrightarrow> k < i' \<Longrightarrow> \<not> cmp (xs ! k) (xs ! (k - 1)) < 0) \<Longrightarrow> sorted_on cmp xs a i'"
proof (induction "i' - i" arbitrary: i)
  case (Suc d)
  have "sorted_on cmp xs a (Suc i)"
    using Suc.prems Suc.hyps(2) not_less [of "xs ! i" "xs ! (i - 1)"] by (intro sorted_on_extend) auto
  then show ?case using Suc.hyps Suc.prems by (intro Suc.hyps(1) [of "Suc i"]) auto
qed simp

text \<open>The shift that may run below \<open>a\<close> stops there when nothing to the left is greater.\<close>

lemma insert_down_stops:
  "below cmp xs a (Suc j) \<Longrightarrow> a \<le> j \<Longrightarrow> j < length xs \<Longrightarrow> insert_down cmp xs 0 j = insert_down cmp xs a j"
proof (induction j arbitrary: xs)
  case (Suc j)
  show ?case
  proof (cases "a \<le> j")
    case True
    have "below cmp (exch xs (Suc j) j) a (Suc (Suc j))"
      using True Suc.prems by (intro below_perm [OF perm_range_exch]) auto
    then have "below cmp (exch xs (Suc j) j) a (Suc j)" by (simp add: below_def)
    then show ?thesis using True Suc by (simp add: insert_down_Suc)
  next
    case False
    then have "cmp (xs ! j) (xs ! Suc j) \<le> 0" using Suc.prems by (simp add: below_def)
    then have "\<not> cmp (xs ! Suc j) (xs ! j) < 0" using cmp_flip by fastforce
    then show ?thesis using False Suc.prems by (simp add: insert_down_Suc)
  qed
qed simp

text \<open>One round of the partial insertion sort keeps the elements before \<open>i\<close> sorted.\<close>

lemma partial_round_sorted:
  assumes below: "below cmp xs a b" and sorted: "sorted_on cmp xs a i" and i: "a < i" "i < b" "b \<le> length xs"
    and ws: "(if i - a \<ge> 2 then shift_down cmp (exch xs i (i - 1)) (i - 1) else Some (exch xs i (i - 1))) = Some ws"
    and us: "perm_range i b ws us"
  shows "perm_range a b xs us" "sorted_on cmp us a i"
proof -
  define zs where "zs = exch xs i (i - 1)"
  have pz: "perm_range a b xs zs" unfolding zs_def using i by (intro perm_range_exch) auto
  have len: "length zs = length xs" by (simp add: zs_def)
  have "sorted_on cmp xs a (i - 1)" by (rule sorted_on_mono [OF sorted]) auto
  then have sz: "sorted_on cmp zs a (i - 1)"
    by (rule sorted_on_cong [rotated]) (use i in \<open>auto simp: zs_def nth_exch\<close>)
  have bz: "below cmp zs a (Suc (i - 1))"
    by (rule below_mono [OF below_perm [OF pz i(3) below]]) (use i in simp)
  have w: "perm_range a b zs ws \<and> sorted_on cmp ws a i"
  proof (cases "i - a \<ge> 2")
    case True
    then have ins: "insert_down cmp zs a (i - 1) = Some ws"
      using ws [folded zs_def] insert_down_stops [OF bz] i by (simp add: shift_down_insert len)
    then have "perm_range a (Suc (i - 1)) zs ws"
      using insert_down_perm [of a "i - 1" zs cmp] i len by auto
    moreover have "sorted_on cmp ws a (Suc (i - 1))"
      using insert_down_last [OF sz _ _ ins] i len by auto
    moreover have "Suc (i - 1) = i" "Suc (i - 1) \<le> b" using i by simp_all
    ultimately show ?thesis using perm_range_mono [of a "Suc (i - 1)" zs ws a b] by simp
  next
    case False
    then have "i = Suc a" using i by simp
    then show ?thesis using ws by (simp add: zs_def sorted_on_def)
  qed
  have "perm_range a b ws us" by (rule perm_range_mono [OF us]) (use i in simp_all)
  then show "perm_range a b xs us" by (rule perm_range_trans [OF perm_range_trans [OF pz conjunct1 [OF w]]])
  show "sorted_on cmp us a i"
    by (rule sorted_on_cong [OF _ conjunct2 [OF w]]) (rule perm_range_outside [OF us], simp)
qed

end

lemma partial_rounds_spec:
  assumes "a < i" "i \<le> b" "b \<le> length xs"
  shows "\<exists>ys r. partial_rounds cmp n xs a b i = Some (ys, r) \<and> perm_range 0 b xs ys \<and>
    (comparison cmp \<longrightarrow> below cmp xs a b \<longrightarrow> sorted_on cmp xs a i \<longrightarrow>
      perm_range a b xs ys \<and> (r \<longrightarrow> sorted_on cmp ys a b))"
  using assms
proof (induction n arbitrary: xs i)
  case (Suc n)
  obtain k where k: "scan_sorted cmp xs i b = Some k" "i \<le> k" "k \<le> b"
      "\<forall>j. i \<le> j \<longrightarrow> j < k \<longrightarrow> \<not> cmp (xs ! j) (xs ! (j - 1)) < 0"
    using scan_sorted_spec [of i b xs cmp] Suc.prems by auto
  have sk: "sorted_on cmp xs a k" if "comparison cmp" "sorted_on cmp xs a i"
    using comparison.sorted_on_scan [OF that Suc.prems(1) k(2)] k(4) by blast
  show ?case
  proof (cases "k = b \<or> b - a < 50")
    case True
    then show ?thesis using k(1) sk by auto
  next
    case False
    then have kb: "a < k" "k < b" "0 < k" using k Suc.prems by auto
    define zs where "zs = exch xs k (k - 1)"
    have len: "length zs = length xs" by (simp add: zs_def)
    have swap: "swap_at xs k (k - 1) = Some zs" using kb Suc.prems by (simp add: zs_def)
    have "perm_range 0 b xs zs" unfolding zs_def using kb Suc.prems by (intro perm_range_exch) auto
    moreover obtain ts where ts: "shift_down cmp zs (k - 1) = Some ts" "perm_range 0 (Suc (k - 1)) zs ts"
    proof -
      have "k - 1 < length zs" using kb Suc.prems len by simp
      then show thesis using that insert_down_perm [of 0 "k - 1" zs cmp] by (auto simp: shift_down_insert)
    qed
    have "perm_range 0 b zs ts" by (rule perm_range_mono [OF ts(2)]) (use kb in simp_all)
    then obtain ws where ws: "(if k - a \<ge> 2 then shift_down cmp zs (k - 1) else Some zs) = Some ws"
        "perm_range 0 b zs ws"
      using ts(1) by (cases "k - a \<ge> 2") simp_all
    moreover note ws(2)
    moreover obtain us where us: "(if b - k \<ge> 2 then shift_up cmp ws (k + 1) b else Some ws) = Some us"
        "perm_range k b ws us"
      using shift_up_perm [of "k + 1" b ws cmp] Suc.prems perm_range_length [OF ws(2)] len
      by (cases "b - k \<ge> 2") auto
    ultimately have pu: "perm_range 0 b xs us"
      using perm_range_mono [OF us(2), of 0 b] perm_range_trans by (metis le0 order_refl)
    then have "b \<le> length us" using Suc.prems perm_range_length by metis
    from Suc.IH [OF kb(1) k(3) this] obtain ys r where ys:
      "partial_rounds cmp n us a b k = Some (ys, r)" "perm_range 0 b us ys"
      "comparison cmp \<longrightarrow> below cmp us a b \<longrightarrow> sorted_on cmp us a k \<longrightarrow>
        perm_range a b us ys \<and> (r \<longrightarrow> sorted_on cmp ys a b)" by blast
    have "partial_rounds cmp (Suc n) xs a b i = Some (ys, r)"
      using False k(1) swap ws(1) us(1) ys(1) by simp
    moreover have "perm_range 0 b xs ys" using pu ys(2) by (rule perm_range_trans)
    moreover have "perm_range a b xs ys \<and> (r \<longrightarrow> sorted_on cmp ys a b)"
      if c: "comparison cmp" "below cmp xs a b" "sorted_on cmp xs a i"
    proof -
      note round = comparison.partial_round_sorted [OF c(1,2) sk [OF c(1,3)] kb(1,2) Suc.prems(3)
          ws(1) [unfolded zs_def] us(2)]
      have "below cmp us a b" by (rule below_perm [OF round(1) Suc.prems(3) c(2)])
      then show ?thesis using ys(3) c(1) round perm_range_trans by blast
    qed
    ultimately show ?thesis by blast
  qed
qed auto

section \<open>The quicksort\<close>

text \<open>What one call does with its range.\<close>

definition sorts :: "('a \<Rightarrow> 'a \<Rightarrow> int) \<Rightarrow> nat \<Rightarrow> nat \<Rightarrow> 'a list \<Rightarrow> 'a list \<Rightarrow> bool" where
  "sorts cmp a b xs ys \<longleftrightarrow> perm_range 0 b xs ys \<and>
     (comparison cmp \<longrightarrow> below cmp xs a b \<longrightarrow> perm_range a b xs ys \<and> sorted_on cmp ys a b)"

lemma sorts_length: "sorts cmp a b xs ys \<Longrightarrow> length ys = length xs"
  by (auto simp: sorts_def perm_range_length)

definition partitioned :: "('a \<Rightarrow> 'a \<Rightarrow> int) \<Rightarrow> 'a list \<Rightarrow> nat \<Rightarrow> nat \<Rightarrow> nat \<Rightarrow> bool" where
  "partitioned cmp xs a m b \<longleftrightarrow>
     (\<forall>k. a \<le> k \<longrightarrow> k < m \<longrightarrow> cmp (xs ! k) (xs ! m) \<le> 0) \<and> (\<forall>k. m < k \<longrightarrow> k < b \<longrightarrow> cmp (xs ! m) (xs ! k) \<le> 0)"

lemma partitioned_left:
  assumes "partitioned cmp xs a m b" "perm_range a m xs ys" "m \<le> length xs"
  shows "partitioned cmp ys a m b"
proof -
  have out: "ys ! k = xs ! k" if "m \<le> k" for k using perm_range_outside [OF assms(2), of k] that by simp
  have "cmp (ys ! k) (xs ! m) \<le> 0" if "a \<le> k" "k < m" for k
    using perm_range_all [OF assms(2,3) _ that, of "\<lambda>x. cmp x (xs ! m) \<le> 0"] assms(1)
    by (simp add: partitioned_def)
  then show ?thesis using assms(1) by (simp add: partitioned_def out)
qed

lemma partitioned_right:
  assumes "partitioned cmp xs a m b" "perm_range (Suc m) b xs ys" "b \<le> length xs"
  shows "partitioned cmp ys a m b"
proof -
  have out: "ys ! k = xs ! k" if "k \<le> m" for k using perm_range_outside [OF assms(2), of k] that by simp
  have "cmp (xs ! m) (ys ! k) \<le> 0" if "m < k" "k < b" for k
    using perm_range_all [OF assms(2,3) _ _ that(2), of "\<lambda>x. cmp (xs ! m) x \<le> 0"] assms(1) that
    by (simp add: partitioned_def)
  then show ?thesis using assms(1) by (simp add: partitioned_def out)
qed

context comparison
begin

lemma partitioned_cross:
  "partitioned cmp xs a m b \<Longrightarrow> a \<le> p \<Longrightarrow> p \<le> m \<Longrightarrow> m \<le> q \<Longrightarrow> q < b \<Longrightarrow> cmp (xs ! p) (xs ! q) \<le> 0"
  unfolding partitioned_def
  by (cases "p = m"; cases "q = m") (auto simp: cmp_refl intro: cmp_trans [of _ "xs ! m"])

lemma partitioned_below: "partitioned cmp xs a m b \<Longrightarrow> below cmp xs a b \<Longrightarrow> a \<le> m \<Longrightarrow> below cmp xs (Suc m) b"
proof -
  assume *: "partitioned cmp xs a m b" "below cmp xs a b" "a \<le> m"
  have "cmp (xs ! p) (xs ! q) \<le> 0" if "p < Suc m" "Suc m \<le> q" "q < b" for p q
    using partitioned_cross [OF *(1), of p q] *(2,3) that by (cases "p < a") (simp_all add: below_def)
  then show ?thesis by (simp add: below_def)
qed

lemma partitioned_sorted:
  "partitioned cmp xs a m b \<Longrightarrow> sorted_on cmp xs a m \<Longrightarrow> sorted_on cmp xs (Suc m) b \<Longrightarrow> a \<le> m \<Longrightarrow> sorted_on cmp xs a b"
proof -
  assume *: "partitioned cmp xs a m b" "sorted_on cmp xs a m" "sorted_on cmp xs (Suc m) b" "a \<le> m"
  have "cmp (xs ! p) (xs ! q) \<le> 0" if "a \<le> p" "p < q" "q < b" for p q
  proof (cases "q < m \<or> m < p")
    case True
    then show ?thesis using *(2,3) that by (auto simp: sorted_on_def)
  next
    case False
    then show ?thesis using partitioned_cross [OF *(1), of p q] that by simp
  qed
  then show ?thesis by (simp add: sorted_on_def)
qed

text \<open>The two recursive calls, in either order.\<close>

lemma sorts_left_right:
  assumes "partitioned cmp xs a m b" "below cmp xs a b" "a \<le> m" "m < b" "b \<le> length xs"
    and "sorts cmp a m xs ys" "sorts cmp (Suc m) b ys zs"
  shows "perm_range a b xs zs \<and> sorted_on cmp zs a b"
proof -
  have m: "m \<le> length xs" and len: "b \<le> length ys" using assms(4,5) sorts_length [OF assms(6)] by simp_all
  have y: "perm_range a m xs ys" "sorted_on cmp ys a m"
    using assms(6) below_mono [OF assms(2)] assms(4) comparison_axioms by (auto simp: sorts_def)
  have yb: "perm_range a b xs ys" by (rule perm_range_mono [OF y(1)]) (use assms(4) in simp_all)
  have py: "partitioned cmp ys a m b" by (rule partitioned_left [OF assms(1) y(1) m])
  have "below cmp ys (Suc m) b"
    by (rule partitioned_below [OF py below_perm [OF yb assms(5,2)] assms(3)])
  then have z: "perm_range (Suc m) b ys zs" "sorted_on cmp zs (Suc m) b"
    using assms(7) comparison_axioms by (auto simp: sorts_def)
  have "sorted_on cmp zs a m"
    by (rule sorted_on_cong [OF _ y(2)]) (rule perm_range_outside [OF z(1)], simp)
  then have "sorted_on cmp zs a b"
    by (rule partitioned_sorted [OF partitioned_right [OF py z(1) len] _ z(2) assms(3)])
  moreover have "perm_range a b ys zs" by (rule perm_range_mono [OF z(1)]) (use assms(3) in simp_all)
  ultimately show ?thesis using perm_range_trans [OF yb] by blast
qed

lemma sorts_right_left:
  assumes "partitioned cmp xs a m b" "below cmp xs a b" "a \<le> m" "m < b" "b \<le> length xs"
    and "sorts cmp (Suc m) b xs ys" "sorts cmp a m ys zs"
  shows "perm_range a b xs zs \<and> sorted_on cmp zs a b"
proof -
  have m: "m \<le> length ys" using assms(4,5) sorts_length [OF assms(6)] by simp
  have y: "perm_range (Suc m) b xs ys" "sorted_on cmp ys (Suc m) b"
    using assms(6) partitioned_below [OF assms(1-3)] comparison_axioms by (auto simp: sorts_def)
  have yb: "perm_range a b xs ys" by (rule perm_range_mono [OF y(1)]) (use assms(3) in simp_all)
  have py: "partitioned cmp ys a m b" by (rule partitioned_right [OF assms(1) y(1) assms(5)])
  have "below cmp ys a m"
    by (rule below_mono [OF below_perm [OF yb assms(5,2)]]) (use assms(4) in simp)
  then have z: "perm_range a m ys zs" "sorted_on cmp zs a m"
    using assms(7) comparison_axioms by (auto simp: sorts_def)
  have "sorted_on cmp zs (Suc m) b"
    by (rule sorted_on_cong [OF _ y(2)]) (rule perm_range_outside [OF z(1)], simp)
  then have "sorted_on cmp zs a b"
    by (rule partitioned_sorted [OF partitioned_left [OF py z(1) m] z(2) _ assms(3)])
  moreover have "perm_range a b ys zs" by (rule perm_range_mono [OF z(1)]) (use assms(4) in simp_all)
  ultimately show ?thesis using perm_range_trans [OF yb] by blast
qed

text \<open>The pivot is not greater than its left neighbour: everything up to it is equal to it.\<close>

lemma sorts_equal:
  assumes "below cmp xs a b" "0 < a" "b \<le> length xs" "a \<le> pivot" "pivot < b"
    "\<not> cmp (xs ! (a - 1)) (xs ! pivot) < 0"
    and ys: "perm_range a b xs ys" "ys ! a = xs ! pivot" "a < i" "i \<le> b"
      "\<forall>k. a < k \<longrightarrow> k < i \<longrightarrow> \<not> cmp (ys ! a) (ys ! k) < 0" "\<forall>k. i \<le> k \<longrightarrow> k < b \<longrightarrow> cmp (ys ! a) (ys ! k) < 0"
    and zs: "sorts cmp i b ys zs"
  shows "perm_range a b xs zs \<and> sorted_on cmp zs a b"
proof -
  have bel: "below cmp ys a b" by (rule below_perm [OF ys(1) assms(3,1)])
  have len: "b \<le> length ys" using perm_range_length [OF ys(1)] assms(3) by simp
  have y1: "ys ! (a - 1) = xs ! (a - 1)" using perm_range_outside [OF ys(1), of "a - 1"] assms(2) by simp
  have min: "cmp (ys ! a) (ys ! k) \<le> 0" if "a \<le> k" "k < b" for k
  proof -
    have "cmp (ys ! (a - 1)) (ys ! k) \<le> 0" using bel that assms(2) by (simp add: below_def)
    moreover have "cmp (ys ! a) (ys ! (a - 1)) \<le> 0" using not_less [OF assms(6)] y1 ys(2) by simp
    ultimately show ?thesis using cmp_trans by blast
  qed
  have max: "cmp (ys ! k) (ys ! a) \<le> 0" if "a \<le> k" "k < i" for k
    using that ys(5) not_less [of "ys ! a" "ys ! k"] cmp_refl [of "ys ! a"] by (cases "k = a") simp_all
  have sy: "sorted_on cmp ys a i"
    unfolding sorted_on_def
  proof (intro allI impI)
    fix p q assume "a \<le> p" "p < q" "q < i"
    then show "cmp (ys ! p) (ys ! q) \<le> 0"
      using max [of p] min [of q] ys(4) cmp_trans [of "ys ! p" "ys ! a" "ys ! q"] by simp
  qed
  have bi: "below cmp ys i b"
    unfolding below_def
  proof (intro allI impI)
    fix p q assume "p < i" "i \<le> q" "q < b"
    then show "cmp (ys ! p) (ys ! q) \<le> 0"
      using bel max [of p] min [of q] ys(3) cmp_trans [of "ys ! p" "ys ! a" "ys ! q"]
      by (cases "p < a") (auto simp: below_def)
  qed
  then have z: "perm_range i b ys zs" "sorted_on cmp zs i b"
    using zs comparison_axioms by (auto simp: sorts_def)
  have left: "sorted_on cmp zs a i"
    by (rule sorted_on_cong [OF _ sy]) (rule perm_range_outside [OF z(1)], simp)
  have "below cmp zs i b" by (rule below_perm [OF z(1) len bi])
  then have "sorted_on cmp zs a b"
    by (intro sorted_on_join [OF left z(2)]) (simp add: below_def)
  moreover have "perm_range a b ys zs" by (rule perm_range_mono [OF z(1)]) (use ys(3) in simp_all)
  ultimately show ?thesis using perm_range_trans [OF ys(1)] by blast
qed

end

text \<open>The rest of a call, after the stages that only prepare the range.\<close>

definition pdq_recurse ::
  "('a \<Rightarrow> 'a \<Rightarrow> int) \<Rightarrow> 'a list \<Rightarrow> nat \<Rightarrow> nat \<Rightarrow> nat \<Rightarrow> nat \<Rightarrow> bool \<Rightarrow> bool \<Rightarrow> bool \<Rightarrow> 'a list panicking" where
  "pdq_recurse cmp xs a b pivot limit equal was_balanced was_partitioned =
     (if equal then do {
        (xs, a') \<leftarrow> partition_equal cmp xs a b pivot;
        pdqsort cmp xs a' b limit was_balanced was_partitioned
      } else do {
        (xs, mid, already_partitioned) \<leftarrow> partition cmp xs a b pivot;
        if mid - a < b - mid then do {
          xs \<leftarrow> pdqsort cmp xs a mid limit True True;
          pdqsort cmp xs (mid + 1) b limit (mid - a \<ge> (b - a) div 8) already_partitioned
        } else do {
          xs \<leftarrow> pdqsort cmp xs (mid + 1) b limit True True;
          pdqsort cmp xs a mid limit (b - mid \<ge> (b - a) div 8) already_partitioned
        }
      })"

lemma pdqsort_stages:
  assumes "12 < b - a" "0 < limit" "b \<le> length xs"
  shows "\<exists>ys lim pivot r equal.
    pdqsort cmp xs a b limit was_balanced was_partitioned =
      (if r then Some ys else pdq_recurse cmp ys a b pivot lim equal was_balanced was_partitioned) \<and>
    a \<le> pivot \<and> pivot < b \<and> perm_range 0 b xs ys \<and>
    (equal \<longrightarrow> 0 < a \<and> \<not> cmp (ys ! (a - 1)) (ys ! pivot) < 0) \<and>
    (comparison cmp \<longrightarrow> below cmp xs a b \<longrightarrow> perm_range a b xs ys \<and> (r \<longrightarrow> sorted_on cmp ys a b))"
proof -
  have n: "b - a \<ge> 8" "a < b" "\<not> b < a" "\<not> b - a \<le> 12" "limit \<noteq> 0" using assms(1,2) by auto
  obtain xs1 l1 where s1: "(if \<not> was_balanced then do { xs \<leftarrow> break_patterns xs a b; Some (xs, limit - 1) }
      else Some (xs, limit)) = Some (xs1, l1)" "perm_range a b xs xs1"
    using break_patterns_spec [OF n(1) assms(3)] by (cases was_balanced) auto
  have len1: "b \<le> length xs1" using perm_range_length [OF s1(2)] assms(3) by simp
  obtain p1 h1 where s2: "choose_pivot cmp xs1 a b = Some (p1, h1)" "a \<le> p1" "p1 < b"
    using choose_pivot_spec [OF n(1) len1] by blast
  obtain xs2 p2 h2 where s3: "(if h1 = Decreasing then do { xs \<leftarrow> reverse_range xs1 a b;
      Some (xs, b - 1 - (p1 - a), Increasing) } else Some (xs1, p1, h1)) = Some (xs2, p2, h2)"
      "perm_range a b xs1 xs2" "a \<le> p2" "p2 < b"
    using reverse_range_spec [OF less_imp_le [OF n(2)] len1] s2(2,3) by (cases "h1 = Decreasing") auto
  have len2: "b \<le> length xs2" using perm_range_length [OF s3(2)] len1 by simp
  obtain xs3 r where s4: "(if was_balanced \<and> was_partitioned \<and> h2 = Increasing
        then partial_insertion_sort cmp xs2 a b else Some (xs2, False)) = Some (xs3, r)" "perm_range 0 b xs2 xs3"
      "comparison cmp \<longrightarrow> below cmp xs2 a b \<longrightarrow> perm_range a b xs2 xs3 \<and> (r \<longrightarrow> sorted_on cmp xs3 a b)"
    using partial_rounds_spec [of a "a + 1" b xs2 cmp 5] n(2) len2
    by (cases "was_balanced \<and> was_partitioned \<and> h2 = Increasing")
       (auto simp: partial_insertion_sort_def sorted_on_def)
  have len3: "b \<le> length xs3" using perm_range_length [OF s4(2)] len2 by simp
  define e where "e = (a > 0 \<and> \<not> cmp (xs3 ! (a - 1)) (xs3 ! p2) < 0)"
  have s5: "(if a > 0 then map_option Not (less_at cmp xs3 (a - 1) p2) else Some False) = Some e"
    using n(2) s3(4) len3 by (simp add: e_def)
  have p12: "perm_range a b xs xs2" by (rule perm_range_trans [OF s1(2) s3(2)])
  have p03: "perm_range 0 b xs xs3"
    by (rule perm_range_trans [OF perm_range_mono [OF p12] s4(2)]) auto
  have ord: "perm_range a b xs xs3 \<and> (r \<longrightarrow> sorted_on cmp xs3 a b)" if "comparison cmp" "below cmp xs a b"
    using s4(3) that(1) below_perm [OF p12 assms(3) that(2)] perm_range_trans [OF p12] by blast
  have "pdqsort cmp xs a b limit was_balanced was_partitioned =
      (if r then Some xs3 else pdq_recurse cmp xs3 a b p2 l1 e was_balanced was_partitioned)"
    unfolding pdqsort.simps [of cmp xs a b limit was_balanced was_partitioned] s1(1) s2(1) s3(1) s4(1) s5
      pdq_recurse_def bind.simps prod.case
    by (simp only: n(3-5) if_False s1(1) s2(1) s3(1) s4(1) s5 bind.bind_lunit prod.case)
  then show ?thesis using s3(3,4) p03 ord e_def by blast
qed

lemma sorts_after:
  assumes "perm_range 0 b xs ys" "comparison cmp \<longrightarrow> below cmp xs a b \<longrightarrow> perm_range a b xs ys"
    "b \<le> length xs" "sorts cmp a b ys zs"
  shows "sorts cmp a b xs zs"
proof -
  have "perm_range 0 b xs zs" using assms(1,4) perm_range_trans unfolding sorts_def by blast
  moreover have "perm_range a b xs zs \<and> sorted_on cmp zs a b" if "comparison cmp" "below cmp xs a b"
  proof -
    have p: "perm_range a b xs ys" using assms(2) that by blast
    have "below cmp ys a b" by (rule below_perm [OF p assms(3) that(2)])
    then show ?thesis using assms(4) that(1) perm_range_trans [OF p] unfolding sorts_def by blast
  qed
  ultimately show ?thesis by (simp add: sorts_def)
qed

lemma sorts_perm: "sorts cmp a b xs ys \<Longrightarrow> b \<le> b' \<Longrightarrow> perm_range 0 b' xs ys"
  unfolding sorts_def by (blast intro: perm_range_mono)

text \<open>
  The recursion of one call, under the assumption \<open>IH\<close> that calls on shorter ranges do what they
  should.
\<close>

lemma recurse_equal:
  assumes IH: "\<And>xs i lim wb wp. b - i < b - a \<Longrightarrow> i \<le> b \<Longrightarrow> b \<le> length xs \<Longrightarrow>
      \<exists>ys. pdqsort cmp xs i b lim wb wp = Some ys \<and> sorts cmp i b xs ys"
    and pv: "a \<le> pivot" "pivot < b" "b \<le> length ys" and eq: "0 < a" "\<not> cmp (ys ! (a - 1)) (ys ! pivot) < 0"
  shows "\<exists>zs. pdq_recurse cmp ys a b pivot lim True wb wp = Some zs \<and> sorts cmp a b ys zs"
proof -
  obtain us i where us: "partition_equal cmp ys a b pivot = Some (us, i)" "a < i" "i \<le> b"
      "perm_range a b ys us" "us ! a = ys ! pivot"
      "\<forall>k. a < k \<longrightarrow> k < i \<longrightarrow> \<not> cmp (us ! a) (us ! k) < 0" "\<forall>k. i \<le> k \<longrightarrow> k < b \<longrightarrow> cmp (us ! a) (us ! k) < 0"
    using partition_equal_spec [OF pv, of cmp] by blast
  have "b \<le> length us" "b - i < b - a" using perm_range_length [OF us(4)] pv us(2) by auto
  then obtain zs where zs: "pdqsort cmp us i b lim wb wp = Some zs" "sorts cmp i b us zs"
    using IH us(3) by blast
  have "perm_range 0 b ys zs"
    by (rule perm_range_trans [OF perm_range_mono [OF us(4)] sorts_perm [OF zs(2)]]) simp_all
  moreover have "perm_range a b ys zs \<and> sorted_on cmp zs a b" if "comparison cmp" "below cmp ys a b"
    by (rule comparison.sorts_equal [OF that eq(1) pv(3,1,2) eq(2) us(4,5,2,3,6,7) zs(2)])
  ultimately show ?thesis using us(1) zs(1) by (simp add: pdq_recurse_def sorts_def)
qed

lemma recurse_split:
  assumes IH: "\<And>xs i j lim wb wp. j - i < b - a \<Longrightarrow> i \<le> j \<Longrightarrow> j \<le> length xs \<Longrightarrow>
      \<exists>ys. pdqsort cmp xs i j lim wb wp = Some ys \<and> sorts cmp i j xs ys"
    and pv: "a \<le> pivot" "pivot < b" "b \<le> length ys"
  shows "\<exists>zs. pdq_recurse cmp ys a b pivot lim False wb wp = Some zs \<and> sorts cmp a b ys zs"
proof -
  obtain us m fl where us: "partition cmp ys a b pivot = Some (us, m, fl)" "a \<le> m" "m < b"
      "perm_range a b ys us" "\<forall>k. a \<le> k \<longrightarrow> k < m \<longrightarrow> cmp (us ! k) (us ! m) < 0"
      "\<forall>k. m < k \<longrightarrow> k < b \<longrightarrow> \<not> cmp (us ! k) (us ! m) < 0"
    using partition_spec [OF pv, of cmp] by blast
  have lenu: "b \<le> length us" "m \<le> length us" using perm_range_length [OF us(4)] pv us(3) by simp_all
  have part: "partitioned cmp us a m b" if "comparison cmp"
    using us(5,6) comparison.not_less [OF that] by (auto simp: partitioned_def less_imp_le)
  have size: "m - a < b - a" "b - Suc m < b - a" "Suc m \<le> b" using us(2,3) by auto
  have "\<exists>zs. pdq_recurse cmp ys a b pivot lim False wb wp = Some zs \<and> sorts cmp a b us zs"
  proof (cases "m - a < b - m")
    case True
    obtain vs where vs: "pdqsort cmp us a m lim True True = Some vs" "sorts cmp a m us vs"
      using IH [OF size(1) us(2) lenu(2)] by blast
    have "b \<le> length vs" using sorts_length [OF vs(2)] lenu by simp
    then obtain zs where zs: "pdqsort cmp vs (Suc m) b lim (m - a \<ge> (b - a) div 8) fl = Some zs"
        "sorts cmp (Suc m) b vs zs"
      using IH [OF size(2,3)] by blast
    have "perm_range 0 b us zs"
      by (rule perm_range_trans [OF sorts_perm [OF vs(2)] sorts_perm [OF zs(2)]]) (use us(3) in simp_all)
    then have "sorts cmp a b us zs"
      using comparison.sorts_left_right [OF _ part _ us(2,3) lenu(1) vs(2) zs(2)] by (simp add: sorts_def)
    then show ?thesis using us(1) vs(1) zs(1) True by (simp add: pdq_recurse_def)
  next
    case False
    obtain vs where vs: "pdqsort cmp us (Suc m) b lim True True = Some vs" "sorts cmp (Suc m) b us vs"
      using IH [OF size(2,3) lenu(1)] by blast
    have "m \<le> length vs" using sorts_length [OF vs(2)] lenu by simp
    then obtain zs where zs: "pdqsort cmp vs a m lim (b - m \<ge> (b - a) div 8) fl = Some zs" "sorts cmp a m vs zs"
      using IH [OF size(1) us(2)] by blast
    have "perm_range 0 b us zs"
      by (rule perm_range_trans [OF sorts_perm [OF vs(2)] sorts_perm [OF zs(2)]]) (use us(3) in simp_all)
    then have "sorts cmp a b us zs"
      using comparison.sorts_right_left [OF _ part _ us(2,3) lenu(1) vs(2) zs(2)] by (simp add: sorts_def)
    then show ?thesis using us(1) vs(1) zs(1) False by (simp add: pdq_recurse_def)
  qed
  moreover have "perm_range 0 b ys us" by (rule perm_range_mono [OF us(4)]) simp_all
  ultimately show ?thesis using sorts_after [OF _ _ pv(3)] us(4) by blast
qed

lemma pdqsort_spec:
  assumes "a \<le> b" "b \<le> length xs"
  shows "\<exists>ys. pdqsort cmp xs a b limit was_balanced was_partitioned = Some ys \<and> sorts cmp a b xs ys"
  using assms
proof (induction "b - a" arbitrary: xs a b limit was_balanced was_partitioned rule: less_induct)
  case less
  note IH = less.hyps and len = less.prems(2)
  show ?case
  proof (cases "b - a \<le> 12 \<or> limit = 0")
    case True
    have "perm_range a b xs ys \<Longrightarrow> perm_range 0 b xs ys" for ys
      by (rule perm_range_mono) auto
    then show ?thesis
      using True insertion_sort_spec [OF less.prems, of cmp] heap_sort_spec [OF less.prems, of cmp] less.prems(1)
      by (subst pdqsort.simps) (auto simp: sorts_def)
  next
    case False
    then have big: "12 < b - a" "0 < limit" by auto
    obtain ys lim pivot r equal where run:
      "pdqsort cmp xs a b limit was_balanced was_partitioned =
        (if r then Some ys else pdq_recurse cmp ys a b pivot lim equal was_balanced was_partitioned)"
      and pv: "a \<le> pivot" "pivot < b" and py: "perm_range 0 b xs ys"
      and eq: "equal \<longrightarrow> 0 < a \<and> \<not> cmp (ys ! (a - 1)) (ys ! pivot) < 0"
      and ord: "comparison cmp \<longrightarrow> below cmp xs a b \<longrightarrow> perm_range a b xs ys \<and> (r \<longrightarrow> sorted_on cmp ys a b)"
      using pdqsort_stages [OF big len, of cmp was_balanced was_partitioned] by blast
    have leny: "b \<le> length ys" using perm_range_length [OF py] len by simp
    show ?thesis
    proof (cases r)
      case True
      then show ?thesis using run py ord by (auto simp: sorts_def)
    next
      case False
      have "\<exists>zs. pdq_recurse cmp ys a b pivot lim equal was_balanced was_partitioned = Some zs \<and> sorts cmp a b ys zs"
        using recurse_equal [OF IH pv leny] recurse_split [OF IH pv leny] eq by (cases equal) simp_all
      then show ?thesis using run False sorts_after [OF py _ len] ord by auto
    qed
  qed
qed

lemma go_sort_perm: "\<exists>ys. go_sort cmp xs = Some ys \<and> mset ys = mset xs"
  using pdqsort_spec [of 0 "length xs" xs cmp "bit_length (length xs)" True True]
  by (auto simp: go_sort_def sorts_def perm_range_def)

lemma go_sort_order:
  assumes "comparison cmp"
  shows "\<exists>ys. go_sort cmp xs = Some ys \<and> mset ys = mset xs \<and> sorted_wrt (\<lambda>x y. cmp x y \<le> 0) ys"
proof -
  obtain ys where ys: "go_sort cmp xs = Some ys" "sorts cmp 0 (length xs) xs ys"
    using pdqsort_spec [of 0 "length xs" xs cmp "bit_length (length xs)" True True] by (auto simp: go_sort_def)
  then have "perm_range 0 (length xs) xs ys" "sorted_on cmp ys 0 (length xs)"
    using assms by (auto simp: sorts_def below_def)
  then show ?thesis
    using ys(1) by (auto simp: perm_range_def sorted_on_def sorted_wrt_iff_nth_less)
qed

section \<open>Properties\<close>

text \<open>
  C29. Sorting returns, whatever the comparison function answers, and the result is a permutation of
  the input: no index is ever out of range, no \<open>usize\<close> underflows, and every loop ends, also with a
  comparator that is no order at all.
\<close>

theorem go_sort_never_panics: "\<exists>ys. go_sort cmp xs = Some ys \<and> mset ys = mset xs"
  by (rule go_sort_perm)

text \<open>
  C6. With a comparator that meets the ordering contract the result is sorted: no element is greater
  than one behind it.
\<close>

theorem go_sort_sorts:
  assumes "comparison cmp"
  shows "\<exists>ys. go_sort cmp xs = Some ys \<and> mset ys = mset xs \<and> sorted_wrt (\<lambda>x y. cmp x y \<le> 0) ys"
  by (rule go_sort_order [OF assms])

theorem go_sort_sorts_witness:
  "\<exists>ys. go_sort (\<lambda>a b. sgn (a - b)) [3, 1, 2 :: int] = Some ys \<and> mset ys = mset [3, 1, 2] \<and>
     sorted_wrt (\<lambda>x y. sgn (x - y) \<le> 0) ys"
  by (rule go_sort_sorts) (rule comparison_int [of "\<lambda>x. x"])

end
