(* ===== verification/Go_Sort_Natural.thy ===== *)
theory Go_Sort_Natural
  imports Go_Sort_Correct
begin

text \<open>
  The sort looks at its elements only through the comparison: renaming the elements commutes with
  every routine of \<open>Go_Sort\<close>. It follows that a comparison has to meet the ordering contract only on
  the elements of the slice, which is what the callers that compare by a wrapping subtraction need.
\<close>

section \<open>Renaming commutes with the routines\<close>

lemma bind_map_option: "Option.bind (map_option g m) k = Option.bind m (\<lambda>x. k (g x))"
  by (cases m) simp_all

lemma map_option_bind: "map_option g (Option.bind m k) = Option.bind m (\<lambda>x. map_option g (k x))"
  by (cases m) simp_all

lemmas natural_simps = bind_map_option map_option_bind option.map_comp comp_def

abbreviation (input) on :: "('a \<Rightarrow> 'b) \<Rightarrow> ('b \<Rightarrow> 'b \<Rightarrow> 'c) \<Rightarrow> 'a \<Rightarrow> 'a \<Rightarrow> 'c" where
  "on f c x y \<equiv> c (f x) (f y)"

lemma at_map: "at (map f xs) i = map_option f (at xs i)"
  by (simp add: at_def)

lemma swap_at_map: "swap_at (map f xs) i j = map_option (map f) (swap_at xs i j)"
  by (simp add: swap_at_def map_update)

lemma less_at_map: "less_at c (map f xs) i j = less_at (on f c) xs i j"
  by (simp add: less_at_def at_map natural_simps)

lemma reverse_range_map: "reverse_range (map f xs) a b = map_option (map f) (reverse_range xs a b)"
  by (simp add: reverse_range_def take_map drop_map rev_map)

lemmas access_map = at_map swap_at_map less_at_map reverse_range_map

lemma for_each_map:
  assumes "\<And>i s. body' i (g s) = map_option g (body i s)"
  shows "for_each body' is (g s) = map_option g (for_each body is s)"
  by (induction "is" arbitrary: s) (simp_all add: assms natural_simps)

lemma insert_down_map: "insert_down c (map f xs) a j = map_option (map f) (insert_down (on f c) xs a j)"
proof (induction j arbitrary: xs)
  case 0
  show ?case by (simp add: insert_down.simps)
next
  case (Suc j)
  show ?case
    by (subst insert_down.simps, subst (2) insert_down.simps)
       (auto simp: access_map natural_simps Suc intro!: Option.bind_cong)
qed

lemma insertion_sort_map: "insertion_sort c (map f xs) a b = map_option (map f) (insertion_sort (on f c) xs a b)"
  unfolding insertion_sort_def by (rule for_each_map) (rule insert_down_map)

lemma sift_down_map:
  "sift_down c (map f xs) root hi first = map_option (map f) (sift_down (on f c) xs root hi first)"
proof (induction "hi - root" arbitrary: xs root rule: less_induct)
  case less
  show ?case
  proof (cases "2 * root + 1 < hi")
    case True
    have IH: "sift_down c (map f ys) k hi first = map_option (map f) (sift_down (on f c) ys k hi first)"
      if "k = 2 * root + 1 \<or> k = 2 * root + 1 + 1" for ys k
      using less [of k ys] that True by auto
    show ?thesis
      by (subst sift_down.simps, subst (2) sift_down.simps)
         (auto simp: Let_def access_map natural_simps IH intro!: Option.bind_cong)
  qed (simp add: sift_down_leaf)
qed

lemma heap_sort_map: "heap_sort c (map f xs) a b = map_option (map f) (heap_sort (on f c) xs a b)"
proof -
  have 1: "for_each (\<lambda>i xs. sift_down c xs i n a) is (map f xs) =
      map_option (map f) (for_each (\<lambda>i xs. sift_down (on f c) xs i n a) is xs)" for n "is" xs
    by (rule for_each_map) (rule sift_down_map)
  have 2: "for_each (\<lambda>i xs. do { xs \<leftarrow> swap_at xs a (a + i); sift_down c xs 0 i a }) is (map f xs) =
      map_option (map f) (for_each (\<lambda>i xs. do { xs \<leftarrow> swap_at xs a (a + i); sift_down (on f c) xs 0 i a }) is xs)" for "is" xs
    by (rule for_each_map) (simp add: access_map natural_simps sift_down_map)
  show ?thesis unfolding heap_sort_def Let_def 1 by (simp add: natural_simps 2)
qed

lemma scan_up_map: "scan_up t (map f xs) a i j = scan_up (on f t) xs a i j"
proof (induction "Suc j - i" arbitrary: i)
  case (Suc d)
  then have "scan_up t (map f xs) a (i + 1) j = scan_up (on f t) xs a (i + 1) j" by simp
  then show ?case
    by (subst scan_up.simps, subst (2) scan_up.simps) (auto simp: access_map natural_simps intro!: Option.bind_cong)
qed (simp add: scan_up.simps)

lemma scan_down_map: "scan_down t (map f xs) a i j = scan_down (on f t) xs a i j"
proof (induction j)
  case (Suc j)
  then show ?case
    by (subst scan_down.simps, subst (2) scan_down.simps) (auto simp: access_map natural_simps intro!: Option.bind_cong)
qed (subst scan_down.simps, subst (2) scan_down.simps, auto simp: access_map natural_simps intro!: Option.bind_cong)

lemma hoare_loop_map:
  "hoare_loop t (map f xs) a i j = map_option (\<lambda>(ys, i, j). (map f ys, i, j)) (hoare_loop (on f t) xs a i j)"
proof (induction "Suc j - i" arbitrary: xs i j rule: less_induct)
  case less
  have IH: "hoare_loop t (map f ys) a (i' + 1) (j' - 1) =
      map_option (\<lambda>(ys, i, j). (map f ys, i, j)) (hoare_loop (on f t) ys a (i' + 1) (j' - 1))"
    if "scan_up (on f t) xs a i j = Some i'" "scan_down (\<lambda>x p. \<not> on f t x p) xs a i' j = Some j'"
      "\<not> i' > j'" "j' \<noteq> 0" for ys i' j'
    using scan_up_le [OF that(1)] scan_down_le [OF that(2)] that(3,4) by (intro less) auto
  show ?case
    unfolding hoare_loop.simps [of t "map f xs"] hoare_loop.simps [of "on f t" xs] scan_up_map scan_down_map
      access_map natural_simps
    by (auto simp: access_map natural_simps IH [simplified] intro!: Option.bind_cong)
qed

lemma partition_map:
  "partition c (map f xs) a b pivot = map_option (\<lambda>(ys, r). (map f ys, r)) (partition (on f c) xs a b pivot)"
  by (auto simp: partition_def access_map natural_simps scan_up_map scan_down_map hoare_loop_map
      case_prod_beta intro!: Option.bind_cong)

lemma partition_equal_map:
  "partition_equal c (map f xs) a b pivot = map_option (\<lambda>(ys, r). (map f ys, r)) (partition_equal (on f c) xs a b pivot)"
  by (auto simp: partition_equal_def access_map natural_simps hoare_loop_map case_prod_beta intro!: Option.bind_cong)

lemma scan_sorted_map: "scan_sorted c (map f xs) i b = scan_sorted (on f c) xs i b"
proof (induction "b - i" arbitrary: i)
  case (Suc d)
  then have "scan_sorted c (map f xs) (i + 1) b = scan_sorted (on f c) xs (i + 1) b" by simp
  then show ?case
    by (subst scan_sorted.simps, subst (2) scan_sorted.simps) (auto simp: access_map intro!: Option.bind_cong)
qed (simp add: scan_sorted.simps)

lemma shift_down_map: "shift_down c (map f xs) j = map_option (map f) (shift_down (on f c) xs j)"
  by (induction j arbitrary: xs) (auto simp: access_map natural_simps intro!: Option.bind_cong)

lemma shift_up_map: "shift_up c (map f xs) j b = map_option (map f) (shift_up (on f c) xs j b)"
proof (induction "b - j" arbitrary: xs j)
  case (Suc d)
  then have "shift_up c (map f ys) (j + 1) b = map_option (map f) (shift_up (on f c) ys (j + 1) b)" for ys by simp
  then show ?case
    by (subst shift_up.simps, subst (2) shift_up.simps) (auto simp: access_map natural_simps intro!: Option.bind_cong)
qed (simp add: shift_up.simps)

lemma partial_rounds_map:
  "partial_rounds c n (map f xs) a b i = map_option (\<lambda>(ys, r). (map f ys, r)) (partial_rounds (on f c) n xs a b i)"
  by (induction n arbitrary: xs i)
     (auto simp: access_map natural_simps scan_sorted_map shift_down_map shift_up_map intro!: Option.bind_cong)

lemma break_patterns_map: "break_patterns (map f xs) a b = map_option (map f) (break_patterns xs a b)"
proof -
  have "for_each (\<lambda>index (random, xs).
          let random = xorshift random; other = unat (random AND (m - 1));
              other = (if other \<ge> n then other - n else other) in
          map_option (Pair random) (swap_at xs index (a + other))) is (apsnd (map f) s) =
      map_option (apsnd (map f)) (for_each (\<lambda>index (random, xs).
          let random = xorshift random; other = unat (random AND (m - 1));
              other = (if other \<ge> n then other - n else other) in
          map_option (Pair random) (swap_at xs index (a + other))) is s)" for m :: "64 word" and n "is" s
    by (rule for_each_map) (auto simp: Let_def access_map natural_simps split: prod.splits)
  from this [of _ _ _ "(r, xs)" for r] show ?thesis
    by (simp add: break_patterns_def Let_def [of "b - a"] Let_def [of "if _ then _ else _ :: 64 word"] natural_simps)
qed

lemma order2_map: "order2 c (map f xs) a b s = order2 (on f c) xs a b s"
  by (simp add: order2_def access_map)

lemma median_map: "median c (map f xs) a b d s = median (on f c) xs a b d s"
  by (simp add: median_def order2_map)

lemma choose_pivot_map: "choose_pivot c (map f xs) a b = choose_pivot (on f c) xs a b"
  by (simp add: choose_pivot_def Let_def median_map cong: if_cong)

lemma partial_insertion_sort_map:
  "partial_insertion_sort c (map f xs) a b = map_option (\<lambda>(ys, r). (map f ys, r)) (partial_insertion_sort (on f c) xs a b)"
  by (simp add: partial_insertion_sort_def partial_rounds_map)

lemmas stage_map = break_patterns_map choose_pivot_map partial_insertion_sort_map
  partition_map partition_equal_map insertion_sort_map heap_sort_map

lemma pdqsort_unfold:
  "pdqsort c xs a b limit wb wp =
     (if b < a then None
      else if b - a \<le> 12 then insertion_sort c xs a b
      else if limit = 0 then heap_sort c xs a b
      else do {
        (xs, limit) \<leftarrow> (if \<not> wb then do { xs \<leftarrow> break_patterns xs a b; Some (xs, limit - 1) } else Some (xs, limit));
        (pivot, hint) \<leftarrow> choose_pivot c xs a b;
        (xs, pivot, hint) \<leftarrow> (if hint = Decreasing then do {
            xs \<leftarrow> reverse_range xs a b; Some (xs, b - 1 - (pivot - a), Increasing) } else Some (xs, pivot, hint));
        (xs, sorted_now) \<leftarrow> (if wb \<and> wp \<and> hint = Increasing then partial_insertion_sort c xs a b else Some (xs, False));
        if sorted_now then Some xs
        else do {
          equal \<leftarrow> (if a > 0 then map_option Not (less_at c xs (a - 1) pivot) else Some False);
          pdq_recurse c xs a b pivot limit equal wb wp
        }
      })"
  unfolding pdqsort.simps [of c xs a b limit wb wp] pdq_recurse_def ..

lemma pdq_recurse_map:
  assumes IH: "\<And>xs a' b' limit wb wp. b' - a' < b - a \<Longrightarrow>
      pdqsort c (map f xs) a' b' limit wb wp = map_option (map f) (pdqsort (on f c) xs a' b' limit wb wp)"
    and "a < b"
  shows "pdq_recurse c (map f xs) a b pivot limit equal wb wp =
    map_option (map f) (pdq_recurse (on f c) xs a b pivot limit equal wb wp)"
proof -
  have 1: "b - a' < b - a" if "partition_equal d ys a b pivot = Some (us, a')" for d ys and us :: "'x list" and a'
    using partition_equal_range [OF that] assms(2) by auto
  have 2: "m - a < b - a" "b - Suc m < b - a"
    if "partition d ys a b pivot = Some (us, m, fl)" for d ys and us :: "'x list" and m fl
    using partition_range [OF that assms(2)] by auto
  show ?thesis
    unfolding pdq_recurse_def partition_equal_map partition_map natural_simps
    by (auto simp: natural_simps IH 1 2 split: prod.splits intro!: Option.bind_cong)
qed

lemma pdqsort_map:
  "pdqsort c (map f xs) a b limit wb wp = map_option (map f) (pdqsort (on f c) xs a b limit wb wp)"
proof (induction "b - a" arbitrary: xs a b limit wb wp rule: less_induct)
  case less
  show ?case
  proof (cases "a < b")
    case True
    have rec: "pdq_recurse c (map f ys) a b pivot lim equal wb wp =
        map_option (map f) (pdq_recurse (on f c) ys a b pivot lim equal wb wp)" for ys pivot lim equal wb wp
      by (rule pdq_recurse_map [OF _ True]) (rule less)
    show ?thesis
      unfolding pdqsort_unfold [of c "map f xs"] pdqsort_unfold [of "on f c" xs] using rec
      by (auto simp: stage_map access_map natural_simps split: prod.splits intro!: Option.bind_cong)
  next
    case False
    then show ?thesis by (simp add: pdqsort_unfold insertion_sort_map)
  qed
qed

lemma go_sort_map: "go_sort c (map f xs) = map_option (map f) (go_sort (on f c) xs)"
  by (simp add: go_sort_def pdqsort_map)

section \<open>Sorting with an order on the elements only\<close>

definition comparison_on :: "'a set \<Rightarrow> ('a \<Rightarrow> 'a \<Rightarrow> int) \<Rightarrow> bool" where
  "comparison_on S c \<longleftrightarrow> (\<exists>d. comparison d \<and> (\<forall>x\<in>S. \<forall>y\<in>S. c x y = d x y))"

lemma go_sort_comparison_on:
  assumes "comparison_on (set xs) c"
  shows "\<exists>ys. go_sort c xs = Some ys \<and> mset ys = mset xs \<and> sorted_wrt (\<lambda>x y. c x y \<le> 0) ys"
proof (cases xs)
  case Nil
  then show ?thesis using go_sort_perm [of c xs] by auto
next
  case (Cons s rest)
  define f where "f = (\<lambda>x. if x \<in> set xs then x else s)"
  have fS: "f x \<in> set xs" and fid: "x \<in> set xs \<Longrightarrow> f x = x" for x using Cons by (auto simp: f_def)
  obtain d where d: "comparison d" "\<forall>x\<in>set xs. \<forall>y\<in>set xs. c x y = d x y"
    using assms by (auto simp: comparison_on_def)
  have "on f c = on f d" using d(2) fS by (intro ext) simp
  then have "comparison (on f c)" using comparison_key [OF d(1), of f] by simp
  then obtain ys where ys: "go_sort (on f c) xs = Some ys" "mset ys = mset xs" "sorted_wrt (\<lambda>x y. c (f x) (f y) \<le> 0) ys"
    using go_sort_order by blast
  have set: "set ys = set xs" using ys(2) by (metis set_mset_mset)
  have "map f xs = xs" "map f ys = ys" using fid set by (auto intro: map_idI)
  then have "go_sort c xs = Some ys" using go_sort_map [of c f xs] ys(1) by simp
  moreover have "sorted_wrt (\<lambda>x y. c x y \<le> 0) ys"
    by (rule sorted_wrt_mono_rel [OF _ ys(3)]) (simp add: set fid)
  ultimately show ?thesis using ys(2) by blast
qed

end
