(* ===== verification/Source_Mapper.thy ===== *)
theory Source_Mapper
  imports Source_Map_Generator Positions Paths Go_Sort_Natural
begin

text \<open>
  The document position mapper of \<open>crates/tsr_sourcemap/src/source_mapper.rs\<close>: it decodes a source map,
  turns its line and column pairs into byte positions, sorts them both ways and answers queries by
  binary search. It brings together the decoder, the position conversion, the paths and the sort. The
  host (the files' texts and line starts) and the lower-case table are arguments.

  A hash map from source index to mappings is an association list: the code never observes its order,
  only its number of keys. The assertion inside the comparator of the source mappings compares indices
  that are equal by construction of the lists, and is left out.
\<close>

section \<open>The model\<close>

record ecma_line_info =
  info_text :: bytes
  info_line_starts :: "int list"

record mapped_position =
  generated_position :: int
  source_position :: int
  mapped_source_index :: isize
  mapped_name_index :: isize

definition MISSING_POSITION :: int where
  "MISSING_POSITION = - 1"

definition is_source_mapped_position :: "mapped_position \<Rightarrow> bool" where
  "is_source_mapped_position m \<longleftrightarrow>
     mapped_source_index m \<noteq> MISSING_SOURCE \<and> source_position m \<noteq> MISSING_POSITION"

record document_position_mapper =
  mapper_case_sensitive :: bool
  source_file_absolute_paths :: "bytes list"
  source_to_source_index_map :: "bytes \<rightharpoonup> isize"
  generated_absolute_file_path :: bytes
  generated_mappings :: "mapped_position list"
  source_mappings :: "(isize \<times> mapped_position list) list"

record document_position =
  document_file_name :: bytes
  document_pos :: int

text \<open>The loop of \<open>binary_search_func\<close> between \<open>i\<close> and \<open>j\<close>; the comparison is a wrapping difference.\<close>

function search_between :: "(mapped_position \<Rightarrow> int) \<Rightarrow> mapped_position list \<Rightarrow> int \<Rightarrow> nat \<Rightarrow> nat \<Rightarrow> nat" where
  "search_between key x target i j =
     (if i < j then
        let h = (i + j) div 2 in
        if wrap64 (key (x ! h) - target) < 0 then search_between key x target (h + 1) j
        else search_between key x target i h
      else i)"
  by pat_completeness auto
termination
  by (relation "measure (\<lambda>(key, x, target, i, j). j - i)") auto

definition binary_search_func :: "(mapped_position \<Rightarrow> int) \<Rightarrow> mapped_position list \<Rightarrow> int \<Rightarrow> nat" where
  "binary_search_func key x target = search_between key x target 0 (length x)"

text \<open>A mapping as positions; an unknown file has no positions, a source index out of range panics.\<close>

definition position_in :: "(bytes \<Rightarrow> ecma_line_info option) \<Rightarrow> bytes \<Rightarrow> isize \<Rightarrow> isize \<Rightarrow> int panicking" where
  "position_in line_info file line character =
     (case line_info file of
        None \<Rightarrow> Some (- 1)
      | Some info \<Rightarrow>
          compute_position_of_line_and_utf16_character (info_line_starts info) (sint line) (sint character)
            (info_text info) True)"

definition process_mapping ::
  "(bytes \<Rightarrow> ecma_line_info option) \<Rightarrow> bytes \<Rightarrow> bytes list \<Rightarrow> mapping \<Rightarrow> mapped_position panicking" where
  "process_mapping line_info generated_path source_paths m =
     do {
       g \<leftarrow> position_in line_info generated_path (generated_line m) (generated_character m);
       s \<leftarrow> (if is_source_mapping m then
               (if unat (source_index m) < length source_paths
                then position_in line_info (source_paths ! unat (source_index m)) (source_line m) (source_character m)
                else None)
             else Some (- 1));
       Some \<lparr>generated_position = g, source_position = s, mapped_source_index = source_index m,
             mapped_name_index = name_index m\<rparr>
     }"

fun process_mappings ::
  "(bytes \<Rightarrow> ecma_line_info option) \<Rightarrow> bytes \<Rightarrow> bytes list \<Rightarrow> mapping list \<Rightarrow> mapped_position list panicking" where
  "process_mappings line_info g ps [] = Some []"
| "process_mappings line_info g ps (m # ms) =
     do { p \<leftarrow> process_mapping line_info g ps m; qs \<leftarrow> process_mappings line_info g ps ms; Some (p # qs) }"

text \<open>\<open>entry(source_index).or_default().push(mapping)\<close>\<close>

fun push_mapping :: "isize \<Rightarrow> mapped_position \<Rightarrow> (isize \<times> mapped_position list) list \<Rightarrow> (isize \<times> mapped_position list) list" where
  "push_mapping k m [] = [(k, [m])]"
| "push_mapping k m ((j, ms) # rest) = (if j = k then (j, ms @ [m]) # rest else (j, ms) # push_mapping k m rest)"

fun collect_sources :: "mapped_position list \<Rightarrow> (isize \<times> mapped_position list) list \<Rightarrow> (isize \<times> mapped_position list) list" where
  "collect_sources [] acc = acc"
| "collect_sources (m # ms) acc =
     collect_sources ms
       (if is_source_mapped_position m then push_mapping (mapped_source_index m) m acc else acc)"

text \<open>\<open>dedup_by\<close>: an element equal to the last one kept is dropped.\<close>

definition same_position :: "mapped_position \<Rightarrow> mapped_position \<Rightarrow> bool" where
  "same_position a b \<longleftrightarrow> generated_position a = generated_position b \<and>
     mapped_source_index a = mapped_source_index b \<and> source_position a = source_position b"

fun dedup_from :: "mapped_position \<Rightarrow> mapped_position list \<Rightarrow> mapped_position list" where
  "dedup_from l [] = []"
| "dedup_from l (x # xs) = (if same_position l x then dedup_from l xs else x # dedup_from x xs)"

fun dedup :: "mapped_position list \<Rightarrow> mapped_position list" where
  "dedup [] = []"
| "dedup (x # xs) = x # dedup_from x xs"

definition sort_dedup :: "(mapped_position \<Rightarrow> int) \<Rightarrow> mapped_position list \<Rightarrow> mapped_position list panicking" where
  "sort_dedup key xs = map_option dedup (go_sort (\<lambda>a b. sgn (wrap64 (key a - key b))) xs)"

fun sort_sources :: "(isize \<times> mapped_position list) list \<Rightarrow> (isize \<times> mapped_position list) list panicking" where
  "sort_sources [] = Some []"
| "sort_sources ((k, ms) # rest) =
     do { ms \<leftarrow> sort_dedup source_position ms; rest \<leftarrow> sort_sources rest; Some ((k, ms) # rest) }"

text \<open>\<open>getDecodedMappings\<close>: all of the mappings, or none when the decoder reports an error.\<close>

definition decoded_mappings ::
  "(bytes \<Rightarrow> ecma_line_info option) \<Rightarrow> bytes \<Rightarrow> bytes list \<Rightarrow> bytes \<Rightarrow> mapped_position list panicking" where
  "decoded_mappings line_info generated_path source_paths text =
     (let (ms, d) = decoder_values (decode_mappings text) in
      do {
        ps \<leftarrow> process_mappings line_info generated_path source_paths ms;
        Some (if d_error d \<noteq> None then [] else ps)
      })"

definition source_paths_of :: "raw_source_map \<Rightarrow> bytes \<Rightarrow> bytes list" where
  "source_paths_of sm map_path =
     (let map_directory = directory map_path;
          source_root = (if r_source_root sm = [] then map_directory
                         else absolute (r_source_root sm) map_directory)
      in map (\<lambda>source. absolute source source_root) (r_sources sm))"

definition create_document_position_mapper ::
  "(int \<Rightarrow> int) \<Rightarrow> bool \<Rightarrow> (bytes \<Rightarrow> ecma_line_info option) \<Rightarrow> raw_source_map \<Rightarrow> bytes \<Rightarrow>
   document_position_mapper panicking" where
  "create_document_position_mapper lower case_sensitive line_info sm map_path =
     (let generated_path = absolute (r_file sm) (directory map_path);
          source_paths = source_paths_of sm map_path;
          index_map = fold (\<lambda>(i, source) m. m(canonical lower source case_sensitive \<mapsto> of_nat i))
            (enumerate 0 source_paths) Map.empty
      in do {
        decoded \<leftarrow> decoded_mappings line_info generated_path source_paths (r_mappings sm);
        by_source \<leftarrow> sort_sources (collect_sources decoded []);
        generated \<leftarrow> sort_dedup generated_position decoded;
        Some \<lparr>mapper_case_sensitive = case_sensitive, source_file_absolute_paths = source_paths,
              source_to_source_index_map = index_map, generated_absolute_file_path = generated_path,
              generated_mappings = generated, source_mappings = by_source\<rparr>
      })"

definition get_source_position ::
  "document_position_mapper \<Rightarrow> document_position \<Rightarrow> document_position option panicking" where
  "get_source_position d loc =
     (if generated_mappings d = [] then Some None
      else let target_index = binary_search_func generated_position (generated_mappings d) (document_pos loc) in
        if target_index \<ge> length (generated_mappings d) then Some None
        else let m = generated_mappings d ! target_index in
          if \<not> is_source_mapped_position m then Some None
          else if unat (mapped_source_index m) < length (source_file_absolute_paths d)
          then Some (Some \<lparr>document_file_name = source_file_absolute_paths d ! unat (mapped_source_index m),
                           document_pos = source_position m\<rparr>)
          else None)"

definition get_generated_position ::
  "(int \<Rightarrow> int) \<Rightarrow> document_position_mapper \<Rightarrow> document_position \<Rightarrow> document_position option" where
  "get_generated_position lower d loc =
     (case source_to_source_index_map d (canonical lower (document_file_name loc) (mapper_case_sensitive d)) of
        None \<Rightarrow> None
      | Some k \<Rightarrow>
          if sint k < 0 \<or> sint k \<ge> int (length (source_mappings d)) then None
          else
            let ms = (case map_of (source_mappings d) k of None \<Rightarrow> [] | Some ms \<Rightarrow> ms);
                target_index = binary_search_func source_position ms (document_pos loc) in
            if target_index \<ge> length ms then None
            else let m = ms ! target_index in
              if mapped_source_index m \<noteq> k then None
              else Some \<lparr>document_file_name = generated_absolute_file_path d,
                         document_pos = generated_position m\<rparr>)"

section \<open>Positions stay small\<close>

text \<open>
  What the host promises: line starts are \<open>i32\<close> values and a text is shorter than \<open>2^62\<close> bytes, so
  that no difference of positions wraps.
\<close>

definition wf_host :: "(bytes \<Rightarrow> ecma_line_info option) \<Rightarrow> bool" where
  "wf_host line_info \<longleftrightarrow> (\<forall>f i. line_info f = Some i \<longrightarrow>
     int (length (info_text i)) < 2 ^ 62 \<and> (\<forall>s\<in>set (info_line_starts i). - (2 ^ 31) \<le> s))"

definition small :: "int \<Rightarrow> bool" where
  "small k \<longleftrightarrow> - (2 ^ 31) \<le> k \<and> k < 2 ^ 62"

lemma wrap64_small: "small a \<Longrightarrow> small b \<Longrightarrow> wrap64 (a - b) = a - b"
  by (rule wrap64_id) (simp_all add: small_def)

lemma utf16_scan_ge: "utf16_scan t e c n b = Some (b', n') \<Longrightarrow> b \<le> b'"
proof (induction t e c n b rule: utf16_scan.induct)
  case (1 t e c n b)
  obtain r w where rw: "decode_utf8 (drop (nat b) t) = (r, w)" by force
  show ?case
  proof (cases "b < e \<and> n < c \<and> \<not> (b < 0 \<or> int (length t) < b)")
    case True
    then have "b + int w \<le> b'"
      using "1.IH" [of "(r, w)" r w] "1.prems" rw by (subst (asm) (2) utf16_scan.simps) (simp add: rw)
    then show ?thesis by simp
  next
    case False
    then show ?thesis using "1.prems" by (subst (asm) utf16_scan.simps) (auto split: if_splits)
  qed
qed

lemma compute_position_small:
  assumes "compute_position_of_line_and_utf16_character starts line c t True = Some p"
    "int (length t) < 2 ^ 62" "\<forall>s\<in>set starts. - (2 ^ 31) \<le> s"
  shows "small p"
proof -
  obtain l st where st: "index starts l = Some st"
    and r: "(if 0 < c then do {
        (b, n) \<leftarrow> utf16_scan t (case index starts (l + 1) of Some s \<Rightarrow> s | None \<Rightarrow> int (length t)) c 0 st;
        Some (min b (int (length t))) } else Some (min st (int (length t)))) = Some p"
    using assms(1)
    unfolding compute_position_of_line_and_utf16_character_def Let_def if_True simp_thms if_False bind_Some_iff
    by blast
  have "\<exists>b\<ge>st. p = min b (int (length t))"
  proof (cases "0 < c")
    case True
    then obtain b n where "utf16_scan t (case index starts (l + 1) of Some s \<Rightarrow> s | None \<Rightarrow> int (length t)) c 0 st
        = Some (b, n)" "p = min b (int (length t))"
      using r by (auto simp: bind_Some_iff)
    then show ?thesis using utf16_scan_ge by blast
  qed (use r in auto)
  then obtain b where p: "st \<le> b" "p = min b (int (length t))" by blast
  have "st \<in> set starts" using st by (auto simp: index_def split: if_splits)
  then have "- (2 ^ 31) \<le> st" using assms(3) by blast
  then show ?thesis
    using p assms(2) by (simp add: small_def)
qed

lemma position_in_small: "wf_host line_info \<Longrightarrow> position_in line_info f l c = Some p \<Longrightarrow> small p"
  by (auto simp: position_in_def wf_host_def small_def [of "- 1"] split: option.splits intro: compute_position_small)

text \<open>What is known of a processed mapping.\<close>

definition mapped_ok :: "nat \<Rightarrow> mapped_position \<Rightarrow> bool" where
  "mapped_ok n p \<longleftrightarrow> small (generated_position p) \<and> small (source_position p) \<and>
     (is_source_mapped_position p \<longrightarrow> unat (mapped_source_index p) < n)"

lemma process_mapping_ok:
  assumes "wf_host line_info" "process_mapping line_info g ps m = Some p"
  shows "mapped_ok (length ps) p"
proof -
  have "small (generated_position p)" "small (source_position p)"
    using assms position_in_small [OF assms(1)]
    by (auto simp: process_mapping_def bind_Some_iff small_def [of "- 1"] split: if_splits)
  then show ?thesis
    using assms(2)
    by (auto simp: mapped_ok_def is_source_mapped_position_def process_mapping_def bind_Some_iff
        MISSING_POSITION_def split: if_splits)
qed

lemma process_mappings_ok:
  "wf_host line_info \<Longrightarrow> process_mappings line_info g ps ms = Some qs \<Longrightarrow> \<forall>q\<in>set qs. mapped_ok (length ps) q"
  by (induction ms arbitrary: qs) (auto simp: bind_Some_iff process_mapping_ok)

lemma decoded_mappings_ok:
  "wf_host line_info \<Longrightarrow> decoded_mappings line_info g ps t = Some qs \<Longrightarrow> \<forall>q\<in>set qs. mapped_ok (length ps) q"
  using process_mappings_ok by (fastforce simp: decoded_mappings_def bind_Some_iff split: prod.splits if_splits)

section \<open>Sorting and searching\<close>

lemma dedup_from_set: "set (dedup_from l xs) \<subseteq> set xs"
  by (induction xs arbitrary: l) auto

lemma dedup_from_sorted: "sorted_wrt r xs \<Longrightarrow> sorted_wrt r (dedup_from l xs)"
  by (induction xs arbitrary: l) (use dedup_from_set in fastforce)+

lemma dedup_set: "set (dedup xs) \<subseteq> set xs"
  using dedup_from_set by (cases xs) auto

lemma dedup_sorted: "sorted_wrt r xs \<Longrightarrow> sorted_wrt r (dedup xs)"
  using dedup_from_set dedup_from_sorted by (cases xs) fastforce+

lemma dedup_from_same: "x \<in> set xs \<Longrightarrow> \<exists>y\<in>insert l (set (dedup_from l xs)). same_position y x"
proof (induction xs arbitrary: l)
  case (Cons z xs)
  show ?case
  proof (cases "x = z")
    case True
    then show ?thesis by (cases "same_position l z") (auto simp: same_position_def)
  next
    case False
    then have x: "x \<in> set xs" using Cons.prems by simp
    show ?thesis using Cons.IH [OF x, of l] Cons.IH [OF x, of z] by (cases "same_position l z") auto
  qed
qed simp

lemma dedup_same: "x \<in> set xs \<Longrightarrow> \<exists>y\<in>set (dedup xs). same_position y x"
  using dedup_from_same by (cases xs) (fastforce simp: same_position_def)+

lemma sort_dedup_spec:
  assumes "\<forall>x\<in>set xs. small (key x)"
  shows "\<exists>ys. sort_dedup key xs = Some ys \<and> set ys \<subseteq> set xs \<and> sorted_wrt (\<lambda>a b. key a \<le> key b) ys \<and>
    (\<forall>x\<in>set xs. \<exists>y\<in>set ys. same_position y x)"
proof -
  let ?c = "\<lambda>a b. sgn (wrap64 (key a - key b))"
  have w: "?c a b = sgn (key a - key b)" if "a \<in> set xs" "b \<in> set xs" for a b
    using wrap64_small assms that by simp
  have "comparison_on (set xs) ?c"
    unfolding comparison_on_def using comparison_int [of key] w by blast
  then obtain zs where zs: "go_sort ?c xs = Some zs" "mset zs = mset xs" "sorted_wrt (\<lambda>a b. ?c a b \<le> 0) zs"
    using go_sort_comparison_on by blast
  have set: "set zs = set xs" using zs(2) by (metis set_mset_mset)
  have "sorted_wrt (\<lambda>a b. key a \<le> key b) zs"
    by (rule sorted_wrt_mono_rel [OF _ zs(3)]) (simp add: set w sgn_int_le)
  then show ?thesis
    using zs(1) dedup_set [of zs] dedup_sorted [of _ zs] dedup_same [of _ zs] set by (simp add: sort_dedup_def)
qed

declare search_between.simps [simp del]

lemma search_between_spec:
  "i \<le> j \<Longrightarrow> j \<le> length x \<Longrightarrow> small target \<Longrightarrow> \<forall>m\<in>set x. small (key m) \<Longrightarrow> sorted_wrt (\<lambda>a b. key a \<le> key b) x \<Longrightarrow>
   (\<forall>k<i. key (x ! k) < target) \<Longrightarrow> (\<forall>k. j \<le> k \<longrightarrow> k < length x \<longrightarrow> target \<le> key (x ! k)) \<Longrightarrow>
   (let r = search_between key x target i j in
    r \<le> length x \<and> (\<forall>k<r. key (x ! k) < target) \<and> (\<forall>k. r \<le> k \<longrightarrow> k < length x \<longrightarrow> target \<le> key (x ! k)))"
proof (induction "j - i" arbitrary: i j rule: less_induct)
  case less
  show ?case
  proof (cases "i < j")
    case True
    define h where "h = (i + j) div 2"
    have h: "i \<le> h" "h < j" "h < length x" using True less.prems(2) by (auto simp: h_def)
    have mono: "key (x ! k) \<le> key (x ! l)" if "k \<le> l" "l < length x" for k l
      using less.prems(5) that by (cases "k = l") (auto simp: sorted_wrt_iff_nth_less)
    have w: "wrap64 (key (x ! h) - target) = key (x ! h) - target"
      using less.prems(3,4) h(3) by (intro wrap64_small) auto
    show ?thesis
    proof (cases "key (x ! h) < target")
      case True
      have "\<forall>k<h + 1. key (x ! k) < target"
      proof (intro allI impI)
        fix k assume "k < h + 1"
        then show "key (x ! k) < target" using True mono [of k h] h(3) by simp
      qed
      then have "let r = search_between key x target (h + 1) j in
          r \<le> length x \<and> (\<forall>k<r. key (x ! k) < target) \<and> (\<forall>k. r \<le> k \<longrightarrow> k < length x \<longrightarrow> target \<le> key (x ! k))"
        using h less.prems by (intro less.hyps) auto
      then show ?thesis
        using \<open>i < j\<close> True w by (simp add: search_between.simps [of key x target i j] Let_def h_def [symmetric])
    next
      case False
      have "\<forall>k. h \<le> k \<longrightarrow> k < length x \<longrightarrow> target \<le> key (x ! k)"
      proof (intro allI impI)
        fix k assume "h \<le> k" "k < length x"
        then show "target \<le> key (x ! k)" using False mono [of h k] by simp
      qed
      then have "let r = search_between key x target i h in
          r \<le> length x \<and> (\<forall>k<r. key (x ! k) < target) \<and> (\<forall>k. r \<le> k \<longrightarrow> k < length x \<longrightarrow> target \<le> key (x ! k))"
        using h less.prems by (intro less.hyps) auto
      then show ?thesis
        using \<open>i < j\<close> False w by (simp add: search_between.simps [of key x target i j] Let_def h_def [symmetric])
    qed
  next
    case False
    then show ?thesis using less.prems by (simp add: search_between.simps [of key x target] Let_def)
  qed
qed

text \<open>The search finds the first mapping at or behind the target, or the end.\<close>

lemma binary_search_spec:
  assumes "small target" "\<forall>m\<in>set x. small (key m)" "sorted_wrt (\<lambda>a b. key a \<le> key b) x"
    "r = binary_search_func key x target"
  shows "r \<le> length x" "\<And>k. k < r \<Longrightarrow> key (x ! k) < target" "\<And>k. r \<le> k \<Longrightarrow> k < length x \<Longrightarrow> target \<le> key (x ! k)"
  using search_between_spec [of 0 "length x" x target key] assms by (simp_all add: binary_search_func_def Let_def)

text \<open>What it finds, said of the set of the mappings.\<close>

lemma closest_mapping:
  assumes "small target" "\<forall>m\<in>set x. small (key m)" "sorted_wrt (\<lambda>a b. key a \<le> key b) x"
  defines "r \<equiv> binary_search_func key x target"
  shows "if r < length x then target \<le> key (x ! r) \<and> (\<forall>q\<in>set x. target \<le> key q \<longrightarrow> key (x ! r) \<le> key q)
    else \<forall>q\<in>set x. key q < target"
proof (cases "r < length x")
  case True
  note spec = binary_search_spec [OF assms(1-3) r_def [THEN meta_eq_to_obj_eq]]
  have "key (x ! r) \<le> key q" if q: "q \<in> set x" "target \<le> key q" for q
  proof -
    obtain k where k: "k < length x" "q = x ! k" using q(1) by (auto simp: in_set_conv_nth)
    then have "r \<le> k" using spec(2) [of k] q(2) by (cases "k < r") auto
    then show ?thesis using k assms(3) by (cases "k = r") (auto simp: sorted_wrt_iff_nth_less)
  qed
  then show ?thesis using True spec(3) by auto
next
  case False
  then show ?thesis
    using binary_search_spec(1,2) [OF assms(1-3) r_def [THEN meta_eq_to_obj_eq]] by (auto simp: in_set_conv_nth)
qed

section \<open>The mappings of one source\<close>

definition mappings_of :: "(isize \<times> mapped_position list) list \<Rightarrow> isize \<Rightarrow> mapped_position list" where
  "mappings_of sources k = (case map_of sources k of None \<Rightarrow> [] | Some ms \<Rightarrow> ms)"

lemma mappings_of_push:
  "mappings_of (push_mapping k m sources) j = mappings_of sources j @ (if j = k then [m] else [])"
  by (induction sources rule: push_mapping.induct) (auto simp: mappings_of_def)

definition of_source :: "isize \<Rightarrow> mapped_position \<Rightarrow> bool" where
  "of_source k p \<longleftrightarrow> is_source_mapped_position p \<and> mapped_source_index p = k"

lemma mappings_of_collect:
  "mappings_of (collect_sources ps sources) k = mappings_of sources k @ filter (of_source k) ps"
  by (induction ps arbitrary: sources) (auto simp: mappings_of_push of_source_def)

lemma mappings_of_collect_start: "mappings_of (collect_sources ps []) k = filter (of_source k) ps"
  by (simp add: mappings_of_collect) (simp add: mappings_of_def)

lemma sort_dedup_Nil [simp]: "sort_dedup key [] = Some []"
  using sort_dedup_spec [of "[]" key] by auto

lemma mappings_of_sort_sources:
  "sort_sources sources = Some sorted_sources \<Longrightarrow>
   sort_dedup source_position (mappings_of sources k) = Some (mappings_of sorted_sources k)"
  by (induction sources arbitrary: sorted_sources rule: sort_sources.induct)
     (auto simp: mappings_of_def bind_Some_iff)

text \<open>The sources that have mappings, which are the keys of the map by source.\<close>

definition mapped_sources :: "mapped_position list \<Rightarrow> nat set" where
  "mapped_sources ps = {unat (mapped_source_index p) | p. p \<in> set ps \<and> is_source_mapped_position p}"

lemma push_mapping_keys:
  "map fst (push_mapping k m sources) = (if k \<in> fst ` set sources then map fst sources else map fst sources @ [k])"
  by (induction sources rule: push_mapping.induct) auto

lemma collect_sources_keys:
  "distinct (map fst sources) \<Longrightarrow> distinct (map fst (collect_sources ps sources)) \<and>
   fst ` set (collect_sources ps sources) =
     fst ` set sources \<union> mapped_source_index ` {p \<in> set ps. is_source_mapped_position p}"
proof (induction ps arbitrary: sources)
  case (Cons p ps)
  let ?new = "push_mapping (mapped_source_index p) p sources"
  have "fst ` set ?new = insert (mapped_source_index p) (fst ` set sources)" "distinct (map fst ?new)"
    using push_mapping_keys [of "mapped_source_index p" p sources] Cons.prems
    by (auto simp flip: set_map split: if_splits)
  then show ?case using Cons by auto
qed simp

lemma sort_sources_keys: "sort_sources sources = Some sorted_sources \<Longrightarrow> map fst sorted_sources = map fst sources"
  by (induction sources arbitrary: sorted_sources rule: sort_sources.induct) (auto simp: bind_Some_iff)

lemma number_of_mapped_sources:
  assumes "sort_sources (collect_sources ps []) = Some sources"
  shows "length sources = card (mapped_sources ps)"
proof -
  let ?K = "mapped_source_index ` {p \<in> set ps. is_source_mapped_position p}"
  have "distinct (map fst sources)" "set (map fst sources) = ?K"
    using sort_sources_keys [OF assms] collect_sources_keys [of "[]" ps] by simp_all
  then have "length sources = card ?K" using distinct_card [of "map fst sources"] by simp
  moreover have "mapped_sources ps = unat ` ?K" by (auto simp: mapped_sources_def)
  ultimately show ?thesis by (simp add: card_image inj_on_def word_unat_eq_iff)
qed

lemma sint_small:
  fixes k :: isize
  assumes "unat k < 2 ^ 63"
  shows "sint k = int (unat k)"
proof -
  have "int (unat k) < int (2 ^ 63)" using assms unfolding of_nat_less_iff .
  then have "uint k < 2 ^ 63" by simp
  moreover have "- (2 ^ 63) \<le> uint k" by (rule order_trans [OF _ uint_ge_0]) simp
  ultimately have "signed_take_bit 63 (uint k) = uint k" by (intro signed_take_bit_int_eq_self)
  then show ?thesis by (simp add: sint_uint)
qed

lemma mapped_sources_finite: "finite (mapped_sources ps)"
  by (simp add: mapped_sources_def)

section \<open>Properties\<close>

lemma create_mapper_parts:
  assumes "create_document_position_mapper lower cs line_info sm map_path = Some d"
  obtains ps where
    "decoded_mappings line_info (generated_absolute_file_path d) (source_file_absolute_paths d) (r_mappings sm) = Some ps"
    "sort_dedup generated_position ps = Some (generated_mappings d)"
    "sort_sources (collect_sources ps []) = Some (source_mappings d)"
  using assms by (auto simp: create_document_position_mapper_def Let_def bind_Some_iff)

text \<open>
  C19. A query for a source position answers with the closest mapping: among all of the decoded
  mappings one whose generated position is the least at or behind the queried one; the answer is its
  source position and file, or nothing when the mapping has no source or there is no mapping behind
  the position. The sort, the removal of duplicates and the binary search do not lose any mapping, and
  no index of the query is out of range.
\<close>

theorem source_position_closest:
  assumes "create_document_position_mapper lower cs line_info sm map_path = Some d" "wf_host line_info"
    "decoded_mappings line_info (generated_absolute_file_path d) (source_file_absolute_paths d) (r_mappings sm) = Some ps"
    "small (document_pos loc)"
  shows "if \<forall>q\<in>set ps. generated_position q < document_pos loc then get_source_position d loc = Some None
    else \<exists>p\<in>set ps. document_pos loc \<le> generated_position p \<and>
      (\<forall>q\<in>set ps. document_pos loc \<le> generated_position q \<longrightarrow> generated_position p \<le> generated_position q) \<and>
      get_source_position d loc = Some (if is_source_mapped_position p
        then Some \<lparr>document_file_name = source_file_absolute_paths d ! unat (mapped_source_index p),
                   document_pos = source_position p\<rparr>
        else None)"
proof -
  let ?pos = "document_pos loc" and ?x = "generated_mappings d"
  have ok: "\<forall>q\<in>set ps. mapped_ok (length (source_file_absolute_paths d)) q"
    by (rule decoded_mappings_ok [OF assms(2,3)])
  then have sm: "\<forall>q\<in>set ps. small (generated_position q)" by (simp add: mapped_ok_def)
  have sd: "sort_dedup generated_position ps = Some ?x"
    using create_mapper_parts [OF assms(1)] assms(3) by (metis option.inject)
  then have x: "set ?x \<subseteq> set ps" "sorted_wrt (\<lambda>a b. generated_position a \<le> generated_position b) ?x"
      "\<forall>q\<in>set ps. \<exists>y\<in>set ?x. same_position y q"
    using sort_dedup_spec [OF sm] by auto
  have smx: "\<forall>m\<in>set ?x. small (generated_position m)" using sm x(1) by blast
  define r where "r = binary_search_func generated_position ?x ?pos"
  have all: "(\<forall>q\<in>set ps. P (generated_position q)) \<longleftrightarrow> (\<forall>q\<in>set ?x. P (generated_position q))" for P
    using x(1,3) by (metis same_position_def subsetD)
  note closest = closest_mapping [OF assms(4) smx x(2), folded r_def]
  show ?thesis
  proof (cases "r < length ?x")
    case True
    let ?p = "?x ! r"
    have p: "?p \<in> set ps" "?pos \<le> generated_position ?p" using True x(1) closest by auto
    have "\<forall>q\<in>set ps. ?pos \<le> generated_position q \<longrightarrow> generated_position ?p \<le> generated_position q"
      using closest True all [of "\<lambda>g. ?pos \<le> g \<longrightarrow> generated_position ?p \<le> g"] by simp
    moreover have "get_source_position d loc = Some (if is_source_mapped_position ?p
        then Some \<lparr>document_file_name = source_file_absolute_paths d ! unat (mapped_source_index ?p),
                   document_pos = source_position ?p\<rparr> else None)"
      using True ok p(1) by (auto simp: get_source_position_def Let_def r_def [symmetric] mapped_ok_def)
    moreover have "\<not> (\<forall>q\<in>set ps. generated_position q < ?pos)" using p by (auto simp: not_less)
    ultimately show ?thesis using p by auto
  next
    case False
    then have "\<forall>q\<in>set ps. generated_position q < ?pos" using closest all [of "\<lambda>g. g < ?pos"] by simp
    moreover have "get_source_position d loc = Some None"
      using False by (auto simp: get_source_position_def Let_def r_def [symmetric])
    ultimately show ?thesis by simp
  qed
qed

lemma reverse_query:
  assumes "create_document_position_mapper lower cs line_info sm map_path = Some d" "wf_host line_info"
    "decoded_mappings line_info (generated_absolute_file_path d) (source_file_absolute_paths d) (r_mappings sm) = Some ps"
    "small (document_pos loc)"
    "source_to_source_index_map d (canonical lower (document_file_name loc) (mapper_case_sensitive d)) = Some k"
    "0 \<le> sint k" "sint k < int (length (source_mappings d))"
  shows "if \<forall>q\<in>set (filter (of_source k) ps). source_position q < document_pos loc
    then get_generated_position lower d loc = None
    else \<exists>p\<in>set (filter (of_source k) ps). document_pos loc \<le> source_position p \<and>
      (\<forall>q\<in>set (filter (of_source k) ps). document_pos loc \<le> source_position q \<longrightarrow> source_position p \<le> source_position q) \<and>
      get_generated_position lower d loc = Some \<lparr>document_file_name = generated_absolute_file_path d,
        document_pos = generated_position p\<rparr>"
proof -
  let ?ps = "filter (of_source k) ps" and ?pos = "document_pos loc" and ?x = "mappings_of (source_mappings d) k"
  have sm: "\<forall>q\<in>set ?ps. small (source_position q)"
    using decoded_mappings_ok [OF assms(2,3)] by (simp add: mapped_ok_def)
  obtain qs where qs: "qs = ps" "sort_sources (collect_sources qs []) = Some (source_mappings d)"
    using create_mapper_parts [OF assms(1)] assms(3) by (metis option.inject)
  have sd: "sort_dedup source_position ?ps = Some ?x"
    using mappings_of_sort_sources [OF qs(2), of k] qs(1) by (simp add: mappings_of_collect_start)
  have x: "set ?x \<subseteq> set ?ps" "sorted_wrt (\<lambda>a b. source_position a \<le> source_position b) ?x"
      "\<forall>q\<in>set ?ps. \<exists>y\<in>set ?x. same_position y q"
    using sort_dedup_spec [OF sm] sd by auto
  have smx: "\<forall>m\<in>set ?x. small (source_position m)" using sm x(1) by blast
  define r where "r = binary_search_func source_position ?x ?pos"
  have all: "(\<forall>q\<in>set ?ps. P (source_position q)) \<longleftrightarrow> (\<forall>q\<in>set ?x. P (source_position q))" for P
    using x(1,3) by (metis same_position_def subsetD)
  note closest = closest_mapping [OF assms(4) smx x(2), folded r_def]
  have get: "get_generated_position lower d loc = (if r < length ?x \<and> mapped_source_index (?x ! r) = k
      then Some \<lparr>document_file_name = generated_absolute_file_path d, document_pos = generated_position (?x ! r)\<rparr>
      else None)"
    using assms(5-7)
    by (simp add: get_generated_position_def Let_def mappings_of_def [symmetric] r_def [symmetric] not_le)
  show ?thesis
  proof (cases "r < length ?x")
    case True
    let ?p = "?x ! r"
    have p: "?p \<in> set ?ps" "?pos \<le> source_position ?p" using True x(1) closest by (simp_all add: subset_eq)
    then have "get_generated_position lower d loc =
        Some \<lparr>document_file_name = generated_absolute_file_path d, document_pos = generated_position ?p\<rparr>"
      using True get by (simp add: of_source_def)
    moreover have "\<forall>q\<in>set ?ps. ?pos \<le> source_position q \<longrightarrow> source_position ?p \<le> source_position q"
      using closest True all [of "\<lambda>g. ?pos \<le> g \<longrightarrow> source_position ?p \<le> g"] by simp
    moreover have "\<not> (\<forall>q\<in>set ?ps. source_position q < ?pos)" using p by (auto simp: not_less)
    ultimately show ?thesis using p by auto
  next
    case False
    then have "\<forall>q\<in>set ?ps. source_position q < ?pos" using closest all [of "\<lambda>g. g < ?pos"] by simp
    then show ?thesis using False get by simp
  qed
qed

text \<open>
  C20. The reverse query, for a source whose index is below the number of sources that have mappings:
  the answer is the generated position of the closest mapping of this source at or behind the queried
  position, and nothing when there is no such mapping.
\<close>

theorem generated_position_closest:
  assumes "create_document_position_mapper lower cs line_info sm map_path = Some d" "wf_host line_info"
    "decoded_mappings line_info (generated_absolute_file_path d) (source_file_absolute_paths d) (r_mappings sm) = Some ps"
    "small (document_pos loc)"
    "source_to_source_index_map d (canonical lower (document_file_name loc) (mapper_case_sensitive d)) = Some k"
    "0 \<le> sint k" "sint k < int (length (source_mappings d))"
  shows "if \<forall>q\<in>set (filter (of_source k) ps). source_position q < document_pos loc
    then get_generated_position lower d loc = None
    else \<exists>p\<in>set (filter (of_source k) ps). document_pos loc \<le> source_position p \<and>
      (\<forall>q\<in>set (filter (of_source k) ps). document_pos loc \<le> source_position q \<longrightarrow> source_position p \<le> source_position q) \<and>
      get_generated_position lower d loc = Some \<lparr>document_file_name = generated_absolute_file_path d,
        document_pos = generated_position p\<rparr>"
  using assms by (rule reverse_query)

section \<open>A concrete map\<close>

text \<open>A generated file of two lines whose only mappings go to the second of two sources.\<close>

definition sample_file :: ecma_line_info where
  "sample_file = \<lparr>info_text = ''x;'' @ [CHR 0x0A] @ ''y;'', info_line_starts = [0, 3]\<rparr>"

definition sample_host :: "bytes \<Rightarrow> ecma_line_info option" where
  "sample_host f = (if f \<in> {''/o.js'', ''/a.ts'', ''/b.ts''} then Some sample_file else None)"

definition sample_map :: "bytes \<Rightarrow> raw_source_map" where
  "sample_map mappings = \<lparr>r_version = 3, r_file = ''o.js'', r_source_root = [],
     r_sources = [''a.ts'', ''b.ts''], r_names = [], r_mappings = mappings, r_sources_content = None\<rparr>"

definition sample_mapper :: "bytes \<Rightarrow> document_position_mapper" where
  "sample_mapper mappings = the (create_document_position_mapper id True sample_host (sample_map mappings) ''/o.js.map'')"

lemma sample_host_wf: "wf_host sample_host"
  by (simp add: wf_host_def sample_host_def sample_file_def)

definition sample_position :: "int \<Rightarrow> int \<Rightarrow> isize \<Rightarrow> mapped_position" where
  "sample_position g s k =
     \<lparr>generated_position = g, source_position = s, mapped_source_index = k, mapped_name_index = - 1\<rparr>"

lemma sample_decoded:
  "decoded_mappings sample_host ''/o.js'' [''/a.ts'', ''/b.ts''] ''ACAA;AACA'' =
     Some [sample_position 0 0 1, sample_position 3 3 1]"
  "decoded_mappings sample_host ''/o.js'' [''/a.ts'', ''/b.ts''] ''AAAA;AACA'' =
     Some [sample_position 0 0 0, sample_position 3 3 0]"
  by code_simp+

lemma sample_created:
  "m \<in> {''ACAA;AACA'', ''AAAA;AACA''} \<Longrightarrow>
   create_document_position_mapper id True sample_host (sample_map m) ''/o.js.map'' = Some (sample_mapper m)"
proof -
  have "create_document_position_mapper id True sample_host (sample_map ''ACAA;AACA'') ''/o.js.map'' \<noteq> None"
    by code_simp
  moreover have "create_document_position_mapper id True sample_host (sample_map ''AAAA;AACA'') ''/o.js.map'' \<noteq> None"
    by code_simp
  moreover assume "m \<in> {''ACAA;AACA'', ''AAAA;AACA''}"
  ultimately show ?thesis by (auto simp: sample_mapper_def)
qed

lemma sample_paths:
  "generated_absolute_file_path (sample_mapper ''ACAA;AACA'') = ''/o.js''"
  "generated_absolute_file_path (sample_mapper ''AAAA;AACA'') = ''/o.js''"
  "source_file_absolute_paths (sample_mapper ''ACAA;AACA'') = [''/a.ts'', ''/b.ts'']"
  "source_file_absolute_paths (sample_mapper ''AAAA;AACA'') = [''/a.ts'', ''/b.ts'']"
  by code_simp+

theorem source_position_closest_witness:
  "get_source_position (sample_mapper ''ACAA;AACA'') \<lparr>document_file_name = ''/o.js'', document_pos = 1\<rparr> =
     Some (Some \<lparr>document_file_name = ''/b.ts'', document_pos = 3\<rparr>)"
  using source_position_closest [OF sample_created [of "''ACAA;AACA''"] sample_host_wf,
      where ps = "[sample_position 0 0 1, sample_position 3 3 1]" and
        loc = "\<lparr>document_file_name = ''/o.js'', document_pos = 1\<rparr>"]
  by (simp add: sample_paths sample_map_def sample_decoded small_def)
     (simp add: sample_paths sample_position_def is_source_mapped_position_def MISSING_SOURCE_def MISSING_POSITION_def)

theorem generated_position_closest_witness:
  "get_generated_position id (sample_mapper ''AAAA;AACA'') \<lparr>document_file_name = ''/a.ts'', document_pos = 1\<rparr> =
     Some \<lparr>document_file_name = ''/o.js'', document_pos = 3\<rparr>"
proof -
  have "source_to_source_index_map (sample_mapper ''AAAA;AACA'')
      (canonical id ''/a.ts'' (mapper_case_sensitive (sample_mapper ''AAAA;AACA''))) = Some 0"
    by code_simp
  moreover have "length (source_mappings (sample_mapper ''AAAA;AACA'')) = 1" by code_simp
  ultimately show ?thesis
    using generated_position_closest [OF sample_created [of "''AAAA;AACA''"] sample_host_wf,
      where ps = "[sample_position 0 0 0, sample_position 3 3 0]" and k = 0 and
        loc = "\<lparr>document_file_name = ''/a.ts'', document_pos = 1\<rparr>"]
    by (simp add: sample_paths sample_map_def sample_decoded small_def)
       (simp add: sample_paths sample_position_def of_source_def is_source_mapped_position_def MISSING_SOURCE_def MISSING_POSITION_def)
qed

text \<open>
  C21. Which sources the reverse query answers for. A source with a mapping at or behind the queried position
  gets an answer exactly when its index is below the number of sources that have mappings, for it is this
  number the code compares the index with. So the last source that has mappings is answered exactly when every
  source in front of it has mappings too.
\<close>

theorem reverse_query_answers_iff:
  assumes "create_document_position_mapper lower cs line_info sm map_path = Some d" "wf_host line_info"
    "decoded_mappings line_info (generated_absolute_file_path d) (source_file_absolute_paths d) (r_mappings sm) = Some ps"
    "small (document_pos loc)" "length (source_file_absolute_paths d) < 2 ^ 63"
    "source_to_source_index_map d (canonical lower (document_file_name loc) (mapper_case_sensitive d)) = Some k"
    "p \<in> set ps" "of_source k p" "document_pos loc \<le> source_position p"
  shows "(get_generated_position lower d loc \<noteq> None \<longleftrightarrow> unat k < card (mapped_sources ps)) \<and>
    ((\<forall>j\<in>mapped_sources ps. j \<le> unat k) \<longrightarrow>
      (get_generated_position lower d loc \<noteq> None \<longleftrightarrow> {..<unat k} \<subseteq> mapped_sources ps))"
proof -
  have "unat k < length (source_file_absolute_paths d)"
    using decoded_mappings_ok [OF assms(2,3)] assms(7,8) by (auto simp: mapped_ok_def of_source_def)
  then have k: "unat k < 2 ^ 63" using assms(5) by simp
  then have sint: "sint k = int (unat k)" by (rule sint_small)
  have number: "length (source_mappings d) = card (mapped_sources ps)"
    using create_mapper_parts [OF assms(1)] assms(3) number_of_mapped_sources by (metis option.inject)
  have "get_generated_position lower d loc \<noteq> None" if "unat k < card (mapped_sources ps)"
  proof -
    have "0 \<le> sint k" "sint k < int (length (source_mappings d))" using \<open>unat k < card (mapped_sources ps)\<close>
      unfolding sint number of_nat_less_iff by simp_all
    note query = reverse_query [OF assms(1-4,6) this]
    have "\<not> (\<forall>q\<in>set (filter (of_source k) ps). source_position q < document_pos loc)" using assms(7-9) by auto
    from query [unfolded if_not_P [OF this]] show ?thesis by blast
  qed
  moreover have "get_generated_position lower d loc = None" if "\<not> unat k < card (mapped_sources ps)"
  proof -
    have "int (length (source_mappings d)) \<le> sint k" using that unfolding sint number of_nat_le_iff not_less .
    then show ?thesis using assms(6) by (simp add: get_generated_position_def)
  qed
  ultimately have iff: "get_generated_position lower d loc \<noteq> None \<longleftrightarrow> unat k < card (mapped_sources ps)"
    by (cases "unat k < card (mapped_sources ps)") simp_all
  moreover have "unat k < card (mapped_sources ps) \<longleftrightarrow> {..<unat k} \<subseteq> mapped_sources ps"
    if last: "\<forall>j\<in>mapped_sources ps. j \<le> unat k"
  proof
    have sub: "mapped_sources ps \<subseteq> {..unat k}" using last by auto
    assume "unat k < card (mapped_sources ps)"
    then have "mapped_sources ps = {..unat k}" using card_subset_eq [OF _ sub] card_mono [OF _ sub] by simp
    then show "{..<unat k} \<subseteq> mapped_sources ps" by auto
  next
    assume "{..<unat k} \<subseteq> mapped_sources ps"
    moreover have "unat k \<in> mapped_sources ps" using assms(7,8) by (auto simp: mapped_sources_def of_source_def)
    ultimately have "{..unat k} \<subseteq> mapped_sources ps" by (auto simp: order_le_less)
    then show "unat k < card (mapped_sources ps)" using card_mono [OF mapped_sources_finite, of "{..unat k}" ps] by simp
  qed
  ultimately show ?thesis by blast
qed

text \<open>Of the two sources of the sample map only the second one has mappings, so it gets no answer.\<close>

theorem reverse_query_answers_iff_witness:
  "of_source 1 (sample_position 3 3 1) \<and>
   get_generated_position id (sample_mapper ''ACAA;AACA'') \<lparr>document_file_name = ''/b.ts'', document_pos = 1\<rparr> = None"
proof -
  have "source_to_source_index_map (sample_mapper ''ACAA;AACA'')
      (canonical id ''/b.ts'' (mapper_case_sensitive (sample_mapper ''ACAA;AACA''))) = Some 1"
    by code_simp
  moreover have "mapped_sources [sample_position 0 0 1, sample_position 3 3 1] = {1}"
    by (auto simp: mapped_sources_def sample_position_def is_source_mapped_position_def MISSING_SOURCE_def MISSING_POSITION_def
        intro!: exI [of _ "sample_position 3 3 1"])
  moreover have "of_source 1 (sample_position 3 3 1)" by code_simp
  ultimately show ?thesis
    using reverse_query_answers_iff [OF sample_created [of "''ACAA;AACA''"] sample_host_wf,
      where ps = "[sample_position 0 0 1, sample_position 3 3 1]" and k = 1 and p = "sample_position 3 3 1" and
        loc = "\<lparr>document_file_name = ''/b.ts'', document_pos = 1\<rparr>"]
    by (simp add: sample_paths sample_map_def sample_decoded small_def sample_position_def)
qed

text \<open>A segment whose source index is not below the number of sources makes the construction panic.\<close>

lemma source_index_out_of_range_panics:
  "create_document_position_mapper id True sample_host (sample_map ''AEAA'') ''/o.js.map'' = None"
  by code_simp

end
