(* ===== verification/Build_Graph.thy ===== *)
theory Build_Graph
  imports Paths
begin

text \<open>
  The project graph of a build, \<open>crates/tsr_build/src/graph.rs\<close>: the configurations are loaded in
  batches, each batch the references the one before discovered, and a depth-first walk from the roots
  puts the projects in build order, links them to the projects they wait for, and reports cycles.

  The reader of configuration files is an argument: for a name it gives an error, or the parsed
  configuration if the file exists. The walk is a partial function whose recursion shares the sets of
  projects being analysed and completed; that it returns is part of the theorems. The stack of
  configuration names is an argument, since every call leaves it as it was. The time spent reading a
  configuration, the build information carried over from an earlier task and the closing of mapped
  projects are left out.
\<close>

section \<open>The model\<close>

text \<open>What the walk reads of a configuration: the resolved reference paths and the circular flags.\<close>

record project_config =
  resolved_project_reference_paths :: "bytes list"
  reference_circular :: "bool list"

record build_task =
  task_config :: bytes
  task_resolved :: "project_config option"
  task_dirty :: bool

record graph_node =
  node_task :: build_task
  upstream :: "(nat \<times> nat) list"
  downstream :: "nat list"

record orchestrator =
  host_cwd :: bytes
  host_case_sensitive :: bool
  o_watch :: bool
  o_tasks :: "graph_node list"
  o_by_path :: "bytes \<rightharpoonup> nat"
  o_order :: "bytes list"
  o_order_indices :: "nat list"
  o_errors :: "bytes list"

text \<open>The two sets a walk carries along.\<close>

record setup_state = orchestrator +
  completed :: "nat set"
  analyzing :: "nat set"

definition orchestrator_path :: "(int \<Rightarrow> int) \<Rightarrow> 'a orchestrator_scheme \<Rightarrow> bytes \<Rightarrow> bytes" where
  "orchestrator_path lower s file_name = to_path lower file_name (host_cwd s) (host_case_sensitive s)"

definition task_index :: "(int \<Rightarrow> int) \<Rightarrow> 'a orchestrator_scheme \<Rightarrow> bytes \<Rightarrow> nat panicking" where
  "task_index lower s config = o_by_path s (orchestrator_path lower s config)"

subsection \<open>Loading\<close>

text \<open>\<open>pending.retain(|name| scheduled.insert(path(name)))\<close>\<close>

fun retain_unscheduled :: "(bytes \<Rightarrow> bytes) \<Rightarrow> bytes list \<Rightarrow> bytes set \<Rightarrow> bytes list \<times> bytes set" where
  "retain_unscheduled path [] scheduled = ([], scheduled)"
| "retain_unscheduled path (name # names) scheduled =
     (if path name \<in> scheduled then retain_unscheduled path names scheduled
      else let (kept, scheduled) = retain_unscheduled path names (insert (path name) scheduled)
           in (name # kept, scheduled))"

text \<open>One job of a batch: an unchanged earlier task is taken over, otherwise the file is read.\<close>

definition load_task ::
  "(bytes \<Rightarrow> 'e + project_config option) \<Rightarrow> (bytes \<rightharpoonup> build_task) \<Rightarrow> (bytes \<Rightarrow> bytes) \<Rightarrow> bytes \<Rightarrow> 'e + build_task" where
  "load_task read_config old path name =
     (case old (path name) of
        Some previous \<Rightarrow>
          if \<not> task_dirty previous then Inr previous
          else map_sum id (\<lambda>c. \<lparr>task_config = name, task_resolved = c, task_dirty = False\<rparr>) (read_config name)
      | None \<Rightarrow> map_sum id (\<lambda>c. \<lparr>task_config = name, task_resolved = c, task_dirty = False\<rparr>) (read_config name))"

text \<open>The jobs push their results in the order they end; the results are then sorted by position.\<close>

definition collect_parsed :: "(nat \<times> 'a) list \<Rightarrow> 'a list" where
  "collect_parsed parsed = map snd (sort_key fst parsed)"

definition task_references :: "build_task \<Rightarrow> (bytes \<times> bool) list" where
  "task_references t =
     (case task_resolved t of
        None \<Rightarrow> []
      | Some c \<Rightarrow> zip (resolved_project_reference_paths c) (reference_circular c))"

definition discovered :: "build_task \<Rightarrow> bytes list" where
  "discovered t = (case task_resolved t of None \<Rightarrow> [] | Some c \<Rightarrow> resolved_project_reference_paths c)"

definition add_task :: "(int \<Rightarrow> int) \<Rightarrow> build_task \<Rightarrow> orchestrator \<Rightarrow> orchestrator" where
  "add_task lower t s =
     s\<lparr>o_by_path := (o_by_path s)(orchestrator_path lower s (task_config t) \<mapsto> length (o_tasks s)),
       o_tasks := o_tasks s @ [\<lparr>node_task = t, upstream = [], downstream = []\<rparr>]\<rparr>"

fun add_tasks :: "(int \<Rightarrow> int) \<Rightarrow> ('e + build_task) list \<Rightarrow> bytes list \<Rightarrow> orchestrator \<Rightarrow> 'e + bytes list \<times> orchestrator" where
  "add_tasks lower [] pending s = Inr (pending, s)"
| "add_tasks lower (Inl e # rest) pending s = Inl e"
| "add_tasks lower (Inr t # rest) pending s = add_tasks lower rest (pending @ discovered t) (add_task lower t s)"

definition load_batch ::
  "(int \<Rightarrow> int) \<Rightarrow> (bytes \<Rightarrow> 'e + project_config option) \<Rightarrow> (bytes \<rightharpoonup> build_task) \<Rightarrow> bytes list \<Rightarrow> orchestrator \<Rightarrow>
   'e + bytes list \<times> orchestrator" where
  "load_batch lower read_config old names s =
     add_tasks lower
       (collect_parsed (enumerate 0 (map (load_task read_config old (orchestrator_path lower s)) names))) [] s"

partial_function (option) load_batches ::
  "(int \<Rightarrow> int) \<Rightarrow> (bytes \<Rightarrow> 'e + project_config option) \<Rightarrow> (bytes \<rightharpoonup> build_task) \<Rightarrow> bytes list \<Rightarrow> bytes set \<Rightarrow>
   orchestrator \<Rightarrow> ('e + orchestrator) option" where
  "load_batches lower read_config old pending scheduled s =
     (if pending = [] then Some (Inr s)
      else
        let r = retain_unscheduled (orchestrator_path lower s) pending scheduled in
        case load_batch lower read_config old (fst r) s of
          Inl e \<Rightarrow> Some (Inl e)
        | Inr r' \<Rightarrow> load_batches lower read_config old (fst r') (snd r) (snd r'))"

declare load_batches.simps [code]

subsection \<open>The walk\<close>

definition update_node :: "nat \<Rightarrow> (graph_node \<Rightarrow> graph_node) \<Rightarrow> 'a orchestrator_scheme \<Rightarrow> 'a orchestrator_scheme panicking" where
  "update_node i f s =
     (if i < length (o_tasks s) then Some (s\<lparr>o_tasks := (o_tasks s)[i := f (o_tasks s ! i)]\<rparr>) else None)"

text \<open>A loop over references with their positions; the body may panic or not return.\<close>

fun for_references :: "(nat \<Rightarrow> bytes \<Rightarrow> bool \<Rightarrow> 's \<Rightarrow> 's option) \<Rightarrow> nat \<Rightarrow> (bytes \<times> bool) list \<Rightarrow> 's \<Rightarrow> 's option" where
  "for_references body k [] s = Some s"
| "for_references body k ((name, circular) # rest) s =
     body k name circular s \<bind> for_references body (Suc k) rest"

lemma for_references_mono [partial_function_mono]:
  assumes "\<And>k name c s. mono_option (\<lambda>f. body f k name c s)"
  shows "mono_option (\<lambda>f. for_references (body f) k refs s)"
proof (induction refs arbitrary: k s)
  case (Cons r refs)
  then show ?case by (cases r) (auto intro!: bind_mono assms)
qed (simp add: option.const_mono)

text \<open>The end of \<open>setup_task\<close>: in watch mode a project also knows the projects behind it.\<close>

definition link_downstream :: "nat \<Rightarrow> nat option \<Rightarrow> setup_state \<Rightarrow> (nat option \<times> setup_state) panicking" where
  "link_downstream i d s =
     (case d of
        Some d \<Rightarrow> if o_watch s
          then map_option (Pair (Some i)) (update_node i (\<lambda>n. n\<lparr>downstream := downstream n @ [d]\<rparr>) s)
          else Some (Some i, s)
      | None \<Rightarrow> Some (Some i, s))"

definition complete_task :: "nat \<Rightarrow> bytes \<Rightarrow> setup_state \<Rightarrow> setup_state" where
  "complete_task i config_name s =
     s\<lparr>completed := insert i (completed s), o_order := o_order s @ [config_name],
       o_order_indices := o_order_indices s @ [i]\<rparr>"

partial_function (option) setup_task ::
  "(int \<Rightarrow> int) \<Rightarrow> nat \<Rightarrow> nat option \<Rightarrow> bool \<Rightarrow> bytes list \<Rightarrow> setup_state \<Rightarrow> (nat option \<times> setup_state) option" where
  "setup_task lower i d circular stack s =
     (if i \<notin> completed s then
        if i \<in> analyzing s then
          Some (None, if circular then s else s\<lparr>o_errors := o_errors s @ [join_with (CHR 0x0A) stack]\<rparr>)
        else if length (o_tasks s) \<le> i then None
        else
          let t = node_task (o_tasks s ! i);
              stack = stack @ [task_config t]
          in do {
            s \<leftarrow> for_references (\<lambda>k name ref_circular s. do {
                j \<leftarrow> task_index lower s name;
                r \<leftarrow> setup_task lower j (Some i) (circular \<or> ref_circular) stack s;
                case fst r of
                  None \<Rightarrow> Some (snd r)
                | Some u \<Rightarrow> update_node i (\<lambda>n. n\<lparr>upstream := upstream n @ [(u, k)]\<rparr>) (snd r)
              }) 0 (task_references t) (s\<lparr>analyzing := insert i (analyzing s)\<rparr>);
            link_downstream i d (complete_task i (task_config t) s)
          }
      else link_downstream i d s)"

declare setup_task.simps [code]

fun setup_roots :: "(int \<Rightarrow> int) \<Rightarrow> bytes list \<Rightarrow> setup_state \<Rightarrow> setup_state option" where
  "setup_roots lower [] s = Some s"
| "setup_roots lower (root # roots) s = do {
     i \<leftarrow> task_index lower s root;
     r \<leftarrow> setup_task lower i None False [] s;
     setup_roots lower roots (snd r)
   }"

definition generate_graph_with_tasks ::
  "(int \<Rightarrow> int) \<Rightarrow> (bytes \<Rightarrow> 'e + project_config option) \<Rightarrow> (bytes \<rightharpoonup> build_task) \<Rightarrow> bytes list \<Rightarrow> orchestrator \<Rightarrow>
   ('e + setup_state) option" where
  "generate_graph_with_tasks lower read_config old roots s =
     do {
       r \<leftarrow> load_batches lower read_config old roots {}
              (s\<lparr>o_tasks := [], o_by_path := Map.empty, o_order := [], o_order_indices := [], o_errors := []\<rparr>);
       case r of
         Inl e \<Rightarrow> Some (Inl e)
       | Inr s \<Rightarrow> map_option Inr
           (setup_roots lower roots (orchestrator.extend s (setup_state.fields {} {})))
     }"

definition generate_graph ::
  "(int \<Rightarrow> int) \<Rightarrow> (bytes \<Rightarrow> 'e + project_config option) \<Rightarrow> bytes list \<Rightarrow> orchestrator \<Rightarrow> ('e + setup_state) option" where
  "generate_graph lower read_config roots s = generate_graph_with_tasks lower read_config Map.empty roots s"

definition generate_graph_reusing_old_tasks ::
  "(int \<Rightarrow> int) \<Rightarrow> (bytes \<Rightarrow> 'e + project_config option) \<Rightarrow> bytes list \<Rightarrow> orchestrator \<Rightarrow> ('e + setup_state) option" where
  "generate_graph_reusing_old_tasks lower read_config roots s =
     generate_graph_with_tasks lower read_config
       (fold (\<lambda>n m. m(orchestrator_path lower s (task_config (node_task n)) \<mapsto> node_task n)) (o_tasks s) Map.empty)
       roots s"

end
