(* ===== verification/Build_Order.thy ===== *)
theory Build_Order
  imports Build_Graph "HOL-Library.Multiset"
begin

text \<open>
  What the walk of \<open>Build_Graph\<close> computes: it returns, the order it leaves is a topological order of
  the links it makes, it covers exactly the projects reachable from the roots, and it reports an error
  exactly when there is a cycle.
\<close>

section \<open>The graph of a state\<close>

definition node_references :: "'a orchestrator_scheme \<Rightarrow> nat \<Rightarrow> (bytes \<times> bool) list" where
  "node_references s i = task_references (node_task (o_tasks s ! i))"

definition targets :: "(int \<Rightarrow> int) \<Rightarrow> 'a orchestrator_scheme \<Rightarrow> nat \<Rightarrow> nat list" where
  "targets lower s i = map (\<lambda>(name, c). the (task_index lower s name)) (node_references s i)"

definition edges :: "(int \<Rightarrow> int) \<Rightarrow> 'a orchestrator_scheme \<Rightarrow> (nat \<times> nat) set" where
  "edges lower s = {(i, j). i < length (o_tasks s) \<and> j \<in> set (targets lower s i)}"

definition resolvable :: "(int \<Rightarrow> int) \<Rightarrow> 'a orchestrator_scheme \<Rightarrow> bool" where
  "resolvable lower s \<longleftrightarrow> (\<forall>i<length (o_tasks s). \<forall>(name, c)\<in>set (node_references s i).
     \<exists>j<length (o_tasks s). task_index lower s name = Some j)"

definition same_graph :: "'a orchestrator_scheme \<Rightarrow> 'a orchestrator_scheme \<Rightarrow> bool" where
  "same_graph s s' \<longleftrightarrow> map node_task (o_tasks s') = map node_task (o_tasks s) \<and> o_by_path s' = o_by_path s \<and>
     host_cwd s' = host_cwd s \<and> host_case_sensitive s' = host_case_sensitive s \<and> o_watch s' = o_watch s"

lemma same_graph_refl [simp]: "same_graph s s"
  by (simp add: same_graph_def)

lemma same_graph_trans: "same_graph s s' \<Longrightarrow> same_graph s' s'' \<Longrightarrow> same_graph s s''"
  by (simp add: same_graph_def)

lemma same_graph_length: "same_graph s s' \<Longrightarrow> length (o_tasks s') = length (o_tasks s)"
  unfolding same_graph_def by (metis length_map)

lemma same_graph_task:
  "same_graph s s' \<Longrightarrow> i < length (o_tasks s) \<Longrightarrow> node_task (o_tasks s' ! i) = node_task (o_tasks s ! i)"
  unfolding same_graph_def by (metis length_map nth_map)

lemma same_graph_index: "same_graph s s' \<Longrightarrow> task_index lower s' = task_index lower s"
  by (simp add: same_graph_def task_index_def orchestrator_path_def fun_eq_iff)

lemma same_graph_targets:
  "same_graph s s' \<Longrightarrow> i < length (o_tasks s) \<Longrightarrow> targets lower s' i = targets lower s i"
  by (simp add: targets_def node_references_def same_graph_task same_graph_index)

lemma same_graph_edges: "same_graph s s' \<Longrightarrow> edges lower s' = edges lower s"
  by (auto simp: edges_def same_graph_length same_graph_targets)

lemma same_graph_resolvable: "same_graph s s' \<Longrightarrow> resolvable lower s' = resolvable lower s"
  by (simp add: resolvable_def same_graph_length same_graph_index node_references_def same_graph_task)

abbreviation in_progress :: "setup_state \<Rightarrow> nat set" where
  "in_progress s \<equiv> analyzing s - completed s"

definition waits_for :: "'a orchestrator_scheme \<Rightarrow> nat \<Rightarrow> nat set" where
  "waits_for s i = fst ` set (upstream (o_tasks s ! i))"

text \<open>Every project comes behind the projects it waits for.\<close>

definition build_ordered :: "(nat \<Rightarrow> nat set) \<Rightarrow> nat list \<Rightarrow> bool" where
  "build_ordered ups xs \<longleftrightarrow> (\<forall>k<length xs. ups (xs ! k) \<subseteq> set (take k xs))"

lemma build_ordered_snoc:
  "build_ordered ups (xs @ [x]) \<longleftrightarrow> build_ordered ups xs \<and> ups x \<subseteq> set xs"
  by (auto simp: build_ordered_def nth_append less_Suc_eq)

lemma build_ordered_cong:
  "(\<And>x. x \<in> set xs \<Longrightarrow> ups x = ups' x) \<Longrightarrow> build_ordered ups xs \<longleftrightarrow> build_ordered ups' xs"
  by (simp add: build_ordered_def)

section \<open>The invariant of the walk\<close>

definition walk_inv :: "(int \<Rightarrow> int) \<Rightarrow> setup_state \<Rightarrow> bool" where
  "walk_inv lower s \<longleftrightarrow> completed s \<subseteq> analyzing s \<and> analyzing s \<subseteq> {..<length (o_tasks s)} \<and>
     set (o_order_indices s) = completed s \<and> distinct (o_order_indices s) \<and>
     o_order s = map (\<lambda>i. task_config (node_task (o_tasks s ! i))) (o_order_indices s) \<and>
     build_ordered (waits_for s) (o_order_indices s) \<and>
     (\<forall>i<length (o_tasks s). i \<notin> completed s \<longrightarrow> waits_for s i \<subseteq> completed s) \<and>
     (\<forall>i<length (o_tasks s). i \<notin> analyzing s \<longrightarrow> upstream (o_tasks s ! i) = []) \<and>
     (\<forall>i\<in>completed s. set (targets lower s i) \<subseteq> analyzing s)"

text \<open>When nothing is wrong every reference is a link.\<close>

definition linked :: "(int \<Rightarrow> int) \<Rightarrow> setup_state \<Rightarrow> bool" where
  "linked lower s \<longleftrightarrow> (\<forall>i\<in>completed s. map fst (upstream (o_tasks s ! i)) = targets lower s i)"

definition no_circular :: "'a orchestrator_scheme \<Rightarrow> bool" where
  "no_circular s \<longleftrightarrow> (\<forall>i<length (o_tasks s). \<forall>(name, c)\<in>set (node_references s i). \<not> c)"

lemma same_graph_no_circular: "same_graph s s' \<Longrightarrow> no_circular s' = no_circular s"
  by (simp add: no_circular_def same_graph_length node_references_def same_graph_task)

text \<open>
  From \<open>s\<close> to \<open>s'\<close> during a walk: what is being analysed stays, and of its links only those of the
  projects in \<open>X\<close> change.
\<close>

definition walks :: "(int \<Rightarrow> int) \<Rightarrow> bool \<Rightarrow> nat set \<Rightarrow> setup_state \<Rightarrow> setup_state \<Rightarrow> bool" where
  "walks lower circular X s s' \<longleftrightarrow> same_graph s s' \<and> walk_inv lower s' \<and> completed s \<subseteq> completed s' \<and>
     in_progress s' = in_progress s \<and>
     (\<forall>i\<in>in_progress s - X. upstream (o_tasks s' ! i) = upstream (o_tasks s ! i)) \<and>
     (\<exists>es. o_errors s' = o_errors s @ es) \<and>
     (no_circular s \<and> \<not> circular \<and> o_errors s' = o_errors s \<and> linked lower s \<longrightarrow> linked lower s')"

lemma walksD:
  assumes "walks lower c X s s'"
  shows "same_graph s s'" "walk_inv lower s'" "completed s \<subseteq> completed s'" "in_progress s' = in_progress s"
    "i \<in> in_progress s - X \<Longrightarrow> upstream (o_tasks s' ! i) = upstream (o_tasks s ! i)"
    "\<exists>es. o_errors s' = o_errors s @ es"
    "no_circular s \<Longrightarrow> \<not> c \<Longrightarrow> o_errors s' = o_errors s \<Longrightarrow> linked lower s \<Longrightarrow> linked lower s'"
  using assms unfolding walks_def by simp_all

lemma walk_invD:
  assumes "walk_inv lower s"
  shows "completed s \<subseteq> analyzing s" "analyzing s \<subseteq> {..<length (o_tasks s)}"
    "set (o_order_indices s) = completed s" "distinct (o_order_indices s)"
    "build_ordered (waits_for s) (o_order_indices s)"
    "i < length (o_tasks s) \<Longrightarrow> i \<notin> completed s \<Longrightarrow> waits_for s i \<subseteq> completed s"
    "i < length (o_tasks s) \<Longrightarrow> i \<notin> analyzing s \<Longrightarrow> upstream (o_tasks s ! i) = []"
    "i \<in> completed s \<Longrightarrow> set (targets lower s i) \<subseteq> analyzing s"
    "o_order s = map (\<lambda>i. task_config (node_task (o_tasks s ! i))) (o_order_indices s)"
  using assms unfolding walk_inv_def by simp_all

lemma walks_analyzing: "walks lower c X s s' \<Longrightarrow> analyzing s \<subseteq> analyzing s'"
  using walksD(2-4) walk_invD(1) by blast

lemma walks_refl: "walk_inv lower s \<Longrightarrow> walks lower c X s s"
  by (simp add: walks_def)

lemma walks_trans:
  assumes "walks lower c X s s'" "walks lower c Y s' s''" "X \<union> Y \<subseteq> Z"
  shows "walks lower c Z s s''"
proof -
  note l = walksD [OF assms(1)] and r = walksD [OF assms(2)]
  obtain es es' where es: "o_errors s' = o_errors s @ es" "o_errors s'' = o_errors s' @ es'"
    using l(6) r(6) by blast
  have up: "upstream (o_tasks s'' ! i) = upstream (o_tasks s ! i)" if "i \<in> in_progress s - Z" for i
  proof -
    have "i \<notin> X" "i \<notin> Y" using that assms(3) by auto
    then show ?thesis using l(4) l(5) [of i] r(5) [of i] that by simp
  qed
  have "linked lower s''" if "no_circular s" "\<not> c" "o_errors s'' = o_errors s" "linked lower s"
    using es that l(7) r(7) same_graph_no_circular [OF l(1)] by simp
  then show ?thesis
    using same_graph_trans [OF l(1) r(1)] r(2) l(3) r(3) l(4) r(4) up es unfolding walks_def by simp
qed

lemma walk_inv_cong:
  assumes "same_graph s s'" "completed s' = completed s" "analyzing s' = analyzing s"
    "o_order_indices s' = o_order_indices s" "o_order s' = o_order s"
    "\<forall>i<length (o_tasks s). upstream (o_tasks s' ! i) = upstream (o_tasks s ! i)" "walk_inv lower s"
  shows "walk_inv lower s'"
proof -
  note inv = walk_invD [OF assms(7)]
  have range: "i < length (o_tasks s)" if "i \<in> completed s" for i using inv(1,2) that by auto
  have "build_ordered (waits_for s') (o_order_indices s)"
    using inv(3,5) range assms(6) build_ordered_cong [of "o_order_indices s" "waits_for s'" "waits_for s"]
    by (simp add: waits_for_def)
  moreover have "o_order s = map (\<lambda>i. task_config (node_task (o_tasks s' ! i))) (o_order_indices s)"
    using inv(3,9) range same_graph_task [OF assms(1)] by simp
  ultimately show ?thesis
    using assms inv range unfolding walk_inv_def
    by (simp add: same_graph_length same_graph_targets waits_for_def)
qed

lemma same_state_walks:
  assumes "same_graph s s'" "completed s' = completed s" "analyzing s' = analyzing s"
    "o_order_indices s' = o_order_indices s" "o_order s' = o_order s"
    "\<forall>i<length (o_tasks s). upstream (o_tasks s' ! i) = upstream (o_tasks s ! i)" "walk_inv lower s"
    "o_errors s' = o_errors s @ es"
  shows "walks lower c X s s'"
proof -
  have range: "i < length (o_tasks s)" if "i \<in> analyzing s" for i using walk_invD(2) [OF assms(7)] that by auto
  then have "linked lower s'" if "linked lower s"
    using that assms(1,2,6) walk_invD(1) [OF assms(7)]
    by (auto simp: linked_def same_graph_targets subset_iff)
  then show ?thesis
    using assms walk_inv_cong [OF assms(1-7)] range by (simp add: walks_def)
qed

lemma same_graph_update:
  "node_task n = node_task (o_tasks s ! i) \<Longrightarrow> same_graph s (s\<lparr>o_tasks := (o_tasks s)[i := n]\<rparr>)"
  by (cases "i < length (o_tasks s)") (simp_all add: same_graph_def map_update list_update_same_conv list_update_beyond)

lemma link_downstream_walks:
  assumes "walk_inv lower s" "i \<in> completed s"
  shows "\<exists>s'. link_downstream i d s = Some (Some i, s') \<and> walks lower c X s s' \<and> completed s' = completed s \<and>
    o_errors s' = o_errors s"
proof (cases "d = None \<or> \<not> o_watch s")
  case True
  then show ?thesis using walks_refl [OF assms(1)] by (auto simp: link_downstream_def split: option.splits)
next
  case False
  then obtain e where e: "d = Some e" "o_watch s" by auto
  let ?n = "(o_tasks s ! i)\<lparr>downstream := downstream (o_tasks s ! i) @ [e]\<rparr>"
  let ?s = "s\<lparr>o_tasks := (o_tasks s)[i := ?n]\<rparr>"
  have i: "i < length (o_tasks s)" using assms walk_invD(1,2) by blast
  have "walks lower c X s ?s"
    using i same_graph_update [of ?n s i] assms(1)
    by (intro same_state_walks [where es = "[]"]) (auto simp: nth_list_update)
  then show ?thesis using e i by (simp add: link_downstream_def update_node_def)
qed

lemma push_upstream_walks:
  assumes "walk_inv lower s" "i \<in> in_progress s" "u \<in> completed s"
  shows "\<exists>s'. update_node i (\<lambda>n. n\<lparr>upstream := upstream n @ [(u, k)]\<rparr>) s = Some s' \<and> walks lower c {i} s s' \<and>
    completed s' = completed s \<and> o_errors s' = o_errors s \<and>
    upstream (o_tasks s' ! i) = upstream (o_tasks s ! i) @ [(u, k)]"
proof -
  note inv = walk_invD [OF assms(1)]
  have range: "j < length (o_tasks s)" if "j \<in> analyzing s" for j using inv(2) that by auto
  then have i: "i < length (o_tasks s)" using assms(2) by simp
  let ?n = "(o_tasks s ! i)\<lparr>upstream := upstream (o_tasks s ! i) @ [(u, k)]\<rparr>"
  let ?s = "s\<lparr>o_tasks := (o_tasks s)[i := ?n]\<rparr>"
  have graph: "same_graph s ?s" by (rule same_graph_update) simp
  have others: "o_tasks ?s ! j = o_tasks s ! j" if "j \<noteq> i" for j using that by simp
  have neq: "j \<noteq> i" if "j \<in> completed s" for j using that assms(2) by auto
  have "waits_for ?s j = waits_for s j" if "j \<in> set (o_order_indices s)" for j
    using that inv(3) neq [of j] others [of j] by (simp add: waits_for_def)
  then have "build_ordered (waits_for ?s) (o_order_indices s)"
    using inv(5) build_ordered_cong [of "o_order_indices s" "waits_for ?s" "waits_for s"] by blast
  moreover have "waits_for ?s j \<subseteq> completed s" if "j < length (o_tasks s)" "j \<notin> completed s" for j
    using inv(6) [OF that] assms(3) i by (cases "j = i") (auto simp: waits_for_def)
  moreover have "o_order s = map (\<lambda>j. task_config (node_task (o_tasks ?s ! j))) (o_order_indices s)"
    using inv(1,3,9) range same_graph_task [OF graph] by (auto simp: subset_iff)
  moreover have "upstream (o_tasks ?s ! j) = []" if "j < length (o_tasks s)" "j \<notin> analyzing s" for j
    using inv(7) [OF that] that assms(2) by (cases "j = i") auto
  moreover have "set (targets lower ?s j) \<subseteq> analyzing s" if "j \<in> completed s" for j
    using inv(8) [OF that] that inv(1) range same_graph_targets [OF graph] by (auto simp: subset_iff)
  ultimately have "walk_inv lower ?s"
    using inv unfolding walk_inv_def by simp
  moreover have "linked lower ?s" if "linked lower s"
    unfolding linked_def
  proof
    fix j assume j: "j \<in> completed ?s"
    then have "j < length (o_tasks s)" "j \<noteq> i" using inv(1) range neq [of j] by auto
    then show "map fst (upstream (o_tasks ?s ! j)) = targets lower ?s j"
      using that j others [of j] same_graph_targets [OF graph, of j] by (simp add: linked_def)
  qed
  ultimately have "walks lower c {i} s ?s"
    using graph others by (simp add: walks_def)
  then show ?thesis using i by (simp add: update_node_def)
qed

section \<open>The walk\<close>

text \<open>What one call of \<open>setup_task\<close> does.\<close>

definition no_cycle_from :: "(nat \<times> nat) set \<Rightarrow> nat \<Rightarrow> bool" where
  "no_cycle_from E i \<longleftrightarrow> (\<forall>a. (i, a) \<in> E\<^sup>* \<longrightarrow> (a, a) \<notin> E\<^sup>+)"

definition task_walks ::
  "(int \<Rightarrow> int) \<Rightarrow> nat \<Rightarrow> bool \<Rightarrow> setup_state \<Rightarrow> nat option \<Rightarrow> setup_state \<Rightarrow> bool" where
  "task_walks lower i circular s r s' \<longleftrightarrow> walks lower circular {} s s' \<and>
     completed s' \<subseteq> completed s \<union> (edges lower s)\<^sup>* `` {i} \<and> i \<in> analyzing s' \<and>
     (if i \<in> in_progress s then r = None \<and> (circular \<or> o_errors s' \<noteq> o_errors s)
      else r = Some i \<and> i \<in> completed s') \<and>
     (no_cycle_from (edges lower s) i \<and> (\<forall>a\<in>in_progress s. (a, i) \<in> (edges lower s)\<^sup>+) \<longrightarrow> o_errors s' = o_errors s)"

text \<open>The body of the loop over the references of project \<open>i\<close>.\<close>

definition visit_reference ::
  "(int \<Rightarrow> int) \<Rightarrow> nat \<Rightarrow> bool \<Rightarrow> bytes list \<Rightarrow> nat \<Rightarrow> bytes \<Rightarrow> bool \<Rightarrow> setup_state \<Rightarrow> setup_state option" where
  "visit_reference lower i circular stack k name ref_circular s = do {
     j \<leftarrow> task_index lower s name;
     r \<leftarrow> setup_task lower j (Some i) (circular \<or> ref_circular) stack s;
     case fst r of
       None \<Rightarrow> Some (snd r)
     | Some u \<Rightarrow> update_node i (\<lambda>n. n\<lparr>upstream := upstream n @ [(u, k)]\<rparr>) (snd r)
   }"

lemma setup_task_unfold:
  "setup_task lower i d circular stack s =
     (if i \<notin> completed s then
        if i \<in> analyzing s then
          Some (None, if circular then s else s\<lparr>o_errors := o_errors s @ [join_with (CHR 0x0A) stack]\<rparr>)
        else if length (o_tasks s) \<le> i then None
        else for_references
            (visit_reference lower i circular (stack @ [task_config (node_task (o_tasks s ! i))]))
            0 (node_references s i) (s\<lparr>analyzing := insert i (analyzing s)\<rparr>) \<bind>
          (\<lambda>s'. link_downstream i d (complete_task i (task_config (node_task (o_tasks s ! i))) s'))
      else link_downstream i d s)"
  by (subst setup_task.simps) (simp add: Let_def visit_reference_def [abs_def] node_references_def)

text \<open>Walks weaken from a call that may be under a circular reference.\<close>

lemma walks_circular: "walks lower c X s s' \<Longrightarrow> (\<not> c' \<Longrightarrow> \<not> c \<or> \<not> no_circular s) \<Longrightarrow> walks lower c' X s s'"
  unfolding walks_def by blast

lemma visit_reference_walks:
  assumes inv: "walk_inv lower s" "i \<in> in_progress s" "task_index lower s name = Some j"
    and call: "\<And>c. \<exists>r s'. setup_task lower j (Some i) c stack s = Some (r, s') \<and> task_walks lower j c s r s'"
    and flag: "no_circular s \<Longrightarrow> \<not> rc"
  shows "\<exists>s'. visit_reference lower i c stack k name rc s = Some s' \<and> walks lower c {i} s s' \<and>
    completed s' \<subseteq> completed s \<union> (edges lower s)\<^sup>* `` {j} \<and> j \<in> analyzing s' \<and>
    (no_cycle_from (edges lower s) j \<and> (\<forall>a\<in>in_progress s. (a, j) \<in> (edges lower s)\<^sup>+) \<longrightarrow> o_errors s' = o_errors s) \<and>
    (no_circular s \<and> \<not> c \<and> o_errors s' = o_errors s \<longrightarrow>
       map fst (upstream (o_tasks s' ! i)) = map fst (upstream (o_tasks s ! i)) @ [j])"
proof -
  obtain r s1 where r: "setup_task lower j (Some i) (c \<or> rc) stack s = Some (r, s1)"
    and w: "task_walks lower j (c \<or> rc) s r s1" using call by blast
  have w1: "walks lower c {} s s1"
    using w flag walks_circular [of lower "c \<or> rc" "{}" s s1 c] unfolding task_walks_def by blast
  note d1 = walksD [OF w1]
  have i1: "i \<in> in_progress s1" using d1(4) inv(2) by simp
  show ?thesis
  proof (cases r)
    case None
    then have "j \<in> in_progress s" "c \<or> rc \<or> o_errors s1 \<noteq> o_errors s"
      using w by (auto simp: task_walks_def split: if_splits)
    then show ?thesis
      using None r w walks_trans [OF w1 walks_refl [OF d1(2)], of "{i}" "{i}"] inv(3) flag
      by (auto simp: visit_reference_def task_walks_def)
  next
    case (Some u)
    then have u: "u = j" "j \<in> completed s1" using w by (auto simp: task_walks_def split: if_splits)
    obtain s2 where s2: "update_node i (\<lambda>n. n\<lparr>upstream := upstream n @ [(j, k)]\<rparr>) s1 = Some s2"
        "walks lower c {i} s1 s2" "completed s2 = completed s1" "o_errors s2 = o_errors s1"
        "upstream (o_tasks s2 ! i) = upstream (o_tasks s1 ! i) @ [(j, k)]"
      using push_upstream_walks [OF d1(2) i1 u(2)] by blast
    have up: "upstream (o_tasks s1 ! i) = upstream (o_tasks s ! i)" using d1(5) [of i] inv(2) by simp
    have "j \<in> analyzing s2" using u(2) s2(2,3) walksD(2) walk_invD(1) by blast
    then show ?thesis
      using Some r w u s2 up inv(3) walks_trans [OF w1 s2(2), of "{i}"]
      by (auto simp: visit_reference_def task_walks_def)
  qed
qed

definition loop_walks ::
  "(int \<Rightarrow> int) \<Rightarrow> nat \<Rightarrow> bool \<Rightarrow> nat list \<Rightarrow> setup_state \<Rightarrow> setup_state \<Rightarrow> bool" where
  "loop_walks lower i c js s s' \<longleftrightarrow> walks lower c {i} s s' \<and>
     completed s' \<subseteq> completed s \<union> (edges lower s)\<^sup>* `` set js \<and> set js \<subseteq> analyzing s' \<and>
     ((\<forall>j\<in>set js. no_cycle_from (edges lower s) j) \<and> (\<forall>a\<in>in_progress s. \<forall>j\<in>set js. (a, j) \<in> (edges lower s)\<^sup>+) \<longrightarrow>
        o_errors s' = o_errors s) \<and>
     (no_circular s \<and> \<not> c \<and> o_errors s' = o_errors s \<longrightarrow>
        map fst (upstream (o_tasks s' ! i)) = map fst (upstream (o_tasks s ! i)) @ js)"

lemma loop_walks_Nil: "walk_inv lower s \<Longrightarrow> loop_walks lower i c [] s s"
  by (simp add: loop_walks_def walks_refl)

lemma loop_walks_Cons:
  assumes "loop_walks lower i c [j] s s1" "loop_walks lower i c js s1 s2"
  shows "loop_walks lower i c (j # js) s s2"
proof -
  have w: "walks lower c {i} s s1" "walks lower c {i} s1 s2" using assms by (simp_all add: loop_walks_def)
  note d = walksD [OF w(1)] and d' = walksD [OF w(2)]
  have e: "edges lower s1 = edges lower s" "no_circular s1 = no_circular s"
    using same_graph_edges [OF d(1)] same_graph_no_circular [OF d(1)] by simp_all
  obtain es es' where es: "o_errors s1 = o_errors s @ es" "o_errors s2 = o_errors s1 @ es'"
    using d(6) d'(6) by blast
  have "j \<in> analyzing s1" using assms(1) by (simp add: loop_walks_def)
  then have "j \<in> analyzing s2" using walks_analyzing [OF w(2)] by blast
  moreover have "completed s1 \<subseteq> completed s \<union> (edges lower s)\<^sup>* `` {j}"
      "completed s2 \<subseteq> completed s1 \<union> (edges lower s)\<^sup>* `` set js"
    using assms e by (simp_all add: loop_walks_def)
  then have "completed s2 \<subseteq> completed s \<union> (edges lower s)\<^sup>* `` set (j # js)" by fastforce
  moreover have "o_errors s2 = o_errors s"
    if "\<forall>j\<in>set (j # js). no_cycle_from (edges lower s) j" "\<forall>a\<in>in_progress s. \<forall>j\<in>set (j # js). (a, j) \<in> (edges lower s)\<^sup>+"
    using assms e(1) that d(4) unfolding loop_walks_def by simp
  moreover have "map fst (upstream (o_tasks s2 ! i)) = map fst (upstream (o_tasks s ! i)) @ j # js"
    if "no_circular s" "\<not> c" "o_errors s2 = o_errors s"
    using assms e(2) that es unfolding loop_walks_def by simp
  ultimately show ?thesis
    using walks_trans [OF w, of "{i}"] assms(2) by (simp add: loop_walks_def)
qed

lemma references_walk:
  assumes call: "\<And>j c s'. walk_inv lower s' \<Longrightarrow> same_graph s s' \<Longrightarrow> analyzing s \<subseteq> analyzing s' \<Longrightarrow>
      j < length (o_tasks s) \<Longrightarrow> \<exists>r s''. setup_task lower j (Some i) c stack s' = Some (r, s'') \<and> task_walks lower j c s' r s''"
    and start: "walk_inv lower s1" "same_graph s s1" "analyzing s \<subseteq> analyzing s1" "i \<in> in_progress s1"
    and refs: "\<forall>(name, rc)\<in>set refs. (\<exists>j<length (o_tasks s). task_index lower s name = Some j) \<and> (no_circular s \<longrightarrow> \<not> rc)"
  shows "\<exists>s'. for_references (visit_reference lower i c stack) k refs s1 = Some s' \<and>
    loop_walks lower i c (map (\<lambda>(name, c). the (task_index lower s name)) refs) s1 s'"
  using start refs
proof (induction refs arbitrary: k s1)
  case Nil
  then show ?case by (simp add: loop_walks_Nil)
next
  case (Cons ref refs)
  obtain name rc where ref: "ref = (name, rc)" by (cases ref)
  obtain j where j: "j < length (o_tasks s)" "task_index lower s name = Some j" "no_circular s \<Longrightarrow> \<not> rc"
    using Cons.prems(5) ref by auto
  have "task_index lower s1 name = Some j" "no_circular s1 \<Longrightarrow> \<not> rc"
    using j same_graph_index [OF Cons.prems(2)] same_graph_no_circular [OF Cons.prems(2)] by simp_all
  then obtain s2 where s2: "visit_reference lower i c stack k name rc s1 = Some s2" "loop_walks lower i c [j] s1 s2"
    using visit_reference_walks [OF Cons.prems(1,4) _ call [OF Cons.prems(1-3) j(1)]] unfolding loop_walks_def by simp blast
  then have w: "walks lower c {i} s1 s2" by (simp add: loop_walks_def)
  note d = walksD [OF w]
  obtain s3 where "for_references (visit_reference lower i c stack) (Suc k) refs s2 = Some s3"
      "loop_walks lower i c (map (\<lambda>(name, c). the (task_index lower s name)) refs) s2 s3"
    using Cons.IH [OF d(2) same_graph_trans [OF Cons.prems(2) d(1)]
        subset_trans [OF Cons.prems(3) walks_analyzing [OF w]], of "Suc k"] d(4) Cons.prems(4,5) by auto
  then show ?case
    using s2 ref j(2) loop_walks_Cons [OF s2(2)] by simp
qed

text \<open>Completing a project whose references have all been visited.\<close>

lemma complete_task_walks:
  assumes inv: "walk_inv lower s" "i \<notin> analyzing s" "i < length (o_tasks s)"
    and loop: "loop_walks lower i c (targets lower s i) (s\<lparr>analyzing := insert i (analyzing s)\<rparr>) s1"
  shows "walks lower c {} s (complete_task i (task_config (node_task (o_tasks s ! i))) s1)"
proof -
  let ?s0 = "s\<lparr>analyzing := insert i (analyzing s)\<rparr>" and ?s2 = "complete_task i (task_config (node_task (o_tasks s ! i))) s1"
  have w: "walks lower c {i} ?s0 s1" using loop by (simp add: loop_walks_def)
  note d = walksD [OF w] and inv0 = walk_invD [OF inv(1)] and inv1 = walk_invD [OF walksD(2) [OF w]]
  have graph: "same_graph s s1" "same_graph s1 ?s2" "same_graph s ?s2"
    using d(1) by (simp_all add: same_graph_def complete_task_def)
  have i: "i \<in> in_progress s1" using d(4) inv(2) inv0(1) by auto
  have tasks: "o_tasks ?s2 = o_tasks s1" "completed ?s2 = insert i (completed s1)" "analyzing ?s2 = analyzing s1"
      "o_order_indices ?s2 = o_order_indices s1 @ [i]" "o_errors ?s2 = o_errors s1"
    by (simp_all add: complete_task_def)
  have waits: "waits_for ?s2 = waits_for s1" by (simp add: waits_for_def tasks fun_eq_iff)
  have len: "length (o_tasks s1) = length (o_tasks s)" by (rule same_graph_length [OF graph(1)])
  have "set (targets lower s1 i) \<subseteq> analyzing s1"
    using loop same_graph_targets [OF graph(1) inv(3)] by (simp add: loop_walks_def)
  moreover have "targets lower ?s2 = targets lower s1"
    by (simp add: targets_def node_references_def task_index_def orchestrator_path_def complete_task_def fun_eq_iff)
  ultimately have closed: "set (targets lower ?s2 a) \<subseteq> analyzing s1" if "a \<in> insert i (completed s1)" for a
    using that inv1(8) by auto
  have ordered: "build_ordered (waits_for s1) (o_order_indices s1 @ [i])"
    using inv1(3,5) inv1(6) [of i] i inv(3) len by (simp add: build_ordered_snoc)
  have "o_order ?s2 = map (\<lambda>i. task_config (node_task (o_tasks ?s2 ! i))) (o_order_indices ?s2)"
    using inv1(9) same_graph_task [OF graph(1) inv(3)] by (simp add: complete_task_def)
  moreover have "waits_for s1 a \<subseteq> insert i (completed s1)" if "a < length (o_tasks s1)" "a \<notin> completed s1" for a
    using inv1(6) [OF that] by blast
  ultimately have "walk_inv lower ?s2"
    unfolding walk_inv_def waits tasks using ordered closed inv1 i by (auto simp: tasks)
  moreover have "linked lower ?s2" if "no_circular s" "\<not> c" "o_errors ?s2 = o_errors s" "linked lower s"
  proof -
    have n: "no_circular ?s0" using that(1) by (simp add: no_circular_def node_references_def)
    have "linked lower ?s0" using that(4)
      by (simp add: linked_def targets_def node_references_def task_index_def orchestrator_path_def)
    then have l: "linked lower s1" using d(7) n that(2,3) by (simp add: tasks)
    have "map fst (upstream (o_tasks s1 ! i)) = targets lower s i"
      using loop n that(2,3) inv0(7) [OF inv(3,2)] by (simp add: loop_walks_def tasks)
    then show ?thesis
      using l same_graph_targets [OF graph(1) inv(3)] \<open>targets lower ?s2 = targets lower s1\<close>
      by (auto simp: linked_def tasks)
  qed
  moreover have "upstream (o_tasks s1 ! a) = upstream (o_tasks s ! a)" if "a \<in> in_progress s" for a
    using d(5) [of a] that inv(2) by auto
  moreover have "in_progress ?s2 = in_progress s"
    using d(4) inv(2) inv0(1) i by (auto simp: tasks)
  ultimately show ?thesis
    using graph(3) d(3,6) by (auto simp: walks_def tasks)
qed

lemma refs_resolved:
  "resolvable lower s \<Longrightarrow> i < length (o_tasks s) \<Longrightarrow> \<forall>(name, rc)\<in>set (node_references s i).
     (\<exists>j<length (o_tasks s). task_index lower s name = Some j) \<and> (no_circular s \<longrightarrow> \<not> rc)"
  by (fastforce simp: resolvable_def no_circular_def)

lemma same_graph_analyzing: "same_graph s (s\<lparr>analyzing := A\<rparr>)"
  by (simp add: same_graph_def)

lemma start_analysis:
  assumes "walk_inv lower s" "i < length (o_tasks s)" "i \<notin> analyzing s"
  shows "walk_inv lower (s\<lparr>analyzing := insert i (analyzing s)\<rparr>)"
proof -
  let ?s = "s\<lparr>analyzing := insert i (analyzing s)\<rparr>"
  have "waits_for ?s = waits_for s" by (simp add: waits_for_def fun_eq_iff)
  moreover have "targets lower ?s = targets lower s"
    by (simp add: targets_def node_references_def task_index_def orchestrator_path_def fun_eq_iff)
  moreover have "set (targets lower s a) \<subseteq> insert i (analyzing s)" if "a \<in> completed s" for a
    using walk_invD(8) [OF assms(1) that] by blast
  ultimately show ?thesis
    using assms walk_invD [OF assms(1)] unfolding walk_inv_def by auto
qed

lemma setup_task_walks:
  assumes "walk_inv lower s" "resolvable lower s" "i < length (o_tasks s)"
  shows "\<exists>r s'. setup_task lower i d circular stack s = Some (r, s') \<and> task_walks lower i circular s r s'"
  using assms
proof (induction "card ({..<length (o_tasks s)} - analyzing s)" arbitrary: s i d circular stack rule: less_induct)
  case less
  note inv = walk_invD [OF less.prems(1)]
  let ?E = "edges lower s"
  consider "i \<in> completed s" | "i \<in> in_progress s" | "i \<notin> analyzing s" using inv(1) by blast
  then show ?case
  proof cases
    case 1
    then obtain s' where "link_downstream i d s = Some (Some i, s')" "walks lower circular {} s s'"
        "completed s' = completed s" "o_errors s' = o_errors s"
      using link_downstream_walks [OF less.prems(1)] by blast
    moreover from this 1 have "i \<in> analyzing s'" using walksD(2) walk_invD(1) by blast
    ultimately show ?thesis using 1 by (subst setup_task_unfold) (simp add: task_walks_def)
  next
    case 2
    let ?s = "if circular then s else s\<lparr>o_errors := o_errors s @ [join_with (CHR 0x0A) stack]\<rparr>"
    have "walks lower circular {} s ?s"
      using walks_refl [OF less.prems(1)] same_state_walks [of s ?s lower] less.prems(1)
      by (cases circular) (simp_all add: same_graph_def)
    moreover have "\<not> no_cycle_from ?E i" if "(i, i) \<in> ?E\<^sup>+" using that by (auto simp: no_cycle_from_def)
    ultimately show ?thesis using 2 by (subst setup_task_unfold) (auto simp: task_walks_def)
  next
    case 3
    let ?s0 = "s\<lparr>analyzing := insert i (analyzing s)\<rparr>"
    let ?config = "task_config (node_task (o_tasks s ! i))"
    have less': "card ({..<length (o_tasks s')} - analyzing s') < card ({..<length (o_tasks s)} - analyzing s)"
      if "same_graph ?s0 s'" "analyzing ?s0 \<subseteq> analyzing s'" for s'
      using that 3 less.prems(3) same_graph_length [OF that(1)]
      by (intro psubset_card_mono) auto
    have same: "task_index lower ?s0 = task_index lower s" "no_circular ?s0 = no_circular s"
      using same_graph_index [OF same_graph_analyzing] same_graph_no_circular [OF same_graph_analyzing] by blast+
    have call: "\<exists>r s''. setup_task lower j (Some i) c (stack @ [?config]) s' = Some (r, s'') \<and> task_walks lower j c s' r s''"
      if "walk_inv lower s'" "same_graph ?s0 s'" "analyzing ?s0 \<subseteq> analyzing s'" "j < length (o_tasks ?s0)" for j c s'
      using less.hyps [OF less' [OF that(2,3)] that(1)] that less.prems(2) same_graph_length [OF that(2)]
        same_graph_resolvable [OF same_graph_trans [OF same_graph_analyzing that(2)]] by simp
    have refs: "\<forall>(name, rc)\<in>set (node_references s i). (\<exists>j<length (o_tasks ?s0). task_index lower ?s0 name = Some j) \<and>
        (no_circular ?s0 \<longrightarrow> \<not> rc)"
      using refs_resolved [OF less.prems(2,3)] same by simp
    have "i \<in> in_progress ?s0" using 3 inv(1) by auto
    then have "\<exists>s1. for_references (visit_reference lower i circular (stack @ [?config])) 0 (node_references s i) ?s0 = Some s1 \<and>
        loop_walks lower i circular (map (\<lambda>(name, c). the (task_index lower ?s0 name)) (node_references s i)) ?s0 s1"
      using references_walk [OF call start_analysis [OF less.prems(1,3) 3] same_graph_refl subset_refl _ refs] by blast
    then obtain s1 where loop: "for_references (visit_reference lower i circular (stack @ [?config])) 0
        (node_references s i) ?s0 = Some s1" "loop_walks lower i circular (targets lower s i) ?s0 s1"
      unfolding targets_def same by blast
    let ?s2 = "complete_task i ?config s1"
    have w2: "walks lower circular {} s ?s2"
      by (rule complete_task_walks [OF less.prems(1) 3 less.prems(3) loop(2)])
    have "i \<in> completed ?s2" by (simp add: complete_task_def)
    then obtain s3 where s3: "link_downstream i d ?s2 = Some (Some i, s3)" "walks lower circular {} ?s2 s3"
        "completed s3 = completed ?s2" "o_errors s3 = o_errors ?s2"
      using link_downstream_walks [OF walksD(2) [OF w2]] by blast
    have w3: "walks lower circular {} s s3" using walks_trans [OF w2 s3(2)] by simp
    have E0: "edges lower ?s0 = ?E" by (rule same_graph_edges [OF same_graph_analyzing])
    have step: "(i, j) \<in> ?E" if "j \<in> set (targets lower s i)" for j using that less.prems(3) by (simp add: edges_def)
    have "completed s1 \<subseteq> completed s \<union> ?E\<^sup>* `` set (targets lower s i)" using loop(2) E0 by (simp add: loop_walks_def)
    moreover have "?E\<^sup>* `` set (targets lower s i) \<subseteq> ?E\<^sup>* `` {i}" using step by (auto intro: converse_rtrancl_into_rtrancl)
    ultimately have "completed s3 \<subseteq> completed s \<union> ?E\<^sup>* `` {i}" using s3(3) by (auto simp: complete_task_def)
    moreover have "o_errors s3 = o_errors s" if "no_cycle_from ?E i" "\<forall>a\<in>in_progress s. (a, i) \<in> ?E\<^sup>+"
    proof -
      have "\<forall>j\<in>set (targets lower s i). no_cycle_from ?E j"
        using that(1) step unfolding no_cycle_from_def by (meson converse_rtrancl_into_rtrancl)
      moreover
      have "\<forall>a\<in>in_progress ?s0. \<forall>j\<in>set (targets lower s i). (a, j) \<in> ?E\<^sup>+"
        using that(2) step by (auto intro: trancl.trancl_into_trancl)
      ultimately show ?thesis using loop(2) s3(4) E0 by (simp add: loop_walks_def complete_task_def)
    qed
    moreover have "i \<in> completed s3" "i \<in> analyzing s3" "i \<notin> in_progress s" "i \<notin> completed s"
      using s3(3) walksD(2) [OF w3] walk_invD(1) inv(1) 3 by (auto simp: complete_task_def)
    ultimately show ?thesis
      using w3 loop(1) s3(1) 3 less.prems(3) by (subst setup_task_unfold) (simp add: task_walks_def)
  qed
qed

section \<open>The roots\<close>

definition root_indices :: "(int \<Rightarrow> int) \<Rightarrow> 'a orchestrator_scheme \<Rightarrow> bytes list \<Rightarrow> nat set" where
  "root_indices lower s roots = {i. \<exists>root\<in>set roots. task_index lower s root = Some i}"

lemma setup_roots_walk:
  assumes "walk_inv lower s" "in_progress s = {}" "resolvable lower s"
    "\<forall>root\<in>set roots. \<exists>i<length (o_tasks s). task_index lower s root = Some i"
  shows "\<exists>s'. setup_roots lower roots s = Some s' \<and> walks lower False {} s s' \<and>
    completed s' \<subseteq> completed s \<union> (edges lower s)\<^sup>* `` root_indices lower s roots \<and>
    root_indices lower s roots \<subseteq> completed s' \<and>
    ((\<forall>i\<in>root_indices lower s roots. no_cycle_from (edges lower s) i) \<longrightarrow> o_errors s' = o_errors s)"
  using assms
proof (induction roots arbitrary: s)
  case Nil
  then show ?case by (simp add: root_indices_def walks_refl)
next
  case (Cons root roots)
  obtain i where i: "i < length (o_tasks s)" "task_index lower s root = Some i" using Cons.prems(4) by auto
  obtain r s1 where r: "setup_task lower i None False [] s = Some (r, s1)" "task_walks lower i False s r s1"
    using setup_task_walks [OF Cons.prems(1,3) i(1)] by blast
  have w1: "walks lower False {} s s1" using r(2) by (simp add: task_walks_def)
  note d = walksD [OF w1]
  have same: "edges lower s1 = edges lower s" "root_indices lower s1 roots = root_indices lower s roots"
    using same_graph_edges [OF d(1)] same_graph_index [OF d(1)] by (simp_all add: root_indices_def)
  have "\<exists>s2. setup_roots lower roots s1 = Some s2 \<and> walks lower False {} s1 s2 \<and>
    completed s2 \<subseteq> completed s1 \<union> (edges lower s)\<^sup>* `` root_indices lower s roots \<and>
    root_indices lower s roots \<subseteq> completed s2 \<and>
    ((\<forall>i\<in>root_indices lower s roots. no_cycle_from (edges lower s) i) \<longrightarrow> o_errors s2 = o_errors s1)"
    using Cons.IH [OF d(2)] d(4) Cons.prems(2-4) same same_graph_resolvable [OF d(1)] same_graph_index [OF d(1)]
      same_graph_length [OF d(1)] by simp
  then obtain s2 where s2: "setup_roots lower roots s1 = Some s2" "walks lower False {} s1 s2"
    "completed s2 \<subseteq> completed s1 \<union> (edges lower s)\<^sup>* `` root_indices lower s roots"
    "root_indices lower s roots \<subseteq> completed s2"
    "(\<forall>i\<in>root_indices lower s roots. no_cycle_from (edges lower s) i) \<longrightarrow> o_errors s2 = o_errors s1" by blast
  have roots: "root_indices lower s (root # roots) = insert i (root_indices lower s roots)"
    using i(2) by (auto simp: root_indices_def)
  have c: "completed s1 \<subseteq> completed s \<union> (edges lower s)\<^sup>* `` {i}" "i \<in> completed s1"
      "no_cycle_from (edges lower s) i \<longrightarrow> o_errors s1 = o_errors s"
    using r(2) Cons.prems(2) by (auto simp: task_walks_def)
  have "completed s2 \<subseteq> completed s \<union> (edges lower s)\<^sup>* `` root_indices lower s (root # roots)"
    using c(1) s2(3) unfolding roots by fastforce
  moreover have "root_indices lower s (root # roots) \<subseteq> completed s2"
    using c(2) s2(4) walksD(3) [OF s2(2)] unfolding roots by blast
  ultimately show ?case
    using r(1) s2(1,5) c(3) i(2) walks_trans [OF w1 s2(2), of "{}"] roots by simp
qed

section \<open>Loading\<close>

lemma retain_unscheduled_spec:
  "retain_unscheduled path names scheduled = (kept, scheduled') \<Longrightarrow>
   scheduled' = scheduled \<union> path ` set names \<and> set kept \<subseteq> set names \<and> scheduled' = scheduled \<union> path ` set kept \<and>
   (\<forall>name\<in>set kept. path name \<notin> scheduled)"
proof (induction names arbitrary: scheduled kept scheduled')
  case (Cons name names)
  show ?case
  proof (cases "path name \<in> scheduled")
    case True
    then show ?thesis using Cons.IH [of scheduled kept scheduled'] Cons.prems by (auto simp: insert_absorb)
  next
    case False
    then obtain ks where "retain_unscheduled path names (insert (path name) scheduled) = (ks, scheduled')" "kept = name # ks"
      using Cons.prems by (auto simp: Let_def split: prod.splits)
    then show ?thesis using Cons.IH [of "insert (path name) scheduled" ks scheduled'] False by auto
  qed
qed simp

text \<open>Whatever the order in which the jobs of a batch end, the tasks come in the order of the names.\<close>

lemma collect_parsed_any_order:
  assumes "mset arrivals = mset (enumerate 0 xs)"
  shows "collect_parsed arrivals = xs"
proof -
  let ?e = "enumerate 0 xs" and ?s = "sort_key fst arrivals"
  have e: "map fst ?e = [0..<length xs]" "sorted (map fst ?e)" "distinct (map fst ?e)"
    by (simp_all add: enumerate_eq_zip)
  have m: "mset ?s = mset ?e" using assms by simp
  then have d: "distinct (map fst ?s)" using e(3) by (metis mset_eq_imp_distinct_iff mset_map)
  have st: "set ?s = set ?e" using m by (metis set_mset_mset)
  have "?s = ?e"
    using e d st by (intro map_sorted_distinct_set_unique [of fst]) (auto simp: distinct_map)
  then show ?thesis by (simp add: collect_parsed_def)
qed

lemma collect_parsed_enumerate [simp]: "collect_parsed (enumerate 0 xs) = xs"
  by (rule collect_parsed_any_order) simp

text \<open>An earlier task is kept under its own path.\<close>

definition own_paths :: "(bytes \<Rightarrow> bytes) \<Rightarrow> (bytes \<rightharpoonup> build_task) \<Rightarrow> bool" where
  "own_paths path old \<longleftrightarrow> (\<forall>p t. old p = Some t \<longrightarrow> path (task_config t) = p)"

lemma load_task_path: "own_paths path old \<Longrightarrow> load_task read_config old path name = Inr t \<Longrightarrow> path (task_config t) = path name"
  by (cases "read_config name") (auto simp: load_task_def own_paths_def split: option.splits if_splits)

definition fresh_node :: "build_task \<Rightarrow> graph_node" where
  "fresh_node t = \<lparr>node_task = t, upstream = [], downstream = []\<rparr>"

lemma add_task_simps [simp]:
  "o_tasks (add_task lower t s) = o_tasks s @ [fresh_node t]"
  "orchestrator_path lower (add_task lower t s) = orchestrator_path lower s"
  "o_by_path (add_task lower t s) = (o_by_path s)(orchestrator_path lower s (task_config t) \<mapsto> length (o_tasks s))"
  "o_order_indices (add_task lower t s) = o_order_indices s" "o_order (add_task lower t s) = o_order s"
  "o_errors (add_task lower t s) = o_errors s"
  by (simp_all add: add_task_def fresh_node_def orchestrator_path_def fun_eq_iff)

text \<open>
  While the configurations are loaded: every scheduled path has its task, and every reference of a
  task is either known or pending.
\<close>

definition load_inv :: "(int \<Rightarrow> int) \<Rightarrow> bytes list \<Rightarrow> bytes set \<Rightarrow> bytes list \<Rightarrow> orchestrator \<Rightarrow> bool" where
  "load_inv lower roots scheduled pending s \<longleftrightarrow>
     (\<forall>k\<in>ran (o_by_path s). k < length (o_tasks s)) \<and> scheduled \<subseteq> dom (o_by_path s) \<and>
     (\<forall>n\<in>set (o_tasks s). n = fresh_node (node_task n) \<and>
        orchestrator_path lower s ` set (discovered (node_task n)) \<subseteq>
          dom (o_by_path s) \<union> orchestrator_path lower s ` set pending) \<and>
     orchestrator_path lower s ` set roots \<subseteq> dom (o_by_path s) \<union> orchestrator_path lower s ` set pending \<and>
     o_order_indices s = [] \<and> o_order s = [] \<and> o_errors s = []"

lemma add_tasks_inv:
  assumes "add_tasks lower results pending s = Inr (pending', s')"
    "load_inv lower roots scheduled (pending @ rest) s"
  shows "orchestrator_path lower s' = orchestrator_path lower s \<and>
    load_inv lower roots scheduled (pending' @ rest) s' \<and>
    (\<forall>t. Inr t \<in> set results \<longrightarrow> orchestrator_path lower s (task_config t) \<in> dom (o_by_path s')) \<and>
    dom (o_by_path s) \<subseteq> dom (o_by_path s')"
  using assms
proof (induction lower results pending s rule: add_tasks.induct)
  case (3 lower t results pending s)
  have new: "orchestrator_path lower s ` set (discovered (node_task n)) \<subseteq> dom (o_by_path (add_task lower t s)) \<union>
      orchestrator_path lower s ` set ((pending @ discovered t) @ rest)" if "n \<in> set (o_tasks (add_task lower t s))" for n
  proof (cases "n \<in> set (o_tasks s)")
    case True
    then have "orchestrator_path lower s ` set (discovered (node_task n)) \<subseteq>
        dom (o_by_path s) \<union> orchestrator_path lower s ` set (pending @ rest)"
      using "3.prems"(2) unfolding load_inv_def by blast
    then show ?thesis by auto
  next
    case False
    then have "node_task n = t" using that by (auto simp: fresh_node_def)
    then show ?thesis by auto
  qed
  have "orchestrator_path lower s ` set roots \<subseteq> dom (o_by_path s) \<union> orchestrator_path lower s ` set (pending @ rest)"
    using "3.prems"(2) by (simp add: load_inv_def)
  then have "orchestrator_path lower s ` set roots \<subseteq> dom (o_by_path (add_task lower t s)) \<union>
      orchestrator_path lower s ` set ((pending @ discovered t) @ rest)" by auto
  moreover have "\<forall>k\<in>ran (o_by_path (add_task lower t s)). k < length (o_tasks (add_task lower t s))"
    using "3.prems"(2) by (auto simp: load_inv_def ran_def less_Suc_eq)
  moreover have "\<forall>n\<in>set (o_tasks (add_task lower t s)). n = fresh_node (node_task n)"
    using "3.prems"(2) by (auto simp: load_inv_def fresh_node_def)
  ultimately have "load_inv lower roots scheduled ((pending @ discovered t) @ rest) (add_task lower t s)"
    using "3.prems"(2) new unfolding load_inv_def by auto
  moreover have "dom (o_by_path s) \<subseteq> dom (o_by_path (add_task lower t s))"
    "orchestrator_path lower s (task_config t) \<in> dom (o_by_path (add_task lower t s))" by auto
  ultimately show ?case using "3.IH" "3.prems"(1) by (auto simp del: add_task_simps(3) simp: subset_iff)
qed auto

lemma add_tasks_all: "add_tasks lower results pending s = Inr x \<Longrightarrow> r \<in> set results \<Longrightarrow> \<exists>t. r = Inr t"
  by (induction lower results pending s rule: add_tasks.induct) auto

lemma add_tasks_returns:
  "(\<forall>r\<in>set results. \<exists>t. r = Inr t) \<Longrightarrow> \<exists>s'. add_tasks lower results pending s =
     Inr (pending @ concat (map (\<lambda>r. discovered (projr r)) results), s') \<and>
     orchestrator_path lower s' = orchestrator_path lower s"
  by (induction lower results pending s rule: add_tasks.induct) auto

lemma load_batch_inv:
  assumes "load_batch lower read_config old kept s = Inr (pending', s')" "load_inv lower roots scheduled pending s"
    "retain_unscheduled (orchestrator_path lower s) pending scheduled = (kept, scheduled')"
    "own_paths (orchestrator_path lower s) old"
  shows "load_inv lower roots scheduled' pending' s' \<and> orchestrator_path lower s' = orchestrator_path lower s"
proof -
  let ?path = "orchestrator_path lower s" and ?results = "map (load_task read_config old (orchestrator_path lower s)) kept"
  have sch: "scheduled' = scheduled \<union> ?path ` set kept" "scheduled' = scheduled \<union> ?path ` set pending"
    using retain_unscheduled_spec [OF assms(3)] by auto
  have add: "add_tasks lower ?results [] s = Inr (pending', s')"
    using assms(1) by (simp add: load_batch_def)
  have inv: "orchestrator_path lower s' = ?path" "load_inv lower roots scheduled (pending' @ pending) s'"
      "\<And>t. Inr t \<in> set ?results \<Longrightarrow> ?path (task_config t) \<in> dom (o_by_path s')"
    using add_tasks_inv [OF add, of roots scheduled pending] assms(2) by auto
  have "?path name \<in> dom (o_by_path s')" if name: "name \<in> set kept" for name
  proof -
    obtain t where t: "load_task read_config old ?path name = Inr t"
      using add_tasks_all [OF add, of "load_task read_config old ?path name"] name by auto
    then have "Inr t \<in> set ?results" using name by (auto simp: image_iff intro: sym)
    then show ?thesis using inv(3) [of t] load_task_path [OF assms(4) t] by simp
  qed
  moreover have "scheduled \<subseteq> dom (o_by_path s')" using inv(2) by (simp add: load_inv_def)
  ultimately have dom: "scheduled' \<subseteq> dom (o_by_path s')" using sch(1) by auto
  then have "?path ` set pending \<subseteq> dom (o_by_path s')" using sch(2) by blast
  then have absorb: "dom (o_by_path s') \<union> ?path ` set (pending' @ pending) = dom (o_by_path s') \<union> ?path ` set pending'"
    by auto
  show ?thesis
    using inv(2) dom unfolding load_inv_def inv(1) absorb by (simp add: inv(1))
qed

lemma load_batches_inv:
  fixes read_config :: "bytes \<Rightarrow> 'e + project_config option"
  assumes "load_batches lower read_config old pending scheduled s = Some (Inr s')"
    "load_inv lower roots scheduled pending s" "own_paths (orchestrator_path lower s) old"
  shows "\<exists>scheduled'. load_inv lower roots scheduled' [] s'"
proof -
  let ?P = "\<lambda>lower (read_config :: bytes \<Rightarrow> 'e + project_config option) old pending scheduled s (r :: 'e + orchestrator).
    \<forall>s' roots. r = Inr s' \<longrightarrow>
    load_inv lower roots scheduled pending s \<longrightarrow> own_paths (orchestrator_path lower s) old \<longrightarrow>
    (\<exists>scheduled'. load_inv lower roots scheduled' [] s')"
  have "?P lower read_config old pending scheduled s (Inr s')"
  proof (rule load_batches.raw_induct [where P = ?P, OF _ assms(1)], intro allI impI, goal_cases)
    case (1 f lower read_config old pending scheduled s r s' roots)
    obtain kept sch where ret: "retain_unscheduled (orchestrator_path lower s) pending scheduled = (kept, sch)"
      by fastforce
    show ?case
    proof (cases "pending = []")
      case True
      then show ?thesis using 1 by auto
    next
      case False
      then obtain pending1 s1 where b: "load_batch lower read_config old kept s = Inr (pending1, s1)"
          "f lower read_config old pending1 sch s1 = Some r"
        using 1(2,3) ret by (auto simp: Let_def split: sum.splits)
      note inv = load_batch_inv [OF b(1) 1(4) ret 1(5)]
      then have "own_paths (orchestrator_path lower s1) old" using 1(5) by simp
      then show ?thesis using 1(1) [OF b(2)] 1(3) inv by blast
    qed
  qed
  then show ?thesis using assms(2,3) by blast
qed

text \<open>
  The paths a build can reach: closed under reading a configuration, which succeeds.
\<close>

definition closed_paths ::
  "(bytes \<Rightarrow> bytes) \<Rightarrow> (bytes \<Rightarrow> 'e + project_config option) \<Rightarrow> (bytes \<rightharpoonup> build_task) \<Rightarrow> bytes set \<Rightarrow> bool" where
  "closed_paths path read_config old P \<longleftrightarrow> (\<forall>name. path name \<in> P \<longrightarrow>
     (\<exists>t. load_task read_config old path name = Inr t \<and> path ` set (discovered t) \<subseteq> P))"

lemma load_batch_returns:
  assumes "closed_paths (orchestrator_path lower s) read_config old P" "orchestrator_path lower s ` set names \<subseteq> P"
  shows "\<exists>pending' s'. load_batch lower read_config old names s = Inr (pending', s') \<and>
    orchestrator_path lower s' = orchestrator_path lower s \<and> orchestrator_path lower s ` set pending' \<subseteq> P \<and>
    (names = [] \<longrightarrow> pending' = [])"
proof -
  let ?path = "orchestrator_path lower s" and ?results = "map (load_task read_config old (orchestrator_path lower s)) names"
  have t: "\<exists>t. load_task read_config old ?path name = Inr t \<and> ?path ` set (discovered t) \<subseteq> P" if "name \<in> set names" for name
    using assms that by (auto simp: closed_paths_def)
  then have "\<forall>r\<in>set ?results. \<exists>t. r = Inr t" by fastforce
  then obtain s' where "add_tasks lower ?results [] s = Inr (concat (map (\<lambda>r. discovered (projr r)) ?results), s')"
      "orchestrator_path lower s' = ?path"
    using add_tasks_returns [of ?results lower "[]" s] by auto
  moreover have "?path ` set (concat (map (\<lambda>r. discovered (projr r)) ?results)) \<subseteq> P"
    using t by fastforce
  ultimately show ?thesis by (auto simp: load_batch_def)
qed

lemma load_batches_returns:
  assumes "finite P" "closed_paths (orchestrator_path lower s) read_config old P"
    "orchestrator_path lower s ` set pending \<subseteq> P" "scheduled \<subseteq> P"
  shows "\<exists>s'. load_batches lower read_config old pending scheduled s = Some (Inr s')"
  using assms(2-4)
proof (induction "card (P - scheduled)" arbitrary: pending scheduled s rule: less_induct)
  case less
  let ?path = "orchestrator_path lower s"
  obtain kept sch where ret: "retain_unscheduled ?path pending scheduled = (kept, sch)" by fastforce
  note spec = retain_unscheduled_spec [OF ret]
  have kept: "?path ` set kept \<subseteq> P" using spec less.prems(2) by blast
  obtain pending1 s1 where b: "load_batch lower read_config old kept s = Inr (pending1, s1)"
      "orchestrator_path lower s1 = ?path" "?path ` set pending1 \<subseteq> P" "kept = [] \<longrightarrow> pending1 = []"
    using load_batch_returns [OF less.prems(1) kept] by blast
  have "\<exists>s'. load_batches lower read_config old pending1 sch s1 = Some (Inr s')"
  proof (cases "kept = []")
    case True
    then show ?thesis using b(4) by (subst load_batches.simps) simp
  next
    case False
    then have "P - sch \<subset> P - scheduled" using spec kept by (cases kept) auto
    then have "card (P - sch) < card (P - scheduled)" using assms(1) by (simp add: psubset_card_mono)
    moreover have "sch \<subseteq> P" using spec kept less.prems(3) by blast
    ultimately show ?thesis using less.hyps [of sch s1 pending1] less.prems(1) b(2,3) by simp
  qed
  then show ?case using ret b(1) by (subst load_batches.simps) simp
qed

section \<open>From loading to the order\<close>

definition start_walk :: "orchestrator \<Rightarrow> setup_state" where
  "start_walk s = orchestrator.extend s (setup_state.fields {} {})"

lemma start_walk_simps [simp]:
  "o_tasks (start_walk s) = o_tasks s" "o_by_path (start_walk s) = o_by_path s"
  "o_order (start_walk s) = o_order s" "o_order_indices (start_walk s) = o_order_indices s"
  "o_errors (start_walk s) = o_errors s" "completed (start_walk s) = {}" "analyzing (start_walk s) = {}"
  "orchestrator_path lower (start_walk s) = orchestrator_path lower s"
  by (simp_all add: start_walk_def orchestrator.defs setup_state.defs orchestrator_path_def fun_eq_iff)

lemma loaded_index:
  assumes "load_inv lower roots scheduled [] s" "orchestrator_path lower s name \<in> dom (o_by_path s)"
  shows "\<exists>j<length (o_tasks s). task_index lower (start_walk s) name = Some j"
  using assms by (auto simp: load_inv_def task_index_def ran_def)

lemma loaded_start:
  assumes "load_inv lower roots scheduled [] s"
  shows "walk_inv lower (start_walk s)" "resolvable lower (start_walk s)"
    "\<forall>root\<in>set roots. \<exists>i<length (o_tasks s). task_index lower (start_walk s) root = Some i"
proof -
  have nodes: "n = fresh_node (node_task n)"
      "orchestrator_path lower s ` set (discovered (node_task n)) \<subseteq> dom (o_by_path s)" if "n \<in> set (o_tasks s)" for n
    using assms that by (auto simp: load_inv_def)
  have "upstream (o_tasks s ! i) = []" if "i < length (o_tasks s)" for i
    using nodes(1) [of "o_tasks s ! i"] that by (metis fresh_node_def graph_node.select_convs(2) nth_mem)
  then show "walk_inv lower (start_walk s)"
    using assms by (simp add: walk_inv_def load_inv_def build_ordered_def waits_for_def)
  have names: "name \<in> set (discovered t)" if "(name, c) \<in> set (task_references t)" for name c t
    using that by (cases "task_resolved t") (auto simp: task_references_def discovered_def dest: set_zip_leftD)
  show "resolvable lower (start_walk s)"
    unfolding resolvable_def node_references_def start_walk_simps
  proof (intro allI impI ballI, clarify)
    fix i name c
    assume i: "i < length (o_tasks s)" and "(name, c) \<in> set (task_references (node_task (o_tasks s ! i)))"
    then have "orchestrator_path lower s name \<in> dom (o_by_path s)" using nodes(2) [OF nth_mem [OF i]] names by blast
    then show "\<exists>j<length (o_tasks s). task_index lower (start_walk s) name = Some j" by (rule loaded_index [OF assms])
  qed
  show "\<forall>root\<in>set roots. \<exists>i<length (o_tasks s). task_index lower (start_walk s) root = Some i"
  proof -
    have "orchestrator_path lower s ` set roots \<subseteq> dom (o_by_path s)" using assms by (simp add: load_inv_def)
    then show ?thesis using loaded_index [OF assms] by blast
  qed
qed

lemma generate_graph_cases:
  fixes s0 :: orchestrator
  assumes "own_paths (orchestrator_path lower s0) old" "generate_graph_with_tasks lower read_config old roots s0 = Some (Inr s)"
  obtains s1 scheduled where "load_inv lower roots scheduled [] s1" "setup_roots lower roots (start_walk s1) = Some s"
proof -
  let ?s = "s0\<lparr>o_tasks := [], o_by_path := Map.empty, o_order := [], o_order_indices := [], o_errors := []\<rparr>"
  have "orchestrator_path lower ?s = orchestrator_path lower s0" by (simp add: orchestrator_path_def fun_eq_iff)
  moreover from this have "load_inv lower roots {} roots ?s" by (simp add: load_inv_def)
  moreover obtain r where r: "load_batches lower read_config old roots {} ?s = Some r"
      "(case r of Inl e \<Rightarrow> Some (Inl e) | Inr s \<Rightarrow> map_option Inr (setup_roots lower roots (start_walk s))) = Some (Inr s)"
    using assms(2) unfolding generate_graph_with_tasks_def bind_Some_iff start_walk_def by blast
  moreover from r obtain s1 where s1: "load_batches lower read_config old roots {} ?s = Some (Inr s1)"
      "setup_roots lower roots (start_walk s1) = Some s" by (cases r) auto
  ultimately show ?thesis using that s1 load_batches_inv [OF s1(1)] assms(1) by metis
qed

text \<open>What the graph is when \<open>generate_graph_with_tasks\<close> returns one.\<close>

lemma generated:
  fixes s0 :: orchestrator
  assumes "own_paths (orchestrator_path lower s0) old" "generate_graph_with_tasks lower read_config old roots s0 = Some (Inr s)"
  shows "walk_inv lower s" "in_progress s = {}" "completed s = (edges lower s)\<^sup>* `` root_indices lower s roots"
    "(\<forall>i\<in>root_indices lower s roots. no_cycle_from (edges lower s) i) \<Longrightarrow> o_errors s = []"
    "no_circular s \<Longrightarrow> o_errors s = [] \<Longrightarrow> linked lower s"
proof -
  obtain s1 scheduled where s1: "load_inv lower roots scheduled [] s1" "setup_roots lower roots (start_walk s1) = Some s"
    by (rule generate_graph_cases [OF assms])
  note start = loaded_start [OF s1(1)]
  have e0: "o_errors s1 = []" using s1(1) by (simp add: load_inv_def)
  have w: "walks lower False {} (start_walk s1) s"
    and c: "completed s \<subseteq> (edges lower (start_walk s1))\<^sup>* `` root_indices lower (start_walk s1) roots"
    and r: "root_indices lower (start_walk s1) roots \<subseteq> completed s"
    and e: "(\<forall>i\<in>root_indices lower (start_walk s1) roots. no_cycle_from (edges lower (start_walk s1)) i) \<longrightarrow> o_errors s = []"
    using setup_roots_walk [OF start(1) _ start(2), of roots] start(3) s1(2) e0 by auto
  note d = walksD [OF w]
  have same: "edges lower (start_walk s1) = edges lower s"
      "root_indices lower (start_walk s1) roots = root_indices lower s roots"
    using same_graph_edges [OF d(1)] same_graph_index [OF d(1)] by (simp_all add: root_indices_def)
  show inv: "walk_inv lower s" and p: "in_progress s = {}" using d(2,4) by simp_all
  have "(a, b) \<in> (edges lower s)\<^sup>* \<Longrightarrow> a \<in> completed s \<Longrightarrow> b \<in> completed s" for a b
  proof (induction rule: rtrancl_induct)
    case (step b c)
    then have "c \<in> set (targets lower s b)" "b \<in> completed s" by (auto simp: edges_def)
    then show ?case using walk_invD(8) [OF inv, of b] p by auto
  qed
  then show "completed s = (edges lower s)\<^sup>* `` root_indices lower s roots"
    using c r unfolding same by blast
  show "o_errors s = []" if "\<forall>i\<in>root_indices lower s roots. no_cycle_from (edges lower s) i"
    using that e unfolding same by blast
  show "linked lower s" if "no_circular s" "o_errors s = []"
    using that d(7) same_graph_no_circular [OF d(1)] e0 by (simp add: linked_def)
qed

lemma build_ordered_acyclic:
  assumes "build_ordered ups xs" "distinct xs" "\<And>x y. x \<in> set xs \<Longrightarrow> (x, y) \<in> E \<Longrightarrow> y \<in> ups x" "a \<in> set xs"
  shows "(a, a) \<notin> E\<^sup>+"
proof
  have *: "\<exists>j<k. y = xs ! j" if "(xs ! k, y) \<in> E\<^sup>+" "k < length xs" for k y
    using that
  proof (induction rule: trancl_induct)
    case (base y)
    then have "y \<in> set (take k xs)" using assms(1,3) by (fastforce simp: build_ordered_def)
    then show ?case using base(2) by (auto simp: in_set_conv_nth)
  next
    case (step y z)
    then obtain j where j: "j < k" "y = xs ! j" by blast
    then have "xs ! j \<in> set xs" "j < length xs" using step(4) by auto
    then have "z \<in> set (take j xs)" using assms(1) assms(3) [of "xs ! j" z] step(2) j(2) by (auto simp: build_ordered_def)
    then obtain l where "l < j" "z = xs ! l" using j step(4) by (auto simp: in_set_conv_nth)
    then show ?case using j(1) less_trans by blast
  qed
  obtain k where k: "k < length xs" "a = xs ! k" using assms(4) by (auto simp: in_set_conv_nth)
  assume "(a, a) \<in> E\<^sup>+"
  then obtain j where "j < k" "xs ! k = xs ! j" using * [of k] k by blast
  then show False using assms(2) k(1) by (simp add: nth_eq_iff_index_eq)
qed

section \<open>What the builders rely on\<close>

text \<open>
  The contract of a build plan: for a valid graph, an order without repetitions in which every project
  comes behind those it waits for.
\<close>

locale build_plan =
  fixes valid :: "'g \<Rightarrow> bool"
    and plan :: "'g \<Rightarrow> nat list"
    and waits :: "'g \<Rightarrow> nat \<Rightarrow> nat set"
  assumes plan_distinct: "valid g \<Longrightarrow> distinct (plan g)"
    and plan_ordered: "valid g \<Longrightarrow> build_ordered (waits g) (plan g)"
begin

lemma waits_earlier: "valid g \<Longrightarrow> p < length (plan g) \<Longrightarrow> waits g (plan g ! p) \<subseteq> {plan g ! q | q. q < p}"
  using plan_ordered [of g] by (fastforce simp: build_ordered_def in_set_conv_nth)

lemma position_unique: "valid g \<Longrightarrow> p < length (plan g) \<Longrightarrow> q < length (plan g) \<Longrightarrow> plan g ! p = plan g ! q \<longleftrightarrow> p = q"
  using plan_distinct [of g] by (simp add: nth_eq_iff_index_eq)

lemma earlier_position:
  "valid g \<Longrightarrow> p < length (plan g) \<Longrightarrow> plan g ! p \<in> set (take k (plan g)) \<longleftrightarrow> p < k"
  using position_unique [of g _ p] by (fastforce simp: in_set_conv_nth)

end

definition walked :: "setup_state \<Rightarrow> bool" where
  "walked s \<longleftrightarrow> (\<exists>lower. walk_inv lower s)"

interpretation graph: build_plan walked o_order_indices waits_for
  by unfold_locales (auto simp: walked_def dest: walk_invD)

section \<open>Properties\<close>

text \<open>
  C3. The build order. Whenever the graph is generated, afresh or over earlier tasks, the order lists
  every project reachable from the roots exactly once and nothing else, under its configuration name,
  and each project comes behind all of the projects it waits for, cycles or not.
\<close>

theorem build_order_topological:
  fixes s0 :: orchestrator
  assumes "own_paths (orchestrator_path lower s0) old" "generate_graph_with_tasks lower read_config old roots s0 = Some (Inr s)"
  shows "distinct (o_order_indices s) \<and> set (o_order_indices s) = (edges lower s)\<^sup>* `` root_indices lower s roots \<and>
    build_ordered (waits_for s) (o_order_indices s) \<and>
    o_order s = map (\<lambda>i. task_config (node_task (o_tasks s ! i))) (o_order_indices s)"
  using walk_invD [OF generated(1) [OF assms]] generated(3) [OF assms] by simp

text \<open>
  C4. Cycles are reported. When no reference is marked circular, the graph is without errors exactly
  when no cycle can be reached from the roots; and then every reference of a project is among the
  projects it waits for, in the order of the configuration.
\<close>

theorem cycle_error_iff:
  fixes s0 :: orchestrator
  assumes "own_paths (orchestrator_path lower s0) old" "generate_graph_with_tasks lower read_config old roots s0 = Some (Inr s)"
    "no_circular s"
  shows "(o_errors s = [] \<longleftrightarrow> (\<forall>i\<in>root_indices lower s roots. no_cycle_from (edges lower s) i)) \<and>
    (o_errors s = [] \<longrightarrow> (\<forall>i\<in>set (o_order_indices s). map fst (upstream (o_tasks s ! i)) = targets lower s i))"
proof -
  note g = generated [OF assms(1,2)] and inv = walk_invD [OF generated(1) [OF assms(1,2)]]
  have "no_cycle_from (edges lower s) i" if "o_errors s = []" "i \<in> root_indices lower s roots" for i
    unfolding no_cycle_from_def
  proof (intro allI impI)
    fix a assume "(i, a) \<in> (edges lower s)\<^sup>*"
    then have a: "a \<in> set (o_order_indices s)" using that(2) g(3) inv(3) by blast
    have "y \<in> waits_for s x" if "x \<in> set (o_order_indices s)" "(x, y) \<in> edges lower s" for x y
    proof -
      have "map fst (upstream (o_tasks s ! x)) = targets lower s x"
        using g(5) [OF assms(3) \<open>o_errors s = []\<close>] that(1) inv(3) by (simp add: linked_def)
      then show ?thesis using that(2) by (simp add: waits_for_def edges_def flip: set_map)
    qed
    then show "(a, a) \<notin> (edges lower s)\<^sup>+" using build_ordered_acyclic [OF inv(5,4) _ a] by blast
  qed
  then show ?thesis using g(4) g(5) [OF assms(3)] inv(3) by (auto simp: linked_def)
qed

text \<open>
  C28. The graph is always generated. If the configurations that can be reached are finitely many and
  can be read, loading them ends and the walk neither loops nor misses a task, so that the panic
  ``No build task found'' does not occur, cyclic references included.
\<close>

theorem generate_graph_returns:
  fixes s0 :: orchestrator
  assumes "own_paths (orchestrator_path lower s0) old" "finite P" "closed_paths (orchestrator_path lower s0) read_config old P"
    "orchestrator_path lower s0 ` set roots \<subseteq> P"
  shows "\<exists>s. generate_graph_with_tasks lower read_config old roots s0 = Some (Inr s)"
proof -
  let ?s = "s0\<lparr>o_tasks := [], o_by_path := Map.empty, o_order := [], o_order_indices := [], o_errors := []\<rparr>"
  have path: "orchestrator_path lower ?s = orchestrator_path lower s0" by (simp add: orchestrator_path_def fun_eq_iff)
  have "\<exists>s1. load_batches lower read_config old roots {} ?s = Some (Inr s1)"
    using assms(3,4) by (intro load_batches_returns [OF assms(2)]) (simp_all add: path)
  then obtain s1 where s1: "load_batches lower read_config old roots {} ?s = Some (Inr s1)" by blast
  have "load_inv lower roots {} roots ?s" by (simp add: load_inv_def path)
  then obtain scheduled where "load_inv lower roots scheduled [] s1"
    using load_batches_inv [OF s1, of roots] assms(1) by (auto simp: path)
  note start = loaded_start [OF this]
  obtain s where "setup_roots lower roots (start_walk s1) = Some s"
    using setup_roots_walk [OF start(1) _ start(2), of roots] start(3) by auto
  then show ?thesis using s1 by (simp add: generate_graph_with_tasks_def start_walk_def)
qed

section \<open>A small solution\<close>

text \<open>Project \<open>/a\<close> references \<open>/b\<close> and \<open>/c\<close>, and \<open>/b\<close> references \<open>/c\<close> again.\<close>

definition sample_config :: "bytes \<Rightarrow> bytes + project_config option" where
  "sample_config name = Inr (
     if name = ''/a'' then Some \<lparr>resolved_project_reference_paths = [''/b'', ''/c''], reference_circular = [False, False]\<rparr>
     else if name = ''/b'' then Some \<lparr>resolved_project_reference_paths = [''/c''], reference_circular = [False]\<rparr>
     else None)"

definition sample_orchestrator :: orchestrator where
  "sample_orchestrator = \<lparr>host_cwd = ''/'', host_case_sensitive = True, o_watch = False, o_tasks = [],
     o_by_path = Map.empty, o_order = [], o_order_indices = [], o_errors = []\<rparr>"

definition sample_graph :: setup_state where
  "sample_graph = projr (the (generate_graph id sample_config [''/a''] sample_orchestrator))"

lemma own_paths_empty: "own_paths path Map.empty"
  by (simp add: own_paths_def)

lemma sample_generated:
  "generate_graph_with_tasks id sample_config Map.empty [''/a''] sample_orchestrator = Some (Inr sample_graph)"
proof -
  have "(case generate_graph id sample_config [''/a''] sample_orchestrator of None \<Rightarrow> False | Some r \<Rightarrow> isl r = False)"
    by code_simp
  then show ?thesis
    by (simp add: sample_graph_def generate_graph_def split: option.splits)
qed

lemma sample_order: "o_order sample_graph = [''/c'', ''/b'', ''/a'']" "o_order_indices sample_graph = [2, 1, 0]"
  by code_simp+

theorem build_order_topological_witness:
  "distinct [2, 1, 0 :: nat] \<and> set [2, 1, 0] = (edges id sample_graph)\<^sup>* `` root_indices id sample_graph [''/a''] \<and>
   build_ordered (waits_for sample_graph) [2, 1, 0] \<and>
   [''/c'', ''/b'', ''/a''] = map (\<lambda>i. task_config (node_task (o_tasks sample_graph ! i))) [2, 1, 0]"
  using build_order_topological [OF own_paths_empty sample_generated] unfolding sample_order .

theorem cycle_error_iff_witness:
  "o_errors sample_graph = [] \<and> no_cycle_from (edges id sample_graph) 0 \<and>
   map fst (upstream (o_tasks sample_graph ! 0)) = targets id sample_graph 0 \<and> targets id sample_graph 0 = [1, 2]"
proof -
  have "o_errors sample_graph = []" "no_circular sample_graph" "targets id sample_graph 0 = [1, 2]"
      "task_index id sample_graph ''/a'' = Some 0" by code_simp+
  then show ?thesis
    using cycle_error_iff [OF own_paths_empty sample_generated] by (simp add: root_indices_def sample_order)
qed

theorem generate_graph_returns_witness:
  "\<exists>s. generate_graph_with_tasks id sample_config Map.empty [''/a''] sample_orchestrator = Some (Inr s)"
proof (rule generate_graph_returns [where P = "{''/a'', ''/b'', ''/c''}"])
  have p: "orchestrator_path id sample_orchestrator ''/a'' = ''/a''" "orchestrator_path id sample_orchestrator ''/b'' = ''/b''"
      "orchestrator_path id sample_orchestrator ''/c'' = ''/c''" by code_simp+
  have "orchestrator_path id sample_orchestrator ` set (discovered t) \<subseteq> {''/a'', ''/b'', ''/c''}"
    if "task_resolved t = projr (sample_config name)" for t name
    using that p by (cases "name = ''/a''"; cases "name = ''/b''") (simp_all add: discovered_def sample_config_def)
  moreover have "load_task sample_config Map.empty path name =
      Inr \<lparr>task_config = name, task_resolved = projr (sample_config name), task_dirty = False\<rparr>" for path name
    by (simp add: load_task_def sample_config_def)
  ultimately show "closed_paths (orchestrator_path id sample_orchestrator) sample_config Map.empty {''/a'', ''/b'', ''/c''}"
    by (simp add: closed_paths_def)
  show "orchestrator_path id sample_orchestrator ` set [''/a''] \<subseteq> {''/a'', ''/b'', ''/c''}" using p by simp
qed (simp_all add: own_paths_empty)

text \<open>The tasks of an earlier graph are kept under their own paths.\<close>

lemma own_paths_update: "own_paths path m \<Longrightarrow> own_paths path (m(path (task_config t) \<mapsto> t))"
  unfolding own_paths_def by (metis fun_upd_apply option.inject)

lemma reuse_own_paths:
  "own_paths path m \<Longrightarrow> own_paths path (fold (\<lambda>n m. m(path (task_config (node_task n)) \<mapsto> node_task n)) ns m)"
  by (induction ns arbitrary: m) (simp_all add: own_paths_update)

end
