(* ===== verification/Build_Run.thy ===== *)
theory Build_Run
  imports Build_Order
begin

text \<open>
  The builders of \<open>build_or_clean\<close> in \<open>crates/tsr_build/src/lib.rs\<close>: several threads take projects in
  build order, wait for the projects upstream, build, and report in order. The threads are a list of
  builder states and an event is one step of one thread between two points where threads meet (the
  shared position, the \<open>done\<close> and \<open>report_done\<close> completions of the tasks); a step that would block is
  not enabled. The work group starts some of the builders at once and the others on threads that have
  ended, as \<open>WorkGroup::run_and_wait\<close> of \<open>crates/tsr_core/src/workgroup.rs\<close> does: how many is a
  parameter.

  What building a project does (\<open>Task::build\<close> and \<open>Task::clean\<close>) is an argument, \<open>build\<close>: from the project and the
  outcomes of the projects it waits for, a result with what the task leaves for the builds
  downstream, an error or a panic. The cancellation of the context is an event of its own, which may
  come at any time; a build that begins after it is skipped, unless the orchestrator watches.
  \<open>report_panic\<close> is the panic of a report, if it has one, with the output written before it. Statistics,
  the list of deletions and what is printed besides the output of the tasks (the list of projects, the errors of
  the graph, the error summary) are left out, with the errors of writing them.
\<close>

section \<open>The model\<close>

record task_result =
  result_output :: bytes
  result_status :: int

text \<open>In \<^term>\<open>Finished\<close>, the second part is the state the task leaves, which the builds downstream look at.\<close>

datatype ('s, 'e, 'p) task_outcome = Finished task_result 's | Failed 'e | Panicked 'p

text \<open>A project's build, from the outcomes of the projects it waits for.\<close>

type_synonym ('s, 'e, 'p) build_action = "nat \<Rightarrow> (nat \<rightharpoonup> ('s, 'e, 'p) task_outcome) \<Rightarrow> ('s, 'e, 'p) task_outcome"

definition DiagnosticsPresent_OutputsSkipped :: int where
  "DiagnosticsPresent_OutputsSkipped = 1"

definition ProjectReferenceCycle_OutputsSkipped :: int where
  "ProjectReferenceCycle_OutputsSkipped = 4"

text \<open>The panic of a report, if it has one, with the output written before.\<close>

type_synonym 'p reporter = "nat \<Rightarrow> task_result \<Rightarrow> ('p \<times> bytes) option"

text \<open>The \<open>TaskResult\<close> kept for an outcome: an error, a panic or a cancelled context counts as skipped outputs.\<close>

definition skipped_result :: task_result where
  "skipped_result = \<lparr>result_output = [], result_status = DiagnosticsPresent_OutputsSkipped\<rparr>"

fun outcome_result :: "('s, 'e, 'p) task_outcome \<Rightarrow> task_result" where
  "outcome_result (Finished r x) = r"
| "outcome_result (Failed e) = skipped_result"
| "outcome_result (Panicked p) = skipped_result"

text \<open>Where a thread is in the loop of \<open>run\<close>; the number is the position it has taken.\<close>

datatype builder =
    Fetching
  | Waiting nat
  | Building nat
  | Skipping nat
  | Reporting nat task_result
  | Stopped

record ('s, 'e, 'p) run_state =
  r_current :: nat
  r_builders :: "builder list"
  r_queued :: nat
  r_done :: "nat set"
  r_report_done :: "nat set"
  r_results :: "nat \<rightharpoonup> task_result"
  r_output :: bytes
  r_failure :: "'e option"
  r_first_panic :: "'p option"
  r_outcomes :: "nat \<rightharpoonup> ('s, 'e, 'p) task_outcome"
  r_cancelled :: bool

definition run_start :: "nat \<Rightarrow> nat \<Rightarrow> ('s, 'e, 'p) run_state" where
  "run_start active queued =
     \<lparr>r_current = 0, r_builders = replicate active Fetching, r_queued = queued, r_done = {}, r_report_done = {},
      r_results = Map.empty, r_output = [], r_failure = None, r_first_panic = None,
      r_outcomes = Map.empty, r_cancelled = False\<rparr>"

text \<open>\<open>get_or_insert\<close>\<close>

definition get_or_insert :: "'a option \<Rightarrow> 'a \<Rightarrow> 'a option" where
  "get_or_insert x a = (case x of None \<Rightarrow> Some a | Some b \<Rightarrow> Some b)"

text \<open>The events of the builders, and the cancellation of the context from outside.\<close>

datatype run_event = Take nat | Begin nat | Finish nat | Report nat | Reuse nat | Cancel

abbreviation set_builder :: "nat \<Rightarrow> builder \<Rightarrow> ('s, 'e, 'p) run_state \<Rightarrow> ('s, 'e, 'p) run_state" where
  "set_builder w b st \<equiv> st\<lparr>r_builders := (r_builders st)[w := b]\<rparr>"

text \<open>\<open>current.fetch_add(1)\<close>, and the position if there is one.\<close>

definition take_position :: "'a orchestrator_scheme \<Rightarrow> nat \<Rightarrow> ('s, 'e, 'p) run_state \<Rightarrow> ('s, 'e, 'p) run_state" where
  "take_position s w st =
     (let pos = r_current st in
      set_builder w (if pos < length (o_order_indices s) then Waiting pos else Stopped)
        (st\<lparr>r_current := pos + 1\<rparr>))"

text \<open>
  After the waits: a project is skipped when the context is done, except in watch mode, where the
  initial build is performed all the same.
\<close>

definition begin_task :: "'a orchestrator_scheme \<Rightarrow> nat \<Rightarrow> nat \<Rightarrow> ('s, 'e, 'p) run_state \<Rightarrow> ('s, 'e, 'p) run_state" where
  "begin_task s w pos st =
     set_builder w (if r_cancelled st \<and> \<not> o_watch s then Skipping pos else Building pos) st"

text \<open>
  The end of a build: its outcome, from those upstream, is recorded, then \<open>done\<close> is set. A skipped
  project is done with no outcome.
\<close>

definition finish_task :: "'a orchestrator_scheme \<Rightarrow> ('s, 'e, 'p) build_action \<Rightarrow> nat \<Rightarrow> nat \<Rightarrow> ('s, 'e, 'p) run_state \<Rightarrow> ('s, 'e, 'p) run_state" where
  "finish_task s build w pos st =
     (let i = o_order_indices s ! pos;
          outcome = build i (r_outcomes st |` waits_for s i);
          st = st\<lparr>r_done := insert i (r_done st), r_outcomes := (r_outcomes st)(i \<mapsto> outcome)\<rparr> in
      set_builder w (Reporting pos (outcome_result outcome))
        (case outcome of
           Finished r x \<Rightarrow> st
         | Failed e \<Rightarrow> st\<lparr>r_failure := get_or_insert (r_failure st) e\<rparr>
         | Panicked p \<Rightarrow> st\<lparr>r_first_panic := get_or_insert (r_first_panic st) p\<rparr>))"

definition skip_task :: "'a orchestrator_scheme \<Rightarrow> nat \<Rightarrow> nat \<Rightarrow> ('s, 'e, 'p) run_state \<Rightarrow> ('s, 'e, 'p) run_state" where
  "skip_task s w pos st =
     set_builder w (Reporting pos skipped_result) (st\<lparr>r_done := insert (o_order_indices s ! pos) (r_done st)\<rparr>)"

text \<open>The report: output, result, then \<open>report_done\<close>. A panic in it is recorded, with what was written before.\<close>

definition report_task :: "'a orchestrator_scheme \<Rightarrow> 'p reporter \<Rightarrow> nat \<Rightarrow> nat \<Rightarrow> task_result \<Rightarrow> ('s, 'e, 'p) run_state \<Rightarrow> ('s, 'e, 'p) run_state" where
  "report_task s report_panic w pos result st =
     (let i = o_order_indices s ! pos;
          st = (case report_panic i result of
                  None \<Rightarrow> st\<lparr>r_output := r_output st @ result_output result\<rparr>
                | Some (p, written) \<Rightarrow>
                    st\<lparr>r_output := r_output st @ written, r_first_panic := get_or_insert (r_first_panic st) p\<rparr>)
      in set_builder w Fetching
           (st\<lparr>r_results := (r_results st)(i \<mapsto> result), r_report_done := insert i (r_report_done st)\<rparr>))"

fun run_step ::
  "'a orchestrator_scheme \<Rightarrow> ('s, 'e, 'p) build_action \<Rightarrow> 'p reporter \<Rightarrow> run_event \<Rightarrow> ('s, 'e, 'p) run_state \<Rightarrow>
   ('s, 'e, 'p) run_state option" where
  "run_step s build report_panic (Take w) st =
     (if w < length (r_builders st) \<and> r_builders st ! w = Fetching then Some (take_position s w st) else None)"
| "run_step s build report_panic (Begin w) st =
     (if w < length (r_builders st) then
        case r_builders st ! w of
          Waiting pos \<Rightarrow>
            if list_all (\<lambda>(u, _). u \<in> r_done st) (upstream (o_tasks s ! (o_order_indices s ! pos)))
            then Some (begin_task s w pos st) else None
        | _ \<Rightarrow> None
      else None)"
| "run_step s build report_panic (Finish w) st =
     (if w < length (r_builders st) then
        case r_builders st ! w of
          Building pos \<Rightarrow> Some (finish_task s build w pos st)
        | Skipping pos \<Rightarrow> Some (skip_task s w pos st)
        | _ \<Rightarrow> None
      else None)"
| "run_step s build report_panic (Report w) st =
     (if w < length (r_builders st) then
        case r_builders st ! w of
          Reporting pos result \<Rightarrow>
            if pos \<noteq> 0 \<longrightarrow> o_order_indices s ! (pos - 1) \<in> r_report_done st
            then Some (report_task s report_panic w pos result st) else None
        | _ \<Rightarrow> None
      else None)"
| "run_step s build report_panic (Reuse w) st =
     (if w < length (r_builders st) \<and> r_builders st ! w = Stopped \<and> 0 < r_queued st
      then Some (set_builder w Fetching (st\<lparr>r_queued := r_queued st - 1\<rparr>)) else None)"
| "run_step s build report_panic Cancel st = Some (st\<lparr>r_cancelled := True\<rparr>)"

fun run_events ::
  "'a orchestrator_scheme \<Rightarrow> ('s, 'e, 'p) build_action \<Rightarrow> 'p reporter \<Rightarrow> run_event list \<Rightarrow> ('s, 'e, 'p) run_state \<Rightarrow>
   ('s, 'e, 'p) run_state option" where
  "run_events s build report_panic [] st = Some st"
| "run_events s build report_panic (ev # evs) st =
     run_step s build report_panic ev st \<bind> run_events s build report_panic evs"

definition run_ended :: "('s, 'e, 'p) run_state \<Rightarrow> bool" where
  "run_ended st \<longleftrightarrow> list_all (\<lambda>b. b = Stopped) (r_builders st) \<and> r_queued st = 0"

text \<open>What \<open>build_or_clean\<close> makes of the results.\<close>

datatype ('e, 'p) build_result = Exit int | BuildError 'e | BuildPanic 'p

definition summarize :: "'a orchestrator_scheme \<Rightarrow> ('s, 'e, 'p) run_state \<Rightarrow> ('e, 'p) build_result" where
  "summarize s st =
     (case r_first_panic st of
        Some p \<Rightarrow> BuildPanic p
      | None \<Rightarrow>
          case r_failure st of
            Some e \<Rightarrow> BuildError e
          | None \<Rightarrow> Exit (foldl (\<lambda>status i. case r_results st i of
                None \<Rightarrow> status | Some r \<Rightarrow> max status (result_status r)) 0 (o_order_indices s)))"

text \<open>
  A build along a schedule of events: with errors in the graph nothing is built; otherwise the
  schedule has to run until all builders have stopped.
\<close>

definition build_or_clean ::
  "'a orchestrator_scheme \<Rightarrow> ('s, 'e, 'p) build_action \<Rightarrow> 'p reporter \<Rightarrow> nat \<Rightarrow> nat \<Rightarrow> run_event list \<Rightarrow>
   ('e, 'p) build_result option" where
  "build_or_clean s build report_panic active queued schedule =
     (if o_errors s \<noteq> [] then Some (Exit ProjectReferenceCycle_OutputsSkipped)
      else run_events s build report_panic schedule (run_start active queued) \<bind>
        (\<lambda>st. if run_ended st then Some (summarize s st) else None))"

section \<open>The invariant\<close>

fun builder_position :: "builder \<Rightarrow> nat option" where
  "builder_position (Waiting p) = Some p"
| "builder_position (Building p) = Some p"
| "builder_position (Skipping p) = Some p"
| "builder_position (Reporting p r) = Some p"
| "builder_position _ = None"

text \<open>The positions the builders hold, and those not yet built.\<close>

definition held :: "builder multiset \<Rightarrow> nat multiset" where
  "held B = image_mset (the \<circ> builder_position) (filter_mset (\<lambda>b. builder_position b \<noteq> None) B)"

definition unfinished :: "builder multiset \<Rightarrow> nat \<Rightarrow> bool" where
  "unfinished B p \<longleftrightarrow> Waiting p \<in># B \<or> Building p \<in># B \<or> Skipping p \<in># B"

lemma held_simps [simp]:
  "held {#} = {#}"
  "held (add_mset b B) = (case builder_position b of None \<Rightarrow> held B | Some p \<Rightarrow> add_mset p (held B))"
  by (simp_all add: held_def split: option.split)

lemma in_held: "b \<in># B \<Longrightarrow> builder_position b = Some p \<Longrightarrow> p \<in># held B"
  by (force simp: held_def)

lemma heldE:
  assumes "p \<in># held B"
  obtains "Waiting p \<in># B" | "Building p \<in># B" | "Skipping p \<in># B" | r where "Reporting p r \<in># B"
proof -
  obtain b where "b \<in># B" "builder_position b = Some p" using assms by (auto simp: held_def)
  then show thesis using that by (cases b) auto
qed

lemma held_not_unfinished: "p \<notin># held B \<Longrightarrow> \<not> unfinished B p"
  using in_held by (fastforce simp: unfinished_def)

definition taken :: "'a orchestrator_scheme \<Rightarrow> ('s, 'e, 'p) run_state \<Rightarrow> nat" where
  "taken s st = min (r_current st) (length (o_order_indices s))"

text \<open>The result and the output of a task that is done, from the outcomes of the builds.\<close>

definition result_of :: "(nat \<rightharpoonup> ('s, 'e, 'p) task_outcome) \<Rightarrow> nat \<Rightarrow> task_result" where
  "result_of outs i = (case outs i of None \<Rightarrow> skipped_result | Some out \<Rightarrow> outcome_result out)"

definition reported :: "(nat \<rightharpoonup> ('s, 'e, 'p) task_outcome) \<Rightarrow> 'p reporter \<Rightarrow> nat \<Rightarrow> bytes" where
  "reported outs report_panic i =
     (case report_panic i (result_of outs i) of None \<Rightarrow> result_output (result_of outs i) | Some (p, written) \<Rightarrow> written)"

text \<open>
  The first \<open>k\<close> projects are reported; the positions from there to the next free one are each held by
  one builder; and a task is done exactly when its position was taken and its builder is past building.
\<close>

definition done_tasks :: "'a orchestrator_scheme \<Rightarrow> nat \<Rightarrow> builder multiset \<Rightarrow> nat set" where
  "done_tasks s t B = {o_order_indices s ! p | p. p < t \<and> \<not> unfinished B p}"

definition run_inv ::
  "'a orchestrator_scheme \<Rightarrow> 'p reporter \<Rightarrow> nat \<Rightarrow> ('s, 'e, 'p) run_state \<Rightarrow> bool" where
  "run_inv s report_panic k st \<longleftrightarrow>
     (let xs = o_order_indices s; B = mset (r_builders st) in
      k \<le> taken s st \<and> held B = mset_set {k..<taken s st} \<and> r_done st = done_tasks s (taken s st) B \<and>
      (\<forall>p. Building p \<in># B \<or> Skipping p \<in># B \<longrightarrow> waits_for s (xs ! p) \<subseteq> r_done st) \<and>
      (\<forall>p r. Reporting p r \<in># B \<longrightarrow> r = result_of (r_outcomes st) (xs ! p)) \<and>
      (Stopped \<in># B \<longrightarrow> length xs \<le> r_current st) \<and>
      r_report_done st = set (take k xs) \<and>
      r_results st = (\<lambda>i. if i \<in> set (take k xs) then Some (result_of (r_outcomes st) i) else None) \<and>
      r_output st = concat (map (reported (r_outcomes st) report_panic) (take k xs)) \<and> dom (r_outcomes st) \<subseteq> r_done st)"

lemma run_inv_start: "run_inv s report_panic 0 (run_start active queued)"
proof -
  have "held (mset (replicate active Fetching)) = {#}" by (induction active) auto
  then show ?thesis by (simp add: run_inv_def run_start_def taken_def done_tasks_def Let_def)
qed

text \<open>The builder that moves and the others.\<close>

lemma builder_moves:
  assumes "w < length bs"
  obtains C where "mset bs = add_mset (bs ! w) C" "\<And>b. mset (bs[w := b]) = add_mset b C"
  using that [of "mset bs - {#bs ! w#}"] assms by (simp add: mset_update)

lemma mset_set_up: "k \<le> t \<Longrightarrow> mset_set {k..<Suc t} = add_mset t (mset_set {k..<t})"
  by (simp add: atLeastLessThanSuc)

lemma mset_set_down: "k < t \<Longrightarrow> mset_set {k..<t} = add_mset k (mset_set {Suc k..<t})"
proof -
  assume "k < t"
  then have "{k..<t} = insert k {Suc k..<t}" by auto
  then show ?thesis by simp
qed

lemma waiting_iff: "list_all (\<lambda>(u, _). u \<in> A) (upstream (o_tasks s ! i)) \<longleftrightarrow> waits_for s i \<subseteq> A"
  by (auto simp: waits_for_def list_all_iff)

lemma run_invD:
  assumes "run_inv s report_panic k st"
  shows "k \<le> taken s st" "held (mset (r_builders st)) = mset_set {k..<taken s st}"
    "r_done st = done_tasks s (taken s st) (mset (r_builders st))"
    "Building p \<in># mset (r_builders st) \<or> Skipping p \<in># mset (r_builders st) \<Longrightarrow> waits_for s (o_order_indices s ! p) \<subseteq> r_done st"
    "Reporting p r \<in># mset (r_builders st) \<Longrightarrow> r = result_of (r_outcomes st) (o_order_indices s ! p)"
    "Stopped \<in># mset (r_builders st) \<Longrightarrow> length (o_order_indices s) \<le> r_current st"
    "r_report_done st = set (take k (o_order_indices s))"
    "r_results st = (\<lambda>i. if i \<in> set (take k (o_order_indices s)) then Some (result_of (r_outcomes st) i) else None)"
    "r_output st = concat (map (reported (r_outcomes st) report_panic) (take k (o_order_indices s)))"
    "dom (r_outcomes st) \<subseteq> r_done st"
  using assms unfolding run_inv_def Let_def by blast+

lemma held_range: "run_inv s report_panic k st \<Longrightarrow> p \<in># held (mset (r_builders st)) \<longleftrightarrow> k \<le> p \<and> p < taken s st"
  by (simp add: run_invD(2))

text \<open>A held position is held once.\<close>

lemma held_once:
  assumes "run_inv s report_panic k st" "mset (r_builders st) = add_mset b C" "builder_position b = Some p"
  shows "p \<notin># held C" "k \<le> p" "p < taken s st" "held C + {#p#} = mset_set {k..<taken s st}"
proof -
  have h: "add_mset p (held C) = mset_set {k..<taken s st}" using run_invD(2) [OF assms(1)] assms(2,3) by simp
  then have "count (add_mset p (held C)) p \<le> 1" by (simp add: count_mset_set')
  then show "p \<notin># held C" by (simp add: not_in_iff)
  have "p \<in># mset_set {k..<taken s st}" unfolding h [symmetric] by simp
  then show "k \<le> p" "p < taken s st" by simp_all
  show "held C + {#p#} = mset_set {k..<taken s st}" using h by simp
qed

lemma inv_take:
  assumes "run_inv s report_panic k st" "w < length (r_builders st)" "r_builders st ! w = Fetching"
  shows "run_inv s report_panic k (take_position s w st)"
proof -
  obtain C where C: "mset (r_builders st) = add_mset Fetching C" "\<And>b. mset ((r_builders st)[w := b]) = add_mset b C"
    using builder_moves [OF assms(2)] assms(3) by metis
  note inv = run_invD [OF assms(1)]
  have h: "held C = mset_set {k..<taken s st}" using inv(2) C(1) by simp
  show ?thesis
  proof (cases "r_current st < length (o_order_indices s)")
    case True
    then have t: "taken s st = r_current st" "taken s (take_position s w st) = Suc (r_current st)"
      by (simp_all add: taken_def take_position_def Let_def)
    have "done_tasks s (Suc (r_current st)) (add_mset (Waiting (r_current st)) C) =
        done_tasks s (r_current st) (mset (r_builders st))"
      by (auto simp: done_tasks_def unfinished_def C(1) less_Suc_eq)
    then show ?thesis
      using True inv t h C mset_set_up [of k "r_current st"] unfolding run_inv_def
      by (auto simp: take_position_def Let_def)
  next
    case False
    then have "taken s st = length (o_order_indices s)" "taken s (take_position s w st) = length (o_order_indices s)"
      by (simp_all add: taken_def take_position_def Let_def)
    moreover have "done_tasks s (length (o_order_indices s)) (add_mset Stopped C) =
        done_tasks s (length (o_order_indices s)) (mset (r_builders st))"
      by (simp add: done_tasks_def unfinished_def C(1))
    ultimately show ?thesis
      using False inv h C unfolding run_inv_def by (simp add: take_position_def Let_def cong: if_cong)
  qed
qed

lemma inv_begin:
  assumes "run_inv s report_panic k st" "w < length (r_builders st)" "r_builders st ! w = Waiting p"
    "waits_for s (o_order_indices s ! p) \<subseteq> r_done st"
  shows "run_inv s report_panic k (begin_task s w p st)"
proof -
  obtain C where C: "mset (r_builders st) = add_mset (Waiting p) C" "\<And>b. mset ((r_builders st)[w := b]) = add_mset b C"
    using builder_moves [OF assms(2)] assms(3) by metis
  have "done_tasks s t (add_mset (Building p) C) = done_tasks s t (mset (r_builders st))"
      "done_tasks s t (add_mset (Skipping p) C) = done_tasks s t (mset (r_builders st))" for t
    by (auto simp: done_tasks_def unfinished_def C(1))
  then show ?thesis
    using run_invD [OF assms(1)] C assms(4) unfolding run_inv_def by (auto simp: Let_def taken_def begin_task_def)
qed

lemma not_done_yet:
  assumes "walked s" "run_inv s report_panic k st" "unfinished (mset (r_builders st)) p"
  shows "o_order_indices s ! p \<notin> r_done st" "k \<le> p" "p < length (o_order_indices s)"
proof -
  have "p \<in># held (mset (r_builders st))" using assms(3) in_held by (fastforce simp: unfinished_def)
  then have p: "k \<le> p" "p < taken s st" using held_range [OF assms(2)] by auto
  then show "k \<le> p" "p < length (o_order_indices s)" by (simp_all add: taken_def)
  have "q = p" if "q < taken s st" "o_order_indices s ! p = o_order_indices s ! q" for q
    using that p graph.position_unique [OF assms(1), of p q] by (simp add: taken_def)
  then show "o_order_indices s ! p \<notin> r_done st"
    using assms(3) by (fastforce simp: run_invD(3) [OF assms(2)] done_tasks_def)
qed

text \<open>A project becomes done; the results of the others do not change.\<close>

lemma inv_record:
  assumes "walked s" "run_inv s report_panic k st" "w < length (r_builders st)"
    and b: "r_builders st ! w = Building p \<or> r_builders st ! w = Skipping p"
    and i: "i = o_order_indices s ! p" "outs = (r_outcomes st)(i \<mapsto> out) \<or> outs = r_outcomes st"
    and st': "r_builders st' = (r_builders st)[w := Reporting p (result_of outs i)]" "r_done st' = insert i (r_done st)"
      "r_outcomes st' = outs" "r_current st' = r_current st" "r_report_done st' = r_report_done st"
      "r_results st' = r_results st" "r_output st' = r_output st"
  shows "run_inv s report_panic k st'"
proof -
  obtain C where C: "mset (r_builders st) = add_mset (r_builders st ! w) C"
      "\<And>b. mset ((r_builders st)[w := b]) = add_mset b C"
    using builder_moves [OF assms(3)] by metis
  have u: "unfinished (mset (r_builders st)) p" using b C(1) by (auto simp: unfinished_def)
  note inv = run_invD [OF assms(2)] and new = not_done_yet [OF assms(1,2) u, folded i(1)]
  have once: "p \<notin># held C" "p < taken s st" using held_once [OF assms(2) C(1), of p] b by auto
  have same: "result_of outs j = result_of (r_outcomes st) j" if "j \<noteq> i" for j
    using that i(2) by (auto simp: result_of_def)
  have front: "j \<noteq> i" if "j \<in> set (take k (o_order_indices s))" for j
    using that graph.earlier_position [OF assms(1) new(3), of k] new(2) i(1) by auto
  have other: "o_order_indices s ! q \<noteq> i" if "Reporting q r \<in># C" for q r
  proof -
    have q: "q \<in># held C" using in_held [OF that, of q] by simp
    then have "q \<in># held (mset (r_builders st))" using C(1) by (auto split: option.split)
    then have "q < length (o_order_indices s)" using held_range [OF assms(2)] by (simp add: taken_def)
    then show ?thesis using q once(1) i(1) new(3) graph.position_unique [OF assms(1), of q p] by auto
  qed
  have t: "taken s st' = taken s st" by (simp add: taken_def st')
  have "\<not> unfinished C p" using once(1) held_not_unfinished by simp
  then have "done_tasks s (taken s st) (add_mset (Reporting p (result_of outs i)) C) = insert i (r_done st)"
    using inv(3) once(2) i(1) b by (auto simp: done_tasks_def unfinished_def C(1))
  moreover have "held (add_mset (Reporting p (result_of outs i)) C) = mset_set {k..<taken s st}"
    using inv(2) C(1) b by auto
  moreover have "r_results st = (\<lambda>j. if j \<in> set (take k (o_order_indices s)) then Some (result_of outs j) else None)"
    unfolding inv(8) using same front by (auto simp: fun_eq_iff)
  moreover have "map (reported (r_outcomes st) report_panic) (take k (o_order_indices s)) =
      map (reported outs report_panic) (take k (o_order_indices s))"
    using same front by (auto simp: reported_def split: option.split)
  then have "r_output st = concat (map (reported outs report_panic) (take k (o_order_indices s)))"
    unfolding inv(9) by (rule arg_cong)
  moreover have "dom outs \<subseteq> insert i (dom (r_outcomes st))" using i(2) by auto
  then have "dom outs \<subseteq> insert i (r_done st)" using inv(10) by blast
  moreover have "r = result_of outs (o_order_indices s ! q)" if "Reporting q r \<in># C" for q r
    using inv(5) [of q r] that other [OF that] same C(1) by simp
  moreover have "waits_for s (o_order_indices s ! q) \<subseteq> insert i (r_done st)" if "Building q \<in># C \<or> Skipping q \<in># C" for q
    using inv(4) [of q] that C(1) by auto
  moreover have "Stopped \<in># C \<Longrightarrow> length (o_order_indices s) \<le> r_current st" using inv(6) C(1) by simp
  ultimately show ?thesis
    unfolding run_inv_def Let_def st' t C(2) using inv(1,7) i(1) by simp
qed

lemma inv_finish:
  assumes "walked s" "run_inv s report_panic k st" "w < length (r_builders st)" "r_builders st ! w = Building p"
  shows "run_inv s report_panic k (finish_task s build w p st)"
proof -
  let ?i = "o_order_indices s ! p"
  let ?out = "build ?i (r_outcomes st |` waits_for s ?i)"
  show ?thesis
    by (rule inv_record [OF assms(1-3) disjI1 [OF assms(4)] refl disjI1, where out = ?out])
       (rule refl, simp_all add: finish_task_def Let_def result_of_def split: task_outcome.split)
qed

lemma inv_skip:
  assumes "walked s" "run_inv s report_panic k st" "w < length (r_builders st)" "r_builders st ! w = Skipping p"
  shows "run_inv s report_panic k (skip_task s w p st)"
proof (rule inv_record [OF assms(1-3) disjI2 [OF assms(4)] refl disjI2 [OF refl]])
  have "Skipping p \<in># mset (r_builders st)" using assms(3,4) by (metis nth_mem_mset)
  then have "o_order_indices s ! p \<notin> r_done st" using not_done_yet(1) [OF assms(1,2)] by (simp add: unfinished_def)
  then have "r_outcomes st (o_order_indices s ! p) = None" using run_invD(10) [OF assms(2)] by auto
  then show "r_builders (skip_task s w p st) =
      (r_builders st)[w := Reporting p (result_of (r_outcomes st) (o_order_indices s ! p))]"
    by (simp add: skip_task_def result_of_def)
qed (simp_all add: skip_task_def)

lemma inv_report:
  assumes "walked s" "run_inv s report_panic k st" "w < length (r_builders st)" "r_builders st ! w = Reporting p r"
    "p \<noteq> 0 \<longrightarrow> o_order_indices s ! (p - 1) \<in> r_report_done st"
  shows "run_inv s report_panic (Suc k) (report_task s report_panic w p r st)"
proof -
  let ?st = "report_task s report_panic w p r st" and ?i = "o_order_indices s ! p"
  obtain C where C: "mset (r_builders st) = add_mset (Reporting p r) C" "\<And>b. mset ((r_builders st)[w := b]) = add_mset b C"
    using builder_moves [OF assms(3)] assms(4) by metis
  note inv = run_invD [OF assms(2)] and once = held_once [OF assms(2) C(1), of p]
  have range: "p < length (o_order_indices s)" using once(3) by (simp add: taken_def)
  have "p \<le> k"
    using assms(5) range graph.earlier_position [OF assms(1), of "p - 1" k] inv(7) by (cases p) auto
  then have p: "p = k" using once(2) by simp
  have r: "r = result_of (r_outcomes st) ?i" using inv(5) C(1) by simp
  have st: "mset (r_builders ?st) = add_mset Fetching C" "taken s ?st = taken s st" "r_done ?st = r_done st"
      "r_current ?st = r_current st" "r_report_done ?st = insert ?i (r_report_done st)"
      "r_results ?st = (r_results st)(?i \<mapsto> r)" "r_output ?st = r_output st @ reported (r_outcomes st) report_panic ?i"
      "r_outcomes ?st = r_outcomes st"
    by (simp_all add: report_task_def Let_def C(2) taken_def reported_def r split: option.split prod.split)
  have front: "take (Suc k) (o_order_indices s) = take k (o_order_indices s) @ [?i]"
    using range p by (simp add: take_Suc_conv_app_nth)
  have "held C = mset_set {Suc k..<taken s st}"
    using once(3,4) mset_set_down [of k "taken s st"] p by simp
  moreover have "done_tasks s t (add_mset Fetching C) = done_tasks s t (mset (r_builders st))" for t
    by (simp add: done_tasks_def unfinished_def C(1))
  moreover have "r_results ?st = (\<lambda>i. if i \<in> set (take (Suc k) (o_order_indices s)) then Some (result_of (r_outcomes st) i) else None)"
    using inv(8) r unfolding st front by (auto simp: fun_eq_iff)
  ultimately show ?thesis
    unfolding run_inv_def Let_def st using inv C(1) once(3) by (auto simp: p [symmetric] front [folded p])
qed

lemma inv_reuse:
  assumes "run_inv s report_panic k st" "w < length (r_builders st)" "r_builders st ! w = Stopped"
  shows "run_inv s report_panic k (set_builder w Fetching (st\<lparr>r_queued := q\<rparr>))"
proof -
  obtain C where C: "mset (r_builders st) = add_mset Stopped C" "\<And>b. mset ((r_builders st)[w := b]) = add_mset b C"
    using builder_moves [OF assms(2)] assms(3) by metis
  have "done_tasks s t (add_mset Fetching C) = done_tasks s t (mset (r_builders st))" for t
    by (simp add: done_tasks_def unfinished_def C(1))
  then show ?thesis
    using run_invD [OF assms(1)] C unfolding run_inv_def by (auto simp: Let_def taken_def)
qed

lemma run_step_inv:
  assumes "walked s" "run_inv s report_panic k st" "run_step s build report_panic ev st = Some st'"
  shows "\<exists>k'. run_inv s report_panic k' st'"
proof (cases ev)
  case (Take w)
  then show ?thesis using inv_take [OF assms(2), of w] assms(3) by (auto split: if_splits)
next
  case (Begin w)
  then show ?thesis
    using inv_begin [OF assms(2), of w] assms(3) by (auto simp: waiting_iff split: if_splits builder.splits)
next
  case (Finish w)
  then show ?thesis using inv_finish [OF assms(1,2), of w] inv_skip [OF assms(1,2), of w] assms(3) by (auto split: if_splits builder.splits)
next
  case (Report w)
  then show ?thesis
    using inv_report [OF assms(1,2), of w] assms(3) by (auto split: if_splits builder.splits)
next
  case (Reuse w)
  then show ?thesis using inv_reuse [OF assms(2), of w] assms(3) by (auto split: if_splits)
next
  case Cancel
  then have st': "st' = st\<lparr>r_cancelled := True\<rparr>" using assms(3) by simp
  have "run_inv s report_panic k st'" using run_invD [OF assms(2)] unfolding run_inv_def st' by (simp add: Let_def taken_def cong: if_cong)
  then show ?thesis by blast
qed

lemma run_events_inv:
  "walked s \<Longrightarrow> run_inv s report_panic k st \<Longrightarrow> run_events s build report_panic evs st = Some st' \<Longrightarrow>
   \<exists>k'. run_inv s report_panic k' st'"
  by (induction evs arbitrary: k st) (auto simp: bind_Some_iff dest: run_step_inv)

section \<open>Progress\<close>

fun builder_work :: "builder \<Rightarrow> nat" where
  "builder_work Fetching = 1"
| "builder_work (Waiting p) = 4"
| "builder_work (Building p) = 3"
| "builder_work (Skipping p) = 3"
| "builder_work (Reporting p r) = 2"
| "builder_work Stopped = 0"

definition work_left :: "'a orchestrator_scheme \<Rightarrow> ('s, 'e, 'p) run_state \<Rightarrow> nat" where
  "work_left s st = 4 * (length (o_order_indices s) - r_current st) +
     (\<Sum>b\<in>#mset (r_builders st). builder_work b) + 2 * r_queued st"

lemma work_start: "work_left s (run_start active queued) = 4 * length (o_order_indices s) + active + 2 * queued"
  by (simp add: work_left_def run_start_def)

lemma run_step_work:
  assumes "run_step s build report_panic ev st = Some st'"
  shows "work_left s st = (if ev = Cancel then 0 else 1) + work_left s st'"
proof -
  have move: "\<exists>C. mset (r_builders st) = add_mset (r_builders st ! w) C \<and> (\<forall>b. mset ((r_builders st)[w := b]) = add_mset b C)"
    if "w < length (r_builders st)" for w
    using builder_moves [OF that] by metis
  show ?thesis
  proof (cases ev)
    case (Take w)
    then show ?thesis using assms move [of w] by (auto simp: work_left_def take_position_def Let_def split: if_splits)
  next
    case (Begin w)
    then show ?thesis using assms move [of w] by (auto simp: work_left_def begin_task_def split: if_splits builder.splits)
  next
    case (Finish w)
    then show ?thesis
      using assms move [of w] by (auto simp: work_left_def finish_task_def skip_task_def Let_def split: if_splits builder.splits task_outcome.splits)
  next
    case (Report w)
    then show ?thesis
      using assms move [of w] by (auto simp: work_left_def report_task_def Let_def split: if_splits builder.splits option.splits prod.splits)
  next
    case (Reuse w)
    then show ?thesis using assms move [of w] by (auto simp: work_left_def split: if_splits)
  next
    case Cancel
    then show ?thesis using assms by (auto simp: work_left_def)
  qed
qed

text \<open>The steps of the builders along a schedule: all but the cancellations.\<close>

definition builder_steps :: "run_event list \<Rightarrow> nat" where
  "builder_steps evs = length (filter (\<lambda>ev. ev \<noteq> Cancel) evs)"

lemma run_events_work:
  "run_events s build report_panic evs st = Some st' \<Longrightarrow> work_left s st = builder_steps evs + work_left s st'"
  by (induction evs arbitrary: st) (auto simp: builder_steps_def bind_Some_iff dest!: run_step_work)

text \<open>The builder at the first unreported position is never blocked.\<close>

lemma first_unreported_moves:
  assumes "walked s" "run_inv s report_panic k st" "k < taken s st"
  shows "\<exists>ev st'. ev \<noteq> Cancel \<and> run_step s build report_panic ev st = Some st'"
proof -
  note inv = run_invD [OF assms(2)]
  have range: "k < length (o_order_indices s)" using assms(3) by (simp add: taken_def)
  have "k \<in># held (mset (r_builders st))" using held_range [OF assms(2)] assms(3) by simp
  then show ?thesis
  proof (cases rule: heldE)
    case 1
    then obtain w where w: "w < length (r_builders st)" "r_builders st ! w = Waiting k" by (auto simp: in_set_conv_nth)
    have "o_order_indices s ! q \<in> r_done st" if "q < k" for q
      using that held_range [OF assms(2), of q] held_not_unfinished assms(3) by (auto simp: inv(3) done_tasks_def)
    then have "waits_for s (o_order_indices s ! k) \<subseteq> r_done st"
      using graph.waits_earlier [OF assms(1) range] by auto
    then show ?thesis using w by (intro exI [of _ "Begin w"]) (simp add: waiting_iff)
  next
    case 2
    then obtain w where "w < length (r_builders st)" "r_builders st ! w = Building k" by (auto simp: in_set_conv_nth)
    then show ?thesis by (intro exI [of _ "Finish w"]) simp
  next
    case 3
    then obtain w where "w < length (r_builders st)" "r_builders st ! w = Skipping k" by (auto simp: in_set_conv_nth)
    then show ?thesis by (intro exI [of _ "Finish w"]) simp
  next
    case (4 r)
    then obtain w where "w < length (r_builders st)" "r_builders st ! w = Reporting k r" by (auto simp: in_set_conv_nth)
    moreover have "o_order_indices s ! (k - 1) \<in> r_report_done st" if "k \<noteq> 0"
      using that graph.earlier_position [OF assms(1), of "k - 1" k] range inv(7) by simp
    ultimately show ?thesis by (intro exI [of _ "Report w"]) simp
  qed
qed

lemma run_progress:
  assumes "walked s" "run_inv s report_panic k st" "r_builders st \<noteq> []" "\<not> run_ended st"
  shows "\<exists>ev st'. ev \<noteq> Cancel \<and> run_step s build report_panic ev st = Some st'"
proof (cases "k < taken s st")
  case True
  then show ?thesis by (rule first_unreported_moves [OF assms(1,2)])
next
  case False
  then have none: "held (mset (r_builders st)) = {#}" using run_invD(2) [OF assms(2)] by simp
  have idle: "b = Fetching \<or> b = Stopped" if "b \<in> set (r_builders st)" for b
    using in_held [of b "mset (r_builders st)"] that none by (cases b) auto
  show ?thesis
  proof (cases "Fetching \<in> set (r_builders st)")
    case True
    then obtain w where "w < length (r_builders st)" "r_builders st ! w = Fetching" by (auto simp: in_set_conv_nth)
    then show ?thesis by (intro exI [of _ "Take w"]) simp
  next
    case False
    then have "list_all (\<lambda>b. b = Stopped) (r_builders st)" using idle by (auto simp: list_all_iff)
    then have "0 < r_queued st" "r_builders st ! 0 = Stopped"
      using assms(3,4) by (auto simp: run_ended_def list_all_length)
    then show ?thesis using assms(3) by (intro exI [of _ "Reuse 0"]) simp
  qed
qed

lemma run_ended_all:
  assumes "run_inv s report_panic k st" "r_builders st \<noteq> []" "run_ended st"
  shows "k = length (o_order_indices s)"
proof -
  have all: "b = Stopped" if "b \<in> set (r_builders st)" for b using assms(3) that by (auto simp: run_ended_def list_all_iff)
  then have "Stopped \<in># mset (r_builders st)" using assms(2) by (cases "r_builders st") auto
  then have "taken s st = length (o_order_indices s)" using run_invD(6) [OF assms(1)] by (simp add: taken_def)
  moreover have "p \<notin># held (mset (r_builders st))" for p
    by (auto elim!: heldE dest: all)
  then have "held (mset (r_builders st)) = {#}" by (metis multiset_nonemptyE)
  ultimately show ?thesis using run_invD(1,2) [OF assms(1)] by (simp add: mset_set_empty_iff)
qed

lemma run_step_builders: "run_step s build report_panic ev st = Some st' \<Longrightarrow> length (r_builders st') = length (r_builders st)"
  by (cases ev) (auto simp: take_position_def begin_task_def finish_task_def skip_task_def report_task_def Let_def
      split: if_splits builder.splits task_outcome.splits option.splits)

lemma run_events_builders:
  "run_events s build report_panic evs st = Some st' \<Longrightarrow> length (r_builders st') = length (r_builders st)"
  by (induction evs arbitrary: st) (auto simp: bind_Some_iff dest: run_step_builders)

lemma ended_work: "run_inv s report_panic k st \<Longrightarrow> r_builders st \<noteq> [] \<Longrightarrow> run_ended st \<Longrightarrow> work_left s st = 0"
proof -
  assume inv: "run_inv s report_panic k st" and ne: "r_builders st \<noteq> []" and e: "run_ended st"
  have all: "b = Stopped" if "b \<in> set (r_builders st)" for b using e that by (auto simp: run_ended_def list_all_iff)
  then have "Stopped \<in># mset (r_builders st)" using ne by (cases "r_builders st") auto
  then have "length (o_order_indices s) \<le> r_current st" by (rule run_invD(6) [OF inv])
  moreover have "image_mset builder_work (mset (r_builders st)) = image_mset (\<lambda>_. 0) (mset (r_builders st))"
    by (rule image_mset_cong) (auto dest: all)
  ultimately show ?thesis using e by (simp add: work_left_def run_ended_def)
qed

lemma run_events_append:
  "run_events s build report_panic (evs @ evs') st =
     run_events s build report_panic evs st \<bind> run_events s build report_panic evs'"
  by (induction evs arbitrary: st) (auto simp: bind_assoc intro!: Option.bind_cong)

lemma run_completes:
  assumes "walked s" "run_inv s report_panic k st" "r_builders st \<noteq> []"
  shows "\<exists>evs st'. run_events s build report_panic evs st = Some st' \<and> run_ended st'"
  using assms
proof (induction "work_left s st" arbitrary: k st)
  case 0
  have "run_ended st"
  proof (rule ccontr)
    assume "\<not> run_ended st"
    then obtain ev st' where ev: "ev \<noteq> Cancel" "run_step s build report_panic ev st = Some st'"
      using run_progress [OF 0(2-4)] by blast
    from run_step_work [OF ev(2)] ev(1) 0(1) show False by simp
  qed
  then show ?case by (intro exI [of _ "[]"] exI [of _ st]) simp
next
  case (Suc n)
  show ?case
  proof (cases "run_ended st")
    case True
    then show ?thesis by (intro exI [of _ "[]"] exI [of _ st]) simp
  next
    case False
    then obtain ev st1 where ev: "ev \<noteq> Cancel" and st1: "run_step s build report_panic ev st = Some st1"
      using run_progress [OF Suc.prems] by blast
    obtain k1 where "run_inv s report_panic k1 st1" using run_step_inv [OF Suc.prems(1,2) st1] by blast
    moreover have "r_builders st1 \<noteq> []" using run_step_builders [OF st1] Suc.prems(3) by auto
    ultimately obtain evs st' where "run_events s build report_panic evs st1 = Some st'" "run_ended st'"
      using Suc.hyps(1) [of st1 k1] Suc.hyps(2) run_step_work [OF st1] ev Suc.prems(1) by auto
    then show ?thesis using st1 by (intro exI [of _ "ev # evs"] exI [of _ st']) simp
  qed
qed

section \<open>Errors and panics\<close>

definition failures :: "(nat \<rightharpoonup> ('s, 'e, 'p) task_outcome) \<Rightarrow> 'e set" where
  "failures outs = {e. \<exists>i. outs i = Some (Failed e)}"

definition panics :: "(nat \<rightharpoonup> ('s, 'e, 'p) task_outcome) \<Rightarrow> 'p reporter \<Rightarrow> nat set \<Rightarrow> 'p set" where
  "panics outs report_panic rep =
     {p. \<exists>i. outs i = Some (Panicked p)} \<union> {p. \<exists>i\<in>rep. \<exists>t. report_panic i (result_of outs i) = Some (p, t)}"

text \<open>What is recorded is one of the errors that occurred, and something is when one did.\<close>

definition recorded :: "'x option \<Rightarrow> 'x set \<Rightarrow> bool" where
  "recorded r X \<longleftrightarrow> (case r of None \<Rightarrow> X = {} | Some x \<Rightarrow> x \<in> X)"

lemma recorded_insert: "recorded r X \<Longrightarrow> recorded (get_or_insert r a) (insert a X)"
  by (auto simp: recorded_def get_or_insert_def split: option.splits)

definition errors_inv :: "'p reporter \<Rightarrow> ('s, 'e, 'p) run_state \<Rightarrow> bool" where
  "errors_inv report_panic st \<longleftrightarrow>
     recorded (r_failure st) (failures (r_outcomes st)) \<and>
     recorded (r_first_panic st) (panics (r_outcomes st) report_panic (r_report_done st))"

lemma ex_upd: "outs i = None \<Longrightarrow> (\<exists>j. (outs(i \<mapsto> out)) j = Some x) \<longleftrightarrow> out = x \<or> (\<exists>j. outs j = Some x)"
  by (metis fun_upd_other fun_upd_same option.distinct(1) option.inject)

lemma failures_insert:
  "outs i = None \<Longrightarrow>
   failures (outs(i \<mapsto> out)) = (case out of Failed e \<Rightarrow> insert e (failures outs) | _ \<Rightarrow> failures outs)"
  using ex_upd [of outs i out] by (auto simp: failures_def split: task_outcome.split)

lemma panics_insert:
  "outs i = None \<Longrightarrow> i \<notin> R \<Longrightarrow> panics (outs(i \<mapsto> out)) report_panic R =
     (case out of Panicked p \<Rightarrow> insert p (panics outs report_panic R) | _ \<Rightarrow> panics outs report_panic R)"
  "panics outs report_panic (insert i R) =
     (case report_panic i (result_of outs i) of
        Some (p, t) \<Rightarrow> insert p (panics outs report_panic R) | None \<Rightarrow> panics outs report_panic R)"
proof -
  assume i: "outs i = None" "i \<notin> R"
  have "(\<exists>j\<in>R. \<exists>t. report_panic j (result_of (outs(i \<mapsto> out)) j) = Some (p, t)) \<longleftrightarrow>
      (\<exists>j\<in>R. \<exists>t. report_panic j (result_of outs j) = Some (p, t))" for p
    using i(2) by (metis (no_types, lifting) fun_upd_other result_of_def)
  moreover have "(\<exists>j. (outs(i \<mapsto> out)) j = Some (Panicked p)) \<longleftrightarrow> out = Panicked p \<or> (\<exists>j. outs j = Some (Panicked p))" for p
    by (rule ex_upd) (rule i(1))
  ultimately show "panics (outs(i \<mapsto> out)) report_panic R =
     (case out of Panicked p \<Rightarrow> insert p (panics outs report_panic R) | _ \<Rightarrow> panics outs report_panic R)"
    unfolding panics_def by (auto split: task_outcome.split)
next
  show "panics outs report_panic (insert i R) =
     (case report_panic i (result_of outs i) of
        Some (p, t) \<Rightarrow> insert p (panics outs report_panic R) | None \<Rightarrow> panics outs report_panic R)"
    by (auto simp: panics_def split: option.split)
qed

lemma errors_inv_start: "errors_inv report_panic (run_start active queued)"
  by (simp add: errors_inv_def run_start_def recorded_def panics_def failures_def)

lemma reported_front:
  assumes "walked s" "run_inv s report_panic k st" "unfinished (mset (r_builders st)) p"
  shows "r_outcomes st (o_order_indices s ! p) = None" "o_order_indices s ! p \<notin> r_report_done st"
proof -
  note new = not_done_yet [OF assms] and inv = run_invD [OF assms(2)]
  show "r_outcomes st (o_order_indices s ! p) = None" using new(1) inv(10) by auto
  show "o_order_indices s ! p \<notin> r_report_done st"
    using graph.earlier_position [OF assms(1) new(3), of k] new(2) unfolding inv(7) by simp
qed

lemma finish_errors:
  assumes "walked s" "run_inv s report_panic k st" "unfinished (mset (r_builders st)) p" "errors_inv report_panic st"
  shows "errors_inv report_panic (finish_task s build w p st)"
  using assms(4) reported_front [OF assms(1-3)]
  by (auto simp: errors_inv_def finish_task_def Let_def failures_insert panics_insert recorded_insert split: task_outcome.split)

lemma report_errors:
  assumes "run_inv s report_panic k st" "Reporting p r \<in># mset (r_builders st)" "errors_inv report_panic st"
  shows "errors_inv report_panic (report_task s report_panic w p r st)"
  using assms(3) run_invD(5) [OF assms(1,2)]
  by (auto simp: errors_inv_def report_task_def Let_def panics_insert recorded_insert split: option.split)

lemma unfinished_building: "Building p \<in># B \<Longrightarrow> unfinished B p"
  by (simp add: unfinished_def)

lemma run_step_errors:
  assumes "walked s" "run_inv s report_panic k st" "errors_inv report_panic st" "run_step s build report_panic ev st = Some st'"
  shows "errors_inv report_panic st'"
proof -
  have other: "errors_inv report_panic (begin_task s w p st)" "errors_inv report_panic (skip_task s w p st)"
      "errors_inv report_panic (take_position s w st)" for w p
    using assms(3) by (simp_all add: errors_inv_def begin_task_def skip_task_def take_position_def Let_def)
  have here: "r_builders st ! w \<in># mset (r_builders st)" if "w < length (r_builders st)" for w
    using that by simp
  show ?thesis
  proof (cases ev)
    case (Finish w)
    then have w: "w < length (r_builders st)" using assms(4) by (simp split: if_splits)
    consider p where "r_builders st ! w = Building p" "st' = finish_task s build w p st"
      | p where "r_builders st ! w = Skipping p" "st' = skip_task s w p st"
      using assms(4) Finish w by (auto split: builder.splits)
    then show ?thesis
      using other here [OF w] finish_errors [OF assms(1,2) unfinished_building assms(3)] by cases simp_all
  next
    case (Report w)
    show ?thesis
    proof -
      have w: "w < length (r_builders st)" using Report assms(4) by (simp split: if_splits)
      then obtain p r where "r_builders st ! w = Reporting p r" "st' = report_task s report_panic w p r st"
        using Report assms(4) by (auto split: builder.splits if_splits)
      then show ?thesis using here [OF w] report_errors [OF assms(2) _ assms(3)] by simp
    qed
  qed (use assms(3,4) other in \<open>auto simp: errors_inv_def split: if_splits builder.splits\<close>)
qed

lemma run_events_errors:
  assumes "walked s" "run_inv s report_panic k st" "errors_inv report_panic st" "run_events s build report_panic evs st = Some st'"
  shows "errors_inv report_panic st'"
  using assms(2-4)
proof (induction evs arbitrary: k st)
  case (Cons ev evs)
  then obtain st1 where st1: "run_step s build report_panic ev st = Some st1" "run_events s build report_panic evs st1 = Some st'"
    by (auto simp: bind_Some_iff)
  obtain k1 where "run_inv s report_panic k1 st1" using run_step_inv [OF assms(1) Cons.prems(1) st1(1)] by blast
  from Cons.IH [OF this run_step_errors [OF assms(1) Cons.prems(1,2) st1(1)] st1(2)] show ?case .
qed simp

section \<open>The outcomes of the builds\<close>

text \<open>One project after the other, in build order.\<close>

definition build_next ::
  "(nat \<Rightarrow> nat set) \<Rightarrow> ('s, 'e, 'p) build_action \<Rightarrow> (nat \<rightharpoonup> ('s, 'e, 'p) task_outcome) \<Rightarrow> nat \<Rightarrow>
   (nat \<rightharpoonup> ('s, 'e, 'p) task_outcome)" where
  "build_next ups build outs i = outs(i \<mapsto> build i (outs |` ups i))"

definition sequential_outcomes ::
  "'a orchestrator_scheme \<Rightarrow> ('s, 'e, 'p) build_action \<Rightarrow> nat \<rightharpoonup> ('s, 'e, 'p) task_outcome" where
  "sequential_outcomes s build = foldl (build_next (waits_for s) build) Map.empty (o_order_indices s)"

lemma restrict_upd_other: "x \<notin> A \<Longrightarrow> (m(x \<mapsto> v)) |` A = m |` A"
  by (auto simp: restrict_map_def)

lemma foldl_outcomes:
  assumes "distinct xs" "build_ordered W xs"
  shows "dom (foldl (build_next W build) Map.empty xs) = set xs \<and>
    (\<forall>i\<in>set xs. foldl (build_next W build) Map.empty xs i = Some (build i (foldl (build_next W build) Map.empty xs |` W i)))"
  using assms
proof (induction xs rule: rev_induct)
  case (snoc x xs)
  let ?m = "foldl (build_next W build) Map.empty xs"
  have IH: "dom ?m = set xs" "\<And>i. i \<in> set xs \<Longrightarrow> ?m i = Some (build i (?m |` W i))"
    using snoc by (auto simp: build_ordered_snoc)
  have x: "x \<notin> set xs" "W x \<subseteq> set xs" using snoc.prems by (auto simp: build_ordered_snoc)
  have "W i \<subseteq> set xs" if "i \<in> set xs" for i
  proof -
    obtain k where "k < length xs" "i = xs ! k" using \<open>i \<in> set xs\<close> by (auto simp: in_set_conv_nth)
    moreover have "build_ordered W xs" using snoc.prems by (simp add: build_ordered_snoc)
    ultimately have "W i \<subseteq> set (take k xs)" by (simp add: build_ordered_def)
    then show ?thesis using set_take_subset [of k xs] by blast
  qed
  then have other: "(?m(x \<mapsto> v)) |` W i = ?m |` W i" if "i \<in> set (xs @ [x])" for i v
    using that x by (intro restrict_upd_other) auto
  have step: "foldl (build_next W build) Map.empty (xs @ [x]) = ?m(x \<mapsto> build x (?m |` W x))"
    by (simp add: build_next_def)
  have "(?m(x \<mapsto> v)) i = Some (build i ((?m(x \<mapsto> v)) |` W i))"
    if "i \<in> set (xs @ [x])" "v = build x (?m |` W x)" for i v
    unfolding other [OF that(1)] using that IH(2) by auto
  note new = this [OF _ refl]
  have "dom (?m(x \<mapsto> v)) = set (xs @ [x])" for v using IH(1) by auto
  then show ?case unfolding step using new by blast
qed simp

lemma sequential_outcomes:
  assumes "walked s"
  shows "dom (sequential_outcomes s build) = set (o_order_indices s)"
    "i \<in> set (o_order_indices s) \<Longrightarrow>
       sequential_outcomes s build i = Some (build i (sequential_outcomes s build |` waits_for s i))"
  using foldl_outcomes [OF graph.plan_distinct [OF assms] graph.plan_ordered [OF assms], of build]
  unfolding sequential_outcomes_def by auto

text \<open>
  Every outcome was computed from those upstream, all of them there; and nothing is or was skipped
  unless the context is cancelled.
\<close>

definition data_inv :: "'a orchestrator_scheme \<Rightarrow> ('s, 'e, 'p) build_action \<Rightarrow> ('s, 'e, 'p) run_state \<Rightarrow> bool" where
  "data_inv s build st \<longleftrightarrow>
     (\<forall>i out. r_outcomes st i = Some out \<longrightarrow>
        out = build i (r_outcomes st |` waits_for s i) \<and> waits_for s i \<subseteq> dom (r_outcomes st)) \<and>
     (\<forall>p. Building p \<in> set (r_builders st) \<longrightarrow> waits_for s (o_order_indices s ! p) \<subseteq> dom (r_outcomes st)) \<and>
     (r_cancelled st \<and> \<not> o_watch s \<or>
        r_done st \<subseteq> dom (r_outcomes st) \<and> (\<forall>p. Skipping p \<notin> set (r_builders st)))"

lemma data_inv_start: "data_inv s build (run_start active queued)"
  by (simp add: data_inv_def run_start_def)

lemma data_invD:
  assumes "data_inv s build st"
  shows "r_outcomes st i = Some out \<Longrightarrow> out = build i (r_outcomes st |` waits_for s i)"
    "r_outcomes st i = Some out \<Longrightarrow> waits_for s i \<subseteq> dom (r_outcomes st)"
    "Building p \<in> set (r_builders st) \<Longrightarrow> waits_for s (o_order_indices s ! p) \<subseteq> dom (r_outcomes st)"
    "r_cancelled st \<and> \<not> o_watch s \<or> r_done st \<subseteq> dom (r_outcomes st) \<and> (\<forall>p. Skipping p \<notin> set (r_builders st))"
  using assms unfolding data_inv_def by blast+

lemma data_other:
  assumes "data_inv s build st" "r_outcomes st' = r_outcomes st" "r_done st' = r_done st" "r_cancelled st \<longrightarrow> r_cancelled st'"
    "set (r_builders st') \<subseteq> insert b (set (r_builders st))" "\<And>p. b \<noteq> Building p \<and> b \<noteq> Skipping p"
  shows "data_inv s build st'"
proof -
  have "Building p \<in> set (r_builders st)" if "Building p \<in> set (r_builders st')" for p using that assms(5,6) by blast
  moreover have "Skipping p \<in> set (r_builders st)" if "Skipping p \<in> set (r_builders st')" for p using that assms(5,6) by blast
  ultimately show ?thesis using assms(1,4) unfolding data_inv_def assms(2,3) by blast
qed

lemma data_begin:
  assumes "data_inv s build st" "waits_for s (o_order_indices s ! p) \<subseteq> r_done st"
  shows "data_inv s build (begin_task s w p st)"
proof -
  note inv = data_invD [OF assms(1)]
  have bs: "set (r_builders (begin_task s w p st)) \<subseteq>
      insert (if r_cancelled st \<and> \<not> o_watch s then Skipping p else Building p) (set (r_builders st))"
    by (simp add: begin_task_def set_update_subset_insert)
  have same: "r_outcomes (begin_task s w p st) = r_outcomes st" "r_done (begin_task s w p st) = r_done st"
      "r_cancelled (begin_task s w p st) = r_cancelled st"
    by (simp_all add: begin_task_def)
  have "waits_for s (o_order_indices s ! q) \<subseteq> dom (r_outcomes st)"
    if "Building q \<in> set (r_builders (begin_task s w p st))" for q
  proof (cases "Building q \<in> set (r_builders st)")
    case False
    then have "q = p" "\<not> (r_cancelled st \<and> \<not> o_watch s)"
      using subsetD [OF bs that] by (simp_all split: if_splits)
    then show ?thesis using inv(4) assms(2) by blast
  qed (rule inv(3))
  moreover have "Skipping q \<notin> set (r_builders (begin_task s w p st))"
    if "\<not> (r_cancelled st \<and> \<not> o_watch s)" for q
    using subsetD [OF bs, of "Skipping q"] inv(4) that by auto
  ultimately show ?thesis using inv(1,2,4) unfolding data_inv_def same by blast
qed

lemma data_finish:
  assumes "data_inv s build st" "Building p \<in> set (r_builders st)" "r_outcomes st (o_order_indices s ! p) = None"
  shows "data_inv s build (finish_task s build w p st)"
proof -
  let ?i = "o_order_indices s ! p" and ?st = "finish_task s build w p st"
  let ?out = "build ?i (r_outcomes st |` waits_for s ?i)"
  note inv = data_invD [OF assms(1)]
  have st: "r_outcomes ?st = (r_outcomes st)(?i \<mapsto> ?out)" "r_done ?st = insert ?i (r_done st)" "r_cancelled ?st = r_cancelled st"
    by (simp_all add: finish_task_def Let_def split: task_outcome.split)
  have bs: "set (r_builders ?st) \<subseteq> insert (Reporting p (outcome_result ?out)) (set (r_builders st))"
    by (simp add: finish_task_def Let_def set_update_subset_insert split: task_outcome.split)
  have keep: "(r_outcomes ?st |` waits_for s j) = r_outcomes st |` waits_for s j" if "waits_for s j \<subseteq> dom (r_outcomes st)" for j
    unfolding st using that assms(3) by (intro restrict_upd_other) auto
  have ups: "waits_for s ?i \<subseteq> dom (r_outcomes st)" by (rule inv(3) [OF assms(2)])
  have "out = build j (r_outcomes ?st |` waits_for s j) \<and> waits_for s j \<subseteq> dom (r_outcomes ?st)"
    if "r_outcomes ?st j = Some out" for j out
  proof (cases "j = ?i")
    case True
    then show ?thesis using that keep [OF ups] ups st(1) by auto
  next
    case False
    then have "r_outcomes st j = Some out" using that st(1) by simp
    note out = inv(1,2) [OF this]
    moreover have "dom (r_outcomes st) \<subseteq> dom (r_outcomes ?st)" by (auto simp: st(1))
    ultimately show ?thesis unfolding keep [OF out(2)] by blast
  qed
  moreover have "waits_for s (o_order_indices s ! q) \<subseteq> dom (r_outcomes ?st)" if "Building q \<in> set (r_builders ?st)" for q
    using inv(3) [of q] subsetD [OF bs that] st(1) by auto
  moreover have "r_done ?st \<subseteq> dom (r_outcomes ?st)" if "r_done st \<subseteq> dom (r_outcomes st)"
    using that unfolding st by auto
  moreover have "Skipping q \<in> set (r_builders st)" if "Skipping q \<in> set (r_builders ?st)" for q
    using subsetD [OF bs that] by simp
  ultimately show ?thesis using inv(4) unfolding data_inv_def st(3) by blast
qed

lemma data_skip:
  assumes "data_inv s build st" "Skipping p \<in> set (r_builders st)"
  shows "data_inv s build (skip_task s w p st)"
proof -
  have bs: "set (r_builders (skip_task s w p st)) \<subseteq> insert (Reporting p skipped_result) (set (r_builders st))"
    by (simp add: skip_task_def set_update_subset_insert)
  have "r_cancelled st \<and> \<not> o_watch s" using data_invD(4) [OF assms(1)] assms(2) by blast
  moreover have "Building q \<in> set (r_builders st)" if "Building q \<in> set (r_builders (skip_task s w p st))" for q
    using subsetD [OF bs that] by simp
  ultimately show ?thesis
    using assms(1) unfolding data_inv_def by (simp add: skip_task_def)
qed

lemma run_step_data:
  assumes "walked s" "run_inv s report_panic k st" "data_inv s build st" "run_step s build report_panic ev st = Some st'"
  shows "data_inv s build st'"
proof (cases ev)
  case (Take w)
  then have "st' = take_position s w st" using assms(4) by (simp split: if_splits)
  then show ?thesis
    by (intro data_other [OF assms(3), where b = "if r_current st < length (o_order_indices s) then Waiting (r_current st) else Stopped"])
       (auto simp: take_position_def Let_def set_update_subset_insert)
next
  case (Begin w)
  then show ?thesis using assms(4) data_begin [OF assms(3)] by (auto simp: waiting_iff split: if_splits builder.splits)
next
  case (Finish w)
  then have w: "w < length (r_builders st)" using assms(4) by (simp split: if_splits)
  then have here: "r_builders st ! w \<in> set (r_builders st)" by simp
  consider p where "r_builders st ! w = Building p" "st' = finish_task s build w p st"
    | p where "r_builders st ! w = Skipping p" "st' = skip_task s w p st"
    using assms(4) Finish w by (auto split: builder.splits)
  then show ?thesis
  proof cases
    case (1 p)
    then have "Building p \<in> set (r_builders st)" using here by simp
    then have "r_outcomes st (o_order_indices s ! p) = None"
      using reported_front(1) [OF assms(1,2)] unfinished_building by simp
    then show ?thesis using data_finish [OF assms(3)] \<open>Building p \<in> set (r_builders st)\<close> 1(2) by simp
  next
    case (2 p)
    then show ?thesis using data_skip [OF assms(3)] here by simp
  qed
next
  case (Report w)
  then obtain p r where "st' = report_task s report_panic w p r st" using assms(4) by (auto split: if_splits builder.splits)
  then show ?thesis
    by (intro data_other [OF assms(3), where b = Fetching])
       (auto simp: report_task_def Let_def set_update_subset_insert split: option.split)
next
  case (Reuse w)
  then have "st' = set_builder w Fetching (st\<lparr>r_queued := r_queued st - 1\<rparr>)" using assms(4) by (simp split: if_splits)
  then show ?thesis by (intro data_other [OF assms(3), where b = Fetching]) (auto simp: set_update_subset_insert)
next
  case Cancel
  then have "st' = st\<lparr>r_cancelled := True\<rparr>" using assms(4) by simp
  then show ?thesis by (intro data_other [OF assms(3), where b = Fetching]) auto
qed

lemma run_events_data:
  assumes "walked s" "run_inv s report_panic k st" "data_inv s build st" "run_events s build report_panic evs st = Some st'"
  shows "data_inv s build st'"
  using assms(2-4)
proof (induction evs arbitrary: k st)
  case (Cons ev evs)
  then obtain st1 where st1: "run_step s build report_panic ev st = Some st1" "run_events s build report_panic evs st1 = Some st'"
    by (auto simp: bind_Some_iff)
  obtain k1 where "run_inv s report_panic k1 st1" using run_step_inv [OF assms(1) Cons.prems(1) st1(1)] by blast
  from Cons.IH [OF this run_step_data [OF assms(1) Cons.prems(1,2) st1(1)] st1(2)] show ?case .
qed simp

text \<open>The context is cancelled by an event only.\<close>

lemma cancelled_simps:
  "r_cancelled (take_position s w st) = r_cancelled st" "r_cancelled (begin_task s w p st) = r_cancelled st"
  "r_cancelled (finish_task s build w p st) = r_cancelled st" "r_cancelled (skip_task s w p st) = r_cancelled st"
  "r_cancelled (report_task s report_panic w p r st) = r_cancelled st"
  by (simp_all add: take_position_def begin_task_def finish_task_def skip_task_def report_task_def Let_def
      split: task_outcome.split option.split)

lemma run_step_cancelled:
  assumes "run_step s build report_panic ev st = Some st'"
  shows "r_cancelled st' \<longleftrightarrow> r_cancelled st \<or> ev = Cancel"
proof (cases ev)
  case (Take w)
  then have "st' = take_position s w st" using assms by (simp split: if_splits)
  then show ?thesis using Take cancelled_simps(1) [of s w st] by simp
next
  case (Begin w)
  then obtain p where "st' = begin_task s w p st" using assms by (auto split: if_splits builder.splits)
  then show ?thesis using Begin cancelled_simps(2) [of s w p st] by simp
next
  case (Finish w)
  then consider p where "st' = finish_task s build w p st" | p where "st' = skip_task s w p st"
    using assms by (auto split: if_splits builder.splits)
  then show ?thesis
  proof cases
    case (1 p)
    then show ?thesis using Finish cancelled_simps(3) [of s build w p st] by simp
  next
    case (2 p)
    then show ?thesis using Finish cancelled_simps(4) [of s w p st] by simp
  qed
next
  case (Report w)
  then obtain p r where "st' = report_task s report_panic w p r st" using assms by (auto split: if_splits builder.splits)
  then show ?thesis using Report cancelled_simps(5) [of s report_panic w p r st] by simp
qed (use assms in \<open>auto split: if_splits\<close>)

lemma run_events_cancelled:
  "run_events s build report_panic evs st = Some st' \<Longrightarrow> r_cancelled st' \<longleftrightarrow> r_cancelled st \<or> Cancel \<in> set evs"
proof (induction evs arbitrary: st)
  case (Cons ev evs)
  then obtain st1 where st1: "run_step s build report_panic ev st = Some st1" "run_events s build report_panic evs st1 = Some st'"
    by (auto simp: bind_Some_iff)
  show ?case using Cons.IH [OF st1(2)] run_step_cancelled [OF st1(1)] by auto
qed simp

lemma outcomes_sequential:
  assumes "walked s" "data_inv s build st" "dom (r_outcomes st) \<subseteq> set (o_order_indices s)"
  shows "r_outcomes st = sequential_outcomes s build |` dom (r_outcomes st)"
proof -
  have "r_outcomes st (o_order_indices s ! k) = sequential_outcomes s build (o_order_indices s ! k)"
    if "k < length (o_order_indices s)" "o_order_indices s ! k \<in> dom (r_outcomes st)" for k
    using that
  proof (induction k rule: less_induct)
    case (less k)
    let ?i = "o_order_indices s ! k"
    obtain out where out: "r_outcomes st ?i = Some out" using less.prems(2) by blast
    note step = data_invD(1,2) [OF assms(2) out]
    have "r_outcomes st u = sequential_outcomes s build u" if u: "u \<in> waits_for s ?i" for u
    proof -
      obtain q where "q < k" "u = o_order_indices s ! q" using graph.waits_earlier [OF assms(1) less.prems(1)] u by blast
      then show ?thesis using less.IH [of q] less.prems(1) step(2) u by auto
    qed
    then have "r_outcomes st |` waits_for s ?i = sequential_outcomes s build |` waits_for s ?i"
      by (simp add: restrict_map_def fun_eq_iff)
    then have "out = build ?i (sequential_outcomes s build |` waits_for s ?i)" using step(1) by metis
    moreover have "sequential_outcomes s build ?i = Some (build ?i (sequential_outcomes s build |` waits_for s ?i))"
      using sequential_outcomes(2) [OF assms(1)] nth_mem [OF less.prems(1)] .
    ultimately show ?case using out by metis
  qed
  note here = this
  have "r_outcomes st i = (sequential_outcomes s build |` dom (r_outcomes st)) i" for i
  proof (cases "i \<in> dom (r_outcomes st)")
    case True
    then obtain k where "k < length (o_order_indices s)" "i = o_order_indices s ! k"
      using subsetD [OF assms(3)] by (metis in_set_conv_nth)
    then show ?thesis using here [of k] True by simp
  next
    case False
    then show ?thesis by (simp add: domIff)
  qed
  then show ?thesis by (rule ext)
qed

section \<open>Properties\<close>

lemma generated_walked:
  fixes s0 :: orchestrator
  assumes "own_paths (orchestrator_path lower s0) old" "generate_graph_with_tasks lower read_config old roots s0 = Some (Inr s)"
  shows "walked s"
  using generated(1) [OF assms] by (auto simp: walked_def)

lemma held_list: "held (mset bs) = mset (List.map_filter builder_position bs)"
  by (induction bs) (auto simp: List.map_filter_simps split: option.split)

text \<open>
  C7. Builders respect the graph. Along every schedule of the builders, whatever the builds do and
  whenever the context is cancelled: a project is only being built, or skipped, when all of the projects it waits
  for are done, no two builders have the same project, and the reports written are those of the first
  projects of the build order, in that order.
\<close>

theorem builders_respect_graph:
  fixes s0 :: orchestrator
  assumes "own_paths (orchestrator_path lower s0) old" "generate_graph_with_tasks lower read_config old roots s0 = Some (Inr s)"
    "run_events s build report_panic evs (run_start active queued) = Some st"
  shows "(\<forall>p. Building p \<in> set (r_builders st) \<or> Skipping p \<in> set (r_builders st) \<longrightarrow>
       waits_for s (o_order_indices s ! p) \<subseteq> r_done st) \<and>
    distinct (List.map_filter builder_position (r_builders st)) \<and>
    (\<exists>k\<le>length (o_order_indices s). r_report_done st = set (take k (o_order_indices s)) \<and>
       r_output st = concat (map (reported (r_outcomes st) report_panic) (take k (o_order_indices s))))"
proof -
  obtain k where "run_inv s report_panic k st"
    using run_events_inv [OF generated_walked [OF assms(1,2)] run_inv_start assms(3)] by blast
  note inv = run_invD [OF this]
  have "mset (List.map_filter builder_position (r_builders st)) = mset [k..<taken s st]"
    using inv(2) by (simp add: held_list)
  then have "distinct (List.map_filter builder_position (r_builders st))"
    using mset_eq_imp_distinct_iff distinct_upt by blast
  moreover have "k \<le> length (o_order_indices s)" using inv(1) by (simp add: taken_def)
  ultimately show ?thesis using inv(4,7,9) by auto
qed

text \<open>
  C2. No deadlock, and every build ends. As long as not all builders have stopped, some builder can
  move, for any number of builders, of which at least one runs while the others may have to wait for
  a thread. Every schedule can be completed, and the builders take the same number of steps in all
  complete schedules, cancelled or not.
\<close>

theorem builders_never_deadlock:
  fixes s0 :: orchestrator
  assumes "own_paths (orchestrator_path lower s0) old" "generate_graph_with_tasks lower read_config old roots s0 = Some (Inr s)"
    "run_events s build report_panic evs (run_start active queued) = Some st" "0 < active"
  shows "(run_ended st \<or> (\<exists>ev st'. ev \<noteq> Cancel \<and> run_step s build report_panic ev st = Some st')) \<and>
    (\<exists>evs' st'. run_events s build report_panic (evs @ evs') (run_start active queued) = Some st' \<and> run_ended st' \<and>
       builder_steps (evs @ evs') = 4 * length (o_order_indices s) + active + 2 * queued)"
proof -
  note w = generated_walked [OF assms(1,2)]
  obtain k where inv: "run_inv s report_panic k st" using run_events_inv [OF w run_inv_start assms(3)] by blast
  have ne: "r_builders st \<noteq> []" using run_events_builders [OF assms(3)] assms(4) by (auto simp: run_start_def)
  obtain evs' st' where st': "run_events s build report_panic evs' st = Some st'" "run_ended st'"
    using run_completes [OF w inv ne] by blast
  then have all: "run_events s build report_panic (evs @ evs') (run_start active queued) = Some st'"
    using assms(3) by (simp add: run_events_append)
  obtain k' where "run_inv s report_panic k' st'" using run_events_inv [OF w run_inv_start all] by blast
  moreover have "r_builders st' \<noteq> []" using run_events_builders [OF st'(1)] ne by auto
  ultimately have "builder_steps (evs @ evs') = 4 * length (o_order_indices s) + active + 2 * queued"
    using run_events_work [OF all] ended_work [of s report_panic k' st'] st'(2) by (simp add: work_start)
  then show ?thesis using all st'(2) run_progress [OF w inv ne] by metis
qed

lemma schedule_outcomes:
  fixes s0 :: orchestrator
  assumes "own_paths (orchestrator_path lower s0) old" "generate_graph_with_tasks lower read_config old roots s0 = Some (Inr s)"
    "run_events s build report_panic evs (run_start active queued) = Some st"
  shows "r_outcomes st = sequential_outcomes s build |` dom (r_outcomes st)" "dom (r_outcomes st) \<subseteq> r_done st"
    "r_done st \<subseteq> set (o_order_indices s)" "r_done st = dom (r_outcomes st) \<or> Cancel \<in> set evs \<and> \<not> o_watch s"
    "i \<in> dom (r_outcomes st) \<Longrightarrow> waits_for s i \<subseteq> dom (r_outcomes st)"
proof -
  note w = generated_walked [OF assms(1,2)]
  obtain k where inv: "run_inv s report_panic k st" using run_events_inv [OF w run_inv_start assms(3)] by blast
  note data = run_events_data [OF w run_inv_start data_inv_start assms(3)]
  show sub: "dom (r_outcomes st) \<subseteq> r_done st" by (rule run_invD(10) [OF inv])
  show order: "r_done st \<subseteq> set (o_order_indices s)"
    unfolding run_invD(3) [OF inv] by (auto simp: done_tasks_def taken_def)
  show "r_outcomes st = sequential_outcomes s build |` dom (r_outcomes st)"
    by (rule outcomes_sequential [OF w data subset_trans [OF sub order]])
  have "r_cancelled st \<Longrightarrow> Cancel \<in> set evs" using run_events_cancelled [OF assms(3)] by (simp add: run_start_def)
  then show "r_done st = dom (r_outcomes st) \<or> Cancel \<in> set evs \<and> \<not> o_watch s"
    using data_invD(4) [OF data] sub by blast
  show "i \<in> dom (r_outcomes st) \<Longrightarrow> waits_for s i \<subseteq> dom (r_outcomes st)" using data_invD(2) [OF data] by blast
qed

lemma summary_status:
  "(\<And>i. i \<in> set xs \<Longrightarrow> results i = Some (f i)) \<Longrightarrow>
   foldl (\<lambda>status i. case results i of None \<Rightarrow> status | Some r \<Rightarrow> max status (result_status r)) b xs =
     Max (insert b ((\<lambda>i. result_status (f i)) ` set xs))"
proof (induction xs arbitrary: b)
  case (Cons x xs)
  let ?f = "\<lambda>i. result_status (f i)"
  have "Max (insert (max b (?f x)) (?f ` set xs)) = Max (insert b (insert (?f x) (?f ` set xs)))"
    by (cases "?f ` set xs = {}") (auto simp: Max_insert max.assoc)
  then show ?case using Cons by simp
qed simp

text \<open>A skipped project keeps the status from being 0.\<close>

lemma skipped_status:
  assumes "finite A" "i \<in> A" "outs i = None"
  shows "Max (insert 0 ((\<lambda>i. result_status (result_of outs i)) ` A)) \<noteq> 0"
proof -
  have "result_status (result_of outs i) = 1"
    using assms(3) by (simp add: result_of_def skipped_result_def DiagnosticsPresent_OutputsSkipped_def)
  then have "1 \<le> Max (insert 0 ((\<lambda>i. result_status (result_of outs i)) ` A))"
    using assms(1,2) by (intro Max_ge) (auto simp: image_iff intro!: bexI [of _ i])
  then show ?thesis by simp
qed

text \<open>
  C9. Concurrent builds do what sequential ones do. Along every schedule of any number of builders, with the context
  cancelled at any moment, each project that was built has the outcome it has when the projects are
  built one after the other in build order, though every build looks at the outcomes upstream when it
  runs. What is done without an outcome was skipped, which happens only after a cancellation and never in watch mode; and
  of a project that was built, the projects it waits for were built too.
\<close>

theorem builds_agree_with_sequential:
  fixes s0 :: orchestrator
  assumes "own_paths (orchestrator_path lower s0) old" "generate_graph_with_tasks lower read_config old roots s0 = Some (Inr s)"
    "run_events s build report_panic evs (run_start active queued) = Some st"
  shows "r_outcomes st = sequential_outcomes s build |` dom (r_outcomes st) \<and>
    dom (r_outcomes st) \<subseteq> r_done st \<and> r_done st \<subseteq> dom (sequential_outcomes s build) \<and>
    (r_done st = dom (r_outcomes st) \<or> Cancel \<in> set evs \<and> \<not> o_watch s) \<and>
    (\<forall>i\<in>dom (r_outcomes st). waits_for s i \<subseteq> dom (r_outcomes st))"
  using schedule_outcomes [OF assms] sequential_outcomes(1) [OF generated_walked [OF assms(1,2)]] by blast

text \<open>
  C8. The result of a build. A graph with errors is not built. Otherwise the result is that of building one
  project after the other, whatever the schedule and the number of builders: a panic of some project
  comes first, then an error of some project, and without either the exit status is the highest of all
  projects, all of them counted. A cancellation that comes in time can only take out projects together with all
  that wait for them, and then the status is not 0; in watch mode it takes out none.
\<close>

theorem build_result_independent:
  fixes s0 :: orchestrator
  assumes "own_paths (orchestrator_path lower s0) old" "generate_graph_with_tasks lower read_config old roots s0 = Some (Inr s)"
    "build_or_clean s build report_panic active queued schedule = Some result" "0 < active"
  shows "if o_errors s \<noteq> [] then result = Exit ProjectReferenceCycle_OutputsSkipped
    else \<exists>built \<subseteq> set (o_order_indices s).
      (built = set (o_order_indices s) \<or> Cancel \<in> set schedule \<and> \<not> o_watch s \<and> result \<noteq> Exit 0) \<and>
      (\<forall>i\<in>built. waits_for s i \<subseteq> built) \<and>
      (let outs = sequential_outcomes s build |` built in
       if panics outs report_panic (set (o_order_indices s)) \<noteq> {}
       then \<exists>p\<in>panics outs report_panic (set (o_order_indices s)). result = BuildPanic p
       else if failures outs \<noteq> {} then \<exists>e\<in>failures outs. result = BuildError e
       else result = Exit (Max (insert 0 ((\<lambda>i. result_status (result_of outs i)) ` set (o_order_indices s)))))"
proof (cases "o_errors s = []")
  case True
  note w = generated_walked [OF assms(1,2)]
  obtain st where st: "run_events s build report_panic schedule (run_start active queued) = Some st" "run_ended st"
      "result = summarize s st"
    using assms(3) True by (auto simp: build_or_clean_def bind_Some_iff split: if_splits)
  obtain k where inv: "run_inv s report_panic k st" using run_events_inv [OF w run_inv_start st(1)] by blast
  have ne: "r_builders st \<noteq> []" using run_events_builders [OF st(1)] assms(4) by (auto simp: run_start_def)
  have k: "k = length (o_order_indices s)" by (rule run_ended_all [OF inv ne st(2)])
  let ?order = "set (o_order_indices s)" and ?outs = "r_outcomes st"
  note outs = schedule_outcomes [OF assms(1,2) st(1)]
  have all: "r_done st = ?order" "r_report_done st = ?order"
  proof -
    have "taken s st = length (o_order_indices s)" using run_invD(1) [OF inv] k by (simp add: taken_def)
    moreover from this have "held (mset (r_builders st)) = {#}" using run_invD(2) [OF inv] k by simp
    ultimately show "r_done st = ?order"
      using run_invD(3) [OF inv] held_not_unfinished by (auto simp: done_tasks_def set_conv_nth)
    show "r_report_done st = ?order" using run_invD(7) [OF inv] k by simp
  qed
  have err: "recorded (r_failure st) (failures ?outs)" "recorded (r_first_panic st) (panics ?outs report_panic ?order)"
    using run_events_errors [OF w run_inv_start errors_inv_start st(1)] unfolding errors_inv_def all by auto
  have status: "foldl (\<lambda>status i. case r_results st i of None \<Rightarrow> status | Some r \<Rightarrow> max status (result_status r)) 0 (o_order_indices s) =
      Max (insert 0 ((\<lambda>i. result_status (result_of ?outs i)) ` ?order))"
    by (rule summary_status) (simp add: run_invD(8) [OF inv] k)
  have result: "if panics ?outs report_panic ?order \<noteq> {} then \<exists>p\<in>panics ?outs report_panic ?order. result = BuildPanic p
      else if failures ?outs \<noteq> {} then \<exists>e\<in>failures ?outs. result = BuildError e
      else result = Exit (Max (insert 0 ((\<lambda>i. result_status (result_of ?outs i)) ` ?order)))"
    using err st(3) unfolding summarize_def status by (auto simp: recorded_def split: option.splits)
  have "result \<noteq> Exit 0" if "dom ?outs \<noteq> ?order"
  proof -
    obtain i where "i \<in> ?order" "?outs i = None" using \<open>dom ?outs \<noteq> ?order\<close> outs(2,3) all(1) by blast
    then show ?thesis using skipped_status [of ?order i ?outs] result by (auto split: if_splits)
  qed
  then have "dom ?outs = ?order \<or> Cancel \<in> set schedule \<and> \<not> o_watch s \<and> result \<noteq> Exit 0"
    using outs(4) all(1) by blast
  moreover have "dom ?outs \<subseteq> ?order" using outs(2,3) by blast
  moreover have "\<forall>i\<in>dom ?outs. waits_for s i \<subseteq> dom ?outs" using outs(5) by blast
  ultimately show ?thesis
    using True result outs(1) by (simp only: Let_def not_not if_False if_True simp_thms) metis
qed (use assms(3) in \<open>simp add: build_or_clean_def\<close>)

section \<open>Two builders on a small solution\<close>

text \<open>The exit status of a build is the number of projects it waits for.\<close>

definition sample_build :: "(bytes, bytes, bytes) build_action" where
  "sample_build i outs =
     Finished \<lparr>result_output = ''ok'', result_status = int (length (filter (\<lambda>u. outs u \<noteq> None) [0, 1, 2]))\<rparr> []"

definition sample_first :: "run_event list" where
  "sample_first = [Take 0, Take 1, Begin 0, Finish 0, Begin 1]"

definition sample_rest :: "run_event list" where
  "sample_rest = [Report 0, Take 0, Finish 1, Report 1, Begin 0, Finish 0, Report 0, Take 1, Take 0]"

definition sample_state :: "(bytes, bytes, bytes) run_state" where
  "sample_state = the (run_events sample_graph sample_build (\<lambda>_ _. None) sample_first (run_start 2 0))"

lemma sample_reached: "run_events sample_graph sample_build (\<lambda>_ _. None) sample_first (run_start 2 0) = Some sample_state"
proof -
  have "run_events sample_graph sample_build (\<lambda>_ _. None) sample_first (run_start 2 0) \<noteq> None" by code_simp
  then show ?thesis by (auto simp: sample_state_def)
qed

theorem builders_respect_graph_witness:
  "Building 1 \<in> set (r_builders sample_state) \<and> waits_for sample_graph (o_order_indices sample_graph ! 1) \<subseteq> r_done sample_state"
proof -
  have "Building 1 \<in> set (r_builders sample_state)" by code_simp
  then show ?thesis using builders_respect_graph [OF own_paths_empty sample_generated sample_reached] by blast
qed

theorem builders_never_deadlock_witness:
  "\<exists>evs' st'. run_events sample_graph sample_build (\<lambda>_ _. None) (sample_first @ evs') (run_start 2 0) = Some st' \<and>
     run_ended st' \<and> builder_steps (sample_first @ evs') = 14"
  using builders_never_deadlock [OF own_paths_empty sample_generated sample_reached] by (simp add: sample_order)

text \<open>The context is cancelled when the first project is built and the second one is being built.\<close>

definition sample_cancelled :: "(bytes, bytes, bytes) run_state" where
  "sample_cancelled = the (run_events sample_graph sample_build (\<lambda>_ _. None)
     (sample_first @ Cancel # sample_rest) (run_start 2 0))"

lemma sample_cancelled_reached:
  "run_events sample_graph sample_build (\<lambda>_ _. None) (sample_first @ Cancel # sample_rest) (run_start 2 0) = Some sample_cancelled"
proof -
  have "run_events sample_graph sample_build (\<lambda>_ _. None) (sample_first @ Cancel # sample_rest) (run_start 2 0) \<noteq> None"
    by code_simp
  then show ?thesis by (auto simp: sample_cancelled_def)
qed

theorem builds_agree_with_sequential_witness:
  "r_outcomes sample_cancelled 0 = None \<and>
   r_outcomes sample_cancelled 1 = Some (Finished \<lparr>result_output = ''ok'', result_status = 1\<rparr> []) \<and>
   r_outcomes sample_cancelled = sequential_outcomes sample_graph sample_build |` dom (r_outcomes sample_cancelled)"
proof -
  have "r_outcomes sample_cancelled 0 = None"
      "r_outcomes sample_cancelled 1 = Some (Finished \<lparr>result_output = ''ok'', result_status = 1\<rparr> [])"
    by code_simp+
  then show ?thesis
    using builds_agree_with_sequential [OF own_paths_empty sample_generated sample_cancelled_reached] by blast
qed

theorem build_result_independent_witness:
  "\<exists>built\<subseteq>{0, 1, 2}. built = {0, 1, 2} \<and>
     (let outs = sequential_outcomes sample_graph sample_build |` built in
      panics outs (\<lambda>_ _. None) {0, 1, 2} = {} \<and> failures outs = {} \<and>
      Exit 2 = (Exit (Max (insert 0 ((\<lambda>i. result_status (result_of outs i)) ` {0, 1, 2}))) :: (bytes, bytes) build_result))"
proof -
  have b: "build_or_clean sample_graph sample_build (\<lambda>_ _. None) 2 0 (sample_first @ sample_rest) = Some (Exit 2)"
    by code_simp
  have e: "o_errors sample_graph = []" "Cancel \<notin> set (sample_first @ sample_rest)" by code_simp+
  have o: "set (o_order_indices sample_graph) = {0, 1, 2}" by (auto simp: sample_order)
  show ?thesis
    using build_result_independent [OF own_paths_empty sample_generated b] e(1,2) unfolding o
    by (auto simp: Let_def split: if_splits)
qed

end
