(* ===== verification/Trivia.thy ===== *)
theory Trivia
  imports Strings Positions
begin

text \<open>
  Trivia and comments of the scanner, \<open>crates/tsr_scanner/src/trivia.rs\<close>: \<open>skip_trivia\<close> moves over
  white space, comments, merge conflict markers and a shebang, Positions are integers, and an access outside of the text
  is a panic; no position exceeds the length of the text by more than seven, so \<open>i64\<close> does not wrap.
\<close>

section \<open>Characters\<close>

definition is_white_space_single_line :: "int \<Rightarrow> bool" where
  "is_white_space_single_line ch \<longleftrightarrow>
     ch \<in> {0x20, 0x09, 0x0b, 0x0c, 0x85, 0xa0, 0x1680, 0x202f, 0x205f, 0x3000, 0xfeff} \<or> 0x2000 \<le> ch \<and> ch \<le> 0x200b"

definition is_white_space_like :: "int \<Rightarrow> bool" where
  "is_white_space_like ch \<longleftrightarrow> is_white_space_single_line ch \<or> is_line_break ch"

text \<open>\<open>&text[index(pos)..]\<close>\<close>

definition tail :: "bytes \<Rightarrow> int \<Rightarrow> bytes panicking" where
  "tail src pos = (if 0 \<le> pos \<and> pos \<le> int (length src) then Some (drop (nat pos) src) else None)"

text \<open>\<open>decode_last_utf8\<close> of \<open>utilities.rs\<close>: back over continuation bytes, then forward.\<close>

fun back_over_continuations :: "bytes \<Rightarrow> nat \<Rightarrow> nat \<Rightarrow> nat" where
  "back_over_continuations bs lower 0 = 0"
| "back_over_continuations bs lower (Suc start) =
     (if lower < Suc start \<and> is_continuation (bs ! Suc start) then back_over_continuations bs lower start else Suc start)"

definition decode_last_utf8 :: "bytes \<Rightarrow> int \<times> nat" where
  "decode_last_utf8 bs =
     (if bs = [] then (RUNE_ERROR, 0)
      else if byte_val (last bs) < 0x80 then (int (byte_val (last bs)), 1)
      else
        let start = back_over_continuations bs (length bs - 4) (length bs - 1);
            (rune, width) = decode_utf8 (drop start bs)
        in if start + width = length bs then (rune, width) else (RUNE_ERROR, 1))"

section \<open>Skipping\<close>

record skip_trivia_options =
  stop_after_line_break :: bool
  stop_at_comments :: bool
  in_jsdoc :: bool

definition default_options :: skip_trivia_options where
  "default_options = \<lparr>stop_after_line_break = False, stop_at_comments = False, in_jsdoc = False\<rparr>"

lemma tail_progress:
  assumes "tail src pos = Some t" "decode_utf8 t = (ch, w)" "pos < int (length src)"
  shows "0 < w" "pos + int w \<le> int (length src)"
proof -
  have t: "t = drop (nat pos) src" "0 \<le> pos" using assms(1) by (auto simp: tail_def split: if_splits)
  then have "0 < w \<and> w \<le> length t" using assms(2,3) decode_utf8_progress [of t ch w] by auto
  then show "0 < w" "pos + int w \<le> int (length src)" using t assms(3) by auto
qed

text \<open>The loop over a single-line comment or a shebang.\<close>

function to_line_break :: "bytes \<Rightarrow> int \<Rightarrow> int panicking" where
  "to_line_break src pos =
     (if pos < int (length src) then do {
        t \<leftarrow> tail src pos;
        let (ch, width) = decode_utf8 t;
        if is_line_break ch then Some pos else to_line_break src (pos + int width)
      }
      else Some pos)"
  by pat_completeness auto
termination
  by (relation "measure (\<lambda>(src, pos). nat (int (length src) - pos))") (auto dest: tail_progress [OF _ sym])

declare to_line_break.simps [simp del]

text \<open>The loop over a multi-line comment.\<close>

function to_comment_end :: "bytes \<Rightarrow> int \<Rightarrow> int panicking" where
  "to_comment_end src pos =
     (if pos < int (length src) then do {
        c \<leftarrow> byte_at src pos;
        d \<leftarrow> (if c = CHR ''*'' \<and> pos + 1 < int (length src) then byte_at src (pos + 1) else Some c);
        if c = CHR ''*'' \<and> pos + 1 < int (length src) \<and> d = CHR ''/'' then Some (pos + 2)
        else do {
          t \<leftarrow> tail src pos;
          to_comment_end src (pos + int (snd (decode_utf8 t)))
        }
      }
      else Some pos)"
  by pat_completeness auto
termination
  by (relation "measure (\<lambda>(src, pos). nat (int (length src) - pos))") (auto dest: tail_progress [OF _ surjective_pairing])

definition is_conflict_marker_trivia :: "bytes \<Rightarrow> int \<Rightarrow> bool panicking" where
  "is_conflict_marker_trivia src pos =
     (if pos < 0 then None
      else if pos + 1 \<ge> int (length src) then Some False
      else do {
        c \<leftarrow> byte_at src pos;
        d \<leftarrow> byte_at src (pos + 1);
        if d \<noteq> c then Some False
        else do {
          at_line_start \<leftarrow> (if pos = 0 then Some True
            else map_option (\<lambda>b. is_line_break (int (byte_val b))) (byte_at src (pos - 1)));
          let at_line_start = (if \<not> at_line_start \<and> pos \<ge> 2
            then is_line_break (fst (decode_last_utf8 (take (nat (pos - 2)) src))) else at_line_start);
          if at_line_start \<and> pos + 7 < int (length src)
          then if \<not> list_all (\<lambda>b. b = c) (take 7 (drop (nat pos) src)) then Some False
               else map_option (\<lambda>b. c = CHR ''='' \<or> b = CHR '' '') (byte_at src (pos + 7))
          else Some False
        }
      })"

text \<open>
  \<open>scan_conflict_marker_trivia\<close>: for an opening or closing marker the loop to the end of the line,
  otherwise byte by byte to the next marker.
\<close>

function to_next_marker :: "bytes \<Rightarrow> int \<Rightarrow> int \<Rightarrow> int panicking" where
  "to_next_marker src ch pos =
     (if pos < int (length src) then do {
        current \<leftarrow> byte_at src pos;
        stop \<leftarrow> (if (current = CHR ''='' \<or> current = CHR ''>'') \<and> int (byte_val current) \<noteq> ch
                 then is_conflict_marker_trivia src pos else Some False);
        if stop then Some pos else to_next_marker src ch (pos + 1)
      }
      else Some pos)"
  by pat_completeness auto
termination
  by (relation "measure (\<lambda>(src, ch, pos). nat (int (length src) - pos))") auto

declare to_comment_end.simps [simp del] to_next_marker.simps [simp del]

definition scan_conflict_marker_trivia :: "bytes \<Rightarrow> int \<Rightarrow> int panicking" where
  "scan_conflict_marker_trivia src pos = do {
     t \<leftarrow> tail src pos;
     let ch = fst (decode_utf8 t);
     if ch = 0x3c \<or> ch = 0x3e then to_line_break src pos
     else if ch = 0x7c \<or> ch = 0x3d then to_next_marker src ch pos
     else None
   }"

definition is_shebang_trivia :: "bytes \<Rightarrow> int \<Rightarrow> bool panicking" where
  "is_shebang_trivia src pos =
     (if length src < 2 then Some False
      else if pos \<noteq> 0 then None
      else Some (starts_with src ''#!''))"

definition scan_shebang_trivia :: "bytes \<Rightarrow> int \<Rightarrow> int panicking" where
  "scan_shebang_trivia src pos = to_line_break src (pos + 2)"

definition get_shebang :: "bytes \<Rightarrow> bytes panicking" where
  "get_shebang src = do {
     s \<leftarrow> is_shebang_trivia src 0;
     if s then map_option (\<lambda>e. take (nat e) src) (scan_shebang_trivia src 0) else Some []
   }"

definition could_start_trivia :: "bytes \<Rightarrow> int \<Rightarrow> bool panicking" where
  "could_start_trivia src pos =
     map_option (\<lambda>b. let c = byte_val b in
       if c = 0x0d \<or> c = 0x0a \<or> c = 0x09 \<or> c = 0x0b \<or> c = 0x0c \<or> c = 0x20 \<or>
          b = CHR ''/'' \<or> b = CHR ''<'' \<or> b = CHR ''|'' \<or> b = CHR ''='' \<or> b = CHR ''>'' then True
       else if b = CHR ''#'' then pos = 0
       else 127 < c) (byte_at src pos)"

subsection \<open>The scans stay inside the src\<close>

lemma to_line_break_ok:
  "0 \<le> pos \<Longrightarrow> pos \<le> int (length src) \<Longrightarrow> \<exists>p. to_line_break src pos = Some p \<and> pos \<le> p \<and> p \<le> int (length src)"
proof (induction src pos rule: to_line_break.induct)
  case (1 src pos)
  show ?case
  proof (cases "pos < int (length src)")
    case True
    then have t: "tail src pos = Some (drop (nat pos) src)" using "1.prems" by (simp add: tail_def)
    obtain ch w where w: "decode_utf8 (drop (nat pos) src) = (ch, w)" by fastforce
    note step = tail_progress [OF t w True]
    show ?thesis
    proof (cases "is_line_break ch")
      case False
      then have "\<exists>p. to_line_break src (pos + int w) = Some p \<and> pos + int w \<le> p \<and> p \<le> int (length src)"
        using "1.IH" [OF True t w [symmetric]] "1.prems" w step by auto
      then show ?thesis using True t w False by (subst to_line_break.simps) auto
    qed (use True t w in \<open>subst to_line_break.simps, auto\<close>)
  qed (use "1.prems" in \<open>subst to_line_break.simps, auto\<close>)
qed

lemma byte_at_ok: "0 \<le> pos \<Longrightarrow> pos < int (length src) \<Longrightarrow> byte_at src pos = Some (src ! nat pos)"
  by (simp add: byte_at_def)

lemma to_comment_end_ok:
  "0 \<le> pos \<Longrightarrow> pos \<le> int (length src) \<Longrightarrow> \<exists>p. to_comment_end src pos = Some p \<and> pos \<le> p \<and> p \<le> int (length src)"
proof (induction src pos rule: to_comment_end.induct)
  case (1 src pos)
  show ?case
  proof (cases "pos < int (length src)")
    case True
    then have t: "tail src pos = Some (drop (nat pos) src)" using "1.prems" by (simp add: tail_def)
    let ?w = "snd (decode_utf8 (drop (nat pos) src))"
    note step = tail_progress [OF t surjective_pairing True] and b = byte_at_ok [OF "1.prems"(1) True]
    let ?ends = "src ! nat pos = CHR ''*'' \<and> pos + 1 < int (length src) \<and> src ! nat (pos + 1) = CHR ''/''"
    have eq: "to_comment_end src pos = (if ?ends then Some (pos + 2) else to_comment_end src (pos + int ?w))"
      using True t b byte_at_ok [of "pos + 1" src] "1.prems" by (subst to_comment_end.simps) auto
    show ?thesis
    proof (cases ?ends)
      case False
      then have "\<exists>p. to_comment_end src (pos + int ?w) = Some p \<and> pos + int ?w \<le> p \<and> p \<le> int (length src)"
        using "1.IH" [OF True b _ _ t] byte_at_ok [of "pos + 1" src] "1.prems" step
        by (cases "src ! nat pos = CHR ''*'' \<and> pos + 1 < int (length src)") auto
      then show ?thesis using False by (auto simp: eq)
    qed (auto simp: eq)
  qed (use "1.prems" in \<open>subst to_comment_end.simps, auto\<close>)
qed

lemma is_conflict_marker_ok: "0 \<le> pos \<Longrightarrow> \<exists>b. is_conflict_marker_trivia src pos = Some b"
  by (auto simp: is_conflict_marker_trivia_def byte_at_ok Let_def)

lemma to_next_marker_ok:
  "0 \<le> pos \<Longrightarrow> pos \<le> int (length src) \<Longrightarrow> \<exists>p. to_next_marker src ch pos = Some p \<and> pos \<le> p \<and> p \<le> int (length src)"
proof (induction src ch pos rule: to_next_marker.induct)
  case (1 src ch pos)
  show ?case
  proof (cases "pos < int (length src)")
    case True
    let ?c = "src ! nat pos"
    have b: "byte_at src pos = Some ?c" using byte_at_ok True "1.prems" by simp
    obtain stop where stop: "(if (?c = CHR ''='' \<or> ?c = CHR ''>'') \<and> int (byte_val ?c) \<noteq> ch
        then is_conflict_marker_trivia src pos else Some False) = Some stop"
      using is_conflict_marker_ok [OF "1.prems"(1), of src] by (cases "(?c = CHR ''='' \<or> ?c = CHR ''>'') \<and> int (byte_val ?c) \<noteq> ch") auto
    have eq: "to_next_marker src ch pos = (if stop then Some pos else to_next_marker src ch (pos + 1))"
      using True b stop by (subst to_next_marker.simps) simp
    show ?thesis
    proof (cases stop)
      case False
      then have "\<exists>p. to_next_marker src ch (pos + 1) = Some p \<and> pos + 1 \<le> p \<and> p \<le> int (length src)"
        using "1.IH" [OF True b stop] True "1.prems" by auto
      then show ?thesis using False by (auto simp: eq)
    qed (use "1.prems" in \<open>auto simp: eq\<close>)
  qed (use "1.prems" in \<open>subst to_next_marker.simps, auto\<close>)
qed

lemma decode_utf8_at_ascii:
  assumes "decode_utf8 bs = (ch, w)" "ch < 128"
  shows "bs \<noteq> [] \<and> ch = int (byte_val (hd bs)) \<and> byte_val (hd bs) < 128 \<and> w = 1"
proof -
  have ne: "bs \<noteq> []" "(ch, w) \<noteq> (RUNE_ERROR, 1)" using assms by (auto simp: RUNE_ERROR_def)
  then have e: "[char_of ch] = take w bs" "0 \<le> ch"
    using encode_decode_utf8 [OF assms(1) ne] assms(2) by (auto simp: encode_utf8_def scalar_def valid_rune_def)
  then have w: "w = 1" using decode_utf8_progress [OF assms(1) ne(1)] by (cases w; cases bs) auto
  then have "hd bs = char_of ch" using e ne(1) by (cases bs) auto
  then have "byte_val (hd bs) = nat ch" using e(2) assms(2) byte_val_char_of [of ch] by simp
  then show ?thesis using ne(1) w e(2) assms(2) by auto
qed

lemma scan_conflict_ok:
  assumes "0 \<le> pos" "pos < int (length src)" "fst (decode_utf8 (drop (nat pos) src)) \<in> {0x3c, 0x7c, 0x3d, 0x3e}"
  shows "\<exists>p. scan_conflict_marker_trivia src pos = Some p \<and> pos < p \<and> p \<le> int (length src)"
proof -
  obtain ch w where d: "decode_utf8 (drop (nat pos) src) = (ch, w)" by fastforce
  have t: "tail src pos = Some (drop (nat pos) src)" using assms by (simp add: tail_def)
  have a: "ch = int (byte_val (src ! nat pos))" "w = 1"
    using decode_utf8_at_ascii [OF d] assms d by (auto simp: hd_drop_conv_nth)
  have c: "ch \<in> {0x3c, 0x7c, 0x3d, 0x3e}" using assms(3) d by simp
  then have "to_line_break src pos = to_line_break src (pos + 1)"
    using assms(2) t d a(2) by (subst to_line_break.simps) (auto simp: is_line_break_def)
  moreover have "to_next_marker src ch pos = to_next_marker src ch (pos + 1)"
    using assms(2) byte_at_ok [OF assms(1,2)] a(1) by (subst to_next_marker.simps) simp
  ultimately show ?thesis
    using to_line_break_ok [of "pos + 1" src] to_next_marker_ok [of "pos + 1" src ch] assms(1,2) t d c
    by (auto simp: scan_conflict_marker_trivia_def)
qed

subsection \<open>The loop of \<open>skip_trivia_ex\<close>\<close>

text \<open>The length of a line break: a carriage return takes a line feed along.\<close>

definition newline_width :: "bytes \<Rightarrow> int \<Rightarrow> int \<Rightarrow> int panicking" where
  "newline_width src ch pos =
     (if ch = 0x0d \<and> pos + 1 < int (length src)
      then map_option (\<lambda>b. if b = CHR 0x0A then 2 else 1) (byte_at src (pos + 1)) else Some 1)"

text \<open>One iteration: return, or continue at a position, with a star to be consumed or not.\<close>

datatype skip_action = Return int | Continue int bool

definition skip_step :: "skip_trivia_options \<Rightarrow> bytes \<Rightarrow> bool \<Rightarrow> int \<Rightarrow> skip_action panicking" where
  "skip_step options src can_consume_star pos = do {
     t \<leftarrow> tail src pos;
     let (ch, width) = decode_utf8 t;
     if ch = 0x0a \<or> ch = 0x0d then do {
       n \<leftarrow> newline_width src ch pos;
       Some (if stop_after_line_break options then Return (pos + n) else Continue (pos + n) (in_jsdoc options))
     }
     else if ch = 0x09 \<or> ch = 0x0b \<or> ch = 0x0c \<or> ch = 0x20 then Some (Continue (pos + 1) can_consume_star)
     else if ch = 0x2f then
       if stop_at_comments options \<or> int (length src) \<le> pos + 1 then Some (Return pos)
       else do {
         b \<leftarrow> byte_at src (pos + 1);
         if b = CHR ''/'' then map_option (\<lambda>p. Continue p False) (to_line_break src (pos + 2))
         else if b = CHR ''*'' then map_option (\<lambda>p. Continue p False) (to_comment_end src (pos + 2))
         else Some (Return pos)
       }
     else if ch = 0x3c \<or> ch = 0x7c \<or> ch = 0x3d \<or> ch = 0x3e then do {
       marker \<leftarrow> is_conflict_marker_trivia src pos;
       if marker then map_option (\<lambda>p. Continue p False) (scan_conflict_marker_trivia src pos)
       else Some (Return pos)
     }
     else if ch = 0x23 then do {
       shebang \<leftarrow> (if pos = 0 then is_shebang_trivia src pos else Some False);
       if shebang then map_option (\<lambda>p. Continue p False) (scan_shebang_trivia src pos)
       else Some (Return pos)
     }
     else if ch = 0x2a then Some (if can_consume_star then Continue (pos + 1) False else Return pos)
     else Some (if 127 < ch \<and> is_white_space_like ch then Continue (pos + int width) can_consume_star else Return pos)
   }"

text \<open>What an iteration does to the position.\<close>

definition moves_to :: "bytes \<Rightarrow> int \<Rightarrow> skip_action \<Rightarrow> bool" where
  "moves_to src pos a \<longleftrightarrow>
     (case a of
        Return p \<Rightarrow> pos \<le> p \<and> p \<le> int (length src)
      | Continue p c \<Rightarrow> pos < p \<and> p \<le> int (length src))"

lemma moves_to_scan: "\<exists>p. scan = Some p \<and> pos < p \<and> p \<le> int (length src) \<Longrightarrow>
    \<exists>a. map_option (\<lambda>p. Continue p c) scan = Some a \<and> moves_to src pos a"
  by (auto simp: moves_to_def)

text \<open>The iteration by the class of the character.\<close>

lemma skip_step_eqs:
  assumes "tail src pos = Some t" "decode_utf8 t = (ch, width)"
  shows "ch = 0x0a \<or> ch = 0x0d \<Longrightarrow> skip_step options src star pos = newline_width src ch pos \<bind> (\<lambda>n.
        Some (if stop_after_line_break options then Return (pos + n) else Continue (pos + n) (in_jsdoc options)))"
    "ch = 0x09 \<or> ch = 0x0b \<or> ch = 0x0c \<or> ch = 0x20 \<Longrightarrow> skip_step options src star pos = Some (Continue (pos + 1) star)"
    "ch = 0x2f \<Longrightarrow> skip_step options src star pos =
       (if stop_at_comments options \<or> int (length src) \<le> pos + 1 then Some (Return pos)
        else byte_at src (pos + 1) \<bind> (\<lambda>b.
          if b = CHR ''/'' then map_option (\<lambda>p. Continue p False) (to_line_break src (pos + 2))
          else if b = CHR ''*'' then map_option (\<lambda>p. Continue p False) (to_comment_end src (pos + 2))
          else Some (Return pos)))"
    "ch = 0x3c \<or> ch = 0x7c \<or> ch = 0x3d \<or> ch = 0x3e \<Longrightarrow>
       skip_step options src star pos = is_conflict_marker_trivia src pos \<bind> (\<lambda>marker.
         if marker then map_option (\<lambda>p. Continue p False) (scan_conflict_marker_trivia src pos) else Some (Return pos))"
    "ch = 0x23 \<Longrightarrow> skip_step options src star pos =
       (if pos = 0 then is_shebang_trivia src pos else Some False) \<bind> (\<lambda>shebang.
         if shebang then map_option (\<lambda>p. Continue p False) (scan_shebang_trivia src pos) else Some (Return pos))"
    "ch = 0x2a \<Longrightarrow> skip_step options src star pos = Some (if star then Continue (pos + 1) False else Return pos)"
    "ch \<notin> {0x0a, 0x0d, 0x09, 0x0b, 0x0c, 0x20, 0x2f, 0x3c, 0x7c, 0x3d, 0x3e, 0x23, 0x2a} \<Longrightarrow>
       skip_step options src star pos = Some (if 127 < ch \<and> is_white_space_like ch then Continue (pos + int width) star else Return pos)"
  unfolding skip_step_def assms(1) bind.bind_lunit assms(2) Let_def prod.case
  by (auto split del: if_split)

lemma newline_width_ok:
  assumes "0 \<le> pos" "pos < int (length src)"
  shows "\<exists>n. newline_width src ch pos = Some n \<and> 0 < n \<and> pos + n \<le> int (length src)"
  using assms byte_at_ok [of "pos + 1" src] by (auto simp: newline_width_def)

lemma character_cases:
  obtains "ch = 0x0a \<or> ch = 0x0d" | "ch = 0x09 \<or> ch = 0x0b \<or> ch = 0x0c \<or> ch = 0x20" | "ch = 0x2f"
    | "ch = 0x3c \<or> ch = 0x7c \<or> ch = 0x3d \<or> ch = 0x3e" | "ch = 0x23" | "ch = 0x2a"
    | "ch \<notin> {0x0a, 0x0d, 0x09, 0x0b, 0x0c, 0x20, 0x2f, 0x3c, 0x7c, 0x3d, 0x3e, 0x23, 0x2a :: int}"
  by blast

lemma skip_step_ok:
  assumes "0 \<le> pos" "pos < int (length src)"
  shows "\<exists>a. skip_step options src star pos = Some a \<and> moves_to src pos a"
proof -
  have t: "tail src pos = Some (drop (nat pos) src)" using assms by (simp add: tail_def)
  obtain ch w where d: "decode_utf8 (drop (nat pos) src) = (ch, w)" by fastforce
  note w = tail_progress [OF t d assms(2)] and eqs = skip_step_eqs [OF t d, of options star]
  have stay: "\<exists>a. Some (Return pos) = Some a \<and> moves_to src pos a" using assms by (simp add: moves_to_def)
  have lb: "\<exists>a. map_option (\<lambda>p. Continue p False) (to_line_break src (pos + 2)) = Some a \<and> moves_to src pos a"
    if "pos + 1 < int (length src)"
    using to_line_break_ok [of "pos + 2" src] assms that by (intro moves_to_scan) auto
  show ?thesis
  proof (cases ch rule: character_cases)
    case 1
    obtain n where "newline_width src ch pos = Some n" "0 < n" "pos + n \<le> int (length src)"
      using newline_width_ok [OF assms, of ch] by blast
    then show ?thesis using eqs(1) [OF 1] by (simp add: moves_to_def)
  next
    case 2
    then show ?thesis using eqs(2) assms by (simp add: moves_to_def)
  next
    case 3
    have ce: "\<exists>a. map_option (\<lambda>p. Continue p False) (to_comment_end src (pos + 2)) = Some a \<and> moves_to src pos a"
      if "pos + 1 < int (length src)"
      using to_comment_end_ok [of "pos + 2" src] assms that by (intro moves_to_scan) auto
    have b: "byte_at src (pos + 1) = Some (src ! nat (pos + 1))" if "pos + 1 < int (length src)"
      using byte_at_ok [of "pos + 1" src] that assms by simp
    show ?thesis
      using eqs(3) [OF 3] stay b lb ce
      by (cases "stop_at_comments options \<or> int (length src) \<le> pos + 1")
         (simp_all split: if_splits)
  next
    case 4
    obtain m where "is_conflict_marker_trivia src pos = Some m" using is_conflict_marker_ok [OF assms(1)] by blast
    then have e: "skip_step options src star pos =
        (if m then map_option (\<lambda>p. Continue p False) (scan_conflict_marker_trivia src pos) else Some (Return pos))"
      using eqs(4) [OF 4] by simp
    have "\<exists>a. map_option (\<lambda>p. Continue p False) (scan_conflict_marker_trivia src pos) = Some a \<and> moves_to src pos a"
      using scan_conflict_ok [OF assms] 4 d by (intro moves_to_scan) auto
    then show ?thesis using e stay by (cases m) simp_all
  next
    case 5
    obtain b where b: "(if pos = 0 then is_shebang_trivia src pos else Some False) = Some b"
        "b \<Longrightarrow> pos = 0 \<and> pos + 1 < int (length src)"
      by (cases "length src < 2"; cases "pos = 0") (auto simp: is_shebang_trivia_def)
    then have "skip_step options src star pos =
        (if b then map_option (\<lambda>p. Continue p False) (scan_shebang_trivia src pos) else Some (Return pos))"
      using eqs(5) [OF 5] by simp
    then show ?thesis using b(2) lb stay by (cases b) (simp_all add: scan_shebang_trivia_def)
  next
    case 6
    then show ?thesis using eqs(6) assms by (simp add: moves_to_def)
  next
    case 7
    then show ?thesis using eqs(7) w assms by (simp add: moves_to_def)
  qed
qed

function skip_loop :: "skip_trivia_options \<Rightarrow> bytes \<Rightarrow> bool \<Rightarrow> int \<Rightarrow> int panicking" where
  "skip_loop options src can_consume_star pos =
     (if int (length src) \<le> pos then Some pos
      else do {
        action \<leftarrow> skip_step options src can_consume_star pos;
        case action of
          Return p \<Rightarrow> Some p
        | Continue p star \<Rightarrow> skip_loop options src star p
      })"
  by pat_completeness auto
termination
proof (relation "measure (\<lambda>(options, src, star, pos). nat (int (length src) - pos))", simp, clarsimp simp del: zless_nat_conj)
  fix options src star pos p star'
  assume "\<not> int (length src) \<le> pos" and s: "skip_step options src star pos = Some (Continue p star')"
  then have "0 \<le> pos" "pos < int (length src)" by (auto simp: skip_step_def tail_def split: if_splits)
  then have "moves_to src pos (Continue p star')" using skip_step_ok s by (metis option.inject)
  then show "nat (int (length src) - p) < nat (int (length src) - pos)"
    using \<open>pos < int (length src)\<close> by (auto simp: moves_to_def)
qed

declare skip_loop.simps [simp del]

text \<open>\<open>options.copied().unwrap_or_default()\<close>\<close>

fun the_default :: "'a \<Rightarrow> 'a option \<Rightarrow> 'a" where
  "the_default d None = d"
| "the_default d (Some x) = x"

definition skip_trivia_ex :: "bytes \<Rightarrow> int \<Rightarrow> skip_trivia_options option \<Rightarrow> int panicking" where
  "skip_trivia_ex src pos options =
     (if pos < 0 then Some pos
      else skip_loop (the_default default_options options) src False pos)"

definition skip_trivia :: "bytes \<Rightarrow> int \<Rightarrow> int panicking" where
  "skip_trivia src pos = skip_trivia_ex src pos None"

lemma skip_loop_ok:
  "0 \<le> pos \<Longrightarrow> \<exists>p. skip_loop options src star pos = Some p \<and> pos \<le> p \<and> (p = pos \<or> p \<le> int (length src))"
proof (induction options src star pos rule: skip_loop.induct)
  case (1 options src star pos)
  show ?case
  proof (cases "int (length src) \<le> pos")
    case False
    then obtain a where a: "skip_step options src star pos = Some a" "moves_to src pos a"
      using skip_step_ok "1.prems" by (meson not_le)
    show ?thesis
    proof (cases a)
      case (Continue p c)
      then have "\<exists>q. skip_loop options src c p = Some q \<and> p \<le> q \<and> (q = p \<or> q \<le> int (length src))"
        using "1.IH" [OF False a(1) Continue] a(2) "1.prems" by (simp add: moves_to_def)
      then show ?thesis using False a Continue by (subst skip_loop.simps) (auto simp: moves_to_def)
    qed (use False a in \<open>subst skip_loop.simps, auto simp: moves_to_def\<close>)
  qed (subst skip_loop.simps, simp)
qed

text \<open>An iteration that returns where it is would also return there without a star to consume.\<close>

lemma skip_step_stays:
  assumes "skip_step options src star pos = Some (Return p)" "\<not> stop_after_line_break options"
  shows "p = pos \<and> skip_step options src False pos = Some (Return pos)"
proof -
  have "tail src pos \<noteq> None" using assms(1) unfolding skip_step_def by (metis Option.bind.bind_lzero option.distinct(1))
  then obtain t where t: "tail src pos = Some t" by blast
  obtain ch w where d: "decode_utf8 t = (ch, w)" by fastforce
  note eqs = skip_step_eqs [OF t d, of options]
  show ?thesis
  proof (cases ch rule: character_cases)
    case 1
    then show ?thesis using assms eqs(1) [OF 1, of star] by (cases "newline_width src ch pos") simp_all
  next
    case 2
    then show ?thesis using assms eqs(2) [OF 2, of star] by simp
  next
    case 3
    show ?thesis using assms(1) eqs(3) [OF 3, of star] eqs(3) [OF 3, of False]
      by (cases "byte_at src (pos + 1)") (simp_all split: if_splits)
  next
    case 4
    show ?thesis using assms(1) eqs(4) [OF 4, of star] eqs(4) [OF 4, of False]
      by (cases "is_conflict_marker_trivia src pos") (simp_all split: if_splits)
  next
    case 5
    show ?thesis using assms(1) eqs(5) [OF 5, of star] eqs(5) [OF 5, of False]
      by (cases "if pos = 0 then is_shebang_trivia src pos else Some False") (simp_all split: if_splits)
  next
    case 6
    show ?thesis using assms(1) eqs(6) [OF 6, of star] eqs(6) [OF 6, of False] by (simp split: if_splits)
  next
    case 7
    show ?thesis using assms(1) eqs(7) [OF 7, of star] eqs(7) [OF 7, of False] by (simp split: if_splits)
  qed
qed

lemma skip_loop_idem:
  "skip_loop options src star pos = Some p \<Longrightarrow> \<not> stop_after_line_break options \<Longrightarrow> skip_loop options src False p = Some p"
proof (induction options src star pos rule: skip_loop.induct)
  case (1 options src star pos)
  show ?case
  proof (cases "int (length src) \<le> pos")
    case True
    then show ?thesis using "1.prems"(1) by (subst (asm) skip_loop.simps, subst skip_loop.simps) simp
  next
    case False
    then obtain a where a: "skip_step options src star pos = Some a"
      using "1.prems"(1) by (subst (asm) skip_loop.simps) (auto simp: bind_Some_iff)
    show ?thesis
    proof (cases a)
      case (Return q)
      then have "p = pos" "skip_step options src False pos = Some (Return pos)"
        using a "1.prems" False skip_step_stays [of options src star pos q] by (auto simp: skip_loop.simps [of _ _ star])
      then show ?thesis using False by (subst skip_loop.simps) simp
    next
      case (Continue q c)
      then show ?thesis using "1.IH" [OF False a Continue] a False "1.prems" by (auto simp: skip_loop.simps [of _ _ star])
    qed
  qed
qed

subsection \<open>Where it stops\<close>

lemma skip_loop_stops:
  assumes "skip_loop options src star pos = Some p" "\<not> stop_after_line_break options" "0 \<le> p" "p < int (length src)"
  shows "skip_step options src False p = Some (Return p)"
proof -
  have l: "skip_loop options src False p = Some p" using skip_loop_idem assms(1,2) by blast
  obtain a where a: "skip_step options src False p = Some a" "moves_to src p a" using skip_step_ok [OF assms(3,4)] by blast
  show ?thesis
  proof (cases a)
    case (Return q)
    then show ?thesis using a l assms(4) by (simp add: skip_loop.simps [of options src False p])
  next
    case (Continue q c)
    then have "skip_loop options src c q = Some p" "p < q" using a l assms(4)
      by (simp_all add: skip_loop.simps [of options src False p] moves_to_def)
    then show ?thesis using skip_loop_ok [of q options src c] assms(3) by auto
  qed
qed

lemma not_trivia_at:
  assumes "skip_step default_options src False p = Some (Return p)" "0 \<le> p" "p < int (length src)"
  shows "\<not> is_white_space_like (fst (decode_utf8 (drop (nat p) src)))"
    "\<not> starts_with (drop (nat p) src) ''//''" "\<not> starts_with (drop (nat p) src) ''/*''"
proof -
  have t: "tail src p = Some (drop (nat p) src)" using assms(2,3) by (simp add: tail_def)
  obtain ch w where d: "decode_utf8 (drop (nat p) src) = (ch, w)" by fastforce
  note eqs = skip_step_eqs [OF t d, of default_options False]
  have "\<not> (ch = 0x0a \<or> ch = 0x0d)"
    using eqs(1) assms(1) newline_width_ok [OF assms(2,3), of ch] by (auto simp: default_options_def)
  moreover have "\<not> (ch = 0x09 \<or> ch = 0x0b \<or> ch = 0x0c \<or> ch = 0x20)" using eqs(2) assms(1) by auto
  moreover have "127 < ch \<Longrightarrow> \<not> is_white_space_like ch"
    using eqs(7) assms(1) by (auto split: if_splits)
  ultimately show "\<not> is_white_space_like (fst (decode_utf8 (drop (nat p) src)))"
    by (auto simp: d is_white_space_like_def is_white_space_single_line_def is_line_break_def)
  have "\<not> starts_with (drop (nat p) src) [CHR ''/'', b]" if b: "b = CHR ''/'' \<or> b = CHR ''*''" for b
  proof
    assume "starts_with (drop (nat p) src) [CHR ''/'', b]"
    then obtain bs where bs: "drop (nat p) src = CHR ''/'' # b # bs"
      by (auto simp: starts_with_prefix prefix_def)
    have "length (drop (nat p) src) = Suc (Suc (length bs))" unfolding bs by simp
    then have len: "p + 1 < int (length src)" using assms(2) by (simp add: nat_less_iff)
    have b1: "src ! nat (p + 1) = b"
      using assms(2,3) bs nth_drop [of "nat p" src 1] by (simp add: nat_add_distrib)
    have "ch = 0x2f" using d bs by (simp add: decode_utf8_def)
    moreover have "byte_at src (p + 1) = Some b" using len b1 assms(2) by (simp add: byte_at_def)
    ultimately show False using eqs(3) assms(1) len b by (auto simp: default_options_def)
  qed
  then show "\<not> starts_with (drop (nat p) src) ''//''" "\<not> starts_with (drop (nat p) src) ''/*''" by simp_all
qed

text \<open>
  \<open>skip_trivia_ex\<close> returns for every text, position and option without a panic, at or behind the
  position it was given and not behind the end of the text (or the position given, when that is behind the
  end); without \<open>stop_after_line_break\<close> a second call at the position it returned stays there.
\<close>

theorem skip_trivia_returns:
  "\<exists>p. skip_trivia_ex src pos options = Some p \<and> pos \<le> p \<and> p \<le> max pos (int (length src)) \<and>
    (stop_after_line_break (the_default default_options options) \<or> skip_trivia_ex src p options = Some p)"
proof (cases "pos < 0")
  case False
  let ?opts = "the_default default_options options"
  obtain p where p: "skip_loop ?opts src False pos = Some p" "pos \<le> p" "p = pos \<or> p \<le> int (length src)"
    using skip_loop_ok False by (meson not_le)
  then have "stop_after_line_break ?opts \<or> skip_loop ?opts src False p = Some p" using skip_loop_idem by blast
  then show ?thesis using p False by (auto simp: skip_trivia_ex_def)
qed (auto simp: skip_trivia_ex_def)

text \<open>
  C23. Where \<open>skip_trivia\<close> stops inside of the text there is neither white space nor a line break, and no
  comment starts.
\<close>

theorem skip_trivia_stops:
  assumes "skip_trivia src pos = Some p" "0 \<le> pos" "p < int (length src)"
  shows "\<not> is_white_space_like (fst (decode_utf8 (drop (nat p) src))) \<and>
    \<not> starts_with (drop (nat p) src) ''//'' \<and> \<not> starts_with (drop (nat p) src) ''/*''"
proof -
  have l: "skip_loop default_options src False pos = Some p" using assms(1,2) by (simp add: skip_trivia_def skip_trivia_ex_def)
  then have "0 \<le> p" using skip_loop_ok [OF assms(2), of default_options src False] assms(2) by auto
  moreover from this have "skip_step default_options src False p = Some (Return p)"
    using skip_loop_stops [OF l] assms(3) by (simp add: default_options_def)
  ultimately show ?thesis using not_trivia_at assms(3) by blast
qed

theorem skip_trivia_stops_witness:
  "skip_trivia '' /*a*/ //b'' 0 = Some 10 \<and> skip_trivia '' /*a*/ x'' 0 = Some 7 \<and>
   \<not> starts_with (drop (nat 7) '' /*a*/ x'') ''//''"
proof -
  have a: "skip_trivia '' /*a*/ //b'' 0 = Some 10" "skip_trivia '' /*a*/ x'' 0 = Some 7" by code_simp+
  show ?thesis using a skip_trivia_stops [OF a(2)] by simp
qed

end
