(* ===== verification/Comments.thy ===== *)
theory Comments
  imports Trivia Text_Edits
begin

text \<open>
  The lazy iterator of comment ranges in \<open>crates/tsr_scanner/src/trivia.rs\<close>, which finds the comments in
  front of or behind a token: its state \<open>CommentRanges\<close>, its \<open>next\<close>, and the ranges a caller draws from it.
  An iteration of its loop gives back a comment that was pending, goes on or stops.
\<close>

section \<open>The iterator\<close>

datatype comment_kind = SingleLineCommentTrivia | MultiLineCommentTrivia

record comment_range =
  comment_loc :: text_range
  comment_kind :: comment_kind
  has_trailing_new_line :: bool

record comment_ranges =
  cr_text :: bytes
  cr_pos :: int
  cr_trailing :: bool
  cr_collecting :: bool
  cr_started :: bool
  cr_finished :: bool
  cr_pending :: "comment_range option"

definition iterate_comment_ranges :: "bytes \<Rightarrow> int \<Rightarrow> bool \<Rightarrow> comment_ranges" where
  "iterate_comment_ranges src pos trailing =
     \<lparr>cr_text = src, cr_pos = pos, cr_trailing = trailing, cr_collecting = trailing, cr_started = False,
      cr_finished = False, cr_pending = None\<rparr>"

definition mark_new_line :: "comment_ranges \<Rightarrow> comment_ranges" where
  "mark_new_line c = c\<lparr>cr_pending := map_option (\<lambda>r. r\<lparr>has_trailing_new_line := True\<rparr>) (cr_pending c)\<rparr>"

datatype comment_action = Break comment_ranges | Proceed comment_ranges | Yield comment_range comment_ranges

text \<open>The end of the comment that starts at \<open>pos\<close> with a slash and the byte \<open>b\<close>.\<close>

definition comment_end :: "bytes \<Rightarrow> int \<Rightarrow> byte \<Rightarrow> int panicking" where
  "comment_end src pos b =
     (if b = CHR ''/'' then to_line_break src (pos + 2)
      else map_option (\<lambda>rest. case window_position rest ''*/'' of
             None \<Rightarrow> int (length src) | Some offset \<Rightarrow> pos + 2 + int offset + 2) (tail src (pos + 2)))"

definition comment_from :: "bytes \<Rightarrow> int \<Rightarrow> byte \<Rightarrow> int \<Rightarrow> comment_range" where
  "comment_from src pos b e =
     \<lparr>comment_loc = new_range pos e,
      comment_kind = (if b = CHR ''/'' then SingleLineCommentTrivia else MultiLineCommentTrivia),
      has_trailing_new_line = (b = CHR ''/'' \<and> e < int (length src))\<rparr>"

definition collect_comment :: "comment_ranges \<Rightarrow> comment_range \<Rightarrow> comment_action" where
  "collect_comment c r =
     (if cr_collecting c
      then case cr_pending c of
          None \<Rightarrow> Proceed (c\<lparr>cr_pending := Some r\<rparr>)
        | Some old \<Rightarrow> Yield old (c\<lparr>cr_pending := Some r\<rparr>)
      else Proceed c)"

definition comment_step :: "comment_ranges \<Rightarrow> comment_action panicking" where
  "comment_step c = do {
     t \<leftarrow> tail (cr_text c) (cr_pos c);
     let (ch, width) = decode_utf8 t;
     if ch = 0x0a \<or> ch = 0x0d then do {
       n \<leftarrow> newline_width (cr_text c) ch (cr_pos c);
       let c = c\<lparr>cr_pos := cr_pos c + n\<rparr>;
       Some (if cr_trailing c then Break c else Proceed (mark_new_line (c\<lparr>cr_collecting := True\<rparr>)))
     }
     else if ch = 0x09 \<or> ch = 0x0b \<or> ch = 0x0c \<or> ch = 0x20 then Some (Proceed (c\<lparr>cr_pos := cr_pos c + 1\<rparr>))
     else if ch = 0x2f then
       (case byte_at (cr_text c) (cr_pos c + 1) of
          None \<Rightarrow> Some (Break c)
        | Some b \<Rightarrow>
            if b \<noteq> CHR ''/'' \<and> b \<noteq> CHR ''*'' then Some (Break c)
            else do {
              e \<leftarrow> comment_end (cr_text c) (cr_pos c) b;
              Some (collect_comment (c\<lparr>cr_pos := e\<rparr>) (comment_from (cr_text c) (cr_pos c) b e))
            })
     else if 127 < ch \<and> is_white_space_like ch then
       Some (Proceed ((if is_line_break ch then mark_new_line c else c)\<lparr>cr_pos := cr_pos c + int width\<rparr>))
     else Some (Break c)
   }"

text \<open>The start of the first call of \<open>next\<close>.\<close>

definition comment_start :: "comment_ranges \<Rightarrow> comment_ranges panicking" where
  "comment_start c =
     (if cr_started c then Some c
      else
        let c = c\<lparr>cr_started := True\<rparr> in
        if cr_pos c = 0 then do {
          let c = c\<lparr>cr_collecting := True\<rparr>;
          shebang \<leftarrow> is_shebang_trivia (cr_text c) 0;
          if shebang then map_option (\<lambda>p. c\<lparr>cr_pos := p\<rparr>) (scan_shebang_trivia (cr_text c) 0) else Some c
        }
        else Some c)"

definition comment_finish :: "comment_ranges \<Rightarrow> comment_range option \<times> comment_ranges" where
  "comment_finish c = (cr_pending c, c\<lparr>cr_finished := True, cr_pending := None\<rparr>)"

section \<open>The two loops over a multi-line comment\<close>

lemma window_skip:
  assumes "\<And>i. i < w \<Longrightarrow> \<not> starts_with (drop i xs) pat" "w \<le> length xs"
  shows "window_position xs pat = map_option ((+) w) (window_position (drop w xs) pat)"
  using assms
proof (induction w arbitrary: xs)
  case (Suc w)
  then obtain x ys where xs: "xs = x # ys" by (cases xs) auto
  have "window_position ys pat = map_option ((+) w) (window_position (drop w ys) pat)"
    using Suc.prems(1) [of "Suc _"] Suc.prems(2) xs by (intro Suc.IH) auto
  then show ?case using Suc.prems(1) [of 0] xs by (simp add: option.map_comp comp_def)
qed (simp add: option.map_id0 [unfolded id_def] plus_nat.add_0 [abs_def])

text \<open>Only the last byte of a decoded character can be an ASCII one, and then it is the only one.\<close>

lemma decode_utf8_wide:
  assumes "decode_utf8 bs = (ch, w)" "i < w" "bs \<noteq> []" "1 < w"
  shows "128 \<le> byte_val (bs ! i)"
proof -
  have e: "encode_utf8 ch = take w bs" "scalar ch"
    using encode_decode_utf8 [OF assms(1,3)] assms(4) by auto
  have "w \<le> length bs" using decode_utf8_progress [OF assms(1,3)] by simp
  then have l: "length (encode_utf8 ch) = w" "bs ! i = encode_utf8 ch ! i" using e assms(2) by simp_all
  have "\<not> ch < 128" using l assms(4) e(2) by (auto simp: encode_utf8_def scalar_def valid_rune_def)
  moreover have q: "0 \<le> ch div 64" "0 \<le> ch div 4096" "0 \<le> ch div 262144" "ch div 262144 < 16"
    using calculation e(2) by (auto simp: scalar_def valid_rune_def)
  ultimately have "list_all (\<lambda>b. 128 \<le> byte_val b) (encode_utf8 ch)"
    using e(2) q unfolding encode_utf8_def scalar_def valid_rune_def by (simp add: byte_val_char_of nat_le_iff le_nat_iff)
  then show ?thesis using l assms(2) by (simp add: list_all_length)
qed

definition comment_close :: "bytes \<Rightarrow> int \<Rightarrow> int" where
  "comment_close src pos =
     (case window_position (drop (nat pos) src) ''*/'' of
        None \<Rightarrow> int (length src) | Some offset \<Rightarrow> pos + int offset + 2)"

lemma no_close_inside:
  assumes "decode_utf8 bs = (ch, w)" "bs \<noteq> []" "\<not> starts_with bs ''*/''" "i < w"
  shows "\<not> starts_with (drop i bs) ''*/''"
proof (cases "1 < w")
  case True
  have "i < length bs" using decode_utf8_progress [OF assms(1,2)] assms(4) by simp
  then have "hd (drop i bs) = bs ! i" "drop i bs \<noteq> []" by (simp_all add: hd_drop_conv_nth)
  moreover have "bs ! i \<noteq> CHR ''*''"
    using decode_utf8_wide [OF assms(1,4,2) True] by (intro notI) simp
  ultimately show ?thesis by (cases "drop i bs") auto
next
  case False
  then have "i = 0" using assms(4) by simp
  then show ?thesis using assms(3) by simp
qed

lemma to_comment_end_eq:
  "0 \<le> pos \<Longrightarrow> pos \<le> int (length src) \<Longrightarrow> to_comment_end src pos = Some (comment_close src pos)"
proof (induction src pos rule: to_comment_end.induct)
  case (1 src pos)
  show ?case
  proof (cases "pos < int (length src)")
    case True
    let ?bs = "drop (nat pos) src"
    have t: "tail src pos = Some ?bs" using "1.prems" by (simp add: tail_def)
    obtain ch w where d: "decode_utf8 ?bs = (ch, w)" by fastforce
    note step = tail_progress [OF t d True] and b = byte_at_ok [OF "1.prems"(1) True]
    let ?ends = "src ! nat pos = CHR ''*'' \<and> pos + 1 < int (length src) \<and> src ! nat (pos + 1) = CHR ''/''"
    have cons: "?bs = src ! nat pos # drop (nat (pos + 1)) src"
      using True "1.prems"(1) by (simp add: Cons_nth_drop_Suc nat_add_distrib)
    have ends: "?ends \<longleftrightarrow> starts_with ?bs ''*/''"
      unfolding cons using True "1.prems"(1)
      by (cases "pos + 1 < int (length src)") (auto simp: nat_add_distrib Cons_nth_drop_Suc [symmetric])
    have eq: "to_comment_end src pos = (if ?ends then Some (pos + 2) else to_comment_end src (pos + int w))"
      using True t b byte_at_ok [of "pos + 1" src] "1.prems" d by (subst to_comment_end.simps) auto
    show ?thesis
    proof (cases ?ends)
      case False
      then have ih: "to_comment_end src (pos + int w) = Some (comment_close src (pos + int w))"
        using "1.IH" [OF True b _ _ t] byte_at_ok [of "pos + 1" src] "1.prems" step d
        by (cases "src ! nat pos = CHR ''*'' \<and> pos + 1 < int (length src)") auto
      have "window_position ?bs ''*/'' = map_option ((+) w) (window_position (drop w ?bs) ''*/'')"
        using no_close_inside [OF d] cons False ends step "1.prems" by (intro window_skip) auto
      moreover have "drop w ?bs = drop (nat (pos + int w)) src" using "1.prems"(1) by (simp add: nat_add_distrib add.commute)
      ultimately show ?thesis using False ih
        by (auto simp: eq comment_close_def split: option.splits)
    qed (use ends cons in \<open>simp add: eq comment_close_def\<close>)
  qed (use "1.prems" in \<open>subst to_comment_end.simps, simp add: comment_close_def\<close>)
qed

lemma comment_end_eq:
  assumes "0 \<le> pos" "pos + 1 < int (length src)"
  shows "comment_end src pos b = (if b = CHR ''/'' then to_line_break src (pos + 2) else to_comment_end src (pos + 2))"
  using assms to_comment_end_eq [of "pos + 2" src] by (simp add: comment_end_def tail_def comment_close_def)

lemma comment_end_ok:
  assumes "0 \<le> pos" "pos + 1 < int (length src)"
  shows "\<exists>e. comment_end src pos b = Some e \<and> pos + 2 \<le> e \<and> e \<le> int (length src)"
  using assms to_line_break_ok [of "pos + 2" src] to_comment_end_ok [of "pos + 2" src] by (auto simp: comment_end_eq)

section \<open>The loop of the iterator\<close>

text \<open>The iteration by the class of the character.\<close>

lemma comment_step_eqs:
  assumes "tail (cr_text c) (cr_pos c) = Some t" "decode_utf8 t = (ch, width)"
  shows "ch = 0x0a \<or> ch = 0x0d \<Longrightarrow> comment_step c = newline_width (cr_text c) ch (cr_pos c) \<bind> (\<lambda>n.
        Some (if cr_trailing c then Break (c\<lparr>cr_pos := cr_pos c + n\<rparr>)
              else Proceed (mark_new_line (c\<lparr>cr_pos := cr_pos c + n, cr_collecting := True\<rparr>))))"
    "ch = 0x09 \<or> ch = 0x0b \<or> ch = 0x0c \<or> ch = 0x20 \<Longrightarrow> comment_step c = Some (Proceed (c\<lparr>cr_pos := cr_pos c + 1\<rparr>))"
    "ch = 0x2f \<Longrightarrow> comment_step c =
       (case byte_at (cr_text c) (cr_pos c + 1) of
          None \<Rightarrow> Some (Break c)
        | Some b \<Rightarrow>
            if b \<noteq> CHR ''/'' \<and> b \<noteq> CHR ''*'' then Some (Break c)
            else comment_end (cr_text c) (cr_pos c) b \<bind>
              (\<lambda>e. Some (collect_comment (c\<lparr>cr_pos := e\<rparr>) (comment_from (cr_text c) (cr_pos c) b e))))"
    "ch \<notin> {0x0a, 0x0d, 0x09, 0x0b, 0x0c, 0x20, 0x2f} \<Longrightarrow> comment_step c =
       (if 127 < ch \<and> is_white_space_like ch
        then Some (Proceed ((if is_line_break ch then mark_new_line c else c)\<lparr>cr_pos := cr_pos c + int width\<rparr>))
        else Some (Break c))"
  unfolding comment_step_def assms(1) bind.bind_lunit assms(2) Let_def prod.case
  by (auto split del: if_split cong: option.case_cong)

text \<open>
  A comment of the text: where it starts, and that it ends where \<^const>\<open>skip_trivia\<close> would leave it.
\<close>

definition comment_at :: "bytes \<Rightarrow> comment_range \<Rightarrow> int \<Rightarrow> int \<Rightarrow> bool" where
  "comment_at src r p e \<longleftrightarrow>
     0 \<le> p \<and> p + 2 \<le> e \<and> e \<le> int (length src) \<and> comment_loc r = new_range p e \<and>
     (case comment_kind r of
        SingleLineCommentTrivia \<Rightarrow> starts_with (drop (nat p) src) ''//'' \<and> to_line_break src (p + 2) = Some e
      | MultiLineCommentTrivia \<Rightarrow> starts_with (drop (nat p) src) ''/*'' \<and> to_comment_end src (p + 2) = Some e)"

text \<open>What an iteration does: it moves on, and a comment it gives or keeps is one of the text.\<close>

definition pending_ok :: "int \<Rightarrow> comment_ranges \<Rightarrow> bool" where
  "pending_ok lo c \<longleftrightarrow>
     (\<forall>r. cr_pending c = Some r \<longrightarrow> (\<exists>p e. comment_at (cr_text c) r p e \<and> lo \<le> p \<and> e \<le> cr_pos c))"

definition same_iterator :: "comment_ranges \<Rightarrow> comment_ranges \<Rightarrow> bool" where
  "same_iterator c d \<longleftrightarrow>
     cr_text d = cr_text c \<and> cr_trailing d = cr_trailing c \<and> cr_started d = cr_started c \<and> cr_finished d = cr_finished c"

lemma pending_mark_new_line [simp]: "pending_ok lo (mark_new_line c) = pending_ok lo c"
  by (auto simp: pending_ok_def mark_new_line_def comment_at_def)

lemma mark_new_line_sel [simp]:
  "cr_text (mark_new_line c) = cr_text c" "cr_pos (mark_new_line c) = cr_pos c"
  "cr_trailing (mark_new_line c) = cr_trailing c" "cr_started (mark_new_line c) = cr_started c"
  "cr_finished (mark_new_line c) = cr_finished c" "cr_collecting (mark_new_line c) = cr_collecting c"
  by (simp_all add: mark_new_line_def)

lemma pending_ok_pos: "pending_ok lo c \<Longrightarrow> cr_pos c \<le> p \<Longrightarrow> pending_ok lo (c\<lparr>cr_pos := p\<rparr>)"
  by (fastforce simp: pending_ok_def)

lemma pending_ok_collecting [simp]: "pending_ok lo (c\<lparr>cr_collecting := b\<rparr>) = pending_ok lo c"
  by (simp add: pending_ok_def)

text \<open>The two parts of an iteration: it gives or keeps comments, and it follows \<^const>\<open>skip_step\<close>.\<close>

definition iterator_ok :: "int \<Rightarrow> comment_ranges \<Rightarrow> bool" where
  "iterator_ok lo c \<longleftrightarrow> pending_ok lo c \<and> 0 \<le> lo \<and> lo \<le> cr_pos c"

definition moves_iterator :: "comment_ranges \<Rightarrow> comment_ranges \<Rightarrow> bool" where
  "moves_iterator c d \<longleftrightarrow> same_iterator c d \<and> cr_pos c < cr_pos d \<and> cr_pos d \<le> int (length (cr_text c))"

fun step_result :: "int \<Rightarrow> comment_ranges \<Rightarrow> comment_action \<Rightarrow> bool" where
  "step_result lo c (Break d) = ((d = c \<or> moves_iterator c d) \<and> (iterator_ok lo c \<longrightarrow> iterator_ok lo d))"
| "step_result lo c (Proceed d) = (moves_iterator c d \<and> (iterator_ok lo c \<longrightarrow> iterator_ok lo d))"
| "step_result lo c (Yield r d) =
     (moves_iterator c d \<and>
      (iterator_ok lo c \<longrightarrow> (\<exists>p e. comment_at (cr_text c) r p e \<and> lo \<le> p \<and> e \<le> cr_pos c \<and> iterator_ok e d)))"

lemma comment_from_at:
  assumes "0 \<le> p" "p + 1 < int (length src)" "src ! nat p = CHR ''/''" "src ! nat (p + 1) = b"
    "b = CHR ''/'' \<or> b = CHR ''*''" "comment_end src p b = Some e"
  shows "comment_at src (comment_from src p b e) p e"
proof -
  have "drop (nat p) src = CHR ''/'' # b # drop (nat (p + 2)) src"
    using assms(1-4) by (simp add: Cons_nth_drop_Suc nat_add_distrib flip: assms(3,4))
  then show ?thesis
    using assms comment_end_ok [OF assms(1,2), of b] comment_end_eq [OF assms(1,2), of b]
    by (auto simp: comment_at_def comment_from_def)
qed

lemma comment_at_le: "comment_at src r p e \<Longrightarrow> 0 \<le> p \<and> p + 2 \<le> e \<and> e \<le> int (length src)"
  by (simp add: comment_at_def)

lemma iterator_ok_pos: "iterator_ok lo c \<Longrightarrow> cr_pos c \<le> p \<Longrightarrow> iterator_ok lo (c\<lparr>cr_pos := p\<rparr>)"
  by (auto simp: iterator_ok_def intro: pending_ok_pos)

lemma iterator_ok_new:
  "comment_at (cr_text c) r (cr_pos c) e \<Longrightarrow> 0 \<le> lo \<Longrightarrow> lo \<le> cr_pos c \<Longrightarrow>
     iterator_ok lo (c\<lparr>cr_pos := e, cr_pending := Some r\<rparr>)"
  using comment_at_le [of "cr_text c" r "cr_pos c" e] by (auto simp: iterator_ok_def pending_ok_def)

lemma collect_comment_ok:
  assumes "comment_at (cr_text c) r (cr_pos c) e"
  shows "step_result lo c (collect_comment (c\<lparr>cr_pos := e\<rparr>) r)"
proof -
  have e: "cr_pos c < e" "e \<le> int (length (cr_text c))" using assms by (simp_all add: comment_at_def)
  show ?thesis
  proof (cases "cr_pending c")
    case None
    then show ?thesis using e iterator_ok_new [OF assms, of lo] iterator_ok_pos [of lo c e]
      by (auto simp: collect_comment_def same_iterator_def moves_iterator_def iterator_ok_def)
  next
    case (Some old)
    have "\<exists>p q. comment_at (cr_text c) old p q \<and> lo \<le> p \<and> q \<le> cr_pos c \<and>
        iterator_ok q (c\<lparr>cr_pos := e, cr_pending := Some r\<rparr>)" if ok: "iterator_ok lo c"
    proof -
      obtain p q where old: "comment_at (cr_text c) old p q" "lo \<le> p" "q \<le> cr_pos c"
        using ok Some by (auto simp: pending_ok_def iterator_ok_def)
      then show ?thesis using iterator_ok_new [OF assms, of q] by (auto simp: comment_at_def)
    qed
    then show ?thesis using e Some iterator_ok_pos [of lo c e]
      by (auto simp: collect_comment_def same_iterator_def moves_iterator_def)
  qed
qed

lemma iterator_ok_sel [simp]:
  "iterator_ok lo (mark_new_line c) = iterator_ok lo c" "iterator_ok lo (c\<lparr>cr_collecting := b\<rparr>) = iterator_ok lo c"
  by (simp_all add: iterator_ok_def)

lemma slash_at:
  assumes "decode_utf8 (drop (nat pos) src) = (0x2f, w)" "0 \<le> pos" "pos < int (length src)"
  shows "src ! nat pos = CHR ''/''"
proof -
  have "byte_val (src ! nat pos) = byte_val (CHR ''/'')"
    using decode_utf8_at_ascii [OF assms(1)] assms(2,3) by (simp add: hd_drop_conv_nth)
  then show ?thesis by (simp only: of_char_eq_iff)
qed

lemma comment_cases:
  obtains "ch = 0x0a \<or> ch = 0x0d" | "ch = 0x09 \<or> ch = 0x0b \<or> ch = 0x0c \<or> ch = 0x20" | "ch = 0x2f"
    | "ch \<notin> {0x0a, 0x0d, 0x09, 0x0b, 0x0c, 0x20, 0x2f :: int}"
  by blast

lemma comment_step_ok:
  assumes "0 \<le> cr_pos c" "cr_pos c < int (length (cr_text c))"
  shows "\<exists>a. comment_step c = Some a \<and> (\<forall>lo. step_result lo c a)"
proof -
  let ?src = "cr_text c" and ?pos = "cr_pos c"
  have t: "tail ?src ?pos = Some (drop (nat ?pos) ?src)" using assms by (simp add: tail_def)
  obtain ch w where d: "decode_utf8 (drop (nat ?pos) ?src) = (ch, w)" by fastforce
  note w = tail_progress [OF t d assms(2)] and eqs = comment_step_eqs [OF t d]
  show ?thesis
  proof (cases ch rule: comment_cases)
    case 1
    obtain n where "newline_width ?src ch ?pos = Some n" "0 < n" "?pos + n \<le> int (length ?src)"
      using newline_width_ok [OF assms, of ch] by blast
    then show ?thesis using eqs(1) [OF 1] iterator_ok_pos [of _ c "?pos + n"]
      by (simp add: same_iterator_def moves_iterator_def)
  next
    case 2
    then show ?thesis using eqs(2) [OF 2] iterator_ok_pos [of _ c "?pos + 1"] assms
      by (simp add: same_iterator_def moves_iterator_def)
  next
    case 3
    show ?thesis
    proof (cases "?pos + 1 < int (length ?src)")
      case True
      let ?b = "?src ! nat (?pos + 1)"
      have b: "byte_at ?src (?pos + 1) = Some ?b" using True assms(1) by (simp add: byte_at_def)
      obtain e where e: "comment_end ?src ?pos ?b = Some e" using comment_end_ok [OF assms(1) True] by blast
      have "?b = CHR ''/'' \<or> ?b = CHR ''*'' \<Longrightarrow> comment_at ?src (comment_from ?src ?pos ?b e) ?pos e"
        using comment_from_at [OF assms(1) True slash_at [OF d [unfolded 3] assms] refl _ e] .
      then show ?thesis using eqs(3) [OF 3] b e collect_comment_ok by auto
    qed (use eqs(3) [OF 3] in \<open>simp add: byte_at_def\<close>)
  next
    case 4
    then show ?thesis using eqs(4) [OF 4] w iterator_ok_pos [of _ _ "?pos + int w"]
      by (simp add: same_iterator_def moves_iterator_def)
  qed
qed

fun stepped :: "comment_action \<Rightarrow> comment_ranges" where
  "stepped (Break d) = d"
| "stepped (Proceed d) = d"
| "stepped (Yield r d) = d"

text \<open>Every iteration that moves makes the move of \<^const>\<open>skip_trivia\<close>.\<close>

lemma comment_step_skips:
  assumes "0 \<le> cr_pos c" "cr_pos c < int (length (cr_text c))" "comment_step c = Some a"
  shows "cr_pos (stepped a) = cr_pos c \<or>
    skip_step default_options (cr_text c) False (cr_pos c) = Some (Continue (cr_pos (stepped a)) False)"
proof -
  let ?src = "cr_text c" and ?pos = "cr_pos c"
  have t: "tail ?src ?pos = Some (drop (nat ?pos) ?src)" using assms by (simp add: tail_def)
  obtain ch w where d: "decode_utf8 (drop (nat ?pos) ?src) = (ch, w)" by fastforce
  note eqs = comment_step_eqs [OF t d] and skips = skip_step_eqs [OF t d, of default_options False]
  show ?thesis
  proof (cases ch rule: comment_cases)
    case 1
    obtain n where "newline_width ?src ch ?pos = Some n" using newline_width_ok [OF assms(1,2), of ch] by blast
    then show ?thesis using eqs(1) [OF 1] skips(1) [OF 1] assms(3) by (auto simp: default_options_def)
  next
    case 2
    then show ?thesis using eqs(2) [OF 2] skips(2) [OF 2] assms(3) by auto
  next
    case 3
    show ?thesis
    proof (cases "?pos + 1 < int (length ?src)")
      case True
      let ?b = "?src ! nat (?pos + 1)"
      have b: "byte_at ?src (?pos + 1) = Some ?b" using True assms(1) by (simp add: byte_at_def)
      obtain e where e: "comment_end ?src ?pos ?b = Some e" using comment_end_ok [OF assms(1) True] by blast
      have "cr_pos (stepped (collect_comment (c\<lparr>cr_pos := e\<rparr>) r)) = e" for r
        by (simp add: collect_comment_def split: option.split)
      then show ?thesis using eqs(3) [OF 3] skips(3) [OF 3] b e comment_end_eq [OF assms(1) True, of ?b] True assms(3)
        by (auto simp: default_options_def split: if_splits)
    qed (use eqs(3) [OF 3] assms(3) in \<open>auto simp: byte_at_def\<close>)
  next
    case 4
    then show ?thesis using eqs(4) [OF 4] skips(7) assms(3) by (auto split: if_splits)
  qed
qed

lemma step_result_moves: "(\<forall>lo. step_result lo c (Proceed d)) \<Longrightarrow> moves_iterator c d"
  by simp

function comment_loop :: "comment_ranges \<Rightarrow> (comment_range option \<times> comment_ranges) panicking" where
  "comment_loop c =
     (if 0 \<le> cr_pos c \<and> cr_pos c < int (length (cr_text c)) then do {
        action \<leftarrow> comment_step c;
        case action of
          Break d \<Rightarrow> Some (comment_finish d)
        | Proceed d \<Rightarrow> comment_loop d
        | Yield r d \<Rightarrow> Some (Some r, d)
      }
      else Some (comment_finish c))"
  by pat_completeness auto
termination
proof (relation "measure (\<lambda>c. nat (int (length (cr_text c)) - cr_pos c))", simp)
  fix c a d
  assume "0 \<le> cr_pos c \<and> cr_pos c < int (length (cr_text c))" "comment_step c = Some a" "a = Proceed d"
  then have "moves_iterator c d" using comment_step_ok [of c] step_result_moves by auto
  then show "(d, c) \<in> measure (\<lambda>c. nat (int (length (cr_text c)) - cr_pos c))"
    by (auto simp: moves_iterator_def same_iterator_def)
qed

declare comment_loop.simps [simp del]

definition next_comment :: "comment_ranges \<Rightarrow> (comment_range option \<times> comment_ranges) panicking" where
  "next_comment c = (if cr_finished c then Some (None, c) else comment_start c \<bind> comment_loop)"

text \<open>What a call leaves behind: the comment it gives lies between the bound and the position it has reached.\<close>

definition skips_from :: "comment_ranges \<Rightarrow> int panicking" where
  "skips_from c = skip_loop default_options (cr_text c) False (cr_pos c)"

definition call_result :: "comment_ranges \<Rightarrow> comment_range option \<Rightarrow> comment_ranges \<Rightarrow> bool" where
  "call_result c given d \<longleftrightarrow>
     cr_text d = cr_text c \<and> skips_from d = skips_from c \<and> cr_pos c \<le> cr_pos d \<and>
     (case given of
        None \<Rightarrow> cr_finished d
      | Some r \<Rightarrow>
          (cr_finished d \<or> cr_pos c < cr_pos d \<and> cr_pos c < int (length (cr_text c))) \<and>
          (\<forall>lo. iterator_ok lo c \<longrightarrow> (\<exists>p e. comment_at (cr_text c) r p e \<and> lo \<le> p \<and> iterator_ok e d)))"

lemma skips_from_step:
  assumes "0 \<le> cr_pos c" "cr_pos c < int (length (cr_text c))" "comment_step c = Some a"
  shows "skips_from (stepped a) = skips_from c"
proof -
  obtain a' where "comment_step c = Some a'" "\<forall>lo. step_result lo c a'" using comment_step_ok [OF assms(1,2)] by blast
  then have "cr_text (stepped a) = cr_text c"
    using assms(3) by (cases a) (auto simp: moves_iterator_def same_iterator_def)
  then show ?thesis using comment_step_skips [OF assms] assms(2)
    by (auto simp: skips_from_def skip_loop.simps [of _ "cr_text c" False "cr_pos c"])
qed

lemma comment_finish_result:
  "call_result c (fst (comment_finish c)) (snd (comment_finish c))"
proof (cases "cr_pending c")
  case (Some r)
  have "\<exists>p e. comment_at (cr_text c) r p e \<and> lo \<le> p \<and> iterator_ok e (c\<lparr>cr_finished := True, cr_pending := None\<rparr>)"
    if ok: "iterator_ok lo c" for lo
  proof -
    obtain p e where "comment_at (cr_text c) r p e" "lo \<le> p" "e \<le> cr_pos c"
      using ok Some by (auto simp: iterator_ok_def pending_ok_def)
    moreover from this have "iterator_ok e (c\<lparr>cr_finished := True, cr_pending := None\<rparr>)"
      using comment_at_le [of "cr_text c" r p e] by (simp add: iterator_ok_def pending_ok_def)
    ultimately show ?thesis by blast
  qed
  then show ?thesis using Some by (simp add: comment_finish_def call_result_def skips_from_def)
qed (simp add: comment_finish_def call_result_def skips_from_def)

lemma call_result_after:
  assumes "call_result d given e" "cr_text d = cr_text c" "skips_from d = skips_from c" "cr_pos c \<le> cr_pos d"
    "\<And>lo. iterator_ok lo c \<Longrightarrow> iterator_ok lo d"
  shows "call_result c given e"
  using assms by (cases given) (auto simp: call_result_def)

lemma comment_loop_ok: "\<exists>given d. comment_loop c = Some (given, d) \<and> call_result c given d"
proof (induction c rule: comment_loop.induct)
  case (1 c)
  show ?case
  proof (cases "0 \<le> cr_pos c \<and> cr_pos c < int (length (cr_text c))")
    case True
    then obtain a where a: "comment_step c = Some a" and res: "\<And>lo. step_result lo c a"
      using comment_step_ok [of c] by blast
    have sk: "skips_from (stepped a) = skips_from c" using skips_from_step a True by blast
    show ?thesis
    proof (cases a)
      case (Break d)
      then have "cr_text d = cr_text c \<and> cr_pos c \<le> cr_pos d"
        using res [of 0] by (auto simp: moves_iterator_def same_iterator_def)
      then have "call_result c (fst (comment_finish d)) (snd (comment_finish d))"
        using call_result_after [OF comment_finish_result, of d c] res sk Break by auto
      then show ?thesis using True a Break by (subst comment_loop.simps) (simp add: comment_finish_def)
    next
      case (Proceed d)
      obtain given e where e: "comment_loop d = Some (given, e)" "call_result d given e"
        using "1.IH" [OF True a Proceed] by blast
      have "cr_text d = cr_text c \<and> cr_pos c \<le> cr_pos d"
        using res [of 0] Proceed by (auto simp: moves_iterator_def same_iterator_def)
      then have "call_result c given e"
        using call_result_after [OF e(2), of c] res sk Proceed by auto
      then show ?thesis using True a Proceed e by (subst comment_loop.simps) simp
    next
      case (Yield r d)
      have "call_result c (Some r) d"
        using res sk Yield True by (fastforce simp: call_result_def moves_iterator_def same_iterator_def)
      then show ?thesis using True a Yield by (subst comment_loop.simps) simp
    qed
  next
    case False
    then show ?thesis using comment_finish_result [of c] by (subst comment_loop.simps) (auto simp: comment_finish_def)
  qed
qed

section \<open>The ranges a caller draws\<close>

lemma comment_start_ok:
  "\<exists>d. comment_start c = Some d \<and> cr_text d = cr_text c \<and> cr_finished d = cr_finished c \<and> cr_pos c \<le> cr_pos d \<and>
    skips_from d = skips_from c \<and> (\<forall>lo. iterator_ok lo c \<longrightarrow> iterator_ok lo d)"
proof (cases "\<not> cr_started c \<and> cr_pos c = 0 \<and> length (cr_text c) \<ge> 2 \<and> starts_with (cr_text c) ''#!''")
  case True
  let ?src = "cr_text c"
  obtain p where p: "to_line_break ?src 2 = Some p" "2 \<le> p" using to_line_break_ok [of 2 ?src] True by auto
  obtain bs where bs: "?src = CHR ''#'' # bs" using True by (cases ?src) auto
  have t: "tail ?src 0 = Some ?src" by (simp add: tail_def)
  have d: "decode_utf8 ?src = (0x23, 1)" unfolding bs by (simp add: decode_utf8_def)
  have "skip_step default_options ?src False 0 = Some (Continue p False)"
    using skip_step_eqs(5) [OF t d, of default_options False] True p by (simp add: is_shebang_trivia_def scan_shebang_trivia_def)
  then have "skip_loop default_options ?src False 0 = skip_loop default_options ?src False p"
    using bs by (subst skip_loop.simps) simp
  then show ?thesis using True p iterator_ok_pos [of _ c p]
    by (auto simp: comment_start_def is_shebang_trivia_def scan_shebang_trivia_def skips_from_def iterator_ok_def pending_ok_def)
next
  case False
  then show ?thesis
    by (auto simp: comment_start_def is_shebang_trivia_def skips_from_def iterator_ok_def pending_ok_def Let_def)
qed

lemma next_comment_ok: "\<exists>given d. next_comment c = Some (given, d) \<and> call_result c given d"
proof (cases "cr_finished c")
  case False
  obtain d where d: "comment_start c = Some d" "cr_text d = cr_text c" "cr_pos c \<le> cr_pos d"
      "skips_from d = skips_from c" "\<And>lo. iterator_ok lo c \<Longrightarrow> iterator_ok lo d"
    using comment_start_ok [of c] by blast
  obtain given e where e: "comment_loop d = Some (given, e)" "call_result d given e" using comment_loop_ok by blast
  show ?thesis using False d(1) e call_result_after [OF e(2) d(2,4,3,5)] by (simp add: next_comment_def)
qed (simp add: next_comment_def call_result_def)

text \<open>A caller's loop over the iterator, up to the first \<open>None\<close>.\<close>

function collect_comments :: "comment_ranges \<Rightarrow> comment_range list panicking" where
  "collect_comments c =
     do {
       (given, d) \<leftarrow> next_comment c;
       case given of
         None \<Rightarrow> Some []
       | Some r \<Rightarrow> map_option ((#) r) (collect_comments d)
     }"
  by pat_completeness auto
termination
proof (relation "measure (\<lambda>c. if cr_finished c then 0 else Suc (nat (int (length (cr_text c)) - cr_pos c)))", simp)
  fix c x given d r
  assume c: "next_comment c = Some x" "(given, d) = x" "given = Some r"
  then have "call_result c (Some r) d" using next_comment_ok [of c] by auto
  moreover have "\<not> cr_finished c" using c by (auto simp: next_comment_def)
  ultimately show "(d, c) \<in> measure (\<lambda>c. if cr_finished c then 0 else Suc (nat (int (length (cr_text c)) - cr_pos c)))"
    by (auto simp: call_result_def)
qed

declare collect_comments.simps [simp del]

definition get_leading_comment_ranges :: "bytes \<Rightarrow> int \<Rightarrow> comment_range list panicking" where
  "get_leading_comment_ranges src pos = collect_comments (iterate_comment_ranges src pos False)"

definition get_trailing_comment_ranges :: "bytes \<Rightarrow> int \<Rightarrow> comment_range list panicking" where
  "get_trailing_comment_ranges src pos = collect_comments (iterate_comment_ranges src pos True)"

text \<open>Comments of the text one after the other between two bounds.\<close>

fun comment_chain :: "bytes \<Rightarrow> int \<Rightarrow> comment_range list \<Rightarrow> int \<Rightarrow> bool" where
  "comment_chain src lo [] hi = (lo \<le> hi)"
| "comment_chain src lo (r # rs) hi =
     (lo \<le> range_pos (comment_loc r) \<and>
      comment_at src r (range_pos (comment_loc r)) (range_end (comment_loc r)) \<and>
      comment_chain src (range_end (comment_loc r)) rs hi)"

lemma comment_at_range:
  assumes "comment_at src r p e" "length src < 2 ^ 31"
  shows "range_pos (comment_loc r) = p" "range_end (comment_loc r) = e"
proof -
  have "comment_loc r = new_range p e" "0 \<le> p" "p \<le> e" "e < 2 ^ 31" using assms by (auto simp: comment_at_def)
  then show "range_pos (comment_loc r) = p" "range_end (comment_loc r) = e"
    by (simp_all add: new_range_def range_pos_def range_end_def wrap32_id)
qed

lemma collect_comments_ok:
  "iterator_ok lo c \<Longrightarrow> skips_from c = Some hi \<Longrightarrow> length (cr_text c) < 2 ^ 31 \<Longrightarrow>
     \<exists>rs. collect_comments c = Some rs \<and> comment_chain (cr_text c) lo rs hi"
proof (induction c arbitrary: lo rule: collect_comments.induct)
  case (1 c)
  have pos: "0 \<le> cr_pos c" "lo \<le> cr_pos c" using "1.prems"(1) by (auto simp: iterator_ok_def)
  have "cr_pos c \<le> hi" using skip_loop_ok [OF pos(1), of default_options "cr_text c" False] "1.prems"(2)
    by (auto simp: skips_from_def)
  obtain given d where d: "next_comment c = Some (given, d)" "call_result c given d" using next_comment_ok [of c] by blast
  show ?case
  proof (cases given)
    case None
    then show ?thesis using d(1) pos \<open>cr_pos c \<le> hi\<close> by (subst collect_comments.simps) simp
  next
    case (Some r)
    then obtain p e where r: "comment_at (cr_text c) r p e" "lo \<le> p" "iterator_ok e d"
      using d(2) "1.prems"(1) by (auto simp: call_result_def)
    have same: "cr_text d = cr_text c" "skips_from d = Some hi" using d(2) "1.prems"(2) by (simp_all add: call_result_def)
    obtain rs where "collect_comments d = Some rs" "comment_chain (cr_text c) e rs hi"
      using "1.IH" [OF d(1) refl Some r(3)] pos same "1.prems"(3) by auto
    then show ?thesis using d(1) pos Some r comment_at_range [OF r(1) "1.prems"(3)]
      by (subst collect_comments.simps) simp
  qed
qed

section \<open>No comment is lost\<close>

text \<open>
  The text from one position to another as comments with only characters of a kind \<open>blank\<close> between
  them: all of the comments there are.
\<close>

inductive trivia_run :: "(int \<Rightarrow> bool) \<Rightarrow> bytes \<Rightarrow> int \<Rightarrow> comment_range list \<Rightarrow> int \<Rightarrow> bool" for blank src where
  here: "trivia_run blank src p [] p"
| blank: "0 \<le> p \<Longrightarrow> p < int (length src) \<Longrightarrow> decode_utf8 (drop (nat p) src) = (ch, w) \<Longrightarrow> blank ch \<Longrightarrow>
    trivia_run blank src (p + int w) rs q \<Longrightarrow> trivia_run blank src p rs q"
| comment: "comment_at src r p e \<Longrightarrow> trivia_run blank src e rs q \<Longrightarrow> trivia_run blank src p (r # rs) q"

definition newline_at :: "bytes \<Rightarrow> int \<Rightarrow> bool" where
  "newline_at src p \<longleftrightarrow>
     0 \<le> p \<and> p < int (length src) \<and> fst (decode_utf8 (drop (nat p) src)) \<in> {0x0a, 0x0d}"

definition line_blank :: "int \<Rightarrow> bool" where
  "line_blank ch \<longleftrightarrow> is_white_space_like ch \<and> ch \<noteq> 0x0a \<and> ch \<noteq> 0x0d"

text \<open>The end of the text, or a character that is not white space and does not start a comment.\<close>

definition token_at :: "bytes \<Rightarrow> int \<Rightarrow> bool" where
  "token_at src p \<longleftrightarrow> int (length src) \<le> p \<or>
     \<not> is_white_space_like (fst (decode_utf8 (drop (nat p) src))) \<and>
     \<not> starts_with (drop (nat p) src) ''//'' \<and> \<not> starts_with (drop (nat p) src) ''/*''"

lemma trivia_run_trans:
  "trivia_run blank src p rs q \<Longrightarrow> trivia_run blank src q rs' q' \<Longrightarrow> trivia_run blank src p (rs @ rs') q'"
  by (induction rule: trivia_run.induct) (auto intro: trivia_run.intros)

lemma trivia_run_mono: "trivia_run P src p rs q \<Longrightarrow> (\<And>ch. P ch \<Longrightarrow> Q ch) \<Longrightarrow> trivia_run Q src p rs q"
  by (induction rule: trivia_run.induct) (auto intro: trivia_run.intros)

lemma trivia_run_blank:
  "0 \<le> p \<Longrightarrow> p < int (length src) \<Longrightarrow> decode_utf8 (drop (nat p) src) = (ch, w) \<Longrightarrow> blank ch \<Longrightarrow>
   trivia_run blank src p [] (p + int w)"
  by (rule trivia_run.blank) (auto intro: trivia_run.here)

lemma trivia_run_comment: "comment_at src r p e \<Longrightarrow> trivia_run blank src p [r] e"
  by (auto intro: trivia_run.intros)

lemma trivia_run_flag: "trivia_run blank src p rs q \<Longrightarrow> trivia_run blank src p (map (has_trailing_new_line_update f) rs) q"
proof (induction rule: trivia_run.induct)
  case (comment r p e rs q)
  then have "comment_at src (has_trailing_new_line_update f r) p e" by (simp add: comment_at_def)
  then show ?case using comment.IH by (simp add: trivia_run.comment)
qed (auto intro: trivia_run.intros)

definition pending_list :: "comment_ranges \<Rightarrow> comment_range list" where
  "pending_list c = (case cr_pending c of None \<Rightarrow> [] | Some r \<Rightarrow> [r])"

lemma pending_list_mark:
  "trivia_run blank src p (pending_list c) q \<Longrightarrow> trivia_run blank src p (pending_list (mark_new_line c)) q"
  using trivia_run_flag [of blank src p "pending_list c" q "\<lambda>_. True"]
  by (auto simp: pending_list_def mark_new_line_def split: option.splits)

lemma token_at_step:
  assumes "decode_utf8 (drop (nat p) src) = (ch, w)" "0 \<le> p" "p < int (length src)"
    "ch \<notin> {0x0a, 0x0d, 0x09, 0x0b, 0x0c, 0x20}" "\<not> (127 < ch \<and> is_white_space_like ch)"
    "ch = 0x2f \<Longrightarrow> p + 1 < int (length src) \<Longrightarrow> src ! nat (p + 1) \<notin> {CHR ''/'', CHR ''*''}"
  shows "token_at src p"
proof -
  have "\<not> is_white_space_like ch"
    using assms(4,5) by (auto simp: is_white_space_like_def is_white_space_single_line_def is_line_break_def)
  moreover have "\<not> starts_with (drop (nat p) src) [CHR ''/'', b]" if b: "b = CHR ''/'' \<or> b = CHR ''*''" for b
  proof
    assume "starts_with (drop (nat p) src) [CHR ''/'', b]"
    then obtain bs where bs: "drop (nat p) src = CHR ''/'' # b # bs"
      by (auto simp: starts_with_prefix prefix_def)
    have "length (drop (nat p) src) = Suc (Suc (length bs))" unfolding bs by simp
    then have "p + 1 < int (length src)" using assms(2) by (simp add: nat_less_iff)
    moreover have "src ! nat (p + 1) = b"
      using assms(2,3) bs nth_drop [of "nat p" src 1] by (simp add: nat_add_distrib)
    moreover have "ch = 0x2f" using assms(1) bs by (simp add: decode_utf8_def)
    ultimately show False using assms(6) b by auto
  qed
  ultimately show ?thesis by (simp add: token_at_def assms(1))
qed

text \<open>An iteration by what is at the position: a new line, other white space, a comment or a token.\<close>

lemma newline_run:
  assumes "newline_width src ch p = Some n" "decode_utf8 (drop (nat p) src) = (ch, w)" "ch = 0x0a \<or> ch = 0x0d"
    "0 \<le> p" "p < int (length src)"
  shows "trivia_run is_white_space_like src p [] (p + n)"
proof -
  have blank: "is_white_space_like ch" using assms(3) by (auto simp: is_white_space_like_def is_line_break_def)
  have w: "w = 1" using decode_utf8_at_ascii [OF assms(2)] assms(3,5) by auto
  note one = trivia_run_blank [OF assms(4,5,2), of is_white_space_like, OF blank, unfolded w]
  show ?thesis
  proof (cases "n = 1")
    case False
    then have two: "n = 2" "p + 1 < int (length src)" "src ! nat (p + 1) = CHR 0x0A"
      using assms(1,4,5) byte_at_ok [of "p + 1" src] by (auto simp: newline_width_def split: if_splits)
    then have "decode_utf8 (drop (nat (p + 1)) src) = (0x0a, 1)"
      using assms(4) by (simp add: Cons_nth_drop_Suc [symmetric] decode_utf8_def)
    then have "trivia_run is_white_space_like src (p + 1) [] (p + 1 + int 1)"
      using two(2) assms(4) by (intro trivia_run_blank) (auto simp: is_white_space_like_def is_line_break_def)
    then show ?thesis using trivia_run_trans [OF one] two(1) by (simp add: add.assoc)
  qed (use one in simp)
qed

lemma comment_step_kind:
  assumes "0 \<le> cr_pos c" "cr_pos c < int (length (cr_text c))"
  obtains (newline) n where "newline_at (cr_text c) (cr_pos c)"
      "trivia_run is_white_space_like (cr_text c) (cr_pos c) [] (cr_pos c + n)" "0 < n" "cr_pos c + n \<le> int (length (cr_text c))"
      "comment_step c = Some (if cr_trailing c then Break (c\<lparr>cr_pos := cr_pos c + n\<rparr>)
         else Proceed (mark_new_line (c\<lparr>cr_pos := cr_pos c + n, cr_collecting := True\<rparr>)))"
  | (blank) n d where "trivia_run line_blank (cr_text c) (cr_pos c) [] (cr_pos c + n)" "0 < n"
      "cr_pos c + n \<le> int (length (cr_text c))" "d = c \<or> d = mark_new_line c"
      "comment_step c = Some (Proceed (d\<lparr>cr_pos := cr_pos c + n\<rparr>))"
  | (comment) r e where "comment_at (cr_text c) r (cr_pos c) e" "comment_step c = Some (collect_comment (c\<lparr>cr_pos := e\<rparr>) r)"
  | (token) "token_at (cr_text c) (cr_pos c)" "comment_step c = Some (Break c)"
proof -
  let ?src = "cr_text c" and ?pos = "cr_pos c"
  have t: "tail ?src ?pos = Some (drop (nat ?pos) ?src)" using assms by (simp add: tail_def)
  obtain ch w where d: "decode_utf8 (drop (nat ?pos) ?src) = (ch, w)" by fastforce
  note w = tail_progress [OF t d assms(2)] and eqs = comment_step_eqs [OF t d]
  show thesis
  proof (cases ch rule: comment_cases)
    case 1
    obtain n where n: "newline_width ?src ch ?pos = Some n" "0 < n" "?pos + n \<le> int (length ?src)"
      using newline_width_ok [OF assms, of ch] by blast
    have "newline_at ?src ?pos" using 1 assms by (simp add: newline_at_def d)
    moreover have "comment_step c = Some (if cr_trailing c then Break (c\<lparr>cr_pos := ?pos + n\<rparr>)
         else Proceed (mark_new_line (c\<lparr>cr_pos := ?pos + n, cr_collecting := True\<rparr>)))"
      using eqs(1) [OF 1] n(1) by simp
    ultimately show thesis using newline newline_run [OF n(1) d 1 assms] n(2,3) by blast
  next
    case 2
    then have "line_blank ch" by (auto simp: line_blank_def is_white_space_like_def is_white_space_single_line_def)
    moreover have "w = 1" using decode_utf8_at_ascii [OF d] assms 2 by auto
    ultimately have "trivia_run line_blank ?src ?pos [] (?pos + 1)"
      using trivia_run_blank [OF assms d, of line_blank] by simp
    then show thesis by (rule blank [OF _ _ _ disjI1 [OF refl] eqs(2) [OF 2]]) (use assms in simp_all)
  next
    case 3
    show thesis
    proof (cases "?pos + 1 < int (length ?src) \<and> ?src ! nat (?pos + 1) \<in> {CHR ''/'', CHR ''*''}")
      case True
      let ?b = "?src ! nat (?pos + 1)"
      have b: "byte_at ?src (?pos + 1) = Some ?b" using True assms(1) by (simp add: byte_at_def)
      obtain e where e: "comment_end ?src ?pos ?b = Some e" using comment_end_ok [OF assms(1)] True by blast
      have "comment_at ?src (comment_from ?src ?pos ?b e) ?pos e"
        using comment_from_at [OF assms(1) _ slash_at [OF d [unfolded 3] assms] refl _ e] True by auto
      moreover have "comment_step c = Some (collect_comment (c\<lparr>cr_pos := e\<rparr>) (comment_from ?src ?pos ?b e))"
        using eqs(3) [OF 3] b e True by auto
      ultimately show thesis by (rule comment)
    next
      case False
      then have "token_at ?src ?pos" by (intro token_at_step [OF d assms]) (use 3 in simp_all)
      moreover have "comment_step c = Some (Break c)"
        using eqs(3) [OF 3] False assms(1) byte_at_ok [of "?pos + 1" ?src]
        by (cases "?pos + 1 < int (length ?src)") (auto simp: byte_at_def)
      ultimately show thesis by (rule token)
    qed
  next
    case 4
    show thesis
    proof (cases "127 < ch \<and> is_white_space_like ch")
      case True
      then have "trivia_run line_blank ?src ?pos [] (?pos + int w)"
        by (intro trivia_run_blank [OF assms d]) (simp add: line_blank_def)
      moreover have "comment_step c = Some (Proceed ((if is_line_break ch then mark_new_line c else c)\<lparr>cr_pos := ?pos + int w\<rparr>))"
        using eqs(4) [OF 4] True by simp
      ultimately show thesis using blank w by (metis of_nat_0_less_iff)
    next
      case False
      then have "token_at ?src ?pos" by (intro token_at_step [OF d assms]) (use 4 in auto)
      moreover have "comment_step c = Some (Break c)" using eqs(4) [OF 4] False by simp
      ultimately show thesis by (rule token)
    qed
  qed
qed

text \<open>What is between the comments of the two iterators, and where they end.\<close>

definition gap :: "comment_ranges \<Rightarrow> int \<Rightarrow> bool" where
  "gap c = (if cr_trailing c then line_blank else is_white_space_like)"

definition run_ends :: "comment_ranges \<Rightarrow> int \<Rightarrow> bool" where
  "run_ends c q \<longleftrightarrow> token_at (cr_text c) q \<or> cr_trailing c \<and> newline_at (cr_text c) q"

text \<open>
  The comments found from \<open>a\<close> on and not yet given are the pending one; and what a call gives is the next of them.
\<close>

definition collected :: "int \<Rightarrow> comment_ranges \<Rightarrow> bool" where
  "collected a c \<longleftrightarrow> cr_collecting c \<and> 0 \<le> cr_pos c \<and> cr_started c \<and> \<not> cr_finished c \<and>
     trivia_run (gap c) (cr_text c) a (pending_list c) (cr_pos c)"

definition gives :: "int \<Rightarrow> comment_ranges \<Rightarrow> comment_range option \<Rightarrow> comment_ranges \<Rightarrow> bool" where
  "gives a c given d \<longleftrightarrow>
     cr_text d = cr_text c \<and> cr_trailing d = cr_trailing c \<and>
     (\<exists>b. trivia_run (gap c) (cr_text c) a (case given of None \<Rightarrow> [] | Some r \<Rightarrow> [r]) b \<and>
        (if cr_finished d then run_ends c b else given \<noteq> None \<and> collected b d))"

lemma gives_finish:
  assumes "collected a c" "run_ends c (cr_pos c)" "cr_pending d = cr_pending c" "cr_text d = cr_text c" "cr_trailing d = cr_trailing c"
  shows "gives a c (fst (comment_finish d)) (snd (comment_finish d))"
  using assms by (auto simp: gives_def comment_finish_def collected_def pending_list_def intro: exI [of _ "cr_pos c"])

lemma collected_moves:
  assumes "collected a c" "trivia_run (gap c) (cr_text c) (cr_pos c) [] p" "0 \<le> p"
  shows "collected a (c\<lparr>cr_pos := p\<rparr>)" "collected a (mark_new_line (c\<lparr>cr_pos := p\<rparr>))"
proof -
  have run: "trivia_run (gap c) (cr_text c) a (pending_list c) p"
    using trivia_run_trans [OF _ assms(2)] assms(1) by (simp add: collected_def)
  then show "collected a (c\<lparr>cr_pos := p\<rparr>)" using assms(1,3) by (simp add: collected_def gap_def pending_list_def)
  show "collected a (mark_new_line (c\<lparr>cr_pos := p\<rparr>))"
    using assms(1,3) pending_list_mark [of "gap c" "cr_text c" a "c\<lparr>cr_pos := p\<rparr>" p] run
    by (simp add: collected_def gap_def pending_list_def)
qed

lemma mark_new_line_pos: "(mark_new_line c)\<lparr>cr_pos := p\<rparr> = mark_new_line (c\<lparr>cr_pos := p\<rparr>)"
  by (simp add: mark_new_line_def)

lemma line_blank_gap: "trivia_run line_blank src p rs q \<Longrightarrow> trivia_run (gap c) src p rs q"
  by (erule trivia_run_mono) (simp add: gap_def line_blank_def)

lemma collect_comment_gives:
  assumes "collected a c" "comment_at (cr_text c) r (cr_pos c) e"
  shows "\<exists>d. collect_comment (c\<lparr>cr_pos := e\<rparr>) r = Proceed d \<and> collected a d \<and> cr_text d = cr_text c \<and> cr_trailing d = cr_trailing c \<or>
    (\<exists>old. collect_comment (c\<lparr>cr_pos := e\<rparr>) r = Yield old d \<and> gives a c (Some old) d)"
proof -
  let ?d = "c\<lparr>cr_pos := e, cr_pending := Some r\<rparr>"
  have e: "0 \<le> e" using assms(2) by (simp add: comment_at_def)
  have run: "trivia_run (gap c) (cr_text c) (cr_pos c) [r] e" by (rule trivia_run_comment [OF assms(2)])
  show ?thesis
  proof (cases "cr_pending c")
    case None
    then have "trivia_run (gap c) (cr_text c) a ([] @ [r]) e"
      using trivia_run_trans [OF _ run] assms(1) by (fastforce simp: collected_def pending_list_def)
    then have "collected a ?d" using assms(1) e by (simp add: collected_def pending_list_def gap_def)
    then show ?thesis using None assms(1) by (auto simp: collect_comment_def collected_def)
  next
    case (Some old)
    then have "trivia_run (gap c) (cr_text c) a [old] (cr_pos c)" using assms(1) by (simp add: collected_def pending_list_def)
    moreover have "collected (cr_pos c) ?d" using assms(1) e run by (simp add: collected_def pending_list_def gap_def)
    ultimately have "gives a c (Some old) ?d" by (auto simp: gives_def collected_def)
    then show ?thesis using Some assms(1) by (auto simp: collect_comment_def collected_def)
  qed
qed

lemma gives_same: "cr_text d = cr_text c \<Longrightarrow> cr_trailing d = cr_trailing c \<Longrightarrow> gives a d given e = gives a c given e"
  by (simp add: gives_def gap_def run_ends_def)

lemma comment_loop_gives:
  "collected a c \<Longrightarrow> \<exists>given d. comment_loop c = Some (given, d) \<and> gives a c given d"
proof (induction c rule: comment_loop.induct)
  case (1 c)
  have pos: "0 \<le> cr_pos c" using "1.prems" by (simp add: collected_def)
  show ?case
  proof (cases "cr_pos c < int (length (cr_text c))")
    case True
    then have unfold: "comment_loop c = comment_step c \<bind> (\<lambda>action. case action of
        Break d \<Rightarrow> Some (comment_finish d) | Proceed d \<Rightarrow> comment_loop d | Yield r d \<Rightarrow> Some (Some r, d))"
      using pos by (subst comment_loop.simps) simp
    have on: "\<exists>given e. comment_loop c = Some (given, e) \<and> gives a c given e"
      if "comment_step c = Some (Proceed d)" "collected a d" "cr_text d = cr_text c" "cr_trailing d = cr_trailing c" for d
      using "1.IH" [OF _ that(1) refl that(2)] that pos True gives_same [OF that(3,4)] by (simp add: unfold)
    from pos True show ?thesis
    proof (cases c rule: comment_step_kind)
      case (newline n)
      show ?thesis
      proof (cases "cr_trailing c")
        case trailing: True
        then have "run_ends c (cr_pos c)" using newline(1) by (simp add: run_ends_def)
        then have "gives a c (fst (comment_finish (c\<lparr>cr_pos := cr_pos c + n\<rparr>))) (snd (comment_finish (c\<lparr>cr_pos := cr_pos c + n\<rparr>)))"
          using gives_finish [OF "1.prems"] by simp
        then show ?thesis using newline(5) trailing by (simp add: unfold comment_finish_def)
      next
        case False
        have col: "c\<lparr>cr_pos := p, cr_collecting := True\<rparr> = c\<lparr>cr_pos := p\<rparr>" for p
          using "1.prems" by (simp add: collected_def)
        have "collected a (mark_new_line (c\<lparr>cr_pos := cr_pos c + n\<rparr>))"
          using collected_moves(2) [OF "1.prems"] newline(2,3) pos False by (simp add: gap_def)
        then show ?thesis using on newline(5) False col by simp
      qed
    next
      case (blank n d)
      have "collected a (c\<lparr>cr_pos := cr_pos c + n\<rparr>)" "collected a (mark_new_line (c\<lparr>cr_pos := cr_pos c + n\<rparr>))"
        using collected_moves [OF "1.prems" line_blank_gap [OF blank(1)]] blank(2) pos by simp_all
      then show ?thesis using on [OF blank(5)] blank(4) by (auto simp: mark_new_line_pos)
    next
      case (comment r e)
      then show ?thesis using collect_comment_gives [OF "1.prems" comment(1)] on by (auto simp: unfold)
    next
      case token
      then have "run_ends c (cr_pos c)" by (simp add: run_ends_def)
      then show ?thesis using gives_finish [OF "1.prems", of c] token(2) by (simp add: unfold comment_finish_def)
    qed
  next
    case False
    then have "run_ends c (cr_pos c)" by (simp add: run_ends_def token_at_def)
    then show ?thesis using gives_finish [OF "1.prems", of c] False
      by (subst comment_loop.simps) (simp add: comment_finish_def)
  qed
qed

lemma collect_comments_complete:
  "collected a c \<Longrightarrow> \<exists>rs q. collect_comments c = Some rs \<and> trivia_run (gap c) (cr_text c) a rs q \<and> run_ends c q"
proof (induction c arbitrary: a rule: collect_comments.induct)
  case (1 c)
  obtain given d where d: "comment_loop c = Some (given, d)" "gives a c given d" using comment_loop_gives [OF "1.prems"] by blast
  have "next_comment c = Some (given, d)"
    using "1.prems" d(1) by (simp add: next_comment_def collected_def comment_start_def)
  note unfold = collect_comments.simps [of c, unfolded this bind.bind_lunit prod.case] and IH = "1.IH" [OF this refl]
  obtain b where b: "trivia_run (gap c) (cr_text c) a (case given of None \<Rightarrow> [] | Some r \<Rightarrow> [r]) b"
      "if cr_finished d then run_ends c b else given \<noteq> None \<and> collected b d"
    using d(2) by (auto simp: gives_def)
  show ?case
  proof (cases given)
    case None
    then show ?thesis using b unfold by (auto split: if_splits)
  next
    case (Some r)
    show ?thesis
    proof (cases "cr_finished d")
      case True
      then have "collect_comments d = Some []" by (subst collect_comments.simps) (simp add: next_comment_def)
      then show ?thesis using b unfold Some True by auto
    next
      case False
      then have "collected b d" using b(2) by simp
      from IH [OF Some this] obtain rs q where
        rs: "collect_comments d = Some rs" "trivia_run (gap d) (cr_text d) b rs q" "run_ends d q"
        by blast
      moreover have "gap d = gap c" "cr_text d = cr_text c" "run_ends d q = run_ends c q"
        using d(2) by (simp_all add: gives_def gap_def run_ends_def)
      ultimately have "trivia_run (gap c) (cr_text c) a ([r] @ rs) q" "run_ends c q"
        using trivia_run_trans [of "gap c" "cr_text c" a "[r]" b rs q] b(1) Some by simp_all
      then show ?thesis using unfold Some rs(1) by auto
    qed
  qed
qed

text \<open>In front of the first new line the leading iterator passes over comments without giving them.\<close>

lemma leading_skips:
  assumes "\<not> cr_collecting c" "\<not> cr_trailing c" "cr_started c" "\<not> cr_finished c" "cr_pending c = None" "0 \<le> cr_pos c"
  shows "\<exists>skipped m. trivia_run line_blank (cr_text c) (cr_pos c) skipped m \<and>
    (newline_at (cr_text c) m \<and> (\<exists>d. comment_loop c = comment_loop d \<and> collected m d \<and> cr_text d = cr_text c \<and> \<not> cr_trailing d) \<or>
     token_at (cr_text c) m \<and> (\<exists>d. comment_loop c = Some (None, d)))"
  using assms
proof (induction c rule: comment_loop.induct)
  case (1 c)
  let ?goal = "\<lambda>c c'. \<exists>skipped m. trivia_run line_blank (cr_text c) (cr_pos c) skipped m \<and>
    (newline_at (cr_text c) m \<and> (\<exists>d. comment_loop c' = comment_loop d \<and> collected m d \<and> cr_text d = cr_text c \<and> \<not> cr_trailing d) \<or>
     token_at (cr_text c) m \<and> (\<exists>d. comment_loop c' = Some (None, d)))"
  show ?case
  proof (cases "cr_pos c < int (length (cr_text c))")
    case True
    then have unfold: "comment_loop c = comment_step c \<bind> (\<lambda>action. case action of
        Break d \<Rightarrow> Some (comment_finish d) | Proceed d \<Rightarrow> comment_loop d | Yield r d \<Rightarrow> Some (Some r, d))"
      using "1.prems"(6) by (subst comment_loop.simps) simp
    have on: "?goal c c"
      if step: "comment_step c = Some (Proceed (c\<lparr>cr_pos := p\<rparr>))" and run: "trivia_run line_blank (cr_text c) (cr_pos c) rs p" and "0 \<le> p" for rs p
    proof -
      have "?goal (c\<lparr>cr_pos := p\<rparr>) (c\<lparr>cr_pos := p\<rparr>)" using "1.IH" [OF _ step refl] "1.prems" True \<open>0 \<le> p\<close> by simp
      then obtain skipped m where m: "trivia_run line_blank (cr_text c) p skipped m"
          "newline_at (cr_text c) m \<and> (\<exists>d. comment_loop c = comment_loop d \<and> collected m d \<and> cr_text d = cr_text c \<and> \<not> cr_trailing d) \<or>
           token_at (cr_text c) m \<and> (\<exists>d. comment_loop c = Some (None, d))"
        using step by (auto simp: unfold)
      then show ?thesis using trivia_run_trans [OF run m(1)] by blast
    qed
    have mark: "mark_new_line c = c" using "1.prems"(5) by (simp add: mark_new_line_def)
    from "1.prems"(6) True show ?thesis
    proof (cases c rule: comment_step_kind)
      case (newline n)
      let ?d = "mark_new_line (c\<lparr>cr_pos := cr_pos c + n, cr_collecting := True\<rparr>)"
      have "collected (cr_pos c) ?d"
        using "1.prems" newline(2,3) by (simp add: collected_def gap_def pending_list_def mark_new_line_def)
      moreover have "comment_loop c = comment_loop ?d" using newline(5) "1.prems"(2) by (simp add: unfold)
      moreover have "cr_text ?d = cr_text c" "\<not> cr_trailing ?d" using "1.prems"(2) by simp_all
      ultimately show ?thesis using newline(1) trivia_run.here [of line_blank "cr_text c" "cr_pos c"] by blast
    next
      case (blank n d)
      then show ?thesis using on [OF _ blank(1)] mark "1.prems"(6) by auto
    next
      case (comment r e)
      then show ?thesis using on [OF _ trivia_run_comment [OF comment(1)]] "1.prems"(1)
        by (simp add: collect_comment_def comment_at_def)
    next
      case token
      then have "comment_loop c = Some (None, snd (comment_finish c))" using "1.prems"(5) by (simp add: unfold comment_finish_def)
      then show ?thesis using token(1) trivia_run.here [of line_blank "cr_text c" "cr_pos c"] by blast
    qed
  next
    case False
    then have "comment_loop c = Some (None, snd (comment_finish c))" using "1.prems"(5)
      by (subst comment_loop.simps) (simp add: comment_finish_def)
    moreover have "token_at (cr_text c) (cr_pos c)" using False by (simp add: token_at_def)
    ultimately show ?thesis using trivia_run.here [of line_blank "cr_text c" "cr_pos c"] by blast
  qed
qed

section \<open>Properties\<close>

text \<open>
  The loop of \<open>skip_trivia\<close> over a multi-line comment, which decodes its characters, ends where the
  iterator's search for the two closing bytes does: no byte of a wider character can be one of them.
\<close>

theorem comment_loops_agree:
  assumes "0 \<le> pos" "pos + 1 < int (length src)"
  shows "to_comment_end src (pos + 2) = comment_end src pos (CHR ''*'')"
  using comment_end_eq [OF assms] by simp

theorem comment_loops_agree_witness:
  "to_comment_end ''/*a*/x'' (0 + 2) = comment_end ''/*a*/x'' 0 (CHR ''*'') \<and> comment_end ''/*a*/x'' 0 (CHR ''*'') = Some 5"
proof -
  have "comment_end ''/*a*/x'' 0 (CHR ''*'') = Some 5" by code_simp
  then show ?thesis using comment_loops_agree [of 0 "''/*a*/x''"] by simp
qed

text \<open>At the start of the text the shebang line comes first.\<close>

definition comments_from :: "bytes \<Rightarrow> int \<Rightarrow> int panicking" where
  "comments_from src pos = (if pos = 0 \<and> starts_with src ''#!'' then to_line_break src 2 else Some pos)"

lemma comments_from_ok: "0 \<le> pos \<Longrightarrow> \<exists>b. comments_from src pos = Some b \<and> 0 \<le> b"
  using to_line_break_ok [of 2 src] prefix_length_le [of "''#!''" src]
  by (fastforce simp: comments_from_def starts_with_prefix)

lemma comment_start_collecting:
  assumes "pos = 0 \<or> trailing" "comments_from src pos = Some b"
  shows "comment_start (iterate_comment_ranges src pos trailing) =
    Some ((iterate_comment_ranges src pos trailing)\<lparr>cr_pos := b, cr_started := True, cr_collecting := True\<rparr>)"
proof (cases "pos = 0 \<and> starts_with src ''#!''")
  case True
  then have "2 \<le> length src" using prefix_length_le [of "''#!''" src] by (simp add: starts_with_prefix)
  then show ?thesis using True assms(2)
    by (simp add: comment_start_def iterate_comment_ranges_def is_shebang_trivia_def scan_shebang_trivia_def comments_from_def)
next
  case False
  then show ?thesis using assms
    by (auto simp: comment_start_def iterate_comment_ranges_def is_shebang_trivia_def comments_from_def Let_def)
qed

lemma collect_started:
  assumes "comment_start c = Some d" "\<not> cr_finished c" "cr_started d" "\<not> cr_finished d"
  shows "collect_comments c = collect_comments d"
  using assms by (subst (1 2) collect_comments.simps) (simp add: next_comment_def comment_start_def)

lemma comments_complete:
  assumes "0 \<le> pos" "pos = 0 \<or> trailing" "comments_from src pos = Some b"
  shows "\<exists>rs q. collect_comments (iterate_comment_ranges src pos trailing) = Some rs \<and>
    trivia_run (if trailing then line_blank else is_white_space_like) src b rs q \<and>
    (token_at src q \<or> trailing \<and> newline_at src q)"
proof -
  let ?c = "iterate_comment_ranges src pos trailing"
  let ?d = "?c\<lparr>cr_pos := b, cr_started := True, cr_collecting := True\<rparr>"
  have b: "0 \<le> b" using comments_from_ok [OF assms(1), of src] assms(3) by simp
  have same: "collect_comments ?c = collect_comments ?d"
    by (rule collect_started [OF comment_start_collecting [OF assms(2,3)]]) (simp_all add: iterate_comment_ranges_def)
  have "collected b ?d"
    using b by (auto simp: collected_def iterate_comment_ranges_def pending_list_def intro: trivia_run.here)
  from collect_comments_complete [OF this] show ?thesis
    unfolding same by (simp add: gap_def run_ends_def iterate_comment_ranges_def)
qed

lemma leading_complete:
  assumes "0 < pos"
  shows "\<exists>rs skipped m. collect_comments (iterate_comment_ranges src pos False) = Some rs \<and>
    trivia_run line_blank src pos skipped m \<and>
    (newline_at src m \<and> (\<exists>q. trivia_run is_white_space_like src m rs q \<and> token_at src q) \<or> token_at src m \<and> rs = [])"
proof -
  let ?c = "iterate_comment_ranges src pos False"
  let ?d = "?c\<lparr>cr_started := True\<rparr>"
  have start: "comment_start ?c = Some ?d" using assms by (simp add: comment_start_def iterate_comment_ranges_def)
  have same: "collect_comments ?c = collect_comments ?d"
    by (rule collect_started [OF start]) (simp_all add: iterate_comment_ranges_def)
  have d: "next_comment ?d = comment_loop ?d" by (simp add: next_comment_def comment_start_def iterate_comment_ranges_def)
  obtain skipped m where m: "trivia_run line_blank src pos skipped m"
      "newline_at src m \<and> (\<exists>e. comment_loop ?d = comment_loop e \<and> collected m e \<and> cr_text e = src \<and> \<not> cr_trailing e) \<or>
       token_at src m \<and> (\<exists>e. comment_loop ?d = Some (None, e))"
    using leading_skips [of ?d] assms by (auto simp: iterate_comment_ranges_def)
  show ?thesis
  proof (cases "token_at src m \<and> (\<exists>e. comment_loop ?d = Some (None, e))")
    case True
    then have "collect_comments ?c = Some []" unfolding same by (subst collect_comments.simps) (auto simp: d)
    then show ?thesis using m(1) True by blast
  next
    case False
    then obtain e where e: "newline_at src m" "comment_loop ?d = comment_loop e" "collected m e" "cr_text e = src" "\<not> cr_trailing e"
      using m(2) by blast
    have "next_comment e = comment_loop e" using e(3) by (simp add: next_comment_def comment_start_def collected_def)
    then have "collect_comments ?c = collect_comments e"
      unfolding same collect_comments.simps [of ?d] collect_comments.simps [of e] d e(2) by simp
    moreover obtain rs q where "collect_comments e = Some rs" "trivia_run is_white_space_like src m rs q" "token_at src q"
      using collect_comments_complete [OF e(3)] e(4,5) by (auto simp: gap_def run_ends_def)
    ultimately show ?thesis using m(1) e(1) by auto
  qed
qed

text \<open>
  C12. The iterators give the comments of the text, all of them and nothing else, for a text shorter than two
  gigabytes and without a panic. The trailing comments are those from the position (or the end of the shebang line) up to the first new
  line behind them or the next token, whichever comes first; the leading comments at position 0 are those up to the
  next token, and at any other position those between the first new line that is not in a comment and
  the next token, if there is such a line. Only white space is between the comments given, and
  they lie, one behind the other, in front of the place where \<open>skip_trivia\<close> stops.
\<close>

theorem comments_in_trivia:
  assumes "0 \<le> pos" "length src < 2 ^ 31"
  shows "\<exists>p b leading trailing. skip_trivia src pos = Some p \<and> comments_from src pos = Some b \<and>
    get_leading_comment_ranges src pos = Some leading \<and> comment_chain src pos leading p \<and>
    get_trailing_comment_ranges src pos = Some trailing \<and> comment_chain src pos trailing p \<and>
    (\<exists>m. trivia_run line_blank src b trailing m \<and> (newline_at src m \<or> token_at src m)) \<and>
    (if pos = 0 then \<exists>q. trivia_run is_white_space_like src b leading q \<and> token_at src q
     else \<exists>skipped m. trivia_run line_blank src pos skipped m \<and>
       (newline_at src m \<and> (\<exists>q. trivia_run is_white_space_like src m leading q \<and> token_at src q) \<or>
        token_at src m \<and> leading = []))"
proof -
  obtain p where p: "skip_loop default_options src False pos = Some p" using skip_loop_ok [OF assms(1)] by blast
  then have s: "skip_trivia src pos = Some p" using assms(1) by (simp add: skip_trivia_def skip_trivia_ex_def)
  have chain: "\<exists>rs. collect_comments (iterate_comment_ranges src pos trailing) = Some rs \<and> comment_chain src pos rs p" for trailing
    using collect_comments_ok [of pos "iterate_comment_ranges src pos trailing" p] assms p
    by (simp add: iterate_comment_ranges_def iterator_ok_def pending_ok_def skips_from_def)
  obtain leading trailing where given: "get_leading_comment_ranges src pos = Some leading" "comment_chain src pos leading p"
      "get_trailing_comment_ranges src pos = Some trailing" "comment_chain src pos trailing p"
    using chain [of False] chain [of True] by (auto simp: get_leading_comment_ranges_def get_trailing_comment_ranges_def)
  obtain b where b: "comments_from src pos = Some b" using comments_from_ok [OF assms(1)] by blast
  have "\<exists>m. trivia_run line_blank src b trailing m \<and> (newline_at src m \<or> token_at src m)"
    using comments_complete [OF assms(1) disjI2 b, of True] given(3) by (auto simp: get_trailing_comment_ranges_def)
  moreover have "if pos = 0 then \<exists>q. trivia_run is_white_space_like src b leading q \<and> token_at src q
     else \<exists>skipped m. trivia_run line_blank src pos skipped m \<and>
       (newline_at src m \<and> (\<exists>q. trivia_run is_white_space_like src m leading q \<and> token_at src q) \<or>
        token_at src m \<and> leading = [])"
  proof (cases "pos = 0")
    case True
    then show ?thesis
      using comments_complete [OF assms(1) disjI1 b, of False] given(1) by (auto simp: get_leading_comment_ranges_def)
  next
    case False
    then have "0 < pos" using assms(1) by simp
    from leading_complete [OF this, of src] show ?thesis
      using given(1) False unfolding get_leading_comment_ranges_def by (metis option.inject)
  qed
  ultimately show ?thesis using s b given by blast
qed

definition sample_comments :: bytes where
  "sample_comments = ''x /*a*/'' @ CHR 0x0A # ''//b'' @ CHR 0x0A # ''/*c*/y''"

theorem comments_in_trivia_witness:
  "\<exists>leading trailing. get_leading_comment_ranges sample_comments 1 = Some leading \<and>
     get_trailing_comment_ranges sample_comments 1 = Some trailing \<and>
     map (\<lambda>r. range_pos (comment_loc r)) leading = [8, 12] \<and> map (\<lambda>r. range_end (comment_loc r)) trailing = [7] \<and>
     comment_chain sample_comments 1 leading 17 \<and>
     (\<exists>m q. newline_at sample_comments m \<and> trivia_run is_white_space_like sample_comments m leading q \<and> token_at sample_comments q) \<and>
     (\<exists>m. trivia_run line_blank sample_comments 1 trailing m \<and> (newline_at sample_comments m \<or> token_at sample_comments m))"
proof -
  have given: "map_option (map (\<lambda>r. range_pos (comment_loc r))) (get_leading_comment_ranges sample_comments 1) = Some [8, 12]"
      "map_option (map (\<lambda>r. range_end (comment_loc r))) (get_trailing_comment_ranges sample_comments 1) = Some [7]"
      "skip_trivia sample_comments 1 = Some 17"
    by code_simp+
  have "0 \<le> (1 :: int)" "length sample_comments < 2 ^ 31" by (simp_all add: sample_comments_def)
  from comments_in_trivia [OF this] show ?thesis using given by (auto simp: comments_from_def) blast+
qed

end
