(* ===== verification/Ref_Count_Cache.thy ===== *)
theory Ref_Count_Cache
  imports Prelude
begin

text \<open>
  The reference counted cache of the project system, \<open>crates/tsr_project/src/ref_count_cache.rs\<close>, with the
  threads that use it. An entry is an address in a list, an \<open>Arc\<close> is that address, and every section
  under a lock is one step: \<open>release\<close> takes the index lock inside of the entry's lock, and no other thread
  can tell the two apart, because it needs the entry's lock to look at the state.
  A thread has a stack of calls, as a producer may use the cache again. A thread that waits on the
  condition variable is one that has no step; every change of a state that it waits for is notified.
\<close>

section \<open>The cache\<close>

datatype 'v entry_state = Initializing nat | Ready 'v int | Removed

record ('k, 'v) ref_count_cache =
  rc_entries :: "'k \<rightharpoonup> nat"
  rc_states :: "'v entry_state list"
  disable_deletion :: bool

definition rc_new :: "bool \<Rightarrow> ('k, 'v) ref_count_cache" where
  "rc_new options = \<lparr>rc_entries = Map.empty, rc_states = [], disable_deletion = options\<rparr>"

text \<open>The head of the loop in \<open>acquire_or_error\<close>: the entry of the key, and whether it was created.\<close>

definition find_or_create :: "nat \<Rightarrow> 'k \<Rightarrow> ('k, 'v) ref_count_cache \<Rightarrow> ('k, 'v) ref_count_cache \<times> nat \<times> bool" where
  "find_or_create thread key c =
     (case rc_entries c key of
        Some e \<Rightarrow> (c, e, False)
      | None \<Rightarrow>
          (c\<lparr>rc_entries := (rc_entries c)(key \<mapsto> length (rc_states c)),
             rc_states := rc_states c @ [Initializing thread]\<rparr>, length (rc_states c), True))"

definition publish :: "nat \<Rightarrow> 'v \<Rightarrow> ('k, 'v) ref_count_cache \<Rightarrow> ('k, 'v) ref_count_cache" where
  "publish e v c = c\<lparr>rc_states := (rc_states c)[e := Ready v 1]\<rparr>"

definition remove_entry :: "'k \<Rightarrow> nat \<Rightarrow> ('k, 'v) ref_count_cache \<Rightarrow> ('k, 'v) ref_count_cache" where
  "remove_entry key e c =
     (if rc_entries c key = Some e then c\<lparr>rc_entries := (rc_entries c)(key := None)\<rparr> else c)"

definition mark_removed :: "nat \<Rightarrow> ('k, 'v) ref_count_cache \<Rightarrow> ('k, 'v) ref_count_cache" where
  "mark_removed e c = c\<lparr>rc_states := (rc_states c)[e := Removed]\<rparr>"

text \<open>The inner loop of \<open>acquire_or_error\<close> over the state of an entry that another call has created.\<close>

datatype 'v wait_result = Blocked | Reentrant | Exhausted | Acquired 'v | Retry

definition wait_entry :: "nat \<Rightarrow> nat \<Rightarrow> ('k, 'v) ref_count_cache \<Rightarrow> ('k, 'v) ref_count_cache \<times> 'v wait_result" where
  "wait_entry thread e c =
     (case rc_states c ! e of
        Initializing owner \<Rightarrow> (c, if owner = thread then Reentrant else Blocked)
      | Ready v references \<Rightarrow>
          if references = 2 ^ 63 - 1 then (c, Exhausted)
          else (c\<lparr>rc_states := (rc_states c)[e := Ready v (references + 1)]\<rparr>, Acquired v)
      | Removed \<Rightarrow> (c, Retry))"

definition release_entry :: "'k \<Rightarrow> nat \<Rightarrow> ('k, 'v) ref_count_cache \<Rightarrow> ('k, 'v) ref_count_cache" where
  "release_entry key e c =
     (case rc_states c ! e of
        Ready v references \<Rightarrow>
          if references - 1 > 0 \<or> disable_deletion c
          then c\<lparr>rc_states := (rc_states c)[e := Ready v (references - 1)]\<rparr>
          else remove_entry key e (mark_removed e c)
      | _ \<Rightarrow> c)"

definition rc_has :: "'k \<Rightarrow> ('k, 'v) ref_count_cache \<Rightarrow> bool" where
  "rc_has key c \<longleftrightarrow> rc_entries c key \<noteq> None"

definition reference_count :: "'k \<Rightarrow> ('k, 'v) ref_count_cache \<Rightarrow> int option" where
  "reference_count key c =
     (case rc_entries c key of
        None \<Rightarrow> None
      | Some e \<Rightarrow> (case rc_states c ! e of Ready v references \<Rightarrow> Some references | Initializing t \<Rightarrow> Some 1 | Removed \<Rightarrow> None))"

section \<open>Threads\<close>

text \<open>
  The calls in progress: a producer runs for the entry the call created, a failed producer has left the
  entry to the guard, a call waits for an entry, and a call of \<open>release\<close> has cloned its entry.
\<close>

datatype 'k frame = Producing 'k nat | Unwinding 'k nat | Waiting 'k nat | Releasing 'k nat

record ('k, 'v) rc_run =
  rr_cache :: "('k, 'v) ref_count_cache"
  rr_stacks :: "'k frame list list"
  rr_held :: "('k \<times> 'v) list"

datatype ('k, 'v) rc_event =
    Call_Acquire nat 'k
  | Produced nat 'v
  | Produce_Failed nat
  | Unwound nat
  | Woken nat
  | Call_Release nat 'k 'v
  | Released nat

text \<open>A new call starts where no call is in progress, or inside of a producer.\<close>

fun client_code :: "'k frame list \<Rightarrow> bool" where
  "client_code [] = True"
| "client_code (Producing k e # st) = True"
| "client_code (f # st) = False"

definition start_acquire :: "nat \<Rightarrow> 'k \<Rightarrow> 'k frame list \<Rightarrow> ('k, 'v) rc_run \<Rightarrow> ('k, 'v) rc_run" where
  "start_acquire t key st r =
     (let (c, e, created) = find_or_create t key (rr_cache r)
      in r\<lparr>rr_cache := c, rr_stacks := (rr_stacks r)[t := (if created then Producing key e else Waiting key e) # st]\<rparr>)"

definition give_value :: "nat \<Rightarrow> 'k \<Rightarrow> 'v \<Rightarrow> 'k frame list \<Rightarrow> ('k, 'v) rc_run \<Rightarrow> ('k, 'v) rc_run" where
  "give_value t key v st r = r\<lparr>rr_stacks := (rr_stacks r)[t := st], rr_held := (key, v) # rr_held r\<rparr>"

text \<open>
  The steps. The values that the clients hold are kept in \<open>rr_held\<close>; a client calls \<open>release\<close> for a key
  once for each value it was given. A producer that fails or panics leaves the entry to its guard.
\<close>

fun rc_step :: "('k, 'v) rc_event \<Rightarrow> ('k, 'v) rc_run \<Rightarrow> ('k, 'v) rc_run option" where
  "rc_step (Call_Acquire t key) r =
     (if t < length (rr_stacks r) \<and> client_code (rr_stacks r ! t)
      then Some (start_acquire t key (rr_stacks r ! t) r) else None)"
| "rc_step (Produced t v) r =
     (if t < length (rr_stacks r)
      then case rr_stacks r ! t of
          Producing key e # st \<Rightarrow> Some (give_value t key v st (r\<lparr>rr_cache := publish e v (rr_cache r)\<rparr>))
        | _ \<Rightarrow> None
      else None)"
| "rc_step (Produce_Failed t) r =
     (if t < length (rr_stacks r)
      then case rr_stacks r ! t of
          Producing key e # st \<Rightarrow>
            Some (r\<lparr>rr_cache := remove_entry key e (rr_cache r), rr_stacks := (rr_stacks r)[t := Unwinding key e # st]\<rparr>)
        | _ \<Rightarrow> None
      else None)"
| "rc_step (Unwound t) r =
     (if t < length (rr_stacks r)
      then case rr_stacks r ! t of
          Unwinding key e # st \<Rightarrow>
            Some (r\<lparr>rr_cache := mark_removed e (rr_cache r), rr_stacks := (rr_stacks r)[t := st]\<rparr>)
        | _ \<Rightarrow> None
      else None)"
| "rc_step (Woken t) r =
     (if t < length (rr_stacks r)
      then case rr_stacks r ! t of
          Waiting key e # st \<Rightarrow>
            let (c, result) = wait_entry t e (rr_cache r)
            in case result of
                 Blocked \<Rightarrow> None
               | Reentrant \<Rightarrow> Some (r\<lparr>rr_stacks := (rr_stacks r)[t := st]\<rparr>)
               | Exhausted \<Rightarrow> None
               | Acquired v \<Rightarrow> Some (give_value t key v st (r\<lparr>rr_cache := c\<rparr>))
               | Retry \<Rightarrow> Some (start_acquire t key st r)
        | _ \<Rightarrow> None
      else None)"
| "rc_step (Call_Release t key v) r =
     (if t < length (rr_stacks r) \<and> client_code (rr_stacks r ! t) \<and> (key, v) \<in> set (rr_held r)
      then let r = r\<lparr>rr_held := remove1 (key, v) (rr_held r)\<rparr>
        in case rc_entries (rr_cache r) key of
             None \<Rightarrow> Some r
           | Some e \<Rightarrow> Some (r\<lparr>rr_stacks := (rr_stacks r)[t := Releasing key e # rr_stacks r ! t]\<rparr>)
      else None)"
| "rc_step (Released t) r =
     (if t < length (rr_stacks r)
      then case rr_stacks r ! t of
          Releasing key e # st \<Rightarrow>
            Some (r\<lparr>rr_cache := release_entry key e (rr_cache r), rr_stacks := (rr_stacks r)[t := st]\<rparr>)
        | _ \<Rightarrow> None
      else None)"

definition rc_start :: "bool \<Rightarrow> nat \<Rightarrow> ('k, 'v) rc_run" where
  "rc_start options threads = \<lparr>rr_cache = rc_new options, rr_stacks = replicate threads [], rr_held = []\<rparr>"

inductive rc_reachable :: "bool \<Rightarrow> nat \<Rightarrow> ('k, 'v) rc_run \<Rightarrow> bool" for options threads where
  rc_initial: "rc_reachable options threads (rc_start options threads)"
| rc_event: "rc_reachable options threads r \<Longrightarrow> rc_step event r = Some r' \<Longrightarrow> rc_reachable options threads r'"

fun rc_steps :: "('k, 'v) rc_event list \<Rightarrow> ('k, 'v) rc_run \<Rightarrow> ('k, 'v) rc_run option" where
  "rc_steps [] r = Some r"
| "rc_steps (event # events) r = Option.bind (rc_step event r) (rc_steps events)"

lemma rc_steps_reachable:
  "rc_reachable options threads r \<Longrightarrow> rc_steps events r = Some r' \<Longrightarrow> rc_reachable options threads r'"
proof (induction events arbitrary: r)
  case (Cons event events)
  then obtain s where "rc_step event r = Some s" "rc_steps events s = Some r'"
    by (cases "rc_step event r") auto
  then show ?case using Cons.IH Cons.prems(1) rc_event by blast
qed simp

section \<open>The invariant\<close>

definition holders :: "'k \<Rightarrow> ('k, 'v) rc_run \<Rightarrow> nat" where
  "holders key r = length (filter (\<lambda>h. fst h = key) (rr_held r))"

fun releases :: "'k \<Rightarrow> 'k frame list \<Rightarrow> nat" where
  "releases key [] = 0"
| "releases key (Releasing k e # st) = (if k = key then Suc (releases key st) else releases key st)"
| "releases key (f # st) = releases key st"

definition releasing :: "'k \<Rightarrow> ('k, 'v) rc_run \<Rightarrow> nat" where
  "releasing key r = sum_list (map (releases key) (rr_stacks r))"

fun starts :: "'k frame list \<Rightarrow> nat list" where
  "starts [] = []"
| "starts (Producing k e # st) = e # starts st"
| "starts (Unwinding k e # st) = e # starts st"
| "starts (f # st) = starts st"

fun frame_ok :: "('k, 'v) ref_count_cache \<Rightarrow> nat \<Rightarrow> 'k frame \<Rightarrow> bool" where
  "frame_ok c t (Producing k e) \<longleftrightarrow> rc_entries c k = Some e \<and> rc_states c ! e = Initializing t"
| "frame_ok c t (Unwinding k e) \<longleftrightarrow>
     e < length (rc_states c) \<and> rc_states c ! e = Initializing t \<and> e \<notin> ran (rc_entries c)"
| "frame_ok c t (Waiting k e) \<longleftrightarrow>
     e < length (rc_states c) \<and> (e \<in> ran (rc_entries c) \<longrightarrow> rc_entries c k = Some e) \<and>
     (\<forall>v n. rc_states c ! e = Ready v n \<longrightarrow> rc_entries c k = Some e)"
| "frame_ok c t (Releasing k e) \<longleftrightarrow> rc_entries c k = Some e \<and> (\<exists>v n. rc_states c ! e = Ready v n)"

definition cache_ok :: "('k, 'v) ref_count_cache \<Rightarrow> bool" where
  "cache_ok c \<longleftrightarrow>
     (\<forall>k e. rc_entries c k = Some e \<longrightarrow> e < length (rc_states c) \<and> rc_states c ! e \<noteq> Removed) \<and>
     inj_on (rc_entries c) (dom (rc_entries c))"

definition stacks_ok :: "('k, 'v) rc_run \<Rightarrow> bool" where
  "stacks_ok r \<longleftrightarrow>
     (\<forall>t < length (rr_stacks r). distinct (starts (rr_stacks r ! t)) \<and>
        (\<forall>f \<in> set (rr_stacks r ! t). frame_ok (rr_cache r) t f)) \<and>
     (\<forall>e t. e < length (rc_states (rr_cache r)) \<longrightarrow> rc_states (rr_cache r) ! e = Initializing t \<longrightarrow>
        t < length (rr_stacks r) \<and> e \<in> set (starts (rr_stacks r ! t)))"

definition counts_ok :: "('k, 'v) rc_run \<Rightarrow> bool" where
  "counts_ok r \<longleftrightarrow>
     (\<forall>k v. (k, v) \<in> set (rr_held r) \<longrightarrow> (\<exists>e n. rc_entries (rr_cache r) k = Some e \<and> rc_states (rr_cache r) ! e = Ready v n)) \<and>
     (\<forall>k e v n. rc_entries (rr_cache r) k = Some e \<longrightarrow> rc_states (rr_cache r) ! e = Ready v n \<longrightarrow>
        n = int (holders k r + releasing k r) \<and> (0 < n \<or> disable_deletion (rr_cache r)))"

definition rc_inv :: "('k, 'v) rc_run \<Rightarrow> bool" where
  "rc_inv r \<longleftrightarrow> cache_ok (rr_cache r) \<and> stacks_ok r \<and> counts_ok r"

lemma rc_inv_start: "rc_inv (rc_start options threads)"
  by (simp add: rc_inv_def rc_start_def rc_new_def cache_ok_def stacks_ok_def counts_ok_def)

subsection \<open>Stacks and counts\<close>

lemma releasing_update:
  assumes "t < length (rr_stacks r)"
  shows "releasing k (r\<lparr>rr_stacks := (rr_stacks r)[t := st]\<rparr>) + releases k (rr_stacks r ! t) = releasing k r + releases k st"
proof -
  have "releases k (rr_stacks r ! t) \<le> releasing k r"
    using assms elem_le_sum_list [of t "map (releases k) (rr_stacks r)"] by (simp add: releasing_def)
  then show ?thesis using assms by (simp add: releasing_def map_update sum_list_update)
qed

lemma counts_sel [simp]:
  "releasing k (r\<lparr>rr_cache := c\<rparr>) = releasing k r" "releasing k (r\<lparr>rr_held := h\<rparr>) = releasing k r"
  "releasing k (r\<lparr>rr_cache := c, rr_stacks := ss\<rparr>) = releasing k (r\<lparr>rr_stacks := ss\<rparr>)"
  "holders k (r\<lparr>rr_cache := c\<rparr>) = holders k r" "holders k (r\<lparr>rr_stacks := ss\<rparr>) = holders k r"
  by (simp_all add: releasing_def holders_def)

lemma counts_ok_stacks:
  assumes "counts_ok r" "t < length (rr_stacks r)"
    "\<And>k. rc_entries (rr_cache r) k \<noteq> None \<Longrightarrow> releases k st = releases k (rr_stacks r ! t)"
  shows "counts_ok (r\<lparr>rr_stacks := (rr_stacks r)[t := st]\<rparr>)"
proof -
  have "releasing k (r\<lparr>rr_stacks := (rr_stacks r)[t := st]\<rparr>) = releasing k r" if "rc_entries (rr_cache r) k \<noteq> None" for k
    using releasing_update [OF assms(2), of k st] assms(3) [OF that] by simp
  then show ?thesis using assms(1) by (auto simp: counts_ok_def)
qed

lemma releases_pos: "Releasing k e \<in> set st \<Longrightarrow> 0 < releases k st"
  by (induction k st rule: releases.induct) auto

lemma releasing_pos:
  assumes "t < length (rr_stacks r)" "Releasing k e \<in> set (rr_stacks r ! t)"
  shows "0 < releasing k r"
  using releases_pos [OF assms(2)] assms(1) elem_le_sum_list [of t "map (releases k) (rr_stacks r)"]
  by (simp add: releasing_def)

lemma starts_iff: "e \<in> set (starts st) \<longleftrightarrow> (\<exists>k. Producing k e \<in> set st \<or> Unwinding k e \<in> set st)"
  by (induction st rule: starts.induct) auto

lemma stacks_okI:
  assumes "stacks_ok r" "t < length (rr_stacks r)" "distinct (starts st)" "\<And>f. f \<in> set st \<Longrightarrow> frame_ok c t f"
    "\<And>t' f. t' < length (rr_stacks r) \<Longrightarrow> t' \<noteq> t \<Longrightarrow> f \<in> set (rr_stacks r ! t') \<Longrightarrow> frame_ok c t' f"
    "\<And>e t'. e < length (rc_states c) \<Longrightarrow> rc_states c ! e = Initializing t' \<Longrightarrow>
      t' < length (rr_stacks r) \<and> e \<in> set (starts ((rr_stacks r)[t := st] ! t'))"
  shows "stacks_ok (r\<lparr>rr_cache := c, rr_stacks := (rr_stacks r)[t := st], rr_held := h\<rparr>)"
  using assms unfolding stacks_ok_def by (simp add: nth_list_update)

lemma frame_of:
  "rc_inv r \<Longrightarrow> t < length (rr_stacks r) \<Longrightarrow> f \<in> set (rr_stacks r ! t) \<Longrightarrow> frame_ok (rr_cache r) t f"
  by (simp add: rc_inv_def stacks_ok_def)

lemma initializing_owner:
  "rc_inv r \<Longrightarrow> e < length (rc_states (rr_cache r)) \<Longrightarrow> rc_states (rr_cache r) ! e = Initializing t \<Longrightarrow>
     t < length (rr_stacks r) \<and> e \<in> set (starts (rr_stacks r ! t))"
  by (simp add: rc_inv_def stacks_ok_def)

lemma indexed_entry:
  "rc_inv r \<Longrightarrow> rc_entries (rr_cache r) k = Some e \<Longrightarrow>
     e < length (rc_states (rr_cache r)) \<and> rc_states (rr_cache r) ! e \<noteq> Removed"
  by (simp add: rc_inv_def cache_ok_def)

lemma index_injective:
  "rc_inv r \<Longrightarrow> rc_entries (rr_cache r) k = Some e \<Longrightarrow> rc_entries (rr_cache r) k' = Some e \<Longrightarrow> k' = k"
  unfolding rc_inv_def cache_ok_def by (metis domI inj_onD)

lemma held_ready:
  "rc_inv r \<Longrightarrow> (k, v) \<in> set (rr_held r) \<Longrightarrow>
     \<exists>e n. rc_entries (rr_cache r) k = Some e \<and> rc_states (rr_cache r) ! e = Ready v n"
  by (simp add: rc_inv_def counts_ok_def)

lemma ready_count:
  "rc_inv r \<Longrightarrow> rc_entries (rr_cache r) k = Some e \<Longrightarrow> rc_states (rr_cache r) ! e = Ready v n \<Longrightarrow>
     n = int (holders k r + releasing k r) \<and> (0 < n \<or> disable_deletion (rr_cache r))"
  by (simp add: rc_inv_def counts_ok_def)

lemma distinct_starts: "rc_inv r \<Longrightarrow> t < length (rr_stacks r) \<Longrightarrow> distinct (starts (rr_stacks r ! t))"
  by (simp add: rc_inv_def stacks_ok_def)

lemma counts_ok_cache:
  assumes "rc_inv r" "disable_deletion c = disable_deletion (rr_cache r)"
    "\<And>k a v n. rc_entries c k = Some a \<Longrightarrow> rc_states c ! a = Ready v n \<Longrightarrow>
      rc_entries (rr_cache r) k = Some a \<and> rc_states (rr_cache r) ! a = Ready v n"
    "\<And>k a v n. (k, v) \<in> set (rr_held r) \<Longrightarrow> rc_entries (rr_cache r) k = Some a \<Longrightarrow>
      rc_states (rr_cache r) ! a = Ready v n \<Longrightarrow> rc_entries c k = Some a \<and> rc_states c ! a = Ready v n"
  shows "counts_ok (r\<lparr>rr_cache := c\<rparr>)"
  unfolding counts_ok_def
proof (intro conjI allI impI)
  fix k v
  assume "(k, v) \<in> set (rr_held (r\<lparr>rr_cache := c\<rparr>))"
  then have "(k, v) \<in> set (rr_held r)" by simp
  then show "\<exists>e n. rc_entries (rr_cache (r\<lparr>rr_cache := c\<rparr>)) k = Some e \<and> rc_states (rr_cache (r\<lparr>rr_cache := c\<rparr>)) ! e = Ready v n"
    using held_ready [OF assms(1), of k v] assms(4) by fastforce
next
  fix k a v n
  assume "rc_entries (rr_cache (r\<lparr>rr_cache := c\<rparr>)) k = Some a" "rc_states (rr_cache (r\<lparr>rr_cache := c\<rparr>)) ! a = Ready v n"
  then show "n = int (holders k (r\<lparr>rr_cache := c\<rparr>) + releasing k (r\<lparr>rr_cache := c\<rparr>))"
    "0 < n \<or> disable_deletion (rr_cache (r\<lparr>rr_cache := c\<rparr>))"
    using assms(3) [of k a v n] ready_count [OF assms(1), of k a v n] assms(2) by auto
qed

subsection \<open>Creating an entry\<close>

lemma cache_ok_entry: "cache_ok c \<Longrightarrow> rc_entries c k = Some e \<Longrightarrow> e < length (rc_states c) \<and> rc_states c ! e \<noteq> Removed"
  unfolding cache_ok_def by blast

lemma frame_ok_create:
  assumes "cache_ok c" "frame_ok c t f" "rc_entries c key = None"
  shows "frame_ok (fst (find_or_create t' key c)) t f"
proof -
  have c: "fst (find_or_create t' key c) =
      c\<lparr>rc_entries := (rc_entries c)(key \<mapsto> length (rc_states c)), rc_states := rc_states c @ [Initializing t']\<rparr>"
    using assms(3) by (simp add: find_or_create_def)
  show ?thesis
  proof (cases f)
    case (Producing k e)
    then show ?thesis using assms(2,3) cache_ok_entry [OF assms(1), of k e] by (auto simp: c nth_append)
  next
    case (Unwinding k e)
    then show ?thesis using assms(2,3) by (auto simp: c nth_append)
  next
    case (Waiting k e)
    then show ?thesis using assms(2,3) by (auto simp: c nth_append split: if_splits)
  next
    case (Releasing k e)
    then show ?thesis using assms(2,3) cache_ok_entry [OF assms(1), of k e] by (auto simp: c nth_append)
  qed
qed

lemma cache_ok_create: "cache_ok c \<Longrightarrow> cache_ok (fst (find_or_create t key c))"
proof (cases "rc_entries c key")
  case None
  assume c: "cache_ok c"
  have e: "e < length (rc_states c)" if "rc_entries c k = Some e" for k e using cache_ok_entry [OF c that] by simp
  have "inj_on ((rc_entries c)(key \<mapsto> length (rc_states c))) (insert key (dom (rc_entries c)))"
  proof (rule inj_onI)
    fix x y
    assume xy: "x \<in> insert key (dom (rc_entries c))" "y \<in> insert key (dom (rc_entries c))"
      "((rc_entries c)(key \<mapsto> length (rc_states c))) x = ((rc_entries c)(key \<mapsto> length (rc_states c))) y"
    have "inj_on (rc_entries c) (dom (rc_entries c))" using c by (simp add: cache_ok_def)
    then show "x = y" using xy e [of x "length (rc_states c)"] e [of y "length (rc_states c)"]
      by (cases "x = key"; cases "y = key") (auto dest: inj_onD)
  qed
  moreover have "e < Suc (length (rc_states c))" if "rc_entries c k = Some e" for k e using e [OF that] by simp
  ultimately show ?thesis using c None e by (auto simp: cache_ok_def find_or_create_def nth_append)
qed (simp add: find_or_create_def)

lemma cache_ok_delete: "cache_ok c \<Longrightarrow> cache_ok (c\<lparr>rc_entries := (rc_entries c)(key := None)\<rparr>)"
  by (auto simp: cache_ok_def inj_on_def)

lemma cache_ok_set:
  assumes "cache_ok c" "x \<noteq> Removed \<or> e \<notin> ran (rc_entries c)"
  shows "cache_ok (c\<lparr>rc_states := (rc_states c)[e := x]\<rparr>)"
proof -
  have "(rc_states c)[e := x] ! e' \<noteq> Removed" if "rc_entries c k = Some e'" for k e'
    using cache_ok_entry [OF assms(1) that] assms(2) that by (cases "e' = e") (auto simp: ranI)
  then show ?thesis using assms(1) by (auto simp: cache_ok_def)
qed

text \<open>A call, or the retry of a call whose frame is popped first, looks the key up.\<close>

lemma rc_inv_start_acquire:
  assumes "rc_inv r" "t < length (rr_stacks r)" "starts st = starts (rr_stacks r ! t)"
    "set st \<subseteq> set (rr_stacks r ! t)" "\<And>k. releases k st = releases k (rr_stacks r ! t)"
  shows "rc_inv (start_acquire t key st r)"
proof -
  let ?c = "rr_cache r" and ?c' = "fst (find_or_create t key (rr_cache r))"
  note ok = assms(1) [unfolded rc_inv_def]
  show ?thesis
  proof (cases "rc_entries ?c key")
    case (Some e)
    have e: "frame_ok ?c t (Waiting key e)"
      using indexed_entry [OF assms(1) Some] Some by auto
    have "stacks_ok (r\<lparr>rr_cache := ?c, rr_stacks := (rr_stacks r)[t := Waiting key e # st], rr_held := rr_held r\<rparr>)"
    proof (intro stacks_okI)
      show "stacks_ok r" using ok by blast
      show "distinct (starts (Waiting key e # st))" using distinct_starts [OF assms(1,2)] assms(3) by simp
      show "frame_ok ?c t f" if "f \<in> set (Waiting key e # st)" for f
        using that e frame_of [OF assms(1,2)] assms(4) by (cases "f = Waiting key e") auto
      show "t' < length (rr_stacks r) \<and> e' \<in> set (starts ((rr_stacks r)[t := Waiting key e # st] ! t'))"
        if "e' < length (rc_states ?c)" "rc_states ?c ! e' = Initializing t'" for e' t'
        using initializing_owner [OF assms(1) that] assms(2,3) by (cases "t' = t") simp_all
    qed (use assms(2) frame_of [OF assms(1)] in blast)+
    moreover have "counts_ok (r\<lparr>rr_stacks := (rr_stacks r)[t := Waiting key e # st]\<rparr>)"
      using counts_ok_stacks [of r t] ok assms(2,5) by simp
    ultimately show ?thesis using ok Some by (simp add: start_acquire_def find_or_create_def rc_inv_def)
  next
    case None
    let ?n = "length (rc_states ?c)"
    have c': "?c' = ?c\<lparr>rc_entries := (rc_entries ?c)(key \<mapsto> ?n), rc_states := rc_states ?c @ [Initializing t]\<rparr>"
      using None by (simp add: find_or_create_def)
    have new: "?n \<notin> set (starts (rr_stacks r ! t))"
    proof
      assume "?n \<in> set (starts (rr_stacks r ! t))"
      then obtain k where "Producing k ?n \<in> set (rr_stacks r ! t) \<or> Unwinding k ?n \<in> set (rr_stacks r ! t)"
        by (auto simp: starts_iff)
      then have "frame_ok ?c t (Producing k ?n) \<or> frame_ok ?c t (Unwinding k ?n)" using frame_of [OF assms(1,2)] by blast
      then show False using indexed_entry [OF assms(1), of k ?n] by auto
    qed
    have fr: "frame_ok ?c' t' f" if "t' < length (rr_stacks r)" "f \<in> set (rr_stacks r ! t')" for t' f
      using frame_ok_create [OF _ frame_of [OF assms(1) that] None] ok by blast
    have "stacks_ok (r\<lparr>rr_cache := ?c', rr_stacks := (rr_stacks r)[t := Producing key ?n # st], rr_held := rr_held r\<rparr>)"
    proof (intro stacks_okI)
      show "stacks_ok r" using ok by blast
      show "distinct (starts (Producing key ?n # st))" using new distinct_starts [OF assms(1,2)] assms(3) by simp
      show "frame_ok ?c' t f" if "f \<in> set (Producing key ?n # st)" for f
        using that fr [OF assms(2)] assms(4) by (auto simp: c')
      show "t' < length (rr_stacks r) \<and> e \<in> set (starts ((rr_stacks r)[t := Producing key ?n # st] ! t'))"
        if "e < length (rc_states ?c')" "rc_states ?c' ! e = Initializing t'" for e t'
        using that initializing_owner [OF assms(1), of e t'] assms(2,3)
        by (cases "e < ?n"; cases "t' = t") (auto simp: c' nth_append)
    qed (use assms(2) fr in blast)+
    moreover have "counts_ok (r\<lparr>rr_cache := ?c'\<rparr>)"
    proof (intro counts_ok_cache [OF assms(1)])
      show "rc_entries ?c k = Some a \<and> rc_states ?c ! a = Ready v n"
        if "rc_entries ?c' k = Some a" "rc_states ?c' ! a = Ready v n" for k a v n
        using that indexed_entry [OF assms(1), of k a] by (auto simp: c' nth_append split: if_splits)
      show "rc_entries ?c' k = Some a \<and> rc_states ?c' ! a = Ready v n"
        if "rc_entries ?c k = Some a" "rc_states ?c ! a = Ready v n" for k a v n
        using that indexed_entry [OF assms(1), of k a] None by (auto simp: c' nth_append)
    qed (simp add: c')
    then have "counts_ok (r\<lparr>rr_cache := ?c', rr_stacks := (rr_stacks r)[t := Producing key ?n # st]\<rparr>)"
      using counts_ok_stacks [of "r\<lparr>rr_cache := ?c'\<rparr>" t "Producing key ?n # st"] assms(2,5) by simp
    moreover have "start_acquire t key st r = r\<lparr>rr_cache := ?c', rr_stacks := (rr_stacks r)[t := Producing key ?n # st]\<rparr>"
      using None by (simp add: start_acquire_def find_or_create_def)
    ultimately show ?thesis using cache_ok_create [of ?c t key] ok by (simp add: rc_inv_def)
  qed
qed

subsection \<open>The end of a producer\<close>

lemma releasing_pos_iff:
  "0 < releasing k r \<longleftrightarrow> (\<exists>t < length (rr_stacks r). \<exists>e. Releasing k e \<in> set (rr_stacks r ! t))"
proof
  assume "0 < releasing k r"
  then have "sum_list (map (releases k) (rr_stacks r)) \<noteq> 0" unfolding releasing_def by linarith
  then obtain st where st: "st \<in> set (rr_stacks r)" "0 < releases k st" by auto
  have "0 < releases k st \<Longrightarrow> \<exists>e. Releasing k e \<in> set st"
    by (induction k st rule: releases.induct) (auto split: if_splits)
  then show "\<exists>t < length (rr_stacks r). \<exists>e. Releasing k e \<in> set (rr_stacks r ! t)"
    using st by (metis in_set_conv_nth)
qed (auto intro: releasing_pos)

text \<open>An entry that is not ready is in nobody's hands.\<close>

lemma unpublished_unused:
  assumes "rc_inv r" "rc_entries (rr_cache r) k = Some e" "rc_states (rr_cache r) ! e = Initializing t"
  shows "holders k r = 0" "releasing k r = 0" "(k, v) \<notin> set (rr_held r)"
proof -
  have h: "(k, v) \<notin> set (rr_held r)" for v using held_ready [OF assms(1), of k v] assms(2,3) by auto
  then show "(k, v) \<notin> set (rr_held r)" .
  show "holders k r = 0" using h by (force simp: holders_def filter_empty_conv)
  show "releasing k r = 0"
  proof (rule ccontr)
    assume "releasing k r \<noteq> 0"
    then obtain t' e' where "t' < length (rr_stacks r)" "Releasing k e' \<in> set (rr_stacks r ! t')"
      using releasing_pos_iff [of k r] by auto
    then have "frame_ok (rr_cache r) t' (Releasing k e')" using frame_of [OF assms(1)] by blast
    then show False using assms(2,3) by auto
  qed
qed

text \<open>The frames that stay when the one that started an entry goes.\<close>

lemma other_frames:
  assumes "rc_inv r" "t < length (rr_stacks r)" "rr_stacks r ! t = g # st" "g = Producing k e \<or> g = Unwinding k e"
    "t' < length (rr_stacks r)" "f \<in> set ((rr_stacks r)[t := st] ! t')"
  shows "frame_ok (rr_cache r) t' f" "f \<noteq> Producing k' e" "f \<noteq> Unwinding k' e"
proof -
  have f: "f \<in> set (rr_stacks r ! t')" using assms(2,3,6) by (cases "t' = t") auto
  then show ok: "frame_ok (rr_cache r) t' f" using frame_of [OF assms(1,5)] by blast
  have g: "rc_states (rr_cache r) ! e = Initializing t" using frame_of [OF assms(1,2), of g] assms(3,4) by auto
  have "e \<notin> set (starts st)" using distinct_starts [OF assms(1,2)] assms(3,4) by auto
  then have "t' = t \<Longrightarrow> f \<noteq> Producing k' e \<and> f \<noteq> Unwinding k' e" using assms(2,6) by (auto simp: starts_iff)
  moreover have "t' \<noteq> t \<Longrightarrow> f \<noteq> Producing k' e \<and> f \<noteq> Unwinding k' e" using ok g by auto
  ultimately show "f \<noteq> Producing k' e" "f \<noteq> Unwinding k' e" by blast+
qed

lemma stacks_ok_popI:
  assumes "rc_inv r" "t < length (rr_stacks r)" "rr_stacks r ! t = g # st"
    "\<And>t' f. t' < length (rr_stacks r) \<Longrightarrow> f \<in> set ((rr_stacks r)[t := st] ! t') \<Longrightarrow> frame_ok c t' f"
    "length (rc_states c) = length (rc_states (rr_cache r))"
    "\<And>e t'. e < length (rc_states c) \<Longrightarrow> rc_states c ! e = Initializing t' \<Longrightarrow>
      rc_states (rr_cache r) ! e = Initializing t' \<and> e \<notin> set (starts [g])"
  shows "stacks_ok (r\<lparr>rr_cache := c, rr_stacks := (rr_stacks r)[t := st], rr_held := h\<rparr>)"
proof (intro stacks_okI)
  show "stacks_ok r" using assms(1) by (simp add: rc_inv_def)
  have s: "starts (g # st) = starts [g] @ starts st" by (cases g) simp_all
  then show "distinct (starts st)" using distinct_starts [OF assms(1,2)] assms(3) by simp
  show "frame_ok c t f" if "f \<in> set st" for f using assms(4) [of t f] assms(2) that by simp
  show "frame_ok c t' f" if "t' < length (rr_stacks r)" "t' \<noteq> t" "f \<in> set (rr_stacks r ! t')" for t' f
    using assms(4) [of t' f] that by simp
  show "t' < length (rr_stacks r) \<and> e \<in> set (starts ((rr_stacks r)[t := st] ! t'))"
    if e: "e < length (rc_states c)" "rc_states c ! e = Initializing t'" for e t'
  proof -
    have "t' < length (rr_stacks r) \<and> e \<in> set (starts (rr_stacks r ! t'))"
      using initializing_owner [OF assms(1), of e t'] assms(5) assms(6) [OF e] e by simp
    then show ?thesis using assms(2,3) assms(6) [OF e] s by (cases "t' = t") auto
  qed
qed (rule assms(2))

lemma rc_inv_produced:
  assumes "rc_inv r" "t < length (rr_stacks r)" "rr_stacks r ! t = Producing key e # st"
  shows "rc_inv (give_value t key v st (r\<lparr>rr_cache := publish e v (rr_cache r)\<rparr>))"
proof -
  let ?c = "rr_cache r" and ?c' = "publish e v (rr_cache r)"
  let ?r = "r\<lparr>rr_cache := ?c', rr_stacks := (rr_stacks r)[t := st], rr_held := (key, v) # rr_held r\<rparr>"
  have e: "rc_entries ?c key = Some e" "rc_states ?c ! e = Initializing t"
    using frame_of [OF assms(1,2), of "Producing key e"] assms(3) by auto
  then have el: "e < length (rc_states ?c)" using indexed_entry [OF assms(1)] by blast
  note unused = unpublished_unused [OF assms(1) e] and others = other_frames [OF assms, of key e]
  have c: "cache_ok ?c'" using assms(1) by (simp add: rc_inv_def publish_def cache_ok_set)
  have fr: "frame_ok ?c' t' f" if "t' < length (rr_stacks r)" "f \<in> set ((rr_stacks r)[t := st] ! t')" for t' f
    using others [OF _ that] e el by (cases f) (auto simp: publish_def nth_list_update ranI)
  have stacks: "stacks_ok ?r"
    using assms(3) fr el by (intro stacks_ok_popI [OF assms]) (auto simp: publish_def nth_list_update split: if_splits)
  have rel: "releasing k ?r = releasing k r" for k
    using releasing_update [OF assms(2), of k st] assms(3) by simp
  have "counts_ok ?r"
    unfolding counts_ok_def
  proof (intro conjI allI impI)
    fix k v'
    assume "(k, v') \<in> set (rr_held ?r)"
    then show "\<exists>e n. rc_entries (rr_cache ?r) k = Some e \<and> rc_states (rr_cache ?r) ! e = Ready v' n"
      using held_ready [OF assms(1), of k v'] e el unused(3) [of v']
      by (cases "k = key") (auto simp: publish_def nth_list_update)
  next
    fix k e' v' n
    assume a: "rc_entries (rr_cache ?r) k = Some e'" "rc_states (rr_cache ?r) ! e' = Ready v' n"
    then have "n = int (holders k ?r + releasing k ?r) \<and> (0 < n \<or> disable_deletion (rr_cache ?r))"
    proof (cases "e' = e")
      case True
      then have "k = key" using index_injective [OF assms(1) e(1), of k] a(1) by (simp add: publish_def)
      then show ?thesis using a True el unused(1,2) rel by (simp add: publish_def holders_def)
    next
      case False
      then have "k \<noteq> key" using a(1) e(1) by (auto simp: publish_def)
      moreover have "rc_entries ?c k = Some e'" "rc_states ?c ! e' = Ready v' n" using a False by (simp_all add: publish_def)
      then have "n = int (holders k r + releasing k r) \<and> (0 < n \<or> disable_deletion ?c)" using ready_count [OF assms(1)] by blast
      ultimately show ?thesis using rel [of k] by (auto simp: publish_def holders_def)
    qed
    then show "n = int (holders k ?r + releasing k ?r)" "0 < n \<or> disable_deletion (rr_cache ?r)" by blast+
  qed
  then show ?thesis using c stacks by (simp add: rc_inv_def give_value_def)
qed

lemma rc_inv_failed:
  assumes "rc_inv r" "t < length (rr_stacks r)" "rr_stacks r ! t = Producing key e # st"
  shows "rc_inv (r\<lparr>rr_cache := remove_entry key e (rr_cache r), rr_stacks := (rr_stacks r)[t := Unwinding key e # st]\<rparr>)"
proof -
  let ?c = "rr_cache r" and ?c' = "remove_entry key e (rr_cache r)"
  have e: "rc_entries ?c key = Some e" "rc_states ?c ! e = Initializing t"
    using frame_of [OF assms(1,2), of "Producing key e"] assms(3) by auto
  have el: "e < length (rc_states ?c)" using indexed_entry [OF assms(1) e(1)] by blast
  have c': "?c' = ?c\<lparr>rc_entries := (rc_entries ?c)(key := None)\<rparr>" using e(1) by (simp add: remove_entry_def)
  note unused = unpublished_unused [OF assms(1) e] and others = other_frames [OF assms, of key e]
  have gone: "e \<notin> ran ((rc_entries ?c)(key := None))"
    using index_injective [OF assms(1) e(1)] by (auto simp: ran_def)
  have c: "cache_ok ?c'" using assms(1) by (simp add: c' rc_inv_def cache_ok_delete)
  have fr: "frame_ok ?c' t' f" if f: "t' < length (rr_stacks r)" "f \<in> set ((rr_stacks r)[t := st] ! t')" for t' f
  proof (cases f)
    case (Producing k a)
    then show ?thesis using others [OF _ f] e by (auto simp: c')
  next
    case (Unwinding k a)
    then show ?thesis using others [OF _ f] by (auto simp: c' ran_def)
  next
    case (Waiting k a)
    then have w: "frame_ok ?c t' (Waiting k a)" using others(1) [OF _ f] by simp
    show ?thesis
    proof (cases "a = e")
      case True
      then show ?thesis using Waiting w e gone by (simp add: c')
    next
      case False
      then show ?thesis using Waiting w e by (auto simp: c' ran_def)
    qed
  next
    case (Releasing k a)
    then show ?thesis using others(1) [OF _ f] e by (auto simp: c')
  qed
  have "stacks_ok (r\<lparr>rr_cache := ?c', rr_stacks := (rr_stacks r)[t := Unwinding key e # st], rr_held := rr_held r\<rparr>)"
  proof (intro stacks_okI)
    show "stacks_ok r" using assms(1) by (simp add: rc_inv_def)
    show "distinct (starts (Unwinding key e # st))" using distinct_starts [OF assms(1,2)] assms(3) by simp
    show "frame_ok ?c' t f" if "f \<in> set (Unwinding key e # st)" for f
      using that fr [of t f] assms(2) e el gone by (cases "f = Unwinding key e") (auto simp: c')
    show "frame_ok ?c' t' f" if "t' < length (rr_stacks r)" "t' \<noteq> t" "f \<in> set (rr_stacks r ! t')" for t' f
      using fr [of t' f] that by simp
    show "t' < length (rr_stacks r) \<and> a \<in> set (starts ((rr_stacks r)[t := Unwinding key e # st] ! t'))"
      if "a < length (rc_states ?c')" "rc_states ?c' ! a = Initializing t'" for a t'
      using initializing_owner [OF assms(1), of a t'] that assms(2,3) by (cases "t' = t") (auto simp: c')
  qed (rule assms(2))
  moreover have "counts_ok (r\<lparr>rr_cache := ?c'\<rparr>)"
    using unused(3) by (intro counts_ok_cache [OF assms(1)]) (auto simp: c' split: if_splits)
  then have "counts_ok (r\<lparr>rr_cache := ?c', rr_stacks := (rr_stacks r)[t := Unwinding key e # st]\<rparr>)"
    using counts_ok_stacks [of "r\<lparr>rr_cache := ?c'\<rparr>" t "Unwinding key e # st"] assms(2,3) by simp
  ultimately show ?thesis using c by (simp add: rc_inv_def)
qed

lemma rc_inv_unwound:
  assumes "rc_inv r" "t < length (rr_stacks r)" "rr_stacks r ! t = Unwinding key e # st"
  shows "rc_inv (r\<lparr>rr_cache := mark_removed e (rr_cache r), rr_stacks := (rr_stacks r)[t := st]\<rparr>)"
proof -
  let ?c = "rr_cache r" and ?c' = "mark_removed e (rr_cache r)"
  have e: "e < length (rc_states ?c)" "rc_states ?c ! e = Initializing t" "e \<notin> ran (rc_entries ?c)"
    using frame_of [OF assms(1,2), of "Unwinding key e"] assms(3) by auto
  note others = other_frames [OF assms, of key e]
  have ne: "a \<noteq> e" if "rc_entries ?c k = Some a" for k a using that e(3) by (auto simp: ran_def)
  have c: "cache_ok ?c'" using assms(1) e(3) by (simp add: rc_inv_def mark_removed_def cache_ok_set)
  have fr: "frame_ok ?c' t' f" if "t' < length (rr_stacks r)" "f \<in> set ((rr_stacks r)[t := st] ! t')" for t' f
    using others [OF _ that] e ne by (cases f) (auto simp: mark_removed_def nth_list_update)
  have "stacks_ok (r\<lparr>rr_cache := ?c', rr_stacks := (rr_stacks r)[t := st], rr_held := rr_held r\<rparr>)"
    using assms(3) fr e by (intro stacks_ok_popI [OF assms]) (auto simp: mark_removed_def nth_list_update split: if_splits)
  moreover have "counts_ok (r\<lparr>rr_cache := ?c'\<rparr>)"
  proof (intro counts_ok_cache [OF assms(1)])
    show "rc_entries ?c k = Some a \<and> rc_states ?c ! a = Ready v n"
      if "rc_entries ?c' k = Some a" "rc_states ?c' ! a = Ready v n" for k a v n
      using that ne [of k a] by (simp add: mark_removed_def)
    show "rc_entries ?c' k = Some a \<and> rc_states ?c' ! a = Ready v n"
      if "rc_entries ?c k = Some a" "rc_states ?c ! a = Ready v n" for k a v n
      using that ne [of k a] by (simp add: mark_removed_def)
  qed (simp add: mark_removed_def)
  then have "counts_ok (r\<lparr>rr_cache := ?c', rr_stacks := (rr_stacks r)[t := st]\<rparr>)"
    using counts_ok_stacks [of "r\<lparr>rr_cache := ?c'\<rparr>" t st] assms(2,3) by simp
  ultimately show ?thesis using c by (simp add: rc_inv_def)
qed

subsection \<open>Counting references\<close>

lemma frame_ok_recount:
  assumes "frame_ok c t f" "rc_states c ! e = Ready v n"
  shows "frame_ok (c\<lparr>rc_states := (rc_states c)[e := Ready v m]\<rparr>) t f"
  using assms by (cases f; cases "e < length (rc_states c)") (auto simp: nth_list_update list_update_beyond)

lemma counts_ok_recount:
  assumes "rc_inv r" "rc_entries (rr_cache r) key = Some e" "rc_states (rr_cache r) ! e = Ready v n"
    "rr_cache r' = (rr_cache r)\<lparr>rc_states := (rc_states (rr_cache r))[e := Ready v m]\<rparr>"
    "m = int (holders key r' + releasing key r')" "0 < m \<or> disable_deletion (rr_cache r)"
    "\<And>k. k \<noteq> key \<Longrightarrow> holders k r' = holders k r \<and> releasing k r' = releasing k r"
    "set (rr_held r') \<subseteq> insert (key, v) (set (rr_held r))"
  shows "counts_ok r'"
  unfolding counts_ok_def
proof (intro conjI allI impI)
  let ?c = "rr_cache r"
  have el: "e < length (rc_states ?c)" using indexed_entry [OF assms(1,2)] by blast
  fix k w
  assume "(k, w) \<in> set (rr_held r')"
  then have "(k, w) = (key, v) \<or> (k, w) \<in> set (rr_held r)" using assms(8) by blast
  then obtain a i where a: "rc_entries ?c k = Some a" "rc_states ?c ! a = Ready w i"
    using held_ready [OF assms(1), of k w] assms(2,3) by auto
  then show "\<exists>e n. rc_entries (rr_cache r') k = Some e \<and> rc_states (rr_cache r') ! e = Ready w n"
    unfolding assms(4) using assms(3) el by (cases "a = e") auto
next
  let ?c = "rr_cache r"
  have el: "e < length (rc_states ?c)" using indexed_entry [OF assms(1,2)] by blast
  fix k a w i
  assume "rc_entries (rr_cache r') k = Some a" "rc_states (rr_cache r') ! a = Ready w i"
  then have a: "rc_entries ?c k = Some a" "(rc_states ?c)[e := Ready v m] ! a = Ready w i" by (simp_all add: assms(4))
  have "i = int (holders k r' + releasing k r') \<and> (0 < i \<or> disable_deletion ?c)"
  proof (cases "a = e")
    case True
    then have "k = key" "i = m" using a el index_injective [OF assms(1,2), of k] by auto
    then show ?thesis using assms(5,6) by blast
  next
    case False
    then have k: "k \<noteq> key" "rc_states ?c ! a = Ready w i" using a assms(2) by auto
    show ?thesis using ready_count [OF assms(1) a(1) k(2)] assms(7) [OF k(1)] by auto
  qed
  then show "i = int (holders k r' + releasing k r')" "0 < i \<or> disable_deletion (rr_cache r')" by (auto simp: assms(4))
qed

lemma update_not_initializing:
  "xs[e := x] ! a = Initializing t \<Longrightarrow> a < length xs \<Longrightarrow> x \<noteq> Initializing t \<Longrightarrow> xs ! a = Initializing t"
  by (cases "a = e") auto

lemma rc_inv_acquired:
  assumes "rc_inv r" "t < length (rr_stacks r)" "rr_stacks r ! t = Waiting key e # st" "rc_states (rr_cache r) ! e = Ready v n"
  shows "rc_inv (give_value t key v st (r\<lparr>rr_cache := (rr_cache r)\<lparr>rc_states := (rc_states (rr_cache r))[e := Ready v (n + 1)]\<rparr>\<rparr>))"
proof -
  let ?c' = "(rr_cache r)\<lparr>rc_states := (rc_states (rr_cache r))[e := Ready v (n + 1)]\<rparr>"
  let ?r = "r\<lparr>rr_cache := ?c', rr_stacks := (rr_stacks r)[t := st], rr_held := (key, v) # rr_held r\<rparr>"
  have key: "rc_entries (rr_cache r) key = Some e"
    using frame_of [OF assms(1,2), of "Waiting key e"] assms(3,4) by auto
  have n: "n = int (holders key r + releasing key r)" using ready_count [OF assms(1) key assms(4)] by blast
  have rel: "releasing k ?r = releasing k r" for k
    using releasing_update [OF assms(2), of k st] assms(3) by simp
  have "frame_ok ?c' t' f" if "t' < length (rr_stacks r)" "f \<in> set ((rr_stacks r)[t := st] ! t')" for t' f
    using that frame_ok_recount [OF frame_of [OF assms(1), of t' f] assms(4)] assms(2,3) by (cases "t' = t") auto
  then have "stacks_ok ?r"
    by (intro stacks_ok_popI [OF assms(1-3)]) (auto dest: update_not_initializing)
  moreover have "counts_ok ?r"
    using n rel by (intro counts_ok_recount [OF assms(1) key assms(4), where m = "n + 1"]) (auto simp: holders_def)
  moreover have "cache_ok ?c'" using assms(1) by (simp add: rc_inv_def cache_ok_set)
  ultimately show ?thesis by (simp add: rc_inv_def give_value_def)
qed

lemma length_filter_remove1:
  "x \<in> set xs \<Longrightarrow> length (filter P xs) = length (filter P (remove1 x xs)) + (if P x then 1 else 0)"
  by (induction xs) auto

lemma rc_inv_call_release:
  assumes "rc_inv r" "t < length (rr_stacks r)" "(key, v) \<in> set (rr_held r)" "rc_entries (rr_cache r) key = Some e"
  shows "rc_inv (r\<lparr>rr_held := remove1 (key, v) (rr_held r), rr_stacks := (rr_stacks r)[t := Releasing key e # rr_stacks r ! t]\<rparr>)"
proof -
  let ?c = "rr_cache r" and ?st = "Releasing key e # rr_stacks r ! t"
  let ?r = "r\<lparr>rr_cache := ?c, rr_stacks := (rr_stacks r)[t := ?st], rr_held := remove1 (key, v) (rr_held r)\<rparr>"
  obtain n where e: "rc_states ?c ! e = Ready v n" using held_ready [OF assms(1,3)] assms(4) by auto
  have n: "n = int (holders key r + releasing key r) \<and> (0 < n \<or> disable_deletion ?c)" using ready_count [OF assms(1,4) e] by blast
  have rel: "releasing k ?r = releasing k r + (if k = key then 1 else 0)" for k
    using releasing_update [OF assms(2), of k ?st] by (cases "k = key") simp_all
  have hold: "holders k r = holders k ?r + (if k = key then 1 else 0)" for k
    using length_filter_remove1 [OF assms(3), of "\<lambda>h. fst h = k"] by (cases "k = key") (simp_all add: holders_def)
  have "stacks_ok ?r"
  proof (intro stacks_okI)
    show "stacks_ok r" using assms(1) by (simp add: rc_inv_def)
    show "frame_ok ?c t f" if "f \<in> set ?st" for f
      using that frame_of [OF assms(1,2)] assms(4) e by (cases "f = Releasing key e") auto
    show "t' < length (rr_stacks r) \<and> a \<in> set (starts ((rr_stacks r)[t := ?st] ! t'))"
      if "a < length (rc_states ?c)" "rc_states ?c ! a = Initializing t'" for a t'
      using initializing_owner [OF assms(1) that] assms(2) by (cases "t' = t") auto
  qed (use assms(2) distinct_starts [OF assms(1,2)] frame_of [OF assms(1)] in auto)
  moreover have "counts_ok ?r"
  proof (intro counts_ok_recount [OF assms(1,4) e, where m = n])
    show "rr_cache ?r = ?c\<lparr>rc_states := (rc_states ?c)[e := Ready v n]\<rparr>"
      using list_update_id [of "rc_states ?c" e] e by simp
    show "n = int (holders key ?r + releasing key ?r)" using n rel [of key] hold [of key] by simp
    show "holders k ?r = holders k r \<and> releasing k ?r = releasing k r" if "k \<noteq> key" for k
      using that rel [of k] hold [of k] by simp
    show "set (rr_held ?r) \<subseteq> insert (key, v) (set (rr_held r))"
      using set_remove1_subset [of "(key, v)" "rr_held r"] by auto
  qed (use n in blast)
  ultimately have "rc_inv ?r" using assms(1) by (simp add: rc_inv_def)
  moreover have "r\<lparr>rr_held := remove1 (key, v) (rr_held r), rr_stacks := (rr_stacks r)[t := ?st]\<rparr> = ?r" by (cases r) simp
  ultimately show ?thesis by (simp only:)
qed

lemma rc_inv_released:
  assumes "rc_inv r" "t < length (rr_stacks r)" "rr_stacks r ! t = Releasing key e # st"
  shows "rc_inv (r\<lparr>rr_cache := release_entry key e (rr_cache r), rr_stacks := (rr_stacks r)[t := st]\<rparr>)"
proof -
  let ?c = "rr_cache r" and ?c' = "release_entry key e (rr_cache r)"
  let ?r = "r\<lparr>rr_cache := ?c', rr_stacks := (rr_stacks r)[t := st], rr_held := rr_held r\<rparr>"
  obtain v n where e: "rc_entries ?c key = Some e" "rc_states ?c ! e = Ready v n"
    using frame_of [OF assms(1,2), of "Releasing key e"] assms(3) by auto
  have n: "n = int (holders key r + releasing key r)" "0 < n \<or> disable_deletion ?c"
    using ready_count [OF assms(1) e] by blast+
  have rel: "releasing k r = releasing k ?r + (if k = key then 1 else 0)" for k
    using releasing_update [OF assms(2), of k st] assms(3) by (cases "k = key") simp_all
  have hold: "holders k ?r = holders k r" for k by (simp add: holders_def)
  have old: "frame_ok ?c t' f" if "t' < length (rr_stacks r)" "f \<in> set ((rr_stacks r)[t := st] ! t')" for t' f
    using that frame_of [OF assms(1), of t' f] assms(2,3) by (cases "t' = t") auto
  have "rc_inv ?r"
  proof (cases "n - 1 > 0 \<or> disable_deletion ?c")
    case True
    then have c': "?c' = ?c\<lparr>rc_states := (rc_states ?c)[e := Ready v (n - 1)]\<rparr>"
      using e(2) by (simp add: release_entry_def)
    have "stacks_ok ?r"
      using frame_ok_recount [OF old e(2), of _ _ "n - 1"] by (intro stacks_ok_popI [OF assms(1-3)]) (auto simp: c' dest: update_not_initializing)
    moreover have "counts_ok ?r"
      using n True rel [of key] rel hold by (intro counts_ok_recount [OF assms(1) e, where m = "n - 1"]) (auto simp: c')
    moreover have "cache_ok ?c'" using assms(1) by (simp add: c' rc_inv_def cache_ok_set)
    ultimately show ?thesis by (simp add: rc_inv_def)
  next
    case False
    then have c': "?c' = ?c\<lparr>rc_entries := (rc_entries ?c)(key := None), rc_states := (rc_states ?c)[e := Removed]\<rparr>"
      using e by (simp add: release_entry_def remove_entry_def mark_removed_def)
    have none: "holders key r = 0" "releasing key ?r = 0" using n False rel [of key] by simp_all
    have ne: "a \<noteq> e" if "rc_entries ?c k = Some a" "k \<noteq> key" for k a
      using that index_injective [OF assms(1) e(1), of k] by auto
    have gone: "e \<notin> ran ((rc_entries ?c)(key := None))" using ne by (auto simp: ran_def split: if_splits)
    have fr: "frame_ok ?c' t' f" if f: "t' < length (rr_stacks r)" "f \<in> set ((rr_stacks r)[t := st] ! t')" for t' f
    proof (cases f)
      case (Producing k a)
      then show ?thesis using old [OF f] e by (cases "a = e") (auto simp: c')
    next
      case (Unwinding k a)
      then show ?thesis using old [OF f] e by (cases "a = e") (auto simp: c' ran_def)
    next
      case (Waiting k a)
      then have w: "frame_ok ?c t' (Waiting k a)" using old [OF f] by simp
      show ?thesis
      proof (cases "a = e")
        case True
        then show ?thesis using Waiting w gone by (simp add: c')
      next
        case False
        then show ?thesis using Waiting w e by (auto simp: c' ran_def)
      qed
    next
      case (Releasing k a)
      then have "k \<noteq> key" using none(2) releasing_pos [of t' ?r k a] f by auto
      then show ?thesis using Releasing old [OF f] ne [of k a] by (auto simp: c')
    qed
    have stacks: "stacks_ok ?r"
      using fr by (intro stacks_ok_popI [OF assms(1-3)]) (auto simp: c' dest: update_not_initializing)
    have "counts_ok (r\<lparr>rr_cache := ?c'\<rparr>)"
    proof (intro counts_ok_cache [OF assms(1)])
      show "rc_entries ?c k = Some a \<and> rc_states ?c ! a = Ready w i"
        if "rc_entries ?c' k = Some a" "rc_states ?c' ! a = Ready w i" for k a w i
        using that ne [of k a] by (auto simp: c' split: if_splits)
      show "rc_entries ?c' k = Some a \<and> rc_states ?c' ! a = Ready w i"
        if k: "(k, w) \<in> set (rr_held r)" "rc_entries ?c k = Some a" "rc_states ?c ! a = Ready w i" for k a w i
      proof -
        have "k \<noteq> key" using k(1) none(1) by (auto simp: holders_def filter_empty_conv)
        then show ?thesis using k ne [of k a] by (simp add: c')
      qed
    qed (simp add: c')
    moreover have "releases k st = releases k (rr_stacks r ! t)" if "rc_entries ?c' k \<noteq> None" for k
      using that assms(3) by (cases "k = key") (simp_all add: c')
    ultimately have "counts_ok ?r" using counts_ok_stacks [of "r\<lparr>rr_cache := ?c'\<rparr>" t st] assms(2) by simp
    moreover have "cache_ok ?c'"
      using cache_ok_set [OF cache_ok_delete, of ?c Removed e key] assms(1) gone by (simp add: c' rc_inv_def)
    ultimately show ?thesis using stacks by (simp add: rc_inv_def)
  qed
  then show ?thesis by simp
qed

lemma rc_inv_pop_waiting:
  assumes "rc_inv r" "t < length (rr_stacks r)" "rr_stacks r ! t = Waiting key e # st"
  shows "rc_inv (r\<lparr>rr_stacks := (rr_stacks r)[t := st]\<rparr>)"
proof -
  have "frame_ok (rr_cache r) t' f" if "t' < length (rr_stacks r)" "f \<in> set ((rr_stacks r)[t := st] ! t')" for t' f
    using that frame_of [OF assms(1), of t' f] assms(2,3) by (cases "t' = t") auto
  then have "stacks_ok (r\<lparr>rr_cache := rr_cache r, rr_stacks := (rr_stacks r)[t := st], rr_held := rr_held r\<rparr>)"
    by (intro stacks_ok_popI [OF assms]) auto
  moreover have "counts_ok (r\<lparr>rr_stacks := (rr_stacks r)[t := st]\<rparr>)"
    using assms by (intro counts_ok_stacks) (auto simp: rc_inv_def)
  ultimately show ?thesis using assms(1) by (simp add: rc_inv_def)
qed

lemma rc_inv_woken:
  assumes "rc_inv r" "rc_step (Woken t) r = Some r'"
  shows "rc_inv r'"
proof -
  obtain key e st where t: "t < length (rr_stacks r)" "rr_stacks r ! t = Waiting key e # st"
    using assms(2) by (auto split: if_splits list.splits frame.splits)
  show ?thesis
  proof (cases "rc_states (rr_cache r) ! e")
    case (Initializing owner)
    then show ?thesis using assms t rc_inv_pop_waiting [OF assms(1) t]
      by (simp add: wait_entry_def split: if_splits)
  next
    case (Ready v n)
    then show ?thesis using assms t rc_inv_acquired [OF assms(1) t Ready] by (simp add: wait_entry_def split: if_splits)
  next
    case Removed
    then show ?thesis using assms t rc_inv_start_acquire [OF assms(1) t(1), of st key] by (auto simp: wait_entry_def)
  qed
qed

lemma rc_inv_step: "rc_inv r \<Longrightarrow> rc_step event r = Some r' \<Longrightarrow> rc_inv r'"
proof (cases event)
  case (Call_Release t key v)
  assume r: "rc_inv r" and step: "rc_step event r = Some r'"
  then have t: "t < length (rr_stacks r)" "(key, v) \<in> set (rr_held r)"
    using Call_Release by (auto split: if_splits)
  then obtain e where "rc_entries (rr_cache r) key = Some e" using held_ready [OF r] by blast
  then show ?thesis using rc_inv_call_release [OF r t] step Call_Release by (simp split: if_splits)
next
  case (Woken t)
  then show "rc_inv r \<Longrightarrow> rc_step event r = Some r' \<Longrightarrow> ?thesis" using rc_inv_woken by blast
qed (auto simp: rc_inv_start_acquire rc_inv_produced rc_inv_failed rc_inv_unwound rc_inv_released
      split: if_splits list.splits frame.splits)

lemma rc_reachable_inv: "rc_reachable options threads r \<Longrightarrow> rc_inv r"
  by (induction rule: rc_reachable.induct) (simp_all add: rc_inv_start rc_inv_step)

section \<open>What the threads can rely on\<close>

text \<open>
  C11. Along every interleaving, a value that a client holds is still in the cache under its key, and all
  clients that hold the key hold the same value; the count of a published entry is the number of clients
  that hold it or are about to give it back, and it is positive unless deletion is disabled, so nothing
  is removed too early and nothing is left behind.
\<close>

theorem cache_follows_holders:
  assumes "rc_reachable options threads r"
  shows "((k, v) \<in> set (rr_held r) \<longrightarrow>
      (\<exists>e. rc_entries (rr_cache r) k = Some e \<and>
        rc_states (rr_cache r) ! e = Ready v (int (holders k r + releasing k r)))) \<and>
    (rc_entries (rr_cache r) k = Some e \<and> rc_states (rr_cache r) ! e = Ready w n \<longrightarrow>
      n = int (holders k r + releasing k r) \<and> (0 < n \<or> disable_deletion (rr_cache r)))"
proof -
  have r: "rc_inv r" using rc_reachable_inv [OF assms] .
  have "\<exists>e. rc_entries (rr_cache r) k = Some e \<and> rc_states (rr_cache r) ! e = Ready v (int (holders k r + releasing k r))"
    if "(k, v) \<in> set (rr_held r)"
    using held_ready [OF r that] ready_count [OF r] by blast
  then show ?thesis using ready_count [OF r] by blast
qed

text \<open>Two threads acquire a key, the second while the first constructs the value; then the first gives it back.\<close>

definition shared_run :: "(nat, nat) rc_run" where
  "shared_run = the (rc_steps
     [Call_Acquire 0 7, Call_Acquire 1 7, Produced 0 5, Woken 1, Call_Release 0 7 5, Released 0] (rc_start False 2))"

lemma shared_run_reachable: "rc_reachable False 2 shared_run"
proof -
  have "\<not> Option.is_none (rc_steps [Call_Acquire 0 (7 :: nat), Call_Acquire 1 7, Produced 0 (5 :: nat), Woken 1,
      Call_Release 0 7 5, Released 0] (rc_start False 2))" by code_simp
  then show ?thesis unfolding shared_run_def
    by (intro rc_steps_reachable [OF rc_initial]) (simp add: Option.is_none_def del: rc_steps.simps)
qed

theorem cache_follows_holders_witness:
  "rr_held shared_run = [(7, 5)] \<and>
   (\<exists>e. rc_entries (rr_cache shared_run) 7 = Some e \<and> rc_states (rr_cache shared_run) ! e = Ready 5 (int (1 + 0)))"
proof -
  have h: "rr_held shared_run = [(7, 5)]" "holders 7 shared_run = 1" "releasing 7 shared_run = 0" by code_simp+
  show ?thesis using h cache_follows_holders [OF shared_run_reachable, of 7 5] by simp
qed

text \<open>
  At any time at most one call constructs the value of a key, and none does while a client holds a
  value of the key.
\<close>

theorem one_producer_per_key:
  assumes "rc_reachable options threads r" "t < length (rr_stacks r)" "Producing k e \<in> set (rr_stacks r ! t)"
  shows "(t' < length (rr_stacks r) \<and> Producing k e' \<in> set (rr_stacks r ! t') \<longrightarrow> t' = t \<and> e' = e) \<and>
    (k, v) \<notin> set (rr_held r)"
proof -
  have r: "rc_inv r" using rc_reachable_inv [OF assms(1)] .
  have f: "rc_entries (rr_cache r) k = Some e" "rc_states (rr_cache r) ! e = Initializing t"
    using frame_of [OF r assms(2,3)] by simp_all
  have "t' = t \<and> e' = e" if "t' < length (rr_stacks r)" "Producing k e' \<in> set (rr_stacks r ! t')"
    using frame_of [OF r that] f by simp
  then show ?thesis using unpublished_unused(3) [OF r f] by blast
qed

definition producing_run :: "(nat, nat) rc_run" where
  "producing_run = the (rc_steps [Call_Acquire 0 7, Call_Acquire 1 7] (rc_start False 2))"

lemma producing_run_reachable: "rc_reachable False 2 producing_run"
proof -
  have "\<not> Option.is_none (rc_steps [Call_Acquire 0 (7 :: nat), Call_Acquire 1 7] (rc_start False 2) :: (nat, nat) rc_run option)"
    by code_simp
  then show ?thesis unfolding producing_run_def
    by (intro rc_steps_reachable [OF rc_initial]) (simp add: Option.is_none_def del: rc_steps.simps)
qed

lemma producing_run_sel:
  "rr_stacks producing_run = [[Producing 7 0], [Waiting 7 0]]" "rc_states (rr_cache producing_run) = [Initializing 0]"
  by code_simp+

theorem one_producer_per_key_witness:
  "rr_stacks producing_run = [[Producing 7 0], [Waiting 7 0]] \<and> (7, 5) \<notin> set (rr_held producing_run)"
  using one_producer_per_key [OF producing_run_reachable, of 0 7 0 1 0 5] by (simp add: producing_run_sel)

subsection \<open>Progress\<close>

text \<open>The next step of a call in progress.\<close>

fun progress :: "nat \<Rightarrow> ('k, 'v) rc_event \<Rightarrow> bool" where
  "progress t (Produced t' v) = (t' = t)"
| "progress t (Unwound t') = (t' = t)"
| "progress t (Woken t') = (t' = t)"
| "progress t (Released t') = (t' = t)"
| "progress t event = False"

lemma starter_moves:
  assumes "t < length (rr_stacks r)" "rr_stacks r ! t = [f]" "e \<in> set (starts [f])"
  shows "\<exists>event r'. progress t event \<and> rc_step event r = Some r'"
proof (cases f)
  case (Producing k a)
  then show ?thesis using assms by (intro exI [of _ "Produced t undefined"]) simp
next
  case (Unwinding k a)
  then show ?thesis using assms by (intro exI [of _ "Unwound t"]) simp
qed (use assms in auto)

text \<open>
  C22. Calls do not wait for each other for ever: while producers do not use the cache themselves and no
  count has reached its maximum, some call in progress has a next step.
\<close>

theorem cache_never_deadlocks:
  assumes "rc_reachable options threads r" "list_all (\<lambda>st. length st \<le> 1) (rr_stacks r)"
    "\<exists>t < length (rr_stacks r). rr_stacks r ! t \<noteq> []" "\<And>v n. Ready v n \<in> set (rc_states (rr_cache r)) \<Longrightarrow> n \<noteq> 2 ^ 63 - 1"
  shows "\<exists>t event r'. t < length (rr_stacks r) \<and> progress t event \<and> rc_step event r = Some r'"
proof -
  have r: "rc_inv r" using rc_reachable_inv [OF assms(1)] .
  have one: "\<exists>f. rr_stacks r ! t = [f]" if "t < length (rr_stacks r)" "rr_stacks r ! t \<noteq> []" for t
    using assms(2) that by (cases "rr_stacks r ! t") (auto simp: list_all_length)
  obtain t f where t: "t < length (rr_stacks r)" "rr_stacks r ! t = [f]" using assms(3) one by blast
  show ?thesis
  proof (cases f)
    case (Waiting k e)
    then have el: "e < length (rc_states (rr_cache r))" using frame_of [OF r t(1), of f] t(2) by simp
    show ?thesis
    proof (cases "rc_states (rr_cache r) ! e")
      case (Initializing owner)
      have s: "owner < length (rr_stacks r)" "e \<in> set (starts (rr_stacks r ! owner))"
        using initializing_owner [OF r el Initializing] by blast+
      then obtain g where g: "rr_stacks r ! owner = [g]" using one [of owner] by fastforce
      then show ?thesis using starter_moves [OF s(1) g] s by auto
    next
      case (Ready v n)
      then have "n \<noteq> 2 ^ 63 - 1" using assms(4) [of v n] nth_mem [OF el] by simp
      then show ?thesis using t Waiting Ready
        by (intro exI [of _ t] exI [of _ "Woken t"]) (simp add: wait_entry_def)
    next
      case Removed
      then show ?thesis using t Waiting by (intro exI [of _ t] exI [of _ "Woken t"]) (simp add: wait_entry_def)
    qed
  next
    case (Releasing k e)
    then show ?thesis using t by (intro exI [of _ t] exI [of _ "Released t"]) simp
  qed (use t starter_moves [OF t] in auto)
qed

theorem cache_never_deadlocks_witness:
  "\<exists>t event r'. t < length (rr_stacks producing_run) \<and> progress t event \<and> rc_step event producing_run = Some r'"
  using producing_run_sel by (intro cache_never_deadlocks [OF producing_run_reachable]) auto

text \<open>
  The condition on the producers is needed: two threads whose producers acquire each other's key wait
  for ever.
\<close>

lemma nested_producers_deadlock:
  "\<exists>r :: (nat, nat) rc_run. rc_reachable False 2 r \<and>
     rr_stacks r = [[Waiting 8 1, Producing 7 0], [Waiting 7 0, Producing 8 1]] \<and>
     rc_step (Woken 0) r = None \<and> rc_step (Woken 1) r = None"
proof -
  let ?events = "[Call_Acquire 0 7, Call_Acquire 1 8, Call_Acquire 0 8, Call_Acquire 1 7] :: (nat, nat) rc_event list"
  let ?run = "the (rc_steps ?events (rc_start False 2))"
  have "\<not> Option.is_none (rc_steps ?events (rc_start False 2))" by code_simp
  then have "rc_reachable False 2 ?run"
    by (intro rc_steps_reachable [OF rc_initial]) (simp add: Option.is_none_def del: rc_steps.simps)
  moreover have "rr_stacks ?run = [[Waiting 8 1, Producing 7 0], [Waiting 7 0, Producing 8 1]]" by code_simp
  moreover have "Option.is_none (rc_step (Woken 0) ?run)" "Option.is_none (rc_step (Woken 1) ?run)" by code_simp+
  ultimately show ?thesis by (intro exI [of _ ?run]) (simp add: Option.is_none_def del: rc_steps.simps rc_step.simps)
qed

end
