(* ===== verification/Event_List.thy ===== *)
theory Event_List
  imports Prelude
begin

text \<open>
  The list of pending events of a watched directory, \<open>crates/tsr_fswatch/src/event.rs\<close>: the backends
  record what happens to a path, and a drain tells every subscription what has become of the path since
  the subscription started. A \<open>u64\<close> is a natural number with its wrap-around written out. The events of
  a drain come in the order of a hash map, which the source does not fix; the model gives them by path.
\<close>

section \<open>Events and entries\<close>

datatype event_kind = EventUpdate | EventDelete

record pending_event =
  pe_kind :: event_kind
  included_watch_root :: bool

record event_entry =
  ev_created :: nat
  ev_updated :: nat
  ev_deleted :: nat
  ev_watch_root :: bool

definition default_entry :: event_entry where
  "default_entry = \<lparr>ev_created = 0, ev_updated = 0, ev_deleted = 0, ev_watch_root = False\<rparr>"

definition kind_since :: "event_entry \<Rightarrow> nat \<Rightarrow> event_kind option" where
  "kind_since entry start =
     (if ev_deleted entry > start
      then if ev_created entry > start \<and> ev_created entry < ev_deleted entry \<and> ev_updated entry < ev_deleted entry
        then None else Some EventDelete
      else if max (ev_created entry) (ev_updated entry) > start then Some EventUpdate else None)"

record 'e event_list =
  el_entries :: "bytes \<rightharpoonup> event_entry"
  el_error :: "'e option"
  el_sequence :: nat

definition empty_list :: "'e event_list" where
  "empty_list = \<lparr>el_entries = Map.empty, el_error = None, el_sequence = 0\<rparr>"

definition entry_at :: "'e event_list \<Rightarrow> bytes \<Rightarrow> event_entry" where
  "entry_at l path = (case el_entries l path of None \<Rightarrow> default_entry | Some entry \<Rightarrow> entry)"

datatype operation = Create | Update | Remove

fun apply_operation :: "operation \<Rightarrow> nat \<Rightarrow> event_entry \<Rightarrow> event_entry" where
  "apply_operation Create sequence entry =
     (if ev_deleted entry > ev_created entry \<and> ev_deleted entry > ev_updated entry
      then entry\<lparr>ev_deleted := 0, ev_created := 0, ev_updated := sequence\<rparr>
      else entry\<lparr>ev_created := sequence\<rparr>)"
| "apply_operation Update sequence entry = entry\<lparr>ev_updated := sequence\<rparr>"
| "apply_operation Remove sequence entry = entry\<lparr>ev_deleted := sequence\<rparr>"

text \<open>\<open>record\<close>: the sequence number of the event, and the list with it.\<close>

definition record_event :: "bytes \<Rightarrow> nat option \<Rightarrow> operation \<Rightarrow> bool \<Rightarrow> 'e event_list \<Rightarrow> nat \<times> 'e event_list" where
  "record_event path sequence operation root l =
     (let (sequence, current) = (case sequence of
            Some s \<Rightarrow> (s, max (el_sequence l) s)
          | None \<Rightarrow> let s = (el_sequence l + 1) mod 2 ^ 64 in (s, s));
          entry = apply_operation operation sequence (entry_at l path);
          entry = entry\<lparr>ev_watch_root := ev_watch_root entry \<or> root\<rparr>
      in (sequence, l\<lparr>el_sequence := current, el_entries := (el_entries l)(path \<mapsto> entry)\<rparr>))"

definition create_event :: "bytes \<Rightarrow> 'e event_list \<Rightarrow> 'e event_list" where
  "create_event p l = snd (record_event p None Create False l)"

definition update_event :: "bytes \<Rightarrow> 'e event_list \<Rightarrow> 'e event_list" where
  "update_event p l = snd (record_event p None Update False l)"

definition remove_event :: "bytes \<Rightarrow> 'e event_list \<Rightarrow> 'e event_list" where
  "remove_event p l = snd (record_event p None Remove False l)"

definition update_event_at :: "bytes \<Rightarrow> nat \<Rightarrow> 'e event_list \<Rightarrow> 'e event_list" where
  "update_event_at p s l = snd (record_event p (Some s) Update False l)"

definition remove_event_at :: "bytes \<Rightarrow> nat \<Rightarrow> 'e event_list \<Rightarrow> 'e event_list" where
  "remove_event_at p s l = snd (record_event p (Some s) Remove False l)"

definition update_watch_root_at :: "bytes \<Rightarrow> nat \<Rightarrow> 'e event_list \<Rightarrow> 'e event_list" where
  "update_watch_root_at p s l = snd (record_event p (Some s) Update True l)"

definition remove_watch_root_at :: "bytes \<Rightarrow> nat \<Rightarrow> 'e event_list \<Rightarrow> 'e event_list" where
  "remove_watch_root_at p s l = snd (record_event p (Some s) Remove True l)"

definition has_pending :: "'e event_list \<Rightarrow> bool" where
  "has_pending l \<longleftrightarrow> el_entries l \<noteq> Map.empty \<or> el_error l \<noteq> None"

definition set_event_error :: "'e \<Rightarrow> 'e event_list \<Rightarrow> 'e event_list" where
  "set_event_error error l = l\<lparr>el_error := Some (case el_error l of None \<Rightarrow> error | Some first \<Rightarrow> first)\<rparr>"

definition pending_since :: "nat \<Rightarrow> 'e event_list \<Rightarrow> bytes \<rightharpoonup> pending_event" where
  "pending_since start l path =
     (case el_entries l path of
        None \<Rightarrow> None
      | Some entry \<Rightarrow>
          map_option (\<lambda>kind. \<lparr>pe_kind = kind, included_watch_root = ev_watch_root entry\<rparr>) (kind_since entry start))"

definition drain_for_sequences ::
    "nat list \<Rightarrow> 'e event_list \<Rightarrow> ((bytes \<rightharpoonup> pending_event) list \<times> 'e option) \<times> 'e event_list" where
  "drain_for_sequences sequences l =
     ((map (\<lambda>start. pending_since start l) sequences, el_error l), l\<lparr>el_entries := Map.empty, el_error := None\<rparr>)"

section \<open>What a subscription learns\<close>

text \<open>The history of a directory since the last drain, and whether a path exists along it.\<close>

fun record_all :: "(bytes \<times> operation) list \<Rightarrow> 'e event_list \<Rightarrow> 'e event_list" where
  "record_all [] l = l"
| "record_all ((path, operation) # history) l = record_all history (snd (record_event path None operation False l))"

definition operations :: "bytes \<Rightarrow> (bytes \<times> operation) list \<Rightarrow> operation list" where
  "operations path history = map snd (filter (\<lambda>h. fst h = path) history)"

definition exists_after :: "bool \<Rightarrow> operation list \<Rightarrow> bool" where
  "exists_after present ops = (if ops = [] then present else last ops \<noteq> Remove)"

text \<open>A path is created only while it is absent, and written or removed only while it is there.\<close>

fun consistent :: "bool \<Rightarrow> operation list \<Rightarrow> bool" where
  "consistent present [] = True"
| "consistent present (operation # ops) = ((operation = Create) \<noteq> present \<and> consistent (operation \<noteq> Remove) ops)"

lemma consistent_snoc: "consistent present (ops @ [x]) \<longleftrightarrow> consistent present ops \<and> (x = Create) \<noteq> exists_after present ops"
  by (induction ops arbitrary: present) (auto simp: exists_after_def)

lemma operations_snoc [simp]:
  "operations path (history @ [(q, x)]) = (if q = path then operations path history @ [x] else operations path history)"
  "operations path [] = []"
  by (simp_all add: operations_def)

lemma exists_after_simps [simp]:
  "exists_after present [] = present" "exists_after present (ops @ [x]) = (x \<noteq> Remove)"
  by (simp_all add: exists_after_def)

lemma record_all_append: "record_all (h @ [(q, x)]) l = snd (record_event q None x False (record_all h l))"
  by (induction h arbitrary: l) auto

text \<open>The entry of a path after a history that started with sequence number \<open>s\<close>.\<close>

definition entry_inv :: "bytes \<Rightarrow> bool \<Rightarrow> nat \<Rightarrow> (bytes \<times> operation) list \<Rightarrow> event_entry \<Rightarrow> bool" where
  "entry_inv path present s history entry \<longleftrightarrow>
     (let there = exists_after present (operations path history) in
        (there \<longrightarrow> ev_deleted entry = 0) \<and>
        (\<not> there \<longrightarrow> ev_created entry < ev_deleted entry \<and> ev_updated entry < ev_deleted entry \<or>
           operations path history = [] \<and> ev_created entry = 0 \<and> ev_updated entry = 0 \<and> ev_deleted entry = 0) \<and>
        (\<forall>j \<le> length history. s + j < ev_created entry \<longrightarrow> \<not> exists_after present (operations path (take j history))) \<and>
        (\<forall>j \<le> length history. operations path (drop j history) \<noteq> [] \<longleftrightarrow>
           s + j < (if there then max (ev_created entry) (ev_updated entry) else ev_deleted entry)))"

lemma entry_inv_bound:
  assumes "entry_inv path present s history entry"
  shows "ev_created entry \<le> s + length history" "ev_updated entry \<le> s + length history" "ev_deleted entry \<le> s + length history"
proof -
  have "\<not> s + length history < (if exists_after present (operations path history)
      then max (ev_created entry) (ev_updated entry) else ev_deleted entry)"
    using assms by (auto simp: entry_inv_def Let_def operations_def)
  then show "ev_created entry \<le> s + length history" "ev_updated entry \<le> s + length history" "ev_deleted entry \<le> s + length history"
    using assms by (auto simp: entry_inv_def Let_def split: if_splits)
qed

lemma operations_drop_snoc:
  assumes "j \<le> Suc (length history)"
  shows "operations path (drop j (history @ [(q, x)])) \<noteq> [] \<longleftrightarrow>
    (if q = path then j \<le> length history else operations path (drop j history) \<noteq> [])"
  using assms by (cases "j \<le> length history") (auto simp: operations_def)

lemma operations_take_snoc:
  "j \<le> length history \<Longrightarrow> operations path (take j (history @ [y])) = operations path (take j history)"
  by simp

lemma entry_inv_other:
  assumes "entry_inv path present s history entry" "q \<noteq> path"
  shows "entry_inv path present s (history @ [(q, x)]) entry"
proof -
  note bound = entry_inv_bound [OF assms(1)]
  let ?there = "exists_after present (operations path history)"
  have "operations path (drop j (history @ [(q, x)])) \<noteq> [] \<longleftrightarrow>
      s + j < (if ?there then max (ev_created entry) (ev_updated entry) else ev_deleted entry)"
    if "j \<le> Suc (length history)" for j
    using that assms bound operations_drop_snoc [OF that, of path q x]
    by (cases "j \<le> length history") (auto simp: entry_inv_def Let_def)
  moreover have "\<not> exists_after present (operations path (take j (history @ [(q, x)])))"
    if "s + j < ev_created entry" for j
    using that bound(1) assms(1) by (auto simp: entry_inv_def Let_def)
  ultimately show ?thesis using assms by (auto simp: entry_inv_def Let_def)
qed

text \<open>The part of the invariant that follows from the new entry carrying the number of the event.\<close>

lemma entry_inv_event:
  assumes "entry_inv path present s history entry" "n = Suc (s + length history)"
    "x = Remove \<Longrightarrow> ev_deleted entry' = n \<and> ev_created entry' < n \<and> ev_updated entry' < n"
    "x \<noteq> Remove \<Longrightarrow> ev_deleted entry' = 0 \<and> max (ev_created entry') (ev_updated entry') = n"
    "ev_created entry' = ev_created entry \<or> ev_created entry' = 0 \<or>
     ev_created entry' = n \<and> \<not> present \<and> operations path history = []"
  shows "entry_inv path present s (history @ [(path, x)]) entry'"
proof -
  have none: "operations path (take j history) = []" if "operations path history = []" for j
    using that by (auto simp: operations_def filter_empty_conv dest: in_set_takeD)
  have "\<not> exists_after present (operations path (take j (history @ [(path, x)])))"
    if j: "s + j < ev_created entry'" for j
  proof -
    have "j \<le> length history" using j assms(2,5) entry_inv_bound(1) [OF assms(1)] by auto
    then show ?thesis using j assms(1,5) none [of j] by (auto simp: entry_inv_def Let_def)
  qed
  moreover have "operations path (drop j (history @ [(path, x)])) \<noteq> [] \<longleftrightarrow>
      s + j < (if x \<noteq> Remove then max (ev_created entry') (ev_updated entry') else ev_deleted entry')"
    if "j \<le> Suc (length history)" for j
    using assms(2-4) operations_drop_snoc [OF that, of path path x] that by auto
  ultimately show ?thesis using assms(2-4) by (cases "x = Remove") (auto simp: entry_inv_def Let_def)
qed

lemma entry_inv_apply:
  assumes "entry_inv path present s history entry" "(x = Create) \<noteq> exists_after present (operations path history)"
  shows "entry_inv path present s (history @ [(path, x)]) (apply_operation x (Suc (s + length history)) entry)"
proof (rule entry_inv_event [OF assms(1) refl])
  note bound = entry_inv_bound [OF assms(1)]
  show "ev_deleted (apply_operation x (Suc (s + length history)) entry) = Suc (s + length history) \<and>
      ev_created (apply_operation x (Suc (s + length history)) entry) < Suc (s + length history) \<and>
      ev_updated (apply_operation x (Suc (s + length history)) entry) < Suc (s + length history)" if "x = Remove"
    using that bound by simp
  show "ev_deleted (apply_operation x (Suc (s + length history)) entry) = 0 \<and>
      max (ev_created (apply_operation x (Suc (s + length history)) entry))
        (ev_updated (apply_operation x (Suc (s + length history)) entry)) = Suc (s + length history)" if "x \<noteq> Remove"
    using that assms bound by (cases x) (auto simp: entry_inv_def Let_def)
  show "ev_created (apply_operation x (Suc (s + length history)) entry) = ev_created entry \<or>
      ev_created (apply_operation x (Suc (s + length history)) entry) = 0 \<or>
      ev_created (apply_operation x (Suc (s + length history)) entry) = Suc (s + length history) \<and>
      \<not> present \<and> operations path history = []"
    using assms by (cases x) (auto simp: entry_inv_def Let_def)
qed

lemma entry_inv_root [simp]: "entry_inv path present s history (entry\<lparr>ev_watch_root := b\<rparr>) = entry_inv path present s history entry"
  by (simp add: entry_inv_def)

lemma record_all_inv:
  "el_entries l = Map.empty \<Longrightarrow> el_sequence l + length history < 2 ^ 64 \<Longrightarrow> consistent present (operations path history) \<Longrightarrow>
     entry_inv path present (el_sequence l) history (entry_at (record_all history l) path) \<and>
     el_sequence (record_all history l) = el_sequence l + length history"
proof (induction history rule: rev_induct)
  case Nil
  then show ?case by (simp add: entry_inv_def entry_at_def default_entry_def)
next
  case (snoc y history)
  obtain q x where y: "y = (q, x)" by fastforce
  let ?r = "record_all history l"
  have "consistent present (operations path history)"
    using snoc.prems(3) by (auto simp: y consistent_snoc split: if_splits)
  then have ih: "entry_inv path present (el_sequence l) history (entry_at ?r path)"
      "el_sequence ?r = el_sequence l + length history" using snoc by simp_all
  have n: "(el_sequence ?r + 1) mod 2 ^ 64 = Suc (el_sequence l + length history)" using ih(2) snoc.prems(2) by simp
  show ?case
  proof (cases "q = path")
    case True
    then have "(x = Create) \<noteq> exists_after present (operations path history)"
      using snoc.prems(3) by (simp add: y consistent_snoc)
    then show ?thesis using entry_inv_apply [OF ih(1), of x] n True
      by (simp add: y record_all_append record_event_def Let_def entry_at_def [of "_\<lparr>el_entries := _\<rparr>"])
  next
    case False
    then show ?thesis using entry_inv_other [OF ih(1) False, of x] n
      by (simp add: y record_all_append record_event_def Let_def entry_at_def)
  qed
qed

lemma kind_since_sound:
  assumes "entry_inv path present s history entry" "k \<le> length history"
  shows "(case kind_since entry (s + k) of
        None \<Rightarrow> exists_after present (operations path history) = exists_after present (operations path (take k history))
      | Some EventUpdate \<Rightarrow> exists_after present (operations path history)
      | Some EventDelete \<Rightarrow> \<not> exists_after present (operations path history)) \<and>
    (exists_after present (operations path history) \<and> operations path (drop k history) \<noteq> [] \<longrightarrow>
      kind_since entry (s + k) = Some EventUpdate)"
proof -
  let ?there = "exists_after present (operations path history)"
  have "operations path history = operations path (take k history) @ operations path (drop k history)"
    by (simp add: operations_def flip: map_append filter_append)
  then have same: "operations path (take k history) = operations path history" if "operations path (drop k history) = []"
    using that by simp
  show ?thesis
  proof (cases ?there)
    case True
    then have "operations path (drop k history) \<noteq> [] \<longleftrightarrow> s + k < max (ev_created entry) (ev_updated entry)" "ev_deleted entry = 0"
      using assms by (simp_all add: entry_inv_def Let_def)
    then show ?thesis using True same by (auto simp: kind_since_def)
  next
    case False
    then have "operations path (drop k history) \<noteq> [] \<longleftrightarrow> s + k < ev_deleted entry"
      "ev_created entry \<le> ev_deleted entry" "ev_updated entry \<le> ev_deleted entry"
      "s + k < ev_created entry \<longrightarrow> \<not> exists_after present (operations path (take k history))"
      using assms by (auto simp: entry_inv_def Let_def)
    then show ?thesis using False same by (auto simp: kind_since_def)
  qed
qed

lemma pending_kind: "map_option pe_kind (pending_since start l path) = kind_since (entry_at l path) start"
  by (auto simp: pending_since_def entry_at_def default_entry_def kind_since_def option.map_comp comp_def option.map_ident split: option.split)

text \<open>
  C13. For a history of a directory since the last drain in which no path is created twice or changed
  while it is absent, a subscription that starts anywhere in the history learns the truth about each
  path: an update means that the path is there, a deletion that it is not, and no event that it is there
  exactly if it was there at the start; and a path that is there and was touched is always reported.
\<close>

theorem drained_events_sound:
  assumes "el_entries l = Map.empty" "el_sequence l + length history < 2 ^ 64"
    "consistent present (operations path history)" "k \<le> length history"
    "drain_for_sequences [el_sequence l + k] (record_all history l) = (([batch], error), rest)"
  shows "(case map_option pe_kind (batch path) of
        None \<Rightarrow> exists_after present (operations path history) = exists_after present (operations path (take k history))
      | Some EventUpdate \<Rightarrow> exists_after present (operations path history)
      | Some EventDelete \<Rightarrow> \<not> exists_after present (operations path history)) \<and>
    (exists_after present (operations path history) \<and> operations path (drop k history) \<noteq> [] \<longrightarrow>
      map_option pe_kind (batch path) = Some EventUpdate) \<and>
    \<not> has_pending rest"
proof -
  have "batch = pending_since (el_sequence l + k) (record_all history l)" "\<not> has_pending rest"
    using assms(5) by (auto simp: drain_for_sequences_def has_pending_def)
  then show ?thesis
    using kind_since_sound [OF conjunct1 [OF record_all_inv [OF assms(1-3)]] assms(4)] by (simp add: pending_kind)
qed

definition sample_history :: "(bytes \<times> operation) list" where
  "sample_history = [(''a'', Create), (''b'', Create), (''a'', Remove)]"

definition sample_list :: "unit event_list" where
  "sample_list = record_all sample_history empty_list"

theorem drained_events_sound_witness:
  "map_option pe_kind (pending_since 0 sample_list ''a'') = None \<and>
   map_option pe_kind (pending_since 1 sample_list ''a'') = Some EventDelete \<and>
   \<not> exists_after False (operations ''a'' sample_history)"
proof -
  have e: "map_option pe_kind (pending_since 0 sample_list ''a'') = None"
    "map_option pe_kind (pending_since (0 + 1) sample_list ''a'') = Some EventDelete"
    by (simp_all add: sample_list_def sample_history_def pending_since_def record_event_def Let_def entry_at_def default_entry_def
      empty_list_def kind_since_def)
  have l: "el_entries (empty_list :: unit event_list) = Map.empty" "el_sequence (empty_list :: unit event_list) = 0"
    by (simp_all add: empty_list_def)
  have h: "length sample_history = 3" "consistent False (operations ''a'' sample_history)" by code_simp+
  have "drain_for_sequences [0 + 1] sample_list =
      (([pending_since (0 + 1) sample_list], el_error sample_list), sample_list\<lparr>el_entries := Map.empty, el_error := None\<rparr>)"
    by (simp add: drain_for_sequences_def)
  then have "case map_option pe_kind (pending_since (0 + 1) sample_list ''a'') of
        None \<Rightarrow> exists_after False (operations ''a'' sample_history) = exists_after False (operations ''a'' (take 1 sample_history))
      | Some EventUpdate \<Rightarrow> exists_after False (operations ''a'' sample_history)
      | Some EventDelete \<Rightarrow> \<not> exists_after False (operations ''a'' sample_history)"
    using drained_events_sound [OF l(1), of sample_history False "''a''" 1] h by (simp add: l sample_list_def)
  then have "\<not> exists_after False (operations ''a'' sample_history)" unfolding e(2) by simp
  then show ?thesis using e by simp
qed

text \<open>A history in which an event may carry a sequence number of its own and may be one of the watch root.\<close>

fun record_numbered :: "(bytes \<times> nat option \<times> operation \<times> bool) list \<Rightarrow> 'e event_list \<Rightarrow> 'e event_list" where
  "record_numbered [] l = l"
| "record_numbered ((path, n, operation, root) # history) l = record_numbered history (snd (record_event path n operation root l))"

lemma entry_after_event:
  "el_entries (snd (record_event path n operation root l)) q =
     (if q = path then Some ((\<lambda>e. e\<lparr>ev_watch_root := ev_watch_root e \<or> root\<rparr>)
        (apply_operation operation (fst (record_event path n operation root l)) (entry_at l path)))
      else el_entries l q)"
  by (auto simp: record_event_def Let_def split: option.split)

text \<open>Updates do not touch the number of the deletion.\<close>

lemma updates_keep_deletion:
  "el_entries l path = Some e \<Longrightarrow> list_all (\<lambda>(q, n, operation, root). q = path \<longrightarrow> operation = Update) history \<Longrightarrow>
   \<exists>e'. el_entries (record_numbered history l) path = Some e' \<and> ev_deleted e' = ev_deleted e"
proof (induction history arbitrary: l e)
  case (Cons h history)
  obtain q n operation root where h: "h = (q, n, operation, root)" by (cases h)
  let ?l = "snd (record_event q n operation root l)"
  have "\<exists>e1. el_entries ?l path = Some e1 \<and> ev_deleted e1 = ev_deleted e"
    using Cons.prems h by (cases "q = path") (auto simp: entry_after_event entry_at_def)
  then show ?case using Cons.IH [of ?l] Cons.prems(2) h by fastforce
qed simp

lemma remove_event_at_entry:
  "\<exists>e. el_entries (remove_event_at path s l) path = Some e \<and> ev_deleted e = s"
  by (simp add: remove_event_at_def record_event_def Let_def)

text \<open>
  Updates do not take a deletion back. In any list, once a path is removed with a number \<open>s\<close> behind the
  start of a subscription, as the FSEvents backend does, no number of updates of the path, whatever their numbers and whatever happens
  to other paths, makes the drained list tell the subscription of an update; and when the last update is not
  numbered before the deletion, it tells it of a deletion, though the path was written after it. A creation
  numbered behind the start tells of an update, if the deletion was the latest event of the path.
\<close>

theorem updates_do_not_undo_deletion:
  assumes "start < s" "list_all (\<lambda>(q, n, operation, root). q = path \<longrightarrow> operation = Update) history"
  shows "map_option pe_kind (pending_since start (record_numbered history (remove_event_at path s l)) path) \<noteq> Some EventUpdate \<and>
    (s \<le> t \<longrightarrow> map_option pe_kind (pending_since start
       (update_event_at path t (record_numbered history (remove_event_at path s l))) path) = Some EventDelete) \<and>
    (ev_created (entry_at l path) < s \<and> ev_updated (entry_at l path) < s \<and> start < n \<longrightarrow>
       map_option pe_kind (pending_since start
         (snd (record_event path (Some n) Create root (remove_event_at path s l))) path) = Some EventUpdate)"
proof -
  obtain e0 where "el_entries (remove_event_at path s l) path = Some e0" "ev_deleted e0 = s"
    using remove_event_at_entry [of path s l] by blast
  then obtain e where e: "el_entries (record_numbered history (remove_event_at path s l)) path = Some e" "ev_deleted e = s"
    using updates_keep_deletion [OF _ assms(2), of "remove_event_at path s l" e0] by blast
  have "map_option pe_kind (pending_since start (record_numbered history (remove_event_at path s l)) path) \<noteq> Some EventUpdate"
    using e assms(1) by (simp add: pending_since_def kind_since_def)
  moreover have "map_option pe_kind (pending_since start
       (update_event_at path t (record_numbered history (remove_event_at path s l))) path) = Some EventDelete" if "s \<le> t"
    using e assms(1) that
    by (simp add: pending_since_def update_event_at_def entry_after_event entry_at_def) (simp add: record_event_def kind_since_def)
  moreover have "map_option pe_kind (pending_since start
         (snd (record_event path (Some n) Create root (remove_event_at path s l))) path) = Some EventUpdate"
    if "ev_created (entry_at l path) < s" "ev_updated (entry_at l path) < s" "start < n"
    using that by (simp add: pending_since_def remove_event_at_def record_event_def Let_def entry_at_def kind_since_def)
  ultimately show ?thesis by blast
qed

theorem updates_do_not_undo_deletion_witness:
  "map_option pe_kind (pending_since 0 (update_event_at ''a'' 3 (record_numbered [(''b'', None, Create, False)]
     (remove_event_at ''a'' 2 (empty_list :: unit event_list)))) ''a'') = Some EventDelete"
  using updates_do_not_undo_deletion [where start = 0 and s = 2 and path = "''a''" and t = 3 and n = 0 and root = False and
      history = "[(''b'', None, Create, False)]" and l = "empty_list :: unit event_list"] by simp

end
