(* ===== verification/Base_Proto.thy ===== *)
theory Base_Proto
  imports Strings Interfaces
begin

text \<open>
  The framing of the language server protocol, \<open>crates/tsr_jsonrpc/src/base_proto.rs\<close>: a writer puts a
  \<open>Content-Length\<close> header in front of every payload, and a reader takes the payloads off a stream. A
  stream is the bytes it still has and what comes behind them, the end of the stream or an error of the
  operating system. Interrupted reads are retried by the source and do not show. Of a parse error only
  the kind is kept, not the text that quotes the value.
\<close>

section \<open>Numbers\<close>

text \<open>\<open>{}\<close> of a \<open>usize\<close>, as bytes.\<close>

definition decimal_bytes :: "nat \<Rightarrow> bytes" where
  "decimal_bytes n = map char_of (show_decimal n)"

definition digit_byte :: "byte \<Rightarrow> bool" where
  "digit_byte b \<longleftrightarrow> is_digit (int (byte_val b))"

datatype int_error = InvalidSyntax | OutOfRange

text \<open>
  \<open>str::parse::<i64>\<close>: an optional sign and digits, each of which is checked before the number it makes.
  A byte that is not ASCII becomes a character that is no digit.
\<close>

fun parse_digits :: "int \<Rightarrow> int \<Rightarrow> bytes \<Rightarrow> int_error + int" where
  "parse_digits sign acc [] = Inr acc"
| "parse_digits sign acc (b # bs) =
     (if \<not> digit_byte b then Inl InvalidSyntax
      else let acc = 10 * acc + sign * (int (byte_val b) - 48) in
        if acc < - (2 ^ 63) \<or> 2 ^ 63 - 1 < acc then Inl OutOfRange else parse_digits sign acc bs)"

definition parse_int :: "bytes \<Rightarrow> int_error + int" where
  "parse_int bs =
     (case bs of
        [] \<Rightarrow> Inl InvalidSyntax
      | b # ds \<Rightarrow>
          if b = CHR ''+'' \<and> ds \<noteq> [] then parse_digits 1 0 ds
          else if b = CHR ''-'' \<and> ds \<noteq> [] then parse_digits (- 1) 0 ds
          else parse_digits 1 0 bs)"

definition ascii_space :: "byte \<Rightarrow> bool" where
  "ascii_space b \<longleftrightarrow> byte_val b \<in> {0x20, 0x09, 0x0a, 0x0c, 0x0d}"

definition trim_ascii :: "bytes \<Rightarrow> bytes" where
  "trim_ascii bs = rev (dropWhile ascii_space (rev (dropWhile ascii_space bs)))"

section \<open>Reader and writer\<close>

record 'e stream =
  st_bytes :: bytes
  st_error :: "'e option"

datatype length_error = ParseError int_error | NegativeValue int

datatype 'e content_error = ContentEof | ContentUnexpectedEof | ContentError 'e

datatype 'e proto_error =
    Eof
  | ReadHeader 'e
  | InvalidHeader bytes
  | InvalidContentLength length_error
  | NoContentLength
  | ReadContent "'e content_error"

abbreviation NL :: byte where
  "NL \<equiv> CHR 0x0A"

text \<open>\<open>read_until(b'\n')\<close>: the bytes up to and with the first line feed, or all of them.\<close>

fun read_line :: "bytes \<Rightarrow> bytes \<times> bytes" where
  "read_line [] = ([], [])"
| "read_line (b # bs) = (if b = NL then ([b], bs) else let (line, rest) = read_line bs in (b # line, rest))"

lemma read_line_append: "read_line bs = (line, rest) \<Longrightarrow> bs = line @ rest"
  by (induction bs arbitrary: line) (auto split: if_splits prod.splits)

lemma read_line_shorter: "(line, rest) = read_line bs \<Longrightarrow> line \<noteq> [] \<Longrightarrow> length rest < length bs"
  using read_line_append [of bs line rest] by (cases line) auto

text \<open>The header of one line: the length of the content, or nothing for another header.\<close>

definition header_length :: "bytes \<Rightarrow> 'e proto_error + int option" where
  "header_length line =
     (if \<not> list_ex (\<lambda>b. b = CHR '':'') line then Inl (InvalidHeader line)
      else
        let key = takeWhile (\<lambda>b. b \<noteq> CHR '':'') line;
            val = tl (dropWhile (\<lambda>b. b \<noteq> CHR '':'') line)
        in if key = ''Content-Length''
           then case parse_int (trim_ascii val) of
               Inl error \<Rightarrow> Inl (InvalidContentLength (ParseError error))
             | Inr n \<Rightarrow> if n < 0 then Inl (InvalidContentLength (NegativeValue n)) else Inr (Some n)
           else Inr None)"

text \<open>The loop over the header lines, and what it leaves of the stream.\<close>

function read_headers :: "'e stream \<Rightarrow> int \<Rightarrow> ('e proto_error + int) \<times> 'e stream" where
  "read_headers s content_length =
     (let (line, rest) = read_line (st_bytes s); s' = s\<lparr>st_bytes := rest\<rparr> in
      if line = [] \<or> last line \<noteq> NL
      then (Inl (case st_error s of None \<Rightarrow> Eof | Some error \<Rightarrow> ReadHeader error), s')
      else if line = [CHR 0x0D, NL] then (Inr content_length, s')
      else case header_length line of
          Inl error \<Rightarrow> (Inl error, s')
        | Inr None \<Rightarrow> read_headers s' content_length
        | Inr (Some n) \<Rightarrow> read_headers s' n)"
  by pat_completeness auto
termination
  by (relation "measure (\<lambda>(s, n). length (st_bytes s))") (auto dest: read_line_shorter)

declare read_headers.simps [simp del]

definition read_content :: "nat \<Rightarrow> 'e stream \<Rightarrow> ('e proto_error + bytes) \<times> 'e stream" where
  "read_content n s =
     (if n \<le> length (st_bytes s) then (Inr (take n (st_bytes s)), s\<lparr>st_bytes := drop n (st_bytes s)\<rparr>)
      else
        (Inl (ReadContent (case st_error s of
            Some error \<Rightarrow> ContentError error
          | None \<Rightarrow> if st_bytes s = [] then ContentEof else ContentUnexpectedEof)), s\<lparr>st_bytes := []\<rparr>))"

definition read_message :: "'e stream \<Rightarrow> ('e proto_error + bytes) \<times> 'e stream" where
  "read_message s =
     (case read_headers s 0 of
        (Inl error, s) \<Rightarrow> (Inl error, s)
      | (Inr content_length, s) \<Rightarrow>
          if content_length \<le> 0 then (Inl NoContentLength, s) else read_content (nat content_length) s)"

definition write_message :: "bytes \<Rightarrow> bytes" where
  "write_message data =
     ''Content-Length: '' @ decimal_bytes (length data) @ [CHR 0x0D, NL, CHR 0x0D, NL] @ data"

section \<open>Reading back what was written\<close>

lemma decimal_bytes_digit: "b \<in> set (decimal_bytes n) \<Longrightarrow> digit_byte b"
proof -
  assume "b \<in> set (decimal_bytes n)"
  then obtain c where c: "c \<in> set (show_decimal n)" "b = char_of c" by (auto simp: decimal_bytes_def)
  then have "is_digit c" using show_decimal_canonical [of n] by (auto simp: canonical_decimal_def list_all_iff)
  then show ?thesis using c(2) byte_val_char_of [of c] by (simp add: digit_byte_def is_digit_def)
qed

lemma digit_byte_not:
  assumes "digit_byte b"
  shows "b \<noteq> NL" "b \<noteq> CHR '':''" "\<not> ascii_space b" "b \<noteq> CHR ''+''" "b \<noteq> CHR ''-''"
  using assms by (auto simp: digit_byte_def is_digit_def ascii_space_def)

lemma decimal_bytes_ne: "decimal_bytes n \<noteq> []"
  using show_decimal_canonical [of n] by (simp add: decimal_bytes_def canonical_decimal_def)

lemma parse_digits_show:
  assumes "list_all is_digit ds" "int (decimal_value ds) < 2 ^ 63"
  shows "parse_digits 1 0 (map char_of ds) = Inr (int (decimal_value ds))"
proof -
  have "parse_digits 1 (int (decimal_value pre)) (map char_of ds) = Inr (int (decimal_value (pre @ ds)))"
    if "list_all is_digit ds" "int (decimal_value (pre @ ds)) < 2 ^ 63" for pre
    using that
  proof (induction ds arbitrary: pre)
    case (Cons d ds)
    have d: "48 \<le> d" "d \<le> 57" using Cons.prems(1) by (simp_all add: is_digit_def)
    then have b: "int (byte_val (char_of d)) = d" using byte_val_char_of [of d] by simp
    have v: "10 * int (decimal_value pre) + 1 * (d - 48) = int (decimal_value (pre @ [d]))"
      using d by (simp add: decimal_value_snoc)
    have "decimal_value (pre @ [d]) \<le> decimal_value ((pre @ [d]) @ ds)"
      unfolding decimal_value_append [of "pre @ [d]" ds] by (simp add: trans_le_add1)
    then have r: "\<not> (int (decimal_value (pre @ [d])) < - (2 ^ 63) \<or> 2 ^ 63 - 1 < int (decimal_value (pre @ [d])))"
      using Cons.prems(2) by simp
    have db: "digit_byte (char_of d)" unfolding digit_byte_def b using Cons.prems(1) by simp
    have "parse_digits 1 (int (decimal_value pre)) (map char_of (d # ds)) =
        parse_digits 1 (int (decimal_value (pre @ [d]))) (map char_of ds)"
      unfolding list.map parse_digits.simps Let_def b v using db r by (simp only: not_True_eq_False if_False)
    then show ?case using Cons.IH [of "pre @ [d]"] Cons.prems by simp
  qed simp
  from this [of "[]"] show ?thesis using assms by (simp add: decimal_value_def [of "[]"])
qed

lemma parse_int_decimal:
  assumes "n < 2 ^ 63"
  shows "parse_int (decimal_bytes n) = Inr (int n)"
proof -
  obtain b bs where b: "decimal_bytes n = b # bs" using decimal_bytes_ne by (cases "decimal_bytes n") auto
  then have "b \<noteq> CHR ''+''" "b \<noteq> CHR ''-''" using decimal_bytes_digit [of b n] digit_byte_not(4,5) by auto
  then have "parse_int (decimal_bytes n) = parse_digits 1 0 (decimal_bytes n)" by (simp add: parse_int_def b)
  also have "\<dots> = Inr (int n)"
    using parse_digits_show [of "show_decimal n"] show_decimal_canonical [of n] assms
    by (simp add: decimal_bytes_def canonical_decimal_def)
  finally show ?thesis .
qed

lemma read_line_at: "NL \<notin> set line \<Longrightarrow> read_line (line @ NL # rest) = (line @ [NL], rest)"
  by (induction line) auto

lemma trim_ascii_padded:
  assumes "bs \<noteq> []" "\<not> ascii_space (hd bs)" "\<not> ascii_space (last bs)" "list_all ascii_space pre" "list_all ascii_space post"
  shows "trim_ascii (pre @ bs @ post) = bs"
proof -
  have "dropWhile ascii_space (pre @ bs @ post) = bs @ post"
    using assms(1,2,4) by (cases bs) (auto simp: list_all_iff dropWhile_append2)
  moreover have "dropWhile ascii_space (rev post @ rev bs) = rev bs"
    using assms(1,3,5) dropWhile_append2 [of "rev post" ascii_space "rev bs"]
    by (cases bs rule: rev_cases) (auto simp: list_all_iff)
  ultimately show ?thesis by (simp add: trim_ascii_def)
qed

lemma header_length_written:
  assumes "n < 2 ^ 63"
  shows "header_length (''Content-Length: '' @ decimal_bytes n @ [CHR 0x0D, NL]) = Inr (Some (int n))"
proof -
  let ?d = "decimal_bytes n"
  have d: "\<not> ascii_space (hd ?d)" "\<not> ascii_space (last ?d)"
    using decimal_bytes_ne [of n] decimal_bytes_digit [of _ n] digit_byte_not(3) by (simp_all add: hd_in_set last_in_set)
  have "trim_ascii ([CHR '' ''] @ ?d @ [CHR 0x0D, NL]) = ?d"
    using d by (intro trim_ascii_padded decimal_bytes_ne) (simp_all add: ascii_space_def)
  then show ?thesis using parse_int_decimal [OF assms] by (simp add: header_length_def)
qed

definition length_header :: "nat \<Rightarrow> bytes" where
  "length_header n = ''Content-Length: '' @ decimal_bytes n @ [CHR 0x0D]"

lemma write_message_header: "write_message data = length_header (length data) @ NL # [CHR 0x0D, NL] @ data"
  by (simp add: write_message_def length_header_def)

lemma length_header_line: "NL \<notin> set (length_header n)"
  using decimal_bytes_digit [of NL n] digit_byte_not(1) [of NL] by (auto simp: length_header_def)

lemma read_length_header:
  fixes error :: "'e option"
  assumes "n < 2 ^ 63"
  shows "read_headers \<lparr>st_bytes = length_header n @ NL # rest, st_error = error\<rparr> m =
    read_headers \<lparr>st_bytes = rest, st_error = error\<rparr> (int n)"
proof -
  have "(header_length (length_header n @ [NL]) :: 'e proto_error + int option) = Inr (Some (int n))"
    using header_length_written [OF assms] by (simp add: length_header_def)
  moreover have "length_header n \<noteq> [CHR 0x0D]" by (simp add: length_header_def)
  ultimately show ?thesis using read_line_at [OF length_header_line, of n rest] by (subst read_headers.simps) (simp add: Let_def)
qed

lemma read_blank_line:
  "read_headers \<lparr>st_bytes = [CHR 0x0D, NL] @ rest, st_error = error\<rparr> n = (Inr n, \<lparr>st_bytes = rest, st_error = error\<rparr>)"
  by (subst read_headers.simps) simp

lemma read_partial_line:
  assumes "NL \<notin> set bs"
  shows "fst (read_headers \<lparr>st_bytes = bs, st_error = None\<rparr> n) = Inl Eof"
proof -
  have "read_line bs = (bs, [])" using assms by (induction bs) auto
  moreover have "bs = [] \<or> last bs \<noteq> NL" using assms last_in_set by fastforce
  ultimately show ?thesis by (subst read_headers.simps) simp
qed

lemma read_message_written:
  assumes "data \<noteq> []" "length data < 2 ^ 63"
  shows "read_message \<lparr>st_bytes = write_message data @ rest, st_error = error\<rparr> =
    (Inr data, \<lparr>st_bytes = rest, st_error = error\<rparr>)"
  using assms read_length_header [OF assms(2), of "[CHR 0x0D, NL] @ data @ rest" error 0]
    read_blank_line [of "data @ rest" error "int (length data)"]
  by (simp add: read_message_def read_content_def write_message_header)

definition valid_payload :: "bytes \<Rightarrow> bool" where
  "valid_payload data \<longleftrightarrow> data \<noteq> [] \<and> length data < 2 ^ 63"

definition take_message :: "bytes \<Rightarrow> (bytes \<times> bytes) option" where
  "take_message bs =
     (case read_message \<lparr>st_bytes = bs, st_error = None :: unit option\<rparr> of
        (Inr data, s) \<Rightarrow> Some (data, st_bytes s) | (Inl error, s) \<Rightarrow> None)"

text \<open>The framing is a stream codec: no frame is a prefix of another, and a stream splits in one way.\<close>

lemma read_message_end:
  "read_message \<lparr>st_bytes = [], st_error = error\<rparr> =
     (Inl (case error of None \<Rightarrow> Eof | Some e \<Rightarrow> ReadHeader e), \<lparr>st_bytes = [], st_error = error\<rparr>)"
  by (simp add: read_message_def read_headers.simps)

interpretation framing: stream_codec write_message take_message valid_payload
  by unfold_locales (simp_all add: take_message_def valid_payload_def read_message_written read_message_end)

text \<open>A server's loop: one read after the other.\<close>

fun read_many :: "nat \<Rightarrow> 'e stream \<Rightarrow> ('e proto_error + bytes) list \<times> 'e stream" where
  "read_many 0 s = ([], s)"
| "read_many (Suc n) s = (let (result, s') = read_message s; (results, s'') = read_many n s' in (result # results, s''))"

lemma read_many_written:
  "list_all valid_payload ms \<Longrightarrow>
     read_many (length ms + n) \<lparr>st_bytes = concat (map write_message ms) @ rest, st_error = error\<rparr> =
     (let (results, s) = read_many n \<lparr>st_bytes = rest, st_error = error\<rparr> in (map Inr ms @ results, s))"
proof (induction ms)
  case (Cons m ms)
  then show ?case
    using read_message_written [of m "concat (map write_message ms) @ rest" error]
    by (simp add: valid_payload_def split: prod.split)
qed (simp add: Let_def)

text \<open>
  C15. A stream of frames for nonempty payloads of any content is read back payload by payload, and the
  next read reports the end of the stream or its error; no two lists of payloads give the same stream.
\<close>

theorem frames_roundtrip:
  assumes "list_all valid_payload ms"
  shows "read_many (Suc (length ms)) \<lparr>st_bytes = concat (map write_message ms), st_error = error\<rparr> =
      (map Inr ms @ [Inl (case error of None \<Rightarrow> Eof | Some e \<Rightarrow> ReadHeader e)], \<lparr>st_bytes = [], st_error = error\<rparr>) \<and>
    (list_all valid_payload ms' \<and> concat (map write_message ms') = concat (map write_message ms) \<longrightarrow> ms' = ms)"
proof -
  have "list_all valid_payload ms' \<and> concat (map write_message ms') = concat (map write_message ms) \<longrightarrow> ms' = ms"
    using framing.emit_list_unique [of ms' ms] assms by (simp add: list_all_iff)
  then show ?thesis using read_many_written [OF assms, of 1 "[]" error] by (simp add: read_message_end)
qed

theorem frames_roundtrip_witness:
  "read_many 3 \<lparr>st_bytes = write_message ''{}'' @ write_message ''[1]'', st_error = None :: unit option\<rparr> =
     ([Inr ''{}'', Inr ''[1]'', Inl Eof], \<lparr>st_bytes = [], st_error = None\<rparr>)"
  using frames_roundtrip [of "[''{}'', ''[1]'']" "None :: unit option" "[]"]
  by (simp add: valid_payload_def numeral_3_eq_3 del: read_many.simps)

text \<open>
  C24. No proper beginning of a frame is taken for a message: inside of the header the reader reports the
  end of the stream, behind it that the content is missing or incomplete.
\<close>

theorem truncated_frame_refused:
  assumes "valid_payload data" "i < length (write_message data)"
  shows "fst (read_message \<lparr>st_bytes = take i (write_message data), st_error = None :: 'e option\<rparr>) =
    Inl (if i + length data < length (write_message data) then Eof
         else ReadContent (if i + length data = length (write_message data) then ContentEof else ContentUnexpectedEof))"
proof -
  let ?n = "length data" and ?h = "length_header (length data)"
  let ?read = "\<lambda>bs. fst (read_message \<lparr>st_bytes = bs, st_error = None :: 'e option\<rparr>)"
  have n: "?n < 2 ^ 63" "data \<noteq> []" using assms(1) by (simp_all add: valid_payload_def)
  have len: "length (write_message data) = length ?h + 3 + ?n" by (simp add: write_message_header)
  have eof: "?read bs = Inl Eof" if "fst (read_headers \<lparr>st_bytes = bs, st_error = None :: 'e option\<rparr> 0) = Inl Eof" for bs
    using that by (cases "read_headers \<lparr>st_bytes = bs, st_error = None :: 'e option\<rparr> 0") (simp add: read_message_def)
  consider "i \<le> length ?h" | "i = Suc (length ?h)" | "i = Suc (Suc (length ?h))" | j where "i = length ?h + 3 + j" "j < ?n"
  proof (cases "length ?h + 3 \<le> i")
    case True
    then obtain j where "i = length ?h + 3 + j" using le_Suc_ex by blast
    then show ?thesis using that(4) assms(2) len by simp
  next
    case False
    then show ?thesis using that(1-3) by linarith
  qed
  then show ?thesis
  proof cases
    case 1
    then have "take i (write_message data) = take i ?h" by (simp add: write_message_header)
    moreover have "NL \<notin> set (take i ?h)" using length_header_line [of ?n] by (auto dest: in_set_takeD)
    ultimately show ?thesis using eof [OF read_partial_line] 1 len by simp
  next
    case 2
    then have "take i (write_message data) = ?h @ NL # []" by (simp add: write_message_header)
    moreover have "fst (read_headers \<lparr>st_bytes = ?h @ NL # [], st_error = None :: 'e option\<rparr> 0) = Inl Eof"
      unfolding read_length_header [OF n(1)] by (simp add: read_partial_line)
    ultimately show ?thesis using eof 2 len by simp
  next
    case 3
    then have "take i (write_message data) = ?h @ NL # [CHR 0x0D]" by (simp add: write_message_header)
    moreover have "fst (read_headers \<lparr>st_bytes = ?h @ NL # [CHR 0x0D], st_error = None :: 'e option\<rparr> 0) = Inl Eof"
      unfolding read_length_header [OF n(1)] by (simp add: read_partial_line)
    ultimately show ?thesis using eof 3 len by simp
  next
    case 4
    then have t: "take i (write_message data) = ?h @ NL # [CHR 0x0D, NL] @ take j data"
      by (simp add: write_message_header numeral_3_eq_3)
    have "read_headers \<lparr>st_bytes = ?h @ NL # [CHR 0x0D, NL] @ take j data, st_error = None :: 'e option\<rparr> 0 =
        (Inr (int ?n), \<lparr>st_bytes = take j data, st_error = None\<rparr>)"
      unfolding read_length_header [OF n(1)] read_blank_line ..
    then show ?thesis unfolding t using 4 len n by (auto simp: read_message_def read_content_def)
  qed
qed

theorem truncated_frame_refused_witness:
  "fst (read_message \<lparr>st_bytes = take 20 (write_message ''{}''), st_error = None :: unit option\<rparr>) = Inl Eof"
proof -
  have "length (write_message ''{}'') = 23" by code_simp
  then show ?thesis using truncated_frame_refused [of "''{}''" 20, where ?'e = unit] by (simp add: valid_payload_def)
qed

end
