(* ===== verification/Bfs.thy ===== *)
theory Bfs
  imports Ordered_Map
begin

text \<open>
  The parallel breadth-first search of \<open>crates/tsr_core/src/bfs.rs\<close>. The jobs of a level are an ordered
  map, and every job has a thread of its own: the threads share the visited set and two atomic minima,
  and each has a slot for the jobs it queues. A step of a thread is what happens between two accesses to
  shared state, a compare-and-exchange that fails included; a level is complete when its threads have
  finished, in whatever order they ran. The callbacks are functions; \<open>i64::MAX\<close> marks a minimum that was
  not set. The capacity of the next level is left out.
\<close>

section \<open>Jobs and levels\<close>

datatype 'n job = Job (job_node: 'n) (job_parent: "'n job option")

fun create_path :: "'n job \<Rightarrow> 'n list" where
  "create_path (Job n None) = [n]"
| "create_path (Job n (Some parent)) = n # create_path parent"

definition path_of :: "'n job option \<Rightarrow> 'n list" where
  "path_of job = (case job of None \<Rightarrow> [] | Some j \<Rightarrow> create_path j)"

type_synonym ('k, 'n) level = "('k, 'n job) ordered_map"

text \<open>The arguments and the options of the search.\<close>

record ('k, 'n) search =
  neighbors :: "'n \<Rightarrow> 'n list"
  visit :: "'n \<Rightarrow> bool \<times> bool"
  get_key :: "'n \<Rightarrow> 'k"
  preprocess_level :: "('k, 'n) level \<Rightarrow> ('k, 'n) level"

definition I64_MAX :: int where
  "I64_MAX = 2 ^ 63 - 1"

datatype pc = Started | Adding | Visiting | Goal_Load | Goal_Swap int
  | Fallback_Load | Fallback_Swap int | Checking | Expanding | Finished

record ('k, 'n) level_run =
  lr_pcs :: "pc list"
  lr_goal :: int
  lr_fallback :: int
  lr_visited :: "'k set"
  lr_next :: "'n job list list"

definition level_start :: "'n job list \<Rightarrow> 'k set \<Rightarrow> ('k, 'n) level_run" where
  "level_start jobs visited =
     \<lparr>lr_pcs = replicate (length jobs) Started, lr_goal = I64_MAX, lr_fallback = I64_MAX, lr_visited = visited,
      lr_next = replicate (length jobs) []\<rparr>"

section \<open>A step of a thread\<close>

definition move :: "nat \<Rightarrow> pc \<Rightarrow> ('k, 'n) level_run \<Rightarrow> ('k, 'n) level_run" where
  "move i pc r = r\<lparr>lr_pcs := (lr_pcs r)[i := pc]\<rparr>"

definition add_if_absent :: "nat \<Rightarrow> 'k \<Rightarrow> ('k, 'n) level_run \<Rightarrow> ('k, 'n) level_run" where
  "add_if_absent i key r =
     (if key \<in> lr_visited r then move i Finished r
      else move i Visiting (r\<lparr>lr_visited := insert key (lr_visited r)\<rparr>))"

definition after_visit :: "bool \<Rightarrow> bool \<times> bool \<Rightarrow> pc" where
  "after_visit has_fallback result =
     (case result of (is_result, stop) \<Rightarrow>
        if is_result \<and> stop then Goal_Load
        else if is_result \<and> \<not> has_fallback then Fallback_Load
        else Checking)"

definition children :: "('k, 'n) search \<Rightarrow> 'n job \<Rightarrow> 'n job list" where
  "children s job = map (\<lambda>child. Job child (Some job)) (neighbors s (job_node job))"

definition level_step ::
    "('k, 'n) search \<Rightarrow> bool \<Rightarrow> 'n job list \<Rightarrow> nat \<Rightarrow> ('k, 'n) level_run \<Rightarrow> ('k, 'n) level_run option" where
  "level_step s has_fallback jobs i r =
     (if i < length jobs
      then case lr_pcs r ! i of
          Started \<Rightarrow> Some (move i (if int i \<ge> lr_goal r then Finished else Adding) r)
        | Adding \<Rightarrow> Some (add_if_absent i (get_key s (job_node (jobs ! i))) r)
        | Visiting \<Rightarrow> Some (move i (after_visit has_fallback (visit s (job_node (jobs ! i)))) r)
        | Goal_Load \<Rightarrow> Some (move i (if lr_goal r < int i then Finished else Goal_Swap (lr_goal r)) r)
        | Goal_Swap current \<Rightarrow>
            Some (if lr_goal r = current then move i Finished (r\<lparr>lr_goal := int i\<rparr>) else move i Goal_Load r)
        | Fallback_Load \<Rightarrow> Some (move i (if lr_fallback r < int i then Checking else Fallback_Swap (lr_fallback r)) r)
        | Fallback_Swap current \<Rightarrow>
            Some (if lr_fallback r = current then move i Checking (r\<lparr>lr_fallback := int i\<rparr>) else move i Fallback_Load r)
        | Checking \<Rightarrow> Some (move i (if int i \<ge> lr_goal r then Finished else Expanding) r)
        | Expanding \<Rightarrow> Some (move i Finished (r\<lparr>lr_next := (lr_next r)[i := children s (jobs ! i)]\<rparr>))
        | Finished \<Rightarrow> None
      else None)"

fun level_steps ::
    "('k, 'n) search \<Rightarrow> bool \<Rightarrow> 'n job list \<Rightarrow> nat list \<Rightarrow> ('k, 'n) level_run \<Rightarrow> ('k, 'n) level_run option" where
  "level_steps s has_fallback jobs [] r = Some r"
| "level_steps s has_fallback jobs (i # schedule) r =
     Option.bind (level_step s has_fallback jobs i r) (level_steps s has_fallback jobs schedule)"

section \<open>The result of a level\<close>

record ('k, 'n) level_result =
  res_stop :: bool
  res_job :: "'n job option"
  res_next :: "('k, 'n) level"

definition queue_job :: "('k, 'n) search \<Rightarrow> 'n job \<Rightarrow> ('k, 'n) level \<Rightarrow> ('k, 'n) level" where
  "queue_job s job next =
     (let key = get_key s (job_node job) in
      if om_contains_key next key then next else fst (om_insert next key job))"

text \<open>What \<open>PreprocessLevel\<close> can do to a level: ask for a key, delete one, and look at the nodes in order.\<close>

definition level_has :: "('k, 'n) level \<Rightarrow> 'k \<Rightarrow> bool" where
  "level_has level key = om_contains_key level key"

definition level_delete :: "('k, 'n) level \<Rightarrow> 'k \<Rightarrow> ('k, 'n) level panicking" where
  "level_delete level key = map_option fst (om_remove level key)"

definition level_range :: "('s \<Rightarrow> 'n \<Rightarrow> 's \<times> bool) \<Rightarrow> ('k, 'n) level \<Rightarrow> 's \<Rightarrow> 's panicking" where
  "level_range f level st =
     map_option (\<lambda>jobs. visit_list (\<lambda>st job. f st (job_node job)) jobs st) (om_values_list level)"

definition job_at :: "('k, 'n) level \<Rightarrow> int \<Rightarrow> 'n job option panicking" where
  "job_at level i = map_option (map_option snd) (om_entry_at level i)"

definition choose_result ::
    "('k, 'n) search \<Rightarrow> bool \<Rightarrow> ('k, 'n) level \<Rightarrow> ('k, 'n) level_run \<Rightarrow> ('k, 'n) level_result panicking" where
  "choose_result s has_fallback level r =
     (if lr_goal r \<noteq> I64_MAX
      then map_option (\<lambda>job. \<lparr>res_stop = True, res_job = job, res_next = om_default\<rparr>) (job_at level (lr_goal r))
      else do {
        found \<leftarrow> (if \<not> has_fallback \<and> lr_fallback r \<noteq> I64_MAX then job_at level (lr_fallback r) else Some None);
        Some \<lparr>res_stop = False, res_job = found, res_next = fold (queue_job s) (concat (lr_next r)) om_default\<rparr>
      })"

text \<open>
  The outcomes of \<open>process_level\<close>: one for every schedule that runs all threads to their end. A level has
  fewer jobs than an \<open>i64\<close> can count.
\<close>

inductive process_level ::
    "('k, 'n) search \<Rightarrow> bool \<Rightarrow> ('k, 'n) level \<Rightarrow> 'k set \<Rightarrow> ('k, 'n) level_result \<Rightarrow> 'k set \<Rightarrow> bool" where
  level_complete:
    "om_values_list (preprocess_level s level) = Some jobs \<Longrightarrow> int (length jobs) < I64_MAX \<Longrightarrow>
     level_steps s has_fallback jobs schedule (level_start jobs visited) = Some r \<Longrightarrow>
     list_all (\<lambda>pc. pc = Finished) (lr_pcs r) \<Longrightarrow>
     choose_result s has_fallback (preprocess_level s level) r = Some result \<Longrightarrow>
     process_level s has_fallback level visited result (lr_visited r)"

text \<open>The loop over the levels.\<close>

inductive search_levels ::
    "('k, 'n) search \<Rightarrow> ('k, 'n) level \<Rightarrow> 'n job option \<Rightarrow> 'k set \<Rightarrow> bool \<times> 'n list \<Rightarrow> bool" for s where
  search_empty: "om_is_empty level \<Longrightarrow> search_levels s level fallback visited (False, path_of fallback)"
| search_stop:
    "\<not> om_is_empty level \<Longrightarrow> process_level s (fallback \<noteq> None) level visited result visited' \<Longrightarrow> res_stop result \<Longrightarrow>
     search_levels s level fallback visited (True, path_of (res_job result))"
| search_next:
    "\<not> om_is_empty level \<Longrightarrow> process_level s (fallback \<noteq> None) level visited result visited' \<Longrightarrow> \<not> res_stop result \<Longrightarrow>
     search_levels s (res_next result)
       (if res_job result \<noteq> None \<and> fallback = None then res_job result else fallback) visited' answer \<Longrightarrow>
     search_levels s level fallback visited answer"

definition first_level :: "('k, 'n) search \<Rightarrow> 'n \<Rightarrow> ('k, 'n) level" where
  "first_level s start = fst (om_insert om_default (get_key s start) (Job start None))"

definition breadth_first_search_parallel_ex :: "('k, 'n) search \<Rightarrow> 'k set \<Rightarrow> 'n \<Rightarrow> bool \<times> 'n list \<Rightarrow> bool" where
  "breadth_first_search_parallel_ex s visited start answer \<longleftrightarrow> search_levels s (first_level s start) None visited answer"

definition default_search :: "('n \<Rightarrow> 'n list) \<Rightarrow> ('n \<Rightarrow> bool \<times> bool) \<Rightarrow> ('n, 'n) search" where
  "default_search nb vs = \<lparr>neighbors = nb, visit = vs, get_key = (\<lambda>n. n), preprocess_level = (\<lambda>level. level)\<rparr>"

definition breadth_first_search_parallel ::
    "('n \<Rightarrow> 'n list) \<Rightarrow> ('n \<Rightarrow> bool \<times> bool) \<Rightarrow> 'n \<Rightarrow> bool \<times> 'n list \<Rightarrow> bool" where
  "breadth_first_search_parallel nb vs start answer \<longleftrightarrow>
     breadth_first_search_parallel_ex (default_search nb vs) {} start answer"

section \<open>A level does not depend on its schedule\<close>

text \<open>The keys of a level, and what the jobs whose key was not visited before turn out to be.\<close>

definition job_key :: "('k, 'n) search \<Rightarrow> 'n job list \<Rightarrow> nat \<Rightarrow> 'k" where
  "job_key s jobs i = get_key s (job_node (jobs ! i))"

definition fresh :: "('k, 'n) search \<Rightarrow> 'n job list \<Rightarrow> 'k set \<Rightarrow> nat \<Rightarrow> bool" where
  "fresh s jobs visited i \<longleftrightarrow> i < length jobs \<and> job_key s jobs i \<notin> visited"

definition is_goal :: "('k, 'n) search \<Rightarrow> 'n job list \<Rightarrow> 'k set \<Rightarrow> nat \<Rightarrow> bool" where
  "is_goal s jobs visited i \<longleftrightarrow> fresh s jobs visited i \<and> visit s (job_node (jobs ! i)) = (True, True)"

definition is_fallback :: "('k, 'n) search \<Rightarrow> 'n job list \<Rightarrow> 'k set \<Rightarrow> nat \<Rightarrow> bool" where
  "is_fallback s jobs visited i \<longleftrightarrow> fresh s jobs visited i \<and> visit s (job_node (jobs ! i)) = (True, False)"

definition expanded ::
    "('k, 'n) search \<Rightarrow> bool \<Rightarrow> 'n job list \<Rightarrow> 'k set \<Rightarrow> ('k, 'n) level_run \<Rightarrow> nat \<Rightarrow> bool" where
  "expanded s has_fallback jobs visited r i \<longleftrightarrow>
     fresh s jobs visited i \<and> \<not> is_goal s jobs visited i \<and> job_key s jobs i \<in> lr_visited r \<and>
     (is_fallback s jobs visited i \<and> \<not> has_fallback \<longrightarrow> lr_fallback r \<le> int i)"

definition thread_ok ::
    "('k, 'n) search \<Rightarrow> bool \<Rightarrow> 'n job list \<Rightarrow> 'k set \<Rightarrow> ('k, 'n) level_run \<Rightarrow> nat \<Rightarrow> bool" where
  "thread_ok s has_fallback jobs visited r i \<longleftrightarrow>
     (lr_pcs r ! i \<noteq> Finished \<longrightarrow> lr_next r ! i = []) \<and>
     (case lr_pcs r ! i of
        Started \<Rightarrow> job_key s jobs i \<in> lr_visited r \<longleftrightarrow> job_key s jobs i \<in> visited
      | Adding \<Rightarrow> job_key s jobs i \<in> lr_visited r \<longleftrightarrow> job_key s jobs i \<in> visited
      | Visiting \<Rightarrow> fresh s jobs visited i \<and> job_key s jobs i \<in> lr_visited r
      | Goal_Load \<Rightarrow> is_goal s jobs visited i
      | Goal_Swap current \<Rightarrow> is_goal s jobs visited i \<and> int i \<le> current
      | Fallback_Load \<Rightarrow> is_fallback s jobs visited i \<and> \<not> has_fallback \<and> job_key s jobs i \<in> lr_visited r
      | Fallback_Swap current \<Rightarrow>
          is_fallback s jobs visited i \<and> \<not> has_fallback \<and> job_key s jobs i \<in> lr_visited r \<and> int i \<le> current
      | Checking \<Rightarrow> expanded s has_fallback jobs visited r i
      | Expanding \<Rightarrow> expanded s has_fallback jobs visited r i
      | Finished \<Rightarrow>
          lr_goal r \<le> int i \<or> \<not> fresh s jobs visited i \<and> lr_next r ! i = [] \<or>
          expanded s has_fallback jobs visited r i \<and> lr_next r ! i = children s (jobs ! i))"

definition level_inv ::
    "('k, 'n) search \<Rightarrow> bool \<Rightarrow> 'n job list \<Rightarrow> 'k set \<Rightarrow> ('k, 'n) level_run \<Rightarrow> bool" where
  "level_inv s has_fallback jobs visited r \<longleftrightarrow>
     length (lr_pcs r) = length jobs \<and> length (lr_next r) = length jobs \<and>
     visited \<subseteq> lr_visited r \<and> lr_visited r \<subseteq> visited \<union> job_key s jobs ` {..<length jobs} \<and>
     (lr_goal r = I64_MAX \<or> (\<exists>i. is_goal s jobs visited i \<and> lr_goal r = int i)) \<and>
     (lr_fallback r = I64_MAX \<or> (\<exists>i. is_fallback s jobs visited i \<and> \<not> has_fallback \<and> lr_fallback r = int i)) \<and>
     (\<forall>i < length jobs. thread_ok s has_fallback jobs visited r i)"

lemma level_inv_start: "level_inv s has_fallback jobs visited (level_start jobs visited)"
  by (auto simp: level_inv_def level_start_def thread_ok_def)

text \<open>The other threads do not notice a step.\<close>

lemma thread_ok_stable:
  assumes "thread_ok s hf jobs visited r j" "lr_pcs r' ! j = lr_pcs r ! j" "lr_next r' ! j = lr_next r ! j"
    "lr_goal r' \<le> lr_goal r" "lr_fallback r' \<le> lr_fallback r"
    "job_key s jobs j \<in> lr_visited r' \<longleftrightarrow> job_key s jobs j \<in> lr_visited r"
  shows "thread_ok s hf jobs visited r' j"
proof -
  have "expanded s hf jobs visited r' j" if "expanded s hf jobs visited r j"
    using that assms(5,6) by (auto simp: expanded_def)
  then show ?thesis using assms by (cases "lr_pcs r ! j") (auto simp: thread_ok_def)
qed

text \<open>What a step does to the shared state, and that it keeps its own thread's part of the invariant.\<close>

definition own_step ::
    "('k, 'n) search \<Rightarrow> bool \<Rightarrow> 'n job list \<Rightarrow> 'k set \<Rightarrow> nat \<Rightarrow> ('k, 'n) level_run \<Rightarrow> ('k, 'n) level_run \<Rightarrow> bool" where
  "own_step s hf jobs visited i r r' \<longleftrightarrow>
     length (lr_pcs r') = length (lr_pcs r) \<and> length (lr_next r') = length (lr_next r) \<and>
     (\<forall>j. j \<noteq> i \<longrightarrow> lr_pcs r' ! j = lr_pcs r ! j \<and> lr_next r' ! j = lr_next r ! j) \<and>
     lr_visited r \<subseteq> lr_visited r' \<and> lr_visited r' \<subseteq> insert (job_key s jobs i) (lr_visited r) \<and>
     (lr_goal r' = lr_goal r \<or> is_goal s jobs visited i \<and> lr_goal r' = int i \<and> int i \<le> lr_goal r) \<and>
     (lr_fallback r' = lr_fallback r \<or>
        is_fallback s jobs visited i \<and> \<not> hf \<and> lr_fallback r' = int i \<and> int i \<le> lr_fallback r) \<and>
     thread_ok s hf jobs visited r' i"

lemma move_sel [simp]:
  "lr_pcs (move i pc r) = (lr_pcs r)[i := pc]" "lr_next (move i pc r) = lr_next r" "lr_goal (move i pc r) = lr_goal r"
  "lr_fallback (move i pc r) = lr_fallback r" "lr_visited (move i pc r) = lr_visited r"
  by (simp_all add: move_def)

lemma expanded_move [simp]: "expanded s hf jobs visited (move i pc r) j = expanded s hf jobs visited r j"
  by (simp add: expanded_def)

lemma own_step_level_step:
  assumes "level_inv s hf jobs visited r" "i < length jobs" "level_step s hf jobs i r = Some r'"
  shows "own_step s hf jobs visited i r r'"
proof -
  have len: "i < length (lr_pcs r)" "i < length (lr_next r)" using assms(1,2) by (simp_all add: level_inv_def)
  have ok: "thread_ok s hf jobs visited r i" and sub: "visited \<subseteq> lr_visited r"
    using assms(1,2) by (simp_all add: level_inv_def)
  have nx: "lr_pcs r ! i \<noteq> Finished \<Longrightarrow> lr_next r ! i = []" using ok by (simp add: thread_ok_def)
  note defs = own_step_def thread_ok_def level_step_def
  show ?thesis
  proof (cases "lr_pcs r ! i")
    case Started
    then show ?thesis using assms(2,3) len ok nx by (auto simp: defs)
  next
    case Adding
    then have "job_key s jobs i \<in> lr_visited r \<longleftrightarrow> job_key s jobs i \<in> visited" using ok by (simp add: thread_ok_def)
    then show ?thesis using Adding assms(2,3) len nx
      by (auto simp: defs add_if_absent_def fresh_def job_key_def [symmetric])
  next
    case Visiting
    obtain a b where v: "visit s (job_node (jobs ! i)) = (a, b)" by fastforce
    show ?thesis using Visiting assms(2,3) len ok nx v
      by (cases a; cases b; cases hf) (auto simp: defs after_visit_def is_goal_def is_fallback_def expanded_def)
  next
    case Goal_Load
    then show ?thesis using assms(2,3) len ok nx by (auto simp: defs)
  next
    case (Goal_Swap current)
    then show ?thesis using assms(2,3) len ok nx by (auto simp: defs split: if_splits)
  next
    case Fallback_Load
    then show ?thesis using assms(2,3) len ok nx
      by (auto simp: defs expanded_def is_fallback_def is_goal_def)
  next
    case (Fallback_Swap current)
    then show ?thesis using assms(2,3) len ok nx
      by (auto simp: defs expanded_def is_fallback_def is_goal_def split: if_splits)
  next
    case Checking
    then show ?thesis using assms(2,3) len ok nx by (auto simp: defs)
  next
    case Expanding
    then show ?thesis using assms(2,3) len ok nx by (auto simp: defs expanded_def)
  next
    case Finished
    then show ?thesis using assms(2,3) by (simp add: level_step_def)
  qed
qed

lemma level_inv_step:
  assumes "level_inv s hf jobs visited r" "inj_on (job_key s jobs) {..<length jobs}" "level_step s hf jobs i r = Some r'"
  shows "level_inv s hf jobs visited r'"
proof -
  have i: "i < length jobs" using assms(3) by (auto simp: level_step_def split: if_splits)
  note own = own_step_level_step [OF assms(1) i assms(3), unfolded own_step_def]
  have "thread_ok s hf jobs visited r' j" if j: "j < length jobs" for j
  proof (cases "j = i")
    case False
    then have "job_key s jobs j \<noteq> job_key s jobs i" using assms(2) i j by (auto dest: inj_onD)
    then have "job_key s jobs j \<in> lr_visited r' \<longleftrightarrow> job_key s jobs j \<in> lr_visited r" using own by auto
    moreover have "thread_ok s hf jobs visited r j" using assms(1) j by (simp add: level_inv_def)
    ultimately show ?thesis using own False by (intro thread_ok_stable [of s hf jobs visited r j r']) auto
  qed (use own in simp)
  moreover have "lr_visited r' \<subseteq> visited \<union> job_key s jobs ` {..<length jobs}"
    using own assms(1) i by (auto simp: level_inv_def)
  ultimately show ?thesis using own assms(1) by (auto simp: level_inv_def)
qed

lemma level_inv_steps:
  "level_steps s hf jobs schedule r = Some r' \<Longrightarrow> inj_on (job_key s jobs) {..<length jobs} \<Longrightarrow>
     level_inv s hf jobs visited r \<Longrightarrow> level_inv s hf jobs visited r'"
proof (induction schedule arbitrary: r)
  case (Cons i schedule)
  then obtain r1 where "level_step s hf jobs i r = Some r1" "level_steps s hf jobs schedule r1 = Some r'"
    by (cases "level_step s hf jobs i r") auto
  then show ?case using Cons level_inv_step by blast
qed simp

subsection \<open>The end of a level\<close>

definition first_index :: "(nat \<Rightarrow> bool) \<Rightarrow> nat \<Rightarrow> int" where
  "first_index P n = (case filter P [0..<n] of [] \<Rightarrow> I64_MAX | i # is \<Rightarrow> int i)"

lemma first_index_none: "(\<And>i. i < n \<Longrightarrow> \<not> P i) \<Longrightarrow> first_index P n = I64_MAX"
  by (simp add: first_index_def filter_empty_conv split: list.split)

lemma first_index_some:
  assumes "i < n" "P i" "m \<le> int i" "m = int j" "j < n" "P j" "\<And>k. k < n \<Longrightarrow> P k \<Longrightarrow> m \<le> int k"
  shows "first_index P n = m"
proof -
  have "filter P [0..<n] \<noteq> []" using assms(1,2) by (auto simp: filter_empty_conv)
  then obtain k ks where k: "filter P [0..<n] = k # ks" by (cases "filter P [0..<n]") auto
  have s: "sorted (k # ks)" using sorted_wrt_filter [of "(\<le>)" "[0..<n]" P] k by simp
  have kk: "k \<in> set (filter P [0..<n])" unfolding k by simp
  then have "k < n" "P k" by simp_all
  then have "m \<le> int k" using assms(7) by blast
  moreover have "j \<in> set (filter P [0..<n])" using assms(5,6) by simp
  then have "k \<le> j" using s unfolding k by auto
  ultimately show ?thesis using k assms(4) by (simp add: first_index_def)
qed

lemma level_final:
  assumes "level_inv s hf jobs visited r" "list_all (\<lambda>pc. pc = Finished) (lr_pcs r)" "int (length jobs) < I64_MAX"
  shows "lr_goal r = first_index (is_goal s jobs visited) (length jobs)"
    "lr_goal r = I64_MAX \<Longrightarrow> lr_visited r = visited \<union> job_key s jobs ` {..<length jobs}"
    "lr_goal r = I64_MAX \<Longrightarrow> lr_next r = map (\<lambda>i. if fresh s jobs visited i then children s (jobs ! i) else []) [0..<length jobs]"
    "lr_goal r = I64_MAX \<Longrightarrow> lr_fallback r = (if hf then I64_MAX else first_index (is_fallback s jobs visited) (length jobs))"
proof -
  let ?goal = "is_goal s jobs visited" and ?fb = "is_fallback s jobs visited" and ?n = "length jobs"
  have fin: "lr_pcs r ! i = Finished" if "i < ?n" for i using assms(1,2) that by (simp add: level_inv_def list_all_length)
  have ok: "lr_goal r \<le> int i \<or> \<not> fresh s jobs visited i \<and> lr_next r ! i = [] \<or>
      expanded s hf jobs visited r i \<and> lr_next r ! i = children s (jobs ! i)" if "i < ?n" for i
  proof -
    have "thread_ok s hf jobs visited r i" using assms(1) that by (simp add: level_inv_def)
    then show ?thesis using fin [OF that] by (simp add: thread_ok_def)
  qed
  have lt: "j < ?n" if "?goal j \<or> ?fb j" for j using that by (auto simp: is_goal_def is_fallback_def fresh_def)
  have g: "lr_goal r \<le> int i" if "?goal i" for i
    using ok [of i] lt [of i] that by (auto simp: expanded_def is_goal_def)
  show "lr_goal r = first_index ?goal ?n"
  proof (cases "\<exists>i. ?goal i")
    case True
    then obtain i where i: "?goal i" by blast
    then have "lr_goal r \<noteq> I64_MAX" using g [OF i] lt [of i] assms(3) by auto
    then obtain j where "?goal j" "lr_goal r = int j" using assms(1) by (auto simp: level_inv_def)
    then show ?thesis using i g lt by (intro sym [OF first_index_some [of i _ _ _ j]]) auto
  next
    case False
    then show ?thesis using assms(1) first_index_none [of ?n ?goal] by (auto simp: level_inv_def)
  qed
  assume m: "lr_goal r = I64_MAX"
  then have ended: "\<not> fresh s jobs visited i \<and> lr_next r ! i = [] \<or>
      expanded s hf jobs visited r i \<and> lr_next r ! i = children s (jobs ! i)" if "i < ?n" for i
    using ok [OF that] that assms(3) by auto
  have "job_key s jobs i \<in> lr_visited r" if "i < ?n" for i
    using ended [OF that] assms(1) that by (auto simp: expanded_def fresh_def level_inv_def)
  then show "lr_visited r = visited \<union> job_key s jobs ` {..<?n}" using assms(1) by (auto simp: level_inv_def)
  show "lr_next r = map (\<lambda>i. if fresh s jobs visited i then children s (jobs ! i) else []) [0..<?n]"
  proof (rule nth_equalityI)
    show "length (lr_next r) = length (map (\<lambda>i. if fresh s jobs visited i then children s (jobs ! i) else []) [0..<?n])"
      using assms(1) by (simp add: level_inv_def)
    fix i
    assume "i < length (lr_next r)"
    then have i: "i < ?n" using assms(1) by (simp add: level_inv_def)
    then show "lr_next r ! i = map (\<lambda>i. if fresh s jobs visited i then children s (jobs ! i) else []) [0..<?n] ! i"
      using ended [OF i] by (auto simp: expanded_def)
  qed
  have f: "lr_fallback r \<le> int i" if "?fb i" "\<not> hf" for i
    using ended [of i] lt [of i] that by (auto simp: expanded_def is_fallback_def)
  show "lr_fallback r = (if hf then I64_MAX else first_index ?fb ?n)"
  proof (cases "\<not> hf \<and> (\<exists>i. ?fb i)")
    case True
    then obtain i where i: "?fb i" "\<not> hf" by blast
    then have "lr_fallback r \<noteq> I64_MAX" using f [OF i] lt [of i] assms(3) by auto
    then obtain j where "?fb j" "lr_fallback r = int j" using assms(1) by (auto simp: level_inv_def)
    then have "first_index ?fb ?n = lr_fallback r" using i f lt by (intro first_index_some [of i _ _ _ j]) auto
    then show ?thesis using i(2) by simp
  next
    case False
    then show ?thesis using assms(1) first_index_none [of ?n ?fb] by (auto simp: level_inv_def)
  qed
qed

text \<open>The same level, one job after the other.\<close>

definition sequential_level :: "('k, 'n) search \<Rightarrow> bool \<Rightarrow> 'n job list \<Rightarrow> 'k set \<Rightarrow> ('k, 'n) level_result" where
  "sequential_level s hf jobs visited =
     (case filter (is_goal s jobs visited) [0..<length jobs] of
        i # is \<Rightarrow> \<lparr>res_stop = True, res_job = Some (jobs ! i), res_next = om_default\<rparr>
      | [] \<Rightarrow>
          \<lparr>res_stop = False,
           res_job =
             (if hf then None
              else case filter (is_fallback s jobs visited) [0..<length jobs] of [] \<Rightarrow> None | i # is \<Rightarrow> Some (jobs ! i)),
           res_next = fold (queue_job s)
             (concat (map (\<lambda>i. if fresh s jobs visited i then children s (jobs ! i) else []) [0..<length jobs])) om_default\<rparr>)"

definition level_ok :: "('k, 'n) search \<Rightarrow> ('k, 'n) level \<Rightarrow> bool" where
  "level_ok s level \<longleftrightarrow> om_wf level \<and> (\<forall>(key, job) \<in> set (om_abs level). key = get_key s (job_node job))"

definition level_jobs :: "('k, 'n) level \<Rightarrow> 'n job list" where
  "level_jobs level = map snd (om_abs level)"

lemma level_values: "om_wf level \<Longrightarrow> om_values_list level = Some (level_jobs level)"
  by (simp add: om_values_list_def om_entries_abs level_jobs_def)

lemma level_job_at:
  assumes "om_wf level" "i < length (level_jobs level)"
  shows "job_at level (int i) = Some (Some (level_jobs level ! i))"
  using assms by (simp add: job_at_def om_entry_at_abs level_jobs_def om_len_def om_abs_def)

lemma level_keys_distinct:
  assumes "level_ok s level"
  shows "inj_on (job_key s (level_jobs level)) {..<length (level_jobs level)}"
proof -
  have key: "job_key s (level_jobs level) i = om_keys level ! i" if "i < length (om_keys level)" for i
  proof -
    have i: "i < length (om_abs level)" using that by (simp add: om_abs_def)
    have "\<forall>x \<in> set (om_abs level). fst x = get_key s (job_node (snd x))"
      using assms by (simp add: level_ok_def case_prod_beta)
    then have "fst (om_abs level ! i) = get_key s (job_node (snd (om_abs level ! i)))" by (rule bspec) (rule nth_mem [OF i])
    moreover have "fst (om_abs level ! i) = om_keys level ! i" using that by (simp add: om_abs_def)
    ultimately show ?thesis using i by (simp add: job_key_def level_jobs_def)
  qed
  have d: "distinct (om_keys level)" "length (level_jobs level) = length (om_keys level)"
    using assms by (simp_all add: level_ok_def om_wf_def level_jobs_def om_abs_def)
  show ?thesis
  proof (rule inj_onI)
    fix i j
    assume "i \<in> {..<length (level_jobs level)}" "j \<in> {..<length (level_jobs level)}"
      "job_key s (level_jobs level) i = job_key s (level_jobs level) j"
    then show "i = j" using key [of i] key [of j] d nth_eq_iff_index_eq [of "om_keys level" i j] by simp
  qed
qed

lemma job_keys_image: "job_key s jobs ` {..<length jobs} = get_key s ` job_node ` set jobs"
proof -
  have "set jobs = (!) jobs ` {..<length jobs}" by (auto simp: set_conv_nth)
  then show ?thesis by (simp add: image_image job_key_def)
qed

lemma first_index_cases:
  "first_index P n = (case filter P [0..<n] of [] \<Rightarrow> I64_MAX | i # is \<Rightarrow> int i)"
  by (simp add: first_index_def)

lemma filter_head:
  assumes "filter P [0..<n] = i # is"
  shows "i < n" "P i"
proof -
  have "i \<in> set (filter P [0..<n])" unfolding assms by simp
  then show "i < n" "P i" by simp_all
qed

lemma process_level_sequential:
  assumes "process_level s hf level visited result visited'" "level_ok s (preprocess_level s level)"
  shows "result = sequential_level s hf (level_jobs (preprocess_level s level)) visited"
    "\<not> res_stop result \<Longrightarrow> visited' = visited \<union> get_key s ` job_node ` set (level_jobs (preprocess_level s level))"
proof -
  let ?level = "preprocess_level s level"
  let ?jobs = "level_jobs ?level"
  let ?goals = "filter (is_goal s ?jobs visited) [0..<length ?jobs]"
  let ?fallbacks = "filter (is_fallback s ?jobs visited) [0..<length ?jobs]"
  have wf: "om_wf ?level" using assms(2) by (simp add: level_ok_def)
  obtain schedule r where r: "int (length ?jobs) < I64_MAX" "level_steps s hf ?jobs schedule (level_start ?jobs visited) = Some r"
      "list_all (\<lambda>pc. pc = Finished) (lr_pcs r)" "choose_result s hf ?level r = Some result" "visited' = lr_visited r"
    using assms(1) level_values [OF wf] by (auto elim!: process_level.cases)
  have inv: "level_inv s hf ?jobs visited r"
    using level_inv_steps [OF r(2) level_keys_distinct [OF assms(2)] level_inv_start] .
  note final = level_final [OF inv r(3,1)]
  have small: "int i \<noteq> I64_MAX" if "i < length ?jobs" for i using that r(1) by simp
  have "result = sequential_level s hf ?jobs visited \<and> (\<not> res_stop result \<longrightarrow> lr_goal r = I64_MAX)"
  proof (cases ?goals)
    case (Cons i "is")
    then have "lr_goal r = int i" "i < length ?jobs" using final(1) filter_head [OF Cons] by (simp_all add: first_index_cases)
    then show ?thesis using r(4) small [of i] Cons level_job_at [OF wf, of i]
      by (auto simp: choose_result_def sequential_level_def)
  next
    case Nil
    then have m: "lr_goal r = I64_MAX" using final(1) by (simp add: first_index_cases)
    have "(if \<not> hf \<and> lr_fallback r \<noteq> I64_MAX then job_at ?level (lr_fallback r) else Some None) =
        Some (if hf then None else case ?fallbacks of [] \<Rightarrow> None | i # is \<Rightarrow> Some (?jobs ! i))"
    proof (cases ?fallbacks)
      case Nil
      then show ?thesis using final(4) [OF m] by (simp add: first_index_cases)
    next
      case (Cons i "is")
      then have "i < length ?jobs" using filter_head [OF Cons] by simp
      then show ?thesis using final(4) [OF m] Cons level_job_at [OF wf, of i] small [of i] by (simp add: first_index_cases)
    qed
    then show ?thesis using r(4) m Nil final(3) [OF m] by (simp add: choose_result_def sequential_level_def)
  qed
  then show "result = sequential_level s hf ?jobs visited"
    "\<not> res_stop result \<Longrightarrow> visited' = visited \<union> get_key s ` job_node ` set ?jobs"
    using final(2) r(5) job_keys_image [of s ?jobs] by auto
qed

section \<open>The search does not depend on its schedules\<close>

lemma level_ok_empty [simp]: "level_ok s om_default"
  by (simp add: level_ok_def om.wf_empty om.abs_empty)

lemma level_ok_insert:
  assumes "level_ok s level"
  shows "level_ok s (fst (om_insert level (get_key s (job_node job)) job))"
proof -
  have wf: "om_wf level" using assms by (simp add: level_ok_def)
  have "set (AList.update k v xs) \<subseteq> insert (k, v) (set xs)" for k :: 'a and v :: "'b job" and xs
    by (induction xs) auto
  then have "set (om_abs (fst (om_insert level (get_key s (job_node job)) job))) \<subseteq>
      insert (get_key s (job_node job), job) (set (om_abs level))"
    by (simp add: om.abs_insert [OF wf])
  then show ?thesis using assms om.wf_insert [OF wf, of "get_key s (job_node job)" job]
    by (auto simp: level_ok_def)
qed

lemma level_ok_delete:
  assumes "level_ok s level" "level_delete level key = Some level'"
  shows "level_ok s level'"
proof -
  have wf: "om_wf level" using assms by (simp add: level_ok_def)
  obtain v where "om_remove level key = Some (level', v)" using assms(2) by (auto simp: level_delete_def)
  then have "om_wf level'" "om_abs level' = AList.delete key (om_abs level)" using om.remove_Some [OF wf] by blast+
  then show ?thesis using assms(1) by (auto simp: level_ok_def AList.delete_eq)
qed

lemma level_ok_queue: "level_ok s level \<Longrightarrow> level_ok s (fold (queue_job s) jobs level)"
  by (induction jobs arbitrary: level) (auto simp: queue_job_def Let_def level_ok_insert)

lemma level_ok_next: "level_ok s (res_next (sequential_level s hf jobs visited))"
  by (simp add: sequential_level_def level_ok_queue split: list.split)

lemma level_ok_first: "level_ok s (first_level s start)"
  using level_ok_insert [OF level_ok_empty, of s "Job start None"] by (simp add: first_level_def)

definition keeps_levels :: "('k, 'n) search \<Rightarrow> bool" where
  "keeps_levels s \<longleftrightarrow> (\<forall>level. level_ok s level \<longrightarrow> level_ok s (preprocess_level s level))"

inductive_cases search_levels_cases: "search_levels s level fallback visited answer"

lemma search_levels_deterministic:
  "search_levels s level fallback visited answer \<Longrightarrow> keeps_levels s \<Longrightarrow> level_ok s level \<Longrightarrow>
     search_levels s level fallback visited answer' \<Longrightarrow> answer' = answer"
proof (induction arbitrary: answer' rule: search_levels.induct)
  case (search_empty level fallback visited)
  from search_empty(4) show ?case by (rule search_levels_cases) (use search_empty(1) in auto)
next
  case (search_stop level fallback visited result visited')
  note seq = process_level_sequential [of s "fallback \<noteq> None" level visited]
  have "level_ok s (preprocess_level s level)" using search_stop by (simp add: keeps_levels_def)
  then have r: "result = sequential_level s (fallback \<noteq> None) (level_jobs (preprocess_level s level)) visited"
    "\<And>result' v. process_level s (fallback \<noteq> None) level visited result' v \<Longrightarrow> result' = result"
    using seq search_stop(2) by blast+
  from search_stop(6) show ?case by (rule search_levels_cases) (use search_stop(1,3) r(2) in auto)
next
  case (search_next level fallback visited result visited' answer)
  have ok: "level_ok s (preprocess_level s level)" using search_next by (simp add: keeps_levels_def)
  note seq = process_level_sequential [OF _ ok, of "fallback \<noteq> None" visited]
  have r: "result' = result \<and> v = visited'" if "process_level s (fallback \<noteq> None) level visited result' v" for result' v
    using seq [OF that] seq [OF search_next(2)] search_next(3) by simp
  have "level_ok s (res_next result)" using seq(1) [OF search_next(2)] level_ok_next by simp
  note ih = search_next.IH [OF search_next.prems(1) this]
  from search_next.prems(3) show ?case
    by (rule search_levels_cases) (use search_next(1,3) r ih in \<open>auto split: if_splits\<close>)
qed

text \<open>
  The answer of the search does not depend on the order in which the threads of its levels run: any
  two runs of the same search give the same answer, if the callback that prunes levels only deletes jobs.
\<close>

theorem search_deterministic:
  assumes "keeps_levels s" "breadth_first_search_parallel_ex s visited start answer"
    "breadth_first_search_parallel_ex s visited start answer'"
  shows "answer' = answer"
  using search_levels_deterministic [OF _ assms(1) level_ok_first] assms(2,3)
  by (simp add: breadth_first_search_parallel_ex_def)

section \<open>Every level can be completed\<close>

text \<open>A thread is never blocked, and left alone it finishes.\<close>

definition rank :: "('k, 'n) level_run \<Rightarrow> nat \<Rightarrow> nat" where
  "rank r i =
     (case lr_pcs r ! i of
        Started \<Rightarrow> 10 | Adding \<Rightarrow> 9 | Visiting \<Rightarrow> 8
      | Fallback_Swap current \<Rightarrow> if current = lr_fallback r then 5 else 7
      | Fallback_Load \<Rightarrow> 6 | Checking \<Rightarrow> 4
      | Goal_Swap current \<Rightarrow> if current = lr_goal r then 1 else 3
      | Goal_Load \<Rightarrow> 2 | Expanding \<Rightarrow> 1 | Finished \<Rightarrow> 0)"

lemma thread_moves:
  assumes "i < length jobs" "length (lr_pcs r) = length jobs" "lr_pcs r ! i \<noteq> Finished"
  shows "\<exists>r'. level_step s hf jobs i r = Some r' \<and> rank r' i < rank r i \<and>
    length (lr_pcs r') = length jobs \<and> (\<forall>j. j \<noteq> i \<longrightarrow> lr_pcs r' ! j = lr_pcs r ! j)"
  using assms
  by (cases "lr_pcs r ! i") (auto simp: level_step_def rank_def add_if_absent_def after_visit_def split: prod.split)

lemma thread_finishes:
  "i < length jobs \<Longrightarrow> length (lr_pcs r) = length jobs \<Longrightarrow>
     \<exists>schedule r'. level_steps s hf jobs schedule r = Some r' \<and> lr_pcs r' ! i = Finished \<and>
       length (lr_pcs r') = length jobs \<and> (\<forall>j. j \<noteq> i \<longrightarrow> lr_pcs r' ! j = lr_pcs r ! j)"
proof (induction "rank r i" arbitrary: r rule: less_induct)
  case less
  show ?case
  proof (cases "lr_pcs r ! i = Finished")
    case True
    then show ?thesis using less.prems by (intro exI [of _ "[]"]) simp
  next
    case False
    then obtain r1 where r1: "level_step s hf jobs i r = Some r1" "rank r1 i < rank r i"
        "length (lr_pcs r1) = length jobs" "\<forall>j. j \<noteq> i \<longrightarrow> lr_pcs r1 ! j = lr_pcs r ! j"
      using thread_moves [OF less.prems False, of s hf] by blast
    then obtain schedule r' where "level_steps s hf jobs schedule r1 = Some r'" "lr_pcs r' ! i = Finished"
        "length (lr_pcs r') = length jobs" "\<forall>j. j \<noteq> i \<longrightarrow> lr_pcs r' ! j = lr_pcs r1 ! j"
      using less.hyps [OF r1(2) less.prems(1) r1(3)] by blast
    then show ?thesis using r1 by (intro exI [of _ "i # schedule"]) auto
  qed
qed

lemma level_steps_append:
  "level_steps s hf jobs (a @ b) r = Option.bind (level_steps s hf jobs a r) (level_steps s hf jobs b)"
  by (induction a arbitrary: r) (auto split: bind_splits)

lemma level_finishes:
  assumes "length (lr_pcs r) = length jobs" "n \<le> length jobs"
  shows "\<exists>schedule r'. level_steps s hf jobs schedule r = Some r' \<and> (\<forall>i < n. lr_pcs r' ! i = Finished) \<and>
    length (lr_pcs r') = length jobs"
  using assms(2)
proof (induction n)
  case 0
  then show ?case using assms(1) by (intro exI [of _ "[]"]) simp
next
  case (Suc n)
  then obtain a r1 where a: "level_steps s hf jobs a r = Some r1" "\<forall>i < n. lr_pcs r1 ! i = Finished" "length (lr_pcs r1) = length jobs"
    by auto
  obtain b r2 where b: "level_steps s hf jobs b r1 = Some r2" "lr_pcs r2 ! n = Finished" "length (lr_pcs r2) = length jobs"
      "\<forall>j. j \<noteq> n \<longrightarrow> lr_pcs r2 ! j = lr_pcs r1 ! j"
    using thread_finishes [of n jobs r1 s hf] Suc.prems a(3) by auto
  have "level_steps s hf jobs (a @ b) r = Some r2" using a(1) b(1) by (simp add: level_steps_append)
  then show ?case using a(2) b by (intro exI [of _ "a @ b"]) (auto simp: less_Suc_eq)
qed

lemma process_level_total:
  assumes "level_ok s (preprocess_level s level)" "int (length (level_jobs (preprocess_level s level))) < I64_MAX"
  shows "\<exists>result visited'. process_level s hf level visited result visited'"
proof -
  let ?level = "preprocess_level s level"
  let ?jobs = "level_jobs ?level"
  have wf: "om_wf ?level" using assms(1) by (simp add: level_ok_def)
  obtain schedule r where r: "level_steps s hf ?jobs schedule (level_start ?jobs visited) = Some r"
      "\<forall>i < length ?jobs. lr_pcs r ! i = Finished" "length (lr_pcs r) = length ?jobs"
    using level_finishes [where s = s and hf = hf and jobs = ?jobs and n = "length ?jobs" and r = "level_start ?jobs visited"]
    by (auto simp: level_start_def)
  then have fin: "list_all (\<lambda>pc. pc = Finished) (lr_pcs r)" by (simp add: list_all_length)
  have inv: "level_inv s hf ?jobs visited r"
    using level_inv_steps [OF r(1) level_keys_distinct [OF assms(1)] level_inv_start] .
  have at: "job_at ?level m \<noteq> None" for m using wf by (simp add: job_at_def om_entry_at_abs)
  have "choose_result s hf ?level r \<noteq> None"
    using at [of "lr_goal r"] at [of "lr_fallback r"] by (auto simp: choose_result_def)
  then show ?thesis using level_complete [OF level_values [OF wf] assms(2) r(1) fin] by blast
qed

section \<open>The answer\<close>

text \<open>The nodes that a walk of a given length leads to, and a path from a node back to the start.\<close>

fun reach :: "('n \<Rightarrow> 'n list) \<Rightarrow> 'n \<Rightarrow> nat \<Rightarrow> 'n \<Rightarrow> bool" where
  "reach nb start 0 n \<longleftrightarrow> n = start"
| "reach nb start (Suc d) n \<longleftrightarrow> (\<exists>m. reach nb start d m \<and> n \<in> set (nb m))"

fun back_path :: "('n \<Rightarrow> 'n list) \<Rightarrow> 'n \<Rightarrow> 'n list \<Rightarrow> bool" where
  "back_path nb start [] \<longleftrightarrow> False"
| "back_path nb start [n] \<longleftrightarrow> n = start"
| "back_path nb start (n # m # path) \<longleftrightarrow> n \<in> set (nb m) \<and> back_path nb start (m # path)"

fun valid_job :: "('n \<Rightarrow> 'n list) \<Rightarrow> 'n \<Rightarrow> nat \<Rightarrow> 'n job \<Rightarrow> bool" where
  "valid_job nb start 0 (Job n None) \<longleftrightarrow> n = start"
| "valid_job nb start (Suc d) (Job n (Some p)) \<longleftrightarrow> n \<in> set (nb (job_node p)) \<and> valid_job nb start d p"
| "valid_job nb start d j \<longleftrightarrow> False"

lemma create_path_Cons: "\<exists>rest. create_path j = job_node j # rest"
  by (cases j rule: create_path.cases) auto

lemma valid_job_path:
  "valid_job nb start d j \<Longrightarrow>
     reach nb start d (job_node j) \<and> back_path nb start (create_path j) \<and> length (create_path j) = Suc d \<and> hd (create_path j) = job_node j"
proof (induction nb start d j rule: valid_job.induct)
  case (2 nb start d n p)
  then obtain rest where "create_path p = job_node p # rest" using create_path_Cons by blast
  then show ?case using 2 by auto
qed auto

lemma valid_children:
  "valid_job nb start d job \<Longrightarrow> child \<in> set (children (default_search nb vs) job) \<Longrightarrow> valid_job nb start (Suc d) child"
  by (auto simp: children_def default_search_def)

text \<open>The jobs of the next level: some of those that were queued, one for each of their nodes.\<close>

lemma level_jobs_key: "level_ok s level \<Longrightarrow> get_key s ` job_node ` set (level_jobs level) = set (om_keys level)"
proof -
  assume ok: "level_ok s level"
  have "set (om_keys level) = fst ` set (om_abs level)" by (metis list.set_map map_fst_om_abs)
  also have "\<dots> = (\<lambda>x. get_key s (job_node (snd x))) ` set (om_abs level)"
    using ok by (auto simp: level_ok_def case_prod_beta intro!: image_cong)
  finally show ?thesis by (simp add: level_jobs_def image_image)
qed

lemma queue_job_level:
  assumes "level_ok s level"
  shows "set (level_jobs (queue_job s job level)) \<subseteq> insert job (set (level_jobs level))"
    "set (om_keys (queue_job s job level)) = insert (get_key s (job_node job)) (set (om_keys level))"
proof -
  have wf: "om_wf level" using assms by (simp add: level_ok_def)
  let ?k = "get_key s (job_node job)"
  have c: "om_contains_key level ?k \<longleftrightarrow> ?k \<in> set (om_keys level)"
    using om_wf_key [OF wf, of ?k] by (auto simp: om_contains_key_def)
  have new: "om_insert level ?k job = (level\<lparr>om_keys := om_keys level @ [?k], om_values := (om_values level)(?k \<mapsto> job)\<rparr>, None)"
    if "\<not> om_contains_key level ?k"
    using that by (simp add: om_insert_def om_contains_key_def)
  show "set (om_keys (queue_job s job level)) = insert ?k (set (om_keys level))"
    using c new by (auto simp: queue_job_def Let_def)
  have "set (AList.update k v xs) \<subseteq> insert (k, v) (set xs)" for k :: 'a and v :: "'b job" and xs
    by (induction xs) auto
  then have "set (om_abs (fst (om_insert level ?k job))) \<subseteq> insert (?k, job) (set (om_abs level))"
    by (simp add: om.abs_insert [OF wf])
  then show "set (level_jobs (queue_job s job level)) \<subseteq> insert job (set (level_jobs level))"
    by (auto simp: queue_job_def Let_def level_jobs_def)
qed

lemma queue_jobs_level:
  "level_ok s level \<Longrightarrow>
     set (level_jobs (fold (queue_job s) jobs level)) \<subseteq> set jobs \<union> set (level_jobs level) \<and>
     set (om_keys (fold (queue_job s) jobs level)) = get_key s ` job_node ` set jobs \<union> set (om_keys level)"
proof (induction jobs arbitrary: level)
  case (Cons job jobs)
  have "level_ok s (queue_job s job level)" using level_ok_queue [OF Cons.prems, of "[job]"] by simp
  then show ?case using Cons.IH [of "queue_job s job level"] queue_job_level [OF Cons.prems, of job] by auto
qed simp

text \<open>The state of the search in front of its level number \<open>d\<close>.\<close>

definition search_inv ::
    "('n \<Rightarrow> 'n list) \<Rightarrow> ('n \<Rightarrow> bool \<times> bool) \<Rightarrow> 'n \<Rightarrow> nat \<Rightarrow> ('n, 'n) level \<Rightarrow> 'n job option \<Rightarrow> 'n set \<Rightarrow> bool" where
  "search_inv nb vs start d level fallback visited \<longleftrightarrow>
     level_ok (default_search nb vs) level \<and> (\<forall>j \<in> set (level_jobs level). valid_job nb start d j) \<and>
     (\<forall>n. reach nb start d n \<longrightarrow> n \<in> visited \<or> n \<in> set (om_keys level)) \<and>
     (\<forall>n. n \<in> visited \<longleftrightarrow> (\<exists>e < d. reach nb start e n)) \<and>
     (\<forall>n \<in> visited. vs n \<noteq> (True, True)) \<and>
     (case fallback of
        None \<Rightarrow> \<forall>n \<in> visited. \<not> fst (vs n)
      | Some j \<Rightarrow> fst (vs (job_node j)) \<and>
          (\<exists>f. valid_job nb start f j \<and> (\<forall>e < f. \<forall>n. reach nb start e n \<longrightarrow> \<not> fst (vs n))))"

definition shortest :: "('n \<Rightarrow> 'n list) \<Rightarrow> 'n \<Rightarrow> ('n \<Rightarrow> bool) \<Rightarrow> 'n list \<Rightarrow> bool" where
  "shortest nb start P path \<longleftrightarrow>
     back_path nb start path \<and> P (hd path) \<and> (\<forall>d n. reach nb start d n \<longrightarrow> P n \<longrightarrow> length path \<le> Suc d)"

definition answer_ok :: "('n \<Rightarrow> 'n list) \<Rightarrow> ('n \<Rightarrow> bool \<times> bool) \<Rightarrow> 'n \<Rightarrow> bool \<times> 'n list \<Rightarrow> bool" where
  "answer_ok nb vs start answer \<longleftrightarrow>
     (case answer of
        (True, path) \<Rightarrow> shortest nb start (\<lambda>n. vs n = (True, True)) path
      | (False, path) \<Rightarrow>
          (\<forall>d n. reach nb start d n \<longrightarrow> vs n \<noteq> (True, True)) \<and>
          (if path = [] then \<forall>d n. reach nb start d n \<longrightarrow> \<not> fst (vs n) else shortest nb start (\<lambda>n. fst (vs n)) path))"

lemma search_inv_start:
  "search_inv nb vs start 0 (first_level (default_search nb vs) start) None {}"
proof -
  have "first_level (default_search nb vs) start = \<lparr>om_keys = [start], om_values = [start \<mapsto> Job start None]\<rparr>"
    by (simp add: first_level_def default_search_def om_insert_def om_default_def)
  then show ?thesis using level_ok_first [of "default_search nb vs" start]
    by (simp add: search_inv_def level_jobs_def om_abs_def)
qed

lemma visited_closed:
  assumes "search_inv nb vs start d level fallback visited" "om_keys level = []" "reach nb start e n"
  shows "n \<in> visited"
  using assms(3)
proof (induction e arbitrary: n)
  case 0
  then show ?case using assms(1,2) by (cases d) (auto simp: search_inv_def)
next
  case (Suc e)
  then obtain m where m: "reach nb start e m" "n \<in> set (nb m)" by auto
  then obtain f where f: "f < d" "reach nb start f m" using Suc.IH [OF m(1)] assms(1) by (auto simp: search_inv_def)
  then have r: "reach nb start (Suc f) n" using m(2) by auto
  show ?case
  proof (cases "Suc f = d")
    case True
    then show ?thesis using r assms(1,2) by (auto simp: search_inv_def)
  next
    case False
    then have "Suc f < d" using f(1) by simp
    then show ?thesis using r assms(1) unfolding search_inv_def by blast
  qed
qed

lemma answer_empty:
  assumes "search_inv nb vs start d level fallback visited" "om_is_empty level"
  shows "answer_ok nb vs start (False, path_of fallback)"
proof -
  have all: "n \<in> visited" if "reach nb start e n" for e n
    using visited_closed [OF assms(1) _ that] assms(2) by (simp add: om_is_empty_def)
  have no: "\<forall>e n. reach nb start e n \<longrightarrow> vs n \<noteq> (True, True)" using all assms(1) unfolding search_inv_def by blast
  show ?thesis
  proof (cases fallback)
    case None
    then have "\<forall>n \<in> visited. \<not> fst (vs n)" using assms(1) by (simp add: search_inv_def)
    then show ?thesis using None no all by (auto simp: answer_ok_def path_of_def)
  next
    case (Some j)
    then obtain f where f: "fst (vs (job_node j))" "valid_job nb start f j" "\<forall>e < f. \<forall>n. reach nb start e n \<longrightarrow> \<not> fst (vs n)"
      using assms(1) by (auto simp: search_inv_def)
    note p = valid_job_path [OF f(2)]
    have "length (create_path j) \<le> Suc e" if "reach nb start e n" "fst (vs n)" for e n
      using f(3) that p by (metis Suc_le_mono not_le)
    then show ?thesis using Some no f(1) p by (auto simp: answer_ok_def path_of_def shortest_def)
  qed
qed

lemma default_search_sel [simp]:
  "neighbors (default_search nb vs) = nb" "visit (default_search nb vs) = vs" "get_key (default_search nb vs) = (\<lambda>n. n)"
  "preprocess_level (default_search nb vs) = (\<lambda>level. level)"
  by (simp_all add: default_search_def)

lemma answer_stop:
  assumes "search_inv nb vs start d level fallback visited"
    "res_stop (sequential_level (default_search nb vs) hf (level_jobs level) visited)"
  shows "answer_ok nb vs start (True, path_of (res_job (sequential_level (default_search nb vs) hf (level_jobs level) visited)))"
proof -
  let ?s = "default_search nb vs" and ?jobs = "level_jobs level"
  obtain i "is" where f: "filter (is_goal ?s ?jobs visited) [0..<length ?jobs] = i # is"
    using assms(2) by (auto simp: sequential_level_def split: list.splits)
  then have i: "i < length ?jobs" "vs (job_node (?jobs ! i)) = (True, True)"
    using filter_head [OF f] by (simp_all add: is_goal_def)
  then have "valid_job nb start d (?jobs ! i)" using assms(1) by (simp add: search_inv_def)
  note p = valid_job_path [OF this]
  have "length (create_path (?jobs ! i)) \<le> Suc e" if "reach nb start e n" "vs n = (True, True)" for e n
  proof -
    have "\<not> e < d" using that assms(1) unfolding search_inv_def by blast
    then show ?thesis using p by simp
  qed
  then show ?thesis using f i(2) p by (auto simp: sequential_level_def answer_ok_def shortest_def path_of_def)
qed

lemma fresh_default:
  "fresh (default_search nb vs) jobs visited i \<longleftrightarrow> i < length jobs \<and> job_node (jobs ! i) \<notin> visited"
  by (simp add: fresh_def job_key_def)

lemma sequential_next:
  assumes "\<not> res_stop (sequential_level (default_search nb vs) hf jobs visited)"
  shows "\<And>j. j \<in> set jobs \<Longrightarrow> job_node j \<notin> visited \<Longrightarrow> vs (job_node j) \<noteq> (True, True)"
    "set (om_keys (res_next (sequential_level (default_search nb vs) hf jobs visited))) =
      (\<Union>j \<in> {j \<in> set jobs. job_node j \<notin> visited}. set (nb (job_node j)))"
    "set (level_jobs (res_next (sequential_level (default_search nb vs) hf jobs visited))) \<subseteq>
      (\<Union>j \<in> {j \<in> set jobs. job_node j \<notin> visited}. set (children (default_search nb vs) j))"
    "hf \<Longrightarrow> res_job (sequential_level (default_search nb vs) hf jobs visited) = None"
    "\<not> hf \<Longrightarrow> res_job (sequential_level (default_search nb vs) hf jobs visited) = None \<Longrightarrow>
      j \<in> set jobs \<Longrightarrow> job_node j \<notin> visited \<Longrightarrow> \<not> fst (vs (job_node j))"
    "res_job (sequential_level (default_search nb vs) hf jobs visited) = Some j \<Longrightarrow> j \<in> set jobs \<and> fst (vs (job_node j))"
proof -
  let ?s = "default_search nb vs" and ?n = "length jobs"
  let ?queued = "concat (map (\<lambda>i. if fresh ?s jobs visited i then children ?s (jobs ! i) else []) [0..<?n])"
  have g: "filter (is_goal ?s jobs visited) [0..<?n] = []"
    using assms by (auto simp: sequential_level_def split: list.splits)
  have nogoal: "vs (job_node j) \<noteq> (True, True)" if j: "j \<in> set jobs" "job_node j \<notin> visited" for j
  proof -
    obtain i where i: "i < ?n" "jobs ! i = j" using j(1) by (auto simp: in_set_conv_nth)
    then have "\<not> is_goal ?s jobs visited i" using g by (auto simp: filter_empty_conv)
    then show ?thesis using i j(2) by (auto simp: is_goal_def fresh_default)
  qed
  show "\<And>j. j \<in> set jobs \<Longrightarrow> job_node j \<notin> visited \<Longrightarrow> vs (job_node j) \<noteq> (True, True)" by (rule nogoal)
  have nx: "res_next (sequential_level ?s hf jobs visited) = fold (queue_job ?s) ?queued om_default"
    using g by (simp add: sequential_level_def)
  have q: "set ?queued = (\<Union>j \<in> {j \<in> set jobs. job_node j \<notin> visited}. set (children ?s j))"
    by (auto simp: fresh_default in_set_conv_nth split: if_splits) metis
  have d: "set (om_keys om_default) = {}" "set (level_jobs om_default) = {}" by (simp_all add: om_default_def level_jobs_def om_abs_def)
  obtain queued where qd: "queued = ?queued" by blast
  note lv = queue_jobs_level [OF level_ok_empty, of ?s queued, unfolded d Un_empty_right]
  note nx' = nx [folded qd] and q' = q [folded qd]
  have "set (om_keys (fold (queue_job ?s) queued om_default)) = job_node ` set queued" using lv by simp
  then show "set (om_keys (res_next (sequential_level ?s hf jobs visited))) =
      (\<Union>j \<in> {j \<in> set jobs. job_node j \<notin> visited}. set (nb (job_node j)))"
    unfolding nx' q' by (auto simp: children_def image_UN image_image)
  show "set (level_jobs (res_next (sequential_level ?s hf jobs visited))) \<subseteq>
      (\<Union>j \<in> {j \<in> set jobs. job_node j \<notin> visited}. set (children ?s j))"
    using lv unfolding nx' q' by blast
  show "hf \<Longrightarrow> res_job (sequential_level ?s hf jobs visited) = None" using g by (simp add: sequential_level_def)
  show "\<not> fst (vs (job_node j))" if h: "\<not> hf" "res_job (sequential_level ?s hf jobs visited) = None"
      "j \<in> set jobs" "job_node j \<notin> visited"
  proof -
    have "filter (is_fallback ?s jobs visited) [0..<?n] = []"
      using h(1,2) g by (auto simp: sequential_level_def split: list.splits)
    moreover obtain i where i: "i < ?n" "jobs ! i = j" using h(3) by (auto simp: in_set_conv_nth)
    ultimately have "\<not> is_fallback ?s jobs visited i" by (auto simp: filter_empty_conv)
    then show ?thesis using i h(3,4) nogoal [of j] by (cases "vs (job_node j)") (auto simp: is_fallback_def fresh_default)
  qed
  show "j \<in> set jobs \<and> fst (vs (job_node j))" if h: "res_job (sequential_level ?s hf jobs visited) = Some j"
  proof -
    obtain i "is" where f: "filter (is_fallback ?s jobs visited) [0..<?n] = i # is" "j = jobs ! i"
      using h g by (auto simp: sequential_level_def split: list.splits if_splits)
    then show ?thesis using filter_head [OF f(1)] by (simp add: is_fallback_def)
  qed
qed

lemma search_inv_next:
  assumes inv: "search_inv nb vs start d level fallback visited"
    and r: "r = sequential_level (default_search nb vs) (fallback \<noteq> None) (level_jobs level) visited" and go: "\<not> res_stop r"
  shows "search_inv nb vs start (Suc d) (res_next r)
    (if res_job r \<noteq> None \<and> fallback = None then res_job r else fallback) (visited \<union> job_node ` set (level_jobs level))"
proof -
  note nx = sequential_next [OF go [unfolded r], folded r]
  have keys: "set (om_keys level) = job_node ` set (level_jobs level)"
    using level_jobs_key [of "default_search nb vs" level] inv by (simp add: search_inv_def)
  have valid: "\<And>j. j \<in> set (level_jobs level) \<Longrightarrow> valid_job nb start d j"
    and cover: "\<And>n. reach nb start d n \<Longrightarrow> n \<in> visited \<or> n \<in> job_node ` set (level_jobs level)"
    and seen: "\<And>n. n \<in> visited \<longleftrightarrow> (\<exists>e < d. reach nb start e n)"
    and nogoal: "\<And>n. n \<in> visited \<Longrightarrow> vs n \<noteq> (True, True)"
    using inv unfolding search_inv_def keys by blast+
  have seen': "n \<in> visited \<union> job_node ` set (level_jobs level) \<longleftrightarrow> (\<exists>e < Suc d. reach nb start e n)" for n
  proof -
    have "reach nb start d (job_node j)" if "j \<in> set (level_jobs level)" for j
      using valid_job_path [OF valid [OF that]] by simp
    then show ?thesis using seen [of n] cover [of n] by (auto simp: less_Suc_eq)
  qed
  have "level_ok (default_search nb vs) (res_next r)" unfolding r by (rule level_ok_next)
  moreover have "\<forall>j \<in> set (level_jobs (res_next r)). valid_job nb start (Suc d) j"
  proof
    fix j
    assume "j \<in> set (level_jobs (res_next r))"
    then obtain p where "p \<in> set (level_jobs level)" "j \<in> set (children (default_search nb vs) p)" using nx(3) by blast
    then show "valid_job nb start (Suc d) j" by (intro valid_children [OF valid])
  qed
  moreover have "n \<in> visited \<union> job_node ` set (level_jobs level) \<or> n \<in> set (om_keys (res_next r))"
    if h: "reach nb start (Suc d) n" for n
  proof -
    obtain m where m: "reach nb start d m" "n \<in> set (nb m)" using h by auto
    show ?thesis
    proof (cases "m \<in> visited")
      case True
      then obtain e where "e < d" "reach nb start e m" using seen by blast
      then have "reach nb start (Suc e) n" "Suc e < Suc d" using m(2) by auto
      then show ?thesis using seen' by blast
    next
      case False
      then show ?thesis using cover [OF m(1)] m(2) unfolding nx(2) by auto
    qed
  qed
  moreover have "\<forall>n \<in> visited \<union> job_node ` set (level_jobs level). vs n \<noteq> (True, True)" using nx(1) nogoal by blast
  moreover have "case (if res_job r \<noteq> None \<and> fallback = None then res_job r else fallback) of
        None \<Rightarrow> \<forall>n \<in> visited \<union> job_node ` set (level_jobs level). \<not> fst (vs n)
      | Some j \<Rightarrow> fst (vs (job_node j)) \<and>
          (\<exists>f. valid_job nb start f j \<and> (\<forall>e < f. \<forall>n. reach nb start e n \<longrightarrow> \<not> fst (vs n)))"
  proof (cases fallback)
    case (Some j)
    then show ?thesis using inv by (simp add: search_inv_def)
  next
    case None
    then have no: "\<And>n. n \<in> visited \<Longrightarrow> \<not> fst (vs n)" using inv by (simp add: search_inv_def)
    show ?thesis
    proof (cases "res_job r")
      case (Some j)
      then have "j \<in> set (level_jobs level)" "fst (vs (job_node j))" using nx(6) by blast+
      then show ?thesis using Some None valid no seen by auto
    next
      case none: None
      then have "\<not> fst (vs (job_node j))" if "j \<in> set (level_jobs level)" "job_node j \<notin> visited" for j
        using nx(5) [OF _ none that] None by simp
      then have "\<forall>n \<in> visited \<union> job_node ` set (level_jobs level). \<not> fst (vs n)" using no by blast
      then show ?thesis using none None by simp
    qed
  qed
  ultimately show ?thesis unfolding search_inv_def by (intro conjI allI impI seen') blast+
qed

lemma search_levels_answer:
  "search_levels (default_search nb vs) level fallback visited answer \<Longrightarrow>
     search_inv nb vs start d level fallback visited \<Longrightarrow> answer_ok nb vs start answer"
proof (induction arbitrary: d rule: search_levels.induct)
  case (search_empty level fallback visited)
  then show ?case by (rule answer_empty [rotated])
next
  case (search_stop level fallback visited result visited')
  have "level_ok (default_search nb vs) (preprocess_level (default_search nb vs) level)"
    using search_stop.prems by (simp add: search_inv_def)
  then show ?case
    using process_level_sequential(1) [OF search_stop(2)] answer_stop [OF search_stop.prems, of "fallback \<noteq> None"] search_stop(3)
    by simp
next
  case (search_next level fallback visited result visited' answer)
  let ?s = "default_search nb vs"
  have ok: "level_ok ?s (preprocess_level ?s level)" using search_next.prems by (simp add: search_inv_def)
  have r: "result = sequential_level ?s (fallback \<noteq> None) (level_jobs level) visited"
    "visited' = visited \<union> job_node ` set (level_jobs level)"
    using process_level_sequential [OF search_next(2) ok] search_next(3) by simp_all
  show ?case
    using search_next.IH [of "Suc d"] search_inv_next [OF search_next.prems r(1) search_next(3)] unfolding r(2) by simp
qed

section \<open>Every run ends\<close>

text \<open>
  The steps that a thread has left in a level of \<open>n\<close> jobs. A compare-and-exchange that succeeds can make each
  of the other threads repeat theirs, so that a thread pays for the repetitions when its own succeeds.
\<close>

definition work :: "nat \<Rightarrow> ('k, 'n) level_run \<Rightarrow> nat \<Rightarrow> nat" where
  "work n r i =
     (case lr_pcs r ! i of
        Started \<Rightarrow> 2 * n + 7 | Adding \<Rightarrow> 2 * n + 6 | Visiting \<Rightarrow> 2 * n + 5
      | Fallback_Swap current \<Rightarrow> if current = lr_fallback r then 2 * n + 2 else 2 * n + 4
      | Fallback_Load \<Rightarrow> 2 * n + 3 | Checking \<Rightarrow> 2
      | Goal_Swap current \<Rightarrow> if current = lr_goal r then 2 * n else 2 * n + 2
      | Goal_Load \<Rightarrow> 2 * n + 1 | Expanding \<Rightarrow> 1 | Finished \<Rightarrow> 0)"

lemma work_other:
  "lr_pcs r' ! j = lr_pcs r ! j \<Longrightarrow> work n r' j \<le> work n r j + 2"
  "lr_pcs r' ! j = lr_pcs r ! j \<Longrightarrow> lr_goal r' = lr_goal r \<Longrightarrow> lr_fallback r' = lr_fallback r \<Longrightarrow> work n r' j = work n r j"
  by (cases "lr_pcs r ! j"; simp add: work_def)+

lemma work_own:
  assumes "level_step s hf jobs i r = Some r'" "i < length jobs" "length (lr_pcs r) = length jobs"
  shows "(lr_goal r' = lr_goal r \<and> lr_fallback r' = lr_fallback r \<and> work n r' i < work n r i \<or> work n r' i + 2 * n \<le> work n r i) \<and>
    (\<forall>j. j \<noteq> i \<longrightarrow> lr_pcs r' ! j = lr_pcs r ! j)"
proof (cases "lr_pcs r ! i")
  case Visiting
  obtain a b where "visit s (job_node (jobs ! i)) = (a, b)" by fastforce
  then show ?thesis using Visiting assms by (cases a; cases b; cases hf) (auto simp: level_step_def work_def after_visit_def)
next
  case Started
  then show ?thesis using assms by (auto simp: level_step_def work_def)
next
  case Adding
  then show ?thesis using assms by (auto simp: level_step_def work_def add_if_absent_def)
next
  case Checking
  then show ?thesis using assms by (auto simp: level_step_def work_def)
next
  case (Goal_Swap current)
  then show ?thesis using assms by (cases "lr_goal r = current") (auto simp: level_step_def work_def)
next
  case (Fallback_Swap current)
  then show ?thesis using assms by (cases "lr_fallback r = current") (auto simp: level_step_def work_def)
next
  case Goal_Load
  then show ?thesis using assms by (auto simp: level_step_def work_def)
next
  case Fallback_Load
  then show ?thesis using assms by (auto simp: level_step_def work_def)
next
  case Expanding
  then show ?thesis using assms by (auto simp: level_step_def work_def)
qed (use assms in \<open>simp add: level_step_def\<close>)

lemma work_step:
  assumes "level_step s hf jobs i r = Some r'" "i < length jobs" "length (lr_pcs r) = length jobs"
  shows "\<exists>c. (\<forall>j. j \<noteq> i \<longrightarrow> work n r' j \<le> work n r j + c) \<and> work n r' i + c * n < work n r i + c"
proof -
  note own = work_own [OF assms, of n]
  show ?thesis
  proof (cases "lr_goal r' = lr_goal r \<and> lr_fallback r' = lr_fallback r \<and> work n r' i < work n r i")
    case True
    then show ?thesis using own work_other(2) [of r' _ r n] by (intro exI [of _ 0]) auto
  next
    case False
    then have "work n r' i + 2 * n \<le> work n r i" using own by blast
    then show ?thesis using own work_other(1) [of r' _ r n] by (intro exI [of _ 2]) auto
  qed
qed

lemma level_step_length: "level_step s hf jobs i r = Some r' \<Longrightarrow> i < length jobs \<and> length (lr_pcs r') = length (lr_pcs r)"
  by (auto simp: level_step_def add_if_absent_def split: if_splits pc.splits)

lemma total_work_step:
  assumes "level_step s hf jobs i r = Some r'" "length (lr_pcs r) = length jobs"
  shows "(\<Sum>j < length jobs. work (length jobs) r' j) < (\<Sum>j < length jobs. work (length jobs) r j)"
proof -
  let ?n = "length jobs" and ?rest = "{..<length jobs} - {i}"
  have i: "i < ?n" using level_step_length [OF assms(1)] by simp
  then obtain c where c: "\<forall>j. j \<noteq> i \<longrightarrow> work ?n r' j \<le> work ?n r j + c" "work ?n r' i + c * ?n < work ?n r i + c"
    using work_step [OF assms(1) _ assms(2), of ?n] by blast
  have "(\<Sum>j \<in> ?rest. work ?n r' j) \<le> (\<Sum>j \<in> ?rest. work ?n r j + c)" using c(1) by (intro sum_mono) simp
  also have "\<dots> = (\<Sum>j \<in> ?rest. work ?n r j) + c * (?n - 1)" using i by (simp add: sum.distrib)
  finally have "(\<Sum>j \<in> ?rest. work ?n r' j) + c \<le> (\<Sum>j \<in> ?rest. work ?n r j) + c * ?n"
    using i by (cases ?n) simp_all
  moreover have "(\<Sum>j < ?n. work ?n q j) = work ?n q i + (\<Sum>j \<in> ?rest. work ?n q j)" for q :: "('a, 'b) level_run"
    using i by (simp add: sum.remove)
  ultimately show ?thesis using c(2) by simp
qed

lemma schedule_length:
  "level_steps s hf jobs schedule r = Some r' \<Longrightarrow> length (lr_pcs r) = length jobs \<Longrightarrow>
     length schedule + (\<Sum>j < length jobs. work (length jobs) r' j) \<le> (\<Sum>j < length jobs. work (length jobs) r j)"
proof (induction schedule arbitrary: r)
  case (Cons i schedule)
  then obtain r1 where r1: "level_step s hf jobs i r = Some r1" "level_steps s hf jobs schedule r1 = Some r'"
    by (cases "level_step s hf jobs i r") auto
  then show ?case
    using Cons.IH [OF r1(2)] total_work_step [OF r1(1) Cons.prems(2)] level_step_length [OF r1(1)] Cons.prems(2) by simp
qed simp

text \<open>
  C14. However the threads of a level are scheduled, the level ends: no schedule is longer than \<open>n * (2 * n + 7)\<close>
  steps for \<open>n\<close> jobs, compare-and-exchange retries included, and whenever a schedule has left a thread that
  has not finished, that thread can take its next step.
\<close>

theorem level_schedules_end:
  assumes "level_steps s has_fallback jobs schedule (level_start jobs visited) = Some r"
  shows "length schedule \<le> length jobs * (2 * length jobs + 7) \<and>
    (\<forall>i < length jobs. lr_pcs r ! i \<noteq> Finished \<longrightarrow> level_step s has_fallback jobs i r \<noteq> None)"
proof -
  have "length schedule + (\<Sum>j < length jobs. work (length jobs) r j) \<le>
      (\<Sum>j < length jobs. work (length jobs) (level_start jobs visited) j)"
    by (rule schedule_length [OF assms]) (simp add: level_start_def)
  also have "\<dots> = (\<Sum>j < length jobs. 2 * length jobs + 7)" by (rule sum.cong) (simp_all add: work_def level_start_def)
  finally have "length schedule \<le> length jobs * (2 * length jobs + 7)" by simp
  moreover have "level_step s has_fallback jobs i r \<noteq> None" if "i < length jobs" "lr_pcs r ! i \<noteq> Finished" for i
    using that by (cases "lr_pcs r ! i") (simp_all add: level_step_def)
  ultimately show ?thesis by blast
qed

theorem level_schedules_end_witness:
  "length [0, 0, 0, 0, 0 :: nat] \<le> 1 * (2 * 1 + 7) \<and>
    level_steps (default_search (\<lambda>n. [Suc n]) (\<lambda>n. (False, False))) False [Job 0 None] [0, 0, 0, 0, 0]
      (level_start [Job 0 None] {}) =
    Some \<lparr>lr_pcs = [Finished], lr_goal = I64_MAX, lr_fallback = I64_MAX, lr_visited = {0},
      lr_next = [[Job (Suc 0) (Some (Job 0 None))]]\<rparr>"
proof -
  have "level_steps (default_search (\<lambda>n. [Suc n]) (\<lambda>n. (False, False))) False [Job 0 None] [0, 0, 0, 0, 0]
      (level_start [Job 0 None] {}) =
    Some \<lparr>lr_pcs = [Finished], lr_goal = I64_MAX, lr_fallback = I64_MAX, lr_visited = {0},
      lr_next = [[Job (Suc 0) (Some (Job 0 None))]]\<rparr>"
    by (simp add: level_steps.simps level_step_def level_start_def move_def add_if_absent_def after_visit_def children_def
        I64_MAX_def)
  from this level_schedules_end [OF this] show ?thesis by simp
qed

text \<open>The levels of a finite graph: every level that visits something leaves less to visit.\<close>

lemma search_levels_total:
  assumes "finite R" "int (card R) < I64_MAX" "\<And>d n. reach nb start d n \<Longrightarrow> n \<in> R"
  shows "search_inv nb vs start d level fallback visited \<Longrightarrow> \<exists>answer. search_levels (default_search nb vs) level fallback visited answer"
proof (induction "card (R - visited)" arbitrary: d level fallback visited rule: less_induct)
  case less
  let ?s = "default_search nb vs" and ?jobs = "level_jobs level"
  have ok: "level_ok ?s (preprocess_level ?s level)" and valid: "\<forall>j \<in> set ?jobs. valid_job nb start d j"
    and seen: "\<forall>n. n \<in> visited \<longleftrightarrow> (\<exists>e < d. reach nb start e n)"
    using less.prems unfolding search_inv_def by simp_all
  have nodes: "job_node ` set ?jobs \<subseteq> R" using valid valid_job_path assms(3) by fastforce
  have "length ?jobs = card (set (om_keys level))" using ok
    by (simp add: level_ok_def om_wf_def level_jobs_def om_abs_def distinct_card)
  also have "\<dots> \<le> card R" using level_jobs_key [of ?s level] ok nodes assms(1) by (simp add: card_mono)
  finally have "int (length ?jobs) < I64_MAX" using assms(2) by simp
  then obtain result visited' where pl: "process_level ?s (fallback \<noteq> None) level visited result visited'"
    using process_level_total [OF ok, of "fallback \<noteq> None" visited] by auto
  have r: "result = sequential_level ?s (fallback \<noteq> None) ?jobs visited" using process_level_sequential(1) [OF pl ok] by simp
  let ?fb = "if res_job result \<noteq> None \<and> fallback = None then res_job result else fallback"
  have "\<exists>answer. search_levels ?s (res_next result) ?fb visited' answer" if go: "\<not> res_stop result"
  proof (cases "job_node ` set ?jobs \<subseteq> visited")
    case True
    then have "{j \<in> set ?jobs. job_node j \<notin> visited} = {}" by blast
    then have "set (om_keys (res_next result)) = {}"
      unfolding r sequential_next(2) [OF go [unfolded r]] by auto
    then have "om_is_empty (res_next result)" by (simp add: om_is_empty_def)
    then show ?thesis by (intro exI) (rule search_empty)
  next
    case False
    have v: "visited' = visited \<union> job_node ` set ?jobs" using process_level_sequential(2) [OF pl ok go] by simp
    then have "R - visited' \<subset> R - visited" using False nodes by blast
    then have "card (R - visited') < card (R - visited)" using assms(1) by (simp add: psubset_card_mono)
    then show ?thesis using less.hyps search_inv_next [OF less.prems r go] v by blast
  qed
  then show ?case using search_levels.intros [of level] pl by blast
qed

text \<open>
  C10. On a graph with finitely many nodes that the start leads to, fewer than an \<open>i64\<close> can count, the search
  returns, with one answer however its threads are scheduled. If a node that was visited with \<open>is_result\<close> and
  \<open>stop\<close> can be reached, the answer is a shortest path back from such a node to the start; otherwise it is a
  shortest path from a node visited with \<open>is_result\<close>, and it is empty only if there is none.
\<close>

theorem search_returns_shortest:
  assumes "finite R" "int (card R) < I64_MAX" "start \<in> R" "\<And>m. m \<in> R \<Longrightarrow> set (neighbors_of m) \<subseteq> R"
  shows "\<exists>answer. breadth_first_search_parallel neighbors_of visit_of start answer \<and> answer_ok neighbors_of visit_of start answer \<and>
    (\<forall>other. breadth_first_search_parallel neighbors_of visit_of start other \<longrightarrow> other = answer)"
proof -
  let ?s = "default_search neighbors_of visit_of"
  have reach: "n \<in> R" if "reach neighbors_of start d n" for d n
    using that assms(3,4) by (induction d arbitrary: n) auto
  note bfs = breadth_first_search_parallel_def breadth_first_search_parallel_ex_def
  obtain answer where a: "breadth_first_search_parallel neighbors_of visit_of start answer"
    using search_levels_total [OF assms(1,2) reach search_inv_start, of neighbors_of start "\<lambda>d n. d" visit_of]
    unfolding bfs by blast
  have "keeps_levels ?s" by (simp add: keeps_levels_def)
  then have "\<forall>other. breadth_first_search_parallel neighbors_of visit_of start other \<longrightarrow> other = answer"
    using search_levels_deterministic [OF a [unfolded bfs] _ level_ok_first] unfolding bfs by blast
  moreover have "answer_ok neighbors_of visit_of start answer"
    by (rule search_levels_answer [OF a [unfolded bfs] search_inv_start])
  ultimately show ?thesis using a by blast
qed

definition chain :: "nat \<Rightarrow> nat list" where
  "chain n = (if n < 3 then [Suc n, 0] else [])"

definition second :: "nat \<Rightarrow> bool \<times> bool" where
  "second n = (n = 2, n = 2)"

lemma chain_answer:
  assumes "answer_ok chain second 0 answer"
  shows "answer = (True, [2, 1, 0])"
proof -
  have one: "reach chain 0 (Suc 0) 1" by (simp add: chain_def)
  have two: "reach chain 0 (Suc (Suc 0)) 2"
    unfolding reach.simps(2) [of _ _ "Suc 0"] using one by (intro exI [of _ 1]) (simp add: chain_def)
  obtain found path where fp: "answer = (found, path)" by fastforce
  have s2: "second 2 = (True, True)" by (simp add: second_def)
  have found: "found"
  proof (rule ccontr)
    assume "\<not> found"
    then have "\<forall>d n. reach chain 0 d n \<longrightarrow> second n \<noteq> (True, True)" using assms unfolding fp answer_ok_def by simp
    then show False using two s2 by blast
  qed
  then have sh: "shortest chain 0 (\<lambda>n. second n = (True, True)) path" using assms unfolding fp answer_ok_def by simp
  then have p: "back_path chain 0 path" "hd path = 2" by (simp_all add: shortest_def second_def)
  have "length path \<le> Suc (Suc (Suc 0))" using sh two s2 unfolding shortest_def by blast
  moreover have prev: "m = k" if "Suc k \<in> set (chain m)" for m k using that by (auto simp: chain_def split: if_splits)
  obtain m path2 where m: "path = 2 # m # path2" using p by (cases path rule: remdups_adj.cases) auto
  have m1: "m = 1" using p(1) prev [of 1 m] unfolding m by (simp add: numeral_2_eq_2)
  obtain x path3 where x: "path2 = x # path3" using p(1) unfolding m m1 by (cases path2) auto
  have "x = 0" using p(1) prev [of 0 x] unfolding m m1 x by simp
  ultimately show ?thesis using found unfolding fp m m1 x by simp
qed

theorem search_returns_shortest_witness: "breadth_first_search_parallel chain second 0 (True, [2, 1, 0])"
proof -
  have R: "finite {..3 :: nat}" "int (card {..3 :: nat}) < I64_MAX" "0 \<in> {..3 :: nat}"
    "\<And>m. m \<in> {..3 :: nat} \<Longrightarrow> set (chain m) \<subseteq> {..3}"
    by (auto simp: I64_MAX_def chain_def)
  from search_returns_shortest [where neighbors_of = chain and visit_of = second, OF R]
  show ?thesis using chain_answer by blast
qed

text \<open>A search whose callback deletes the start from its level.\<close>

definition pruned_search :: "(nat, nat) search" where
  "pruned_search = (default_search chain second)
     \<lparr>preprocess_level := \<lambda>level. case level_delete level 0 of None \<Rightarrow> level | Some level' \<Rightarrow> level'\<rparr>"

lemma pruned_search_answer: "\<exists>answer. breadth_first_search_parallel_ex pruned_search {} 0 answer"
proof -
  let ?s = pruned_search
  let ?level = "first_level ?s 0"
  have first: "?level = \<lparr>om_keys = [0], om_values = [0 \<mapsto> Job 0 None]\<rparr>"
    by (simp add: first_level_def pruned_search_def default_search_def om_insert_def om_default_def)
  have pre: "preprocess_level ?s ?level = om_default"
    unfolding first by (simp add: pruned_search_def level_delete_def om_remove_def om_default_def remove_at_def)
  have ok: "level_ok ?s (preprocess_level ?s ?level)" by (simp add: pre)
  have "int (length (level_jobs (preprocess_level ?s ?level))) < I64_MAX"
    unfolding pre by (simp add: level_jobs_def om_abs_def om_default_def I64_MAX_def)
  then obtain result visited' where pl: "process_level ?s (None \<noteq> (None :: nat job option)) ?level {} result visited'"
    using process_level_total [OF ok] by blast
  from process_level_sequential(1) [OF pl ok] have r: "\<not> res_stop result" "res_next result = om_default"
    by (simp_all add: pre sequential_level_def level_jobs_def om_abs_def om_default_def)
  have "\<exists>answer. search_levels ?s (res_next result) fallback visited' answer" for fallback
    unfolding r(2) by (intro exI) (rule search_empty, simp add: om_is_empty_def om_default_def)
  moreover have "\<not> om_is_empty ?level" by (simp add: first om_is_empty_def)
  ultimately show ?thesis unfolding breadth_first_search_parallel_ex_def using search_next [OF _ pl r(1)] by blast
qed

theorem search_deterministic_witness: "\<exists>!answer. breadth_first_search_parallel_ex pruned_search {} 0 answer"
proof (rule ex_ex1I [OF pruned_search_answer])
  have pre: "preprocess_level pruned_search level = (case level_delete level 0 of None \<Rightarrow> level | Some level' \<Rightarrow> level')" for level
    by (simp add: pruned_search_def)
  have keeps: "keeps_levels pruned_search"
    unfolding keeps_levels_def pre using level_ok_delete by (auto split: option.split)
  show "answer = answer'" if "breadth_first_search_parallel_ex pruned_search {} 0 answer"
      "breadth_first_search_parallel_ex pruned_search {} 0 answer'" for answer answer'
    by (rule search_deterministic [OF keeps that(2,1)])
qed

end
