(* ===== verification/Json_Wire.thy ===== *)
theory Json_Wire
  imports Strings
begin

text \<open>
  The lexer and the string writer of \<open>crates/tsr_json/src/wire.rs\<close>, over an input that has been read
  completely. Errors have their offset and their reason; the pointer that a caller adds to them and the
  wording of the messages are left out. The flag of a scan is the \<open>noncanonical\<close> field of \<open>Input\<close>.
\<close>

section \<open>The input\<close>

datatype wire_context =
    InString | InEscape | InNumber | InLiteral bytes

datatype wire_error =
    Truncated nat
  | InvalidCharacter nat byte wire_context
  | InvalidSurrogatePair nat bytes
  | InvalidUtf8 nat

definition input_at :: "bytes \<Rightarrow> nat \<Rightarrow> byte option" where
  "input_at bs i = (if i < length bs then Some (bs ! i) else None)"

definition json_space :: "byte \<Rightarrow> bool" where
  "json_space b \<longleftrightarrow> b = CHR '' '' \<or> b = CHR 0x09 \<or> b = CHR 0x0D \<or> b = CHR 0x0A"

text \<open>\<open>space\<close>: the index behind the white space, and the flag.\<close>

definition skip_space :: "bytes \<Rightarrow> nat \<Rightarrow> bool \<Rightarrow> nat \<times> bool" where
  "skip_space bs i flag = (let j = i + length (takeWhile json_space (drop i bs)) in (j, flag \<or> j \<noteq> i))"

definition invalid :: "bytes \<Rightarrow> nat \<Rightarrow> wire_context \<Rightarrow> wire_error" where
  "invalid bs i context = InvalidCharacter i (case input_at bs i of None \<Rightarrow> CHR 0x00 | Some b \<Rightarrow> b) context"

section \<open>Strings\<close>

definition hex_digit :: "byte \<Rightarrow> nat option" where
  "hex_digit b =
     (let v = byte_val b in
      if 0x30 \<le> v \<and> v \<le> 0x39 then Some (v - 0x30)
      else if 0x61 \<le> v \<and> v \<le> 0x66 then Some (v - 0x61 + 10)
      else if 0x41 \<le> v \<and> v \<le> 0x46 then Some (v - 0x41 + 10)
      else None)"

fun hex_loop :: "bytes \<Rightarrow> nat \<Rightarrow> nat \<Rightarrow> nat \<Rightarrow> nat \<Rightarrow> wire_error + nat" where
  "hex_loop bs slash i 0 val = Inr val"
| "hex_loop bs slash i (Suc n) val =
     (case input_at bs i of
        None \<Rightarrow> Inl (Truncated slash)
      | Some b \<Rightarrow>
          (case hex_digit b of
             None \<Rightarrow> Inl (invalid bs i InEscape)
           | Some digit \<Rightarrow> hex_loop bs slash (Suc i) n (val * 16 + digit)))"

definition hex4 :: "bytes \<Rightarrow> nat \<Rightarrow> nat \<Rightarrow> wire_error + nat" where
  "hex4 bs start slash = hex_loop bs slash start 4 0"

text \<open>A byte that a scan or the writer takes over as it is.\<close>

definition plain_byte :: "byte \<Rightarrow> bool" where
  "plain_byte b \<longleftrightarrow> b \<noteq> CHR 0x22 \<and> b \<noteq> CHR 0x5C \<and> 32 \<le> byte_val b \<and> byte_val b < 0x80"

text \<open>\<open>emit\<close> and \<open>append_rune\<close>: a scan that only validates has no output.\<close>

definition emit :: "bytes option \<Rightarrow> bytes \<Rightarrow> bytes option" where
  "emit out bs = map_option (\<lambda>o'. o' @ bs) out"

definition rune_bytes :: "int \<Rightarrow> bytes" where
  "rune_bytes rune = encode_utf8 (case char_from_u32 rune of None \<Rightarrow> RUNE_ERROR | Some c \<Rightarrow> c)"

definition low_half :: "bytes \<Rightarrow> nat \<Rightarrow> nat \<Rightarrow> nat option" where
  "low_half bs first i =
     (if first \<le> 0xdbff \<and> input_at bs i = Some (CHR 0x5C) \<and> input_at bs (i + 1) = Some (CHR ''u'')
      then case hex4 bs (i + 2) i of
          Inl _ \<Rightarrow> None
        | Inr second \<Rightarrow> if 0xdc00 \<le> second \<and> second \<le> 0xdfff then Some second else None
      else None)"

text \<open>The escape \<open>\u\<close> whose digits start at an index: the character, and the index behind it.\<close>

definition unicode_escape :: "bool \<Rightarrow> bytes \<Rightarrow> nat \<Rightarrow> nat \<Rightarrow> wire_error + int \<times> nat" where
  "unicode_escape allow_invalid bs slash i =
     (case hex4 bs i slash of
        Inl error \<Rightarrow> Inl error
      | Inr first \<Rightarrow>
          if 0xd800 \<le> first \<and> first \<le> 0xdfff
          then case low_half bs first (i + 4) of
              Some second \<Rightarrow> Inr (0x10000 + push_bit 10 (int first - 0xd800) + (int second - 0xdc00), i + 10)
            | None \<Rightarrow>
                if allow_invalid then Inr (RUNE_ERROR, i + 4)
                else Inl (InvalidSurrogatePair slash (take 12 (drop slash bs)))
          else Inr (int first, i + 4))"

text \<open>What a backslash and the byte behind it stand for, other than \<open>\u\<close>: the byte, and whether the writer differs.\<close>

definition simple_escape :: "byte \<Rightarrow> (byte \<times> bool) option" where
  "simple_escape escape =
     (if escape = CHR 0x22 \<or> escape = CHR 0x5C then Some (escape, False)
      else if escape = CHR ''/'' then Some (escape, True)
      else if escape = CHR ''b'' then Some (CHR 0x08, False)
      else if escape = CHR ''f'' then Some (CHR 0x0C, False)
      else if escape = CHR ''n'' then Some (CHR 0x0A, False)
      else if escape = CHR ''r'' then Some (CHR 0x0D, False)
      else if escape = CHR ''t'' then Some (CHR 0x09, False)
      else None)"

lemma hex_loop_length: "hex_loop bs slash i n val = Inr v \<Longrightarrow> n = 0 \<or> i + n \<le> length bs"
  by (induction n arbitrary: i val) (fastforce simp: input_at_def split: option.splits if_splits)+

lemma hex4_length: "hex4 bs i slash = Inr v \<Longrightarrow> i + 4 \<le> length bs"
  using hex_loop_length [of bs slash i 4 0 v] by (simp add: hex4_def)

lemma unicode_escape_progress:
  "unicode_escape allow bs slash i = Inr (rune, j) \<Longrightarrow> i < j \<and> j \<le> length bs"
  using hex4_length [of bs "i + 6" "i + 4"]
  by (auto simp: unicode_escape_def low_half_def dest!: hex4_length split: sum.splits if_splits option.splits)

text \<open>The loop of \<open>string_into\<close>, from an index to the one behind the closing quote, with the flag at its end.\<close>

function string_loop :: "bool \<Rightarrow> bytes \<Rightarrow> nat \<Rightarrow> bytes option \<Rightarrow> bool \<Rightarrow> (wire_error + bytes option \<times> nat) \<times> bool" where
  "string_loop allow_invalid bs run out flag =
     (let plains = takeWhile plain_byte (drop run bs); i = run + length plains; out = emit out plains in
      case input_at bs i of
        None \<Rightarrow> (Inl (Truncated i), flag)
      | Some b \<Rightarrow>
          if b = CHR 0x22 then (Inr (out, i + 1), flag)
          else if b = CHR 0x5C then
            (case input_at bs (i + 1) of
               None \<Rightarrow> (Inl (Truncated i), flag)
             | Some escape \<Rightarrow>
                 (case simple_escape escape of
                    Some (c, differs) \<Rightarrow> string_loop allow_invalid bs (i + 2) (emit out [c]) (flag \<or> differs)
                  | None \<Rightarrow>
                      if escape = CHR ''u''
                      then case unicode_escape allow_invalid bs i (i + 2) of
                          Inl error \<Rightarrow> (Inl error, True)
                        | Inr (rune, j) \<Rightarrow> string_loop allow_invalid bs j (emit out (rune_bytes rune)) True
                      else (Inl (invalid bs (i + 1) InEscape), flag)))
          else if byte_val b \<le> 31 then (Inl (invalid bs i InString), flag)
          else if 0x80 \<le> byte_val b then
            (let (rune, width) = decode_utf8 (drop i bs) in
             if rune = RUNE_ERROR \<and> width = 1 \<and> \<not> allow_invalid then (Inl (InvalidUtf8 i), flag)
             else string_loop allow_invalid bs (i + width) (emit out (rune_bytes rune)) (flag \<or> rune = RUNE_ERROR \<and> width = 1))
          else string_loop allow_invalid bs (i + 1) (emit out [b]) flag)"
  by pat_completeness auto
termination
  by (relation "measure (\<lambda>(allow, bs, i, out, flag). length bs - i)")
    (auto simp: input_at_def dest!: unicode_escape_progress dest: decode_utf8_progress [OF sym] split: if_splits)

declare string_loop.simps [simp del]

definition string_into :: "bool \<Rightarrow> bytes \<Rightarrow> nat \<Rightarrow> bytes option \<Rightarrow> bool \<Rightarrow> (wire_error + bytes option \<times> nat) \<times> bool" where
  "string_into allow_invalid bs start out flag = string_loop allow_invalid bs (start + 1) out flag"

text \<open>What the writer puts for a character.\<close>

definition hex_byte :: "nat \<Rightarrow> byte" where
  "hex_byte n = ''0123456789abcdef'' ! n"

definition wire_rune :: "int \<Rightarrow> bytes" where
  "wire_rune rune =
     (if rune = 8 then [CHR 0x5C, CHR ''b'']
      else if rune = 9 then [CHR 0x5C, CHR ''t'']
      else if rune = 10 then [CHR 0x5C, CHR ''n'']
      else if rune = 12 then [CHR 0x5C, CHR ''f'']
      else if rune = 13 then [CHR 0x5C, CHR ''r'']
      else if rune = 34 then [CHR 0x5C, CHR 0x22]
      else if rune = 92 then [CHR 0x5C, CHR 0x5C]
      else if 0 \<le> rune \<and> rune \<le> 31
        then [CHR 0x5C, CHR ''u'', CHR ''0'', CHR ''0'', hex_byte (nat rune div 16), hex_byte (nat rune mod 16)]
      else rune_bytes rune)"

text \<open>
  \<open>append_string\<close>: the output, and the text as it will be read back or the offset of a malformed byte. The
  text is borrowed, \<^term>\<open>None\<close>, until a malformed byte has to be replaced.
\<close>

function append_loop :: "bool \<Rightarrow> bytes \<Rightarrow> nat \<Rightarrow> bytes \<Rightarrow> bytes option \<Rightarrow> bytes \<times> (nat + bytes option)" where
  "append_loop allow_invalid bs offset out decoded =
     (if length bs \<le> offset then (out, Inr decoded)
      else
        let plains = takeWhile plain_byte (drop offset bs) in
        if plains \<noteq> [] then append_loop allow_invalid bs (offset + length plains) (out @ plains) (emit decoded plains)
        else
          let (rune, width) = decode_utf8 (drop offset bs) in
          if rune = RUNE_ERROR \<and> width = 1 \<and> \<not> allow_invalid then (out, Inl offset)
          else
            let decoded =
                  (if rune = RUNE_ERROR \<and> width = 1
                   then Some ((case decoded of None \<Rightarrow> take offset bs | Some d \<Rightarrow> d) @ rune_bytes rune)
                   else emit decoded (take width (drop offset bs)))
            in append_loop allow_invalid bs (offset + width) (out @ wire_rune rune) decoded)"
  by pat_completeness auto
termination
  by (relation "measure (\<lambda>(allow, bs, i, out, decoded). length bs - i)")
    (auto simp flip: length_greater_0_conv dest: decode_utf8_progress [OF sym])

declare append_loop.simps [simp del]

definition append_string :: "bool \<Rightarrow> bytes \<Rightarrow> bytes \<Rightarrow> bytes \<times> (nat + bytes)" where
  "append_string allow_invalid out bs =
     (case append_loop allow_invalid bs 0 (out @ [CHR 0x22]) None of
        (out, Inl offset) \<Rightarrow> (out, Inl offset)
      | (out, Inr None) \<Rightarrow> (out @ [CHR 0x22], Inr bs)
      | (out, Inr (Some decoded)) \<Rightarrow> (out @ [CHR 0x22], Inr decoded))"

section \<open>Numbers and literals\<close>

definition ascii_digit :: "byte \<Rightarrow> bool" where
  "ascii_digit b \<longleftrightarrow> 0x30 \<le> byte_val b \<and> byte_val b \<le> 0x39"

definition past_digits :: "bytes \<Rightarrow> nat \<Rightarrow> nat" where
  "past_digits bs i = i + length (takeWhile ascii_digit (drop i bs))"

definition scan_digits :: "bytes \<Rightarrow> nat \<Rightarrow> wire_error + nat" where
  "scan_digits bs i =
     (case input_at bs i of
        None \<Rightarrow> Inl (Truncated i)
      | Some b \<Rightarrow> if \<not> ascii_digit b then Inl (invalid bs i InNumber) else Inr (past_digits bs i))"

definition scan_integer :: "bytes \<Rightarrow> nat \<Rightarrow> wire_error + nat" where
  "scan_integer bs i =
     (case input_at bs i of
        None \<Rightarrow> Inl (Truncated i)
      | Some b \<Rightarrow>
          if b = CHR ''0'' then Inr (i + 1)
          else if ascii_digit b then Inr (past_digits bs (i + 1))
          else Inl (invalid bs i InNumber))"

definition scan_fraction :: "bytes \<Rightarrow> nat \<Rightarrow> wire_error + nat" where
  "scan_fraction bs i = (if input_at bs i = Some (CHR ''.'') then scan_digits bs (i + 1) else Inr i)"

definition past_sign :: "bytes \<Rightarrow> nat \<Rightarrow> nat" where
  "past_sign bs i = (if input_at bs i = Some (CHR ''+'') \<or> input_at bs i = Some (CHR ''-'') then i + 1 else i)"

definition scan_exponent :: "bytes \<Rightarrow> nat \<Rightarrow> wire_error + nat" where
  "scan_exponent bs i =
     (if input_at bs i = Some (CHR ''e'') \<or> input_at bs i = Some (CHR ''E'')
      then scan_digits bs (past_sign bs (i + 1)) else Inr i)"

definition number :: "bytes \<Rightarrow> nat \<Rightarrow> wire_error + nat" where
  "number bs start =
     (case scan_integer bs (if input_at bs start = Some (CHR ''-'') then start + 1 else start) of
        Inl error \<Rightarrow> Inl error
      | Inr i \<Rightarrow>
          (case scan_fraction bs i of
             Inl error \<Rightarrow> Inl error
           | Inr i \<Rightarrow> scan_exponent bs i))"

text \<open>\<open>valid_number\<close>: the parts as tests, \<^term>\<open>None\<close> where the code returns false.\<close>

definition valid_digits :: "bytes \<Rightarrow> nat \<Rightarrow> nat option" where
  "valid_digits bs start = (if past_digits bs start = start then None else Some (past_digits bs start))"

definition valid_number :: "bytes \<Rightarrow> bool" where
  "valid_number bs \<longleftrightarrow>
     (do {
        let i = (if input_at bs 0 = Some (CHR ''-'') then 1 else 0);
        i \<leftarrow> (case input_at bs i of
               None \<Rightarrow> None
             | Some b \<Rightarrow>
                 if b = CHR ''0'' then Some (i + 1)
                 else if ascii_digit b then Some (past_digits bs (i + 1)) else None);
        i \<leftarrow> (if input_at bs i = Some (CHR ''.'') then valid_digits bs (i + 1) else Some i);
        i \<leftarrow> (if input_at bs i = Some (CHR ''e'') \<or> input_at bs i = Some (CHR ''E'')
             then valid_digits bs (past_sign bs (i + 1)) else Some i);
        Some (i = length bs)
      }) = Some True"

fun literal_loop :: "bytes \<Rightarrow> nat \<Rightarrow> bytes \<Rightarrow> bytes \<Rightarrow> wire_error + nat" where
  "literal_loop bs i word [] = Inr i"
| "literal_loop bs i word (b # rest) =
     (case input_at bs i of
        None \<Rightarrow> Inl (Truncated i)
      | Some actual \<Rightarrow> if actual = b then literal_loop bs (i + 1) word rest else Inl (invalid bs i (InLiteral word)))"

definition literal :: "bytes \<Rightarrow> nat \<Rightarrow> bytes \<Rightarrow> wire_error + nat" where
  "literal bs start word = literal_loop bs start word word"

section \<open>The number scanners agree\<close>

lemma input_at_drop: "input_at bs i = (case drop i bs of [] \<Rightarrow> None | b # rest \<Rightarrow> Some b)"
  by (auto simp: input_at_def hd_drop_conv_nth [symmetric] split: list.split)

lemma past_digits_eq: "past_digits bs i = i \<longleftrightarrow> \<not> (\<exists>b. input_at bs i = Some b \<and> ascii_digit b)"
  by (auto simp: past_digits_def input_at_drop split: list.splits)

lemma scan_digits_valid: "valid_digits bs i = (case scan_digits bs i of Inl _ \<Rightarrow> None | Inr j \<Rightarrow> Some j)"
  using past_digits_eq [of bs i] by (auto simp: valid_digits_def scan_digits_def split: option.splits)

definition right_option :: "'e + 'a \<Rightarrow> 'a option" where
  "right_option r = (case r of Inl _ \<Rightarrow> None | Inr a \<Rightarrow> Some a)"

lemma valid_number_scan: "valid_number bs \<longleftrightarrow> number bs 0 = Inr (length bs)"
proof -
  let ?i = "if input_at bs 0 = Some (CHR ''-'') then 1 else 0"
  have a: "(case input_at bs i of None \<Rightarrow> None
      | Some b \<Rightarrow> if b = CHR ''0'' then Some (i + 1) else if ascii_digit b then Some (past_digits bs (i + 1)) else None) =
    right_option (scan_integer bs i)" for i
    by (simp add: scan_integer_def right_option_def split: option.split)
  have b: "(if input_at bs i = Some (CHR ''.'') then valid_digits bs (i + 1) else Some i) = right_option (scan_fraction bs i)" for i
    by (simp add: scan_fraction_def scan_digits_valid right_option_def)
  have c: "(if input_at bs i = Some (CHR ''e'') \<or> input_at bs i = Some (CHR ''E'')
      then valid_digits bs (past_sign bs (i + 1)) else Some i) = right_option (scan_exponent bs i)" for i
    by (simp add: scan_exponent_def scan_digits_valid right_option_def)
  have "valid_number bs \<longleftrightarrow> right_option (number bs 0) = Some (length bs)"
    unfolding valid_number_def a b c Let_def
    by (auto simp: number_def right_option_def bind_eq_Some_conv split: sum.splits)
  then show ?thesis by (auto simp: right_option_def split: sum.splits)
qed

section \<open>The grammar of numbers\<close>

definition digits_text :: "bytes \<Rightarrow> bool" where
  "digits_text t \<longleftrightarrow> t \<noteq> [] \<and> list_all ascii_digit t"

definition integer_text :: "bytes \<Rightarrow> bool" where
  "integer_text t \<longleftrightarrow> t = ''0'' \<or> digits_text t \<and> hd t \<noteq> CHR ''0''"

definition fraction_text :: "bytes \<Rightarrow> bool" where
  "fraction_text t \<longleftrightarrow> t = [] \<or> hd t = CHR ''.'' \<and> digits_text (tl t)"

definition exponent_text :: "bytes \<Rightarrow> bool" where
  "exponent_text t \<longleftrightarrow> t = [] \<or>
     hd t \<in> {CHR ''e'', CHR ''E''} \<and>
     digits_text (if tl t \<noteq> [] \<and> hd (tl t) \<in> {CHR ''+'', CHR ''-''} then tl (tl t) else tl t)"

definition number_text :: "bytes \<Rightarrow> bool" where
  "number_text t \<longleftrightarrow> (\<exists>s i f e. t = s @ i @ f @ e \<and> s \<in> {[], ''-''} \<and> integer_text i \<and> fraction_text f \<and> exponent_text e)"

text \<open>What may follow a number, so that a scan of the number ends with it.\<close>

definition number_ends :: "bytes \<Rightarrow> bool" where
  "number_ends rest \<longleftrightarrow> rest = [] \<or> \<not> ascii_digit (hd rest) \<and> hd rest \<notin> {CHR ''.'', CHR ''e'', CHR ''E''}"

definition digits_end :: "bytes \<Rightarrow> bool" where
  "digits_end rest \<longleftrightarrow> rest = [] \<or> \<not> ascii_digit (hd rest)"

lemma not_digits [simp]: "\<not> ascii_digit (CHR ''.'')" "\<not> ascii_digit (CHR ''e'')" "\<not> ascii_digit (CHR ''E'')" "ascii_digit (CHR ''0'')"
    "\<not> ascii_digit (CHR ''-'')" "\<not> ascii_digit (CHR ''+'')"
  by (simp_all add: ascii_digit_def)

lemma input_at_Cons: "drop i bs = b # rest \<Longrightarrow> input_at bs i = Some b" and input_at_Nil: "drop i bs = [] \<Longrightarrow> input_at bs i = None"
  by (simp_all add: input_at_drop)

lemma drop_Suc_Cons: "drop i bs = b # rest \<Longrightarrow> drop (Suc i) bs = rest"
  by (metis drop_Suc drop_tl list.sel(3))

lemma drop_add_append: "drop i bs = xs @ rest \<Longrightarrow> drop (i + length xs) bs = rest"
  by (metis add.commute append_eq_conv_conj drop_drop)

lemma past_digits_text:
  assumes "drop i bs = ds @ rest" "list_all ascii_digit ds" "digits_end rest"
  shows "past_digits bs i = i + length ds"
proof -
  have "takeWhile ascii_digit (ds @ rest) = ds"
    using assms(2,3) by (cases rest) (auto simp: digits_end_def list_all_iff takeWhile_append2)
  then show ?thesis using assms(1) by (simp add: past_digits_def)
qed

lemma scan_digits_text:
  assumes "drop i bs = ds @ rest" "digits_text ds" "digits_end rest"
  shows "scan_digits bs i = Inr (i + length ds)"
proof -
  obtain d ds' where ds: "ds = d # ds'" "ascii_digit d" using assms(2) by (cases ds) (auto simp: digits_text_def)
  then have "input_at bs i = Some d" using assms(1) by (simp add: input_at_drop)
  then show ?thesis using ds past_digits_text [OF assms(1) _ assms(3)] assms(2) by (simp add: scan_digits_def digits_text_def)
qed

lemma scan_integer_text:
  assumes "drop i bs = t @ rest" "integer_text t" "digits_end rest"
  shows "scan_integer bs i = Inr (i + length t)"
proof (cases "t = ''0''")
  case True
  then show ?thesis using assms(1) by (simp add: scan_integer_def input_at_drop)
next
  case False
  then have t: "digits_text t" "hd t \<noteq> CHR ''0''" using assms(2) by (simp_all add: integer_text_def)
  then obtain d ds where ds: "t = d # ds" "ascii_digit d" "list_all ascii_digit ds" "d \<noteq> CHR ''0''" by (cases t) (auto simp: digits_text_def)
  then have "input_at bs i = Some d" "drop (Suc i) bs = ds @ rest" using assms(1) drop_Suc_Cons [of i bs d "ds @ rest"] by (simp_all add: input_at_drop)
  then show ?thesis using ds past_digits_text [OF _ ds(3) assms(3)] by (simp add: scan_integer_def)
qed

lemma scan_fraction_text:
  assumes "drop i bs = t @ rest" "fraction_text t" "digits_end rest" "t = [] \<Longrightarrow> rest = [] \<or> hd rest \<noteq> CHR ''.''"
  shows "scan_fraction bs i = Inr (i + length t)"
proof (cases t)
  case Nil
  then show ?thesis using assms(1,4) by (cases rest) (auto simp: scan_fraction_def input_at_drop)
next
  case (Cons c ds)
  then have "c = CHR ''.''" "digits_text ds" using assms(2) by (simp_all add: fraction_text_def)
  moreover have "drop (Suc i) bs = ds @ rest" using assms(1) Cons drop_Suc_Cons [of i bs c] by simp
  ultimately show ?thesis using assms(1) Cons scan_digits_text [of "Suc i" bs ds rest] assms(3) by (simp add: scan_fraction_def input_at_drop)
qed

lemma past_sign_text:
  assumes "drop i bs = t @ rest" "digits_text (if t \<noteq> [] \<and> hd t \<in> {CHR ''+'', CHR ''-''} then tl t else t)"
  shows "past_sign bs i = (if hd t \<in> {CHR ''+'', CHR ''-''} then i + 1 else i) \<and> t \<noteq> []"
  using assms by (cases t) (auto simp: past_sign_def input_at_drop digits_text_def)

lemma scan_exponent_text:
  assumes "drop i bs = t @ rest" "exponent_text t" "digits_end rest" "t = [] \<Longrightarrow> rest = [] \<or> hd rest \<notin> {CHR ''e'', CHR ''E''}"
  shows "scan_exponent bs i = Inr (i + length t)"
proof (cases t)
  case Nil
  then show ?thesis using assms(1,4) by (cases rest) (auto simp: scan_exponent_def input_at_drop)
next
  case (Cons c u)
  then have c: "c \<in> {CHR ''e'', CHR ''E''}" and u: "digits_text (if u \<noteq> [] \<and> hd u \<in> {CHR ''+'', CHR ''-''} then tl u else u)"
    using assms(2) by (auto simp: exponent_text_def split: if_splits)
  have du: "drop (Suc i) bs = u @ rest" using assms(1) Cons drop_Suc_Cons [of i bs c] by simp
  obtain x v where x: "u = x # v" using past_sign_text [OF du u] by (cases u) auto
  have "scan_exponent bs i = scan_digits bs (past_sign bs (Suc i))" using assms(1) Cons c by (auto simp: scan_exponent_def input_at_drop)
  also have "\<dots> = Inr (i + length t)"
  proof (cases "x \<in> {CHR ''+'', CHR ''-''}")
    case True
    then have "drop (Suc (Suc i)) bs = v @ rest" using du x drop_Suc_Cons [of "Suc i" bs x] by simp
    then show ?thesis using True u x past_sign_text [OF du u] scan_digits_text [of "Suc (Suc i)" bs v rest] assms(3) Cons by auto
  next
    case False
    then show ?thesis using u x past_sign_text [OF du u] scan_digits_text [of "Suc i" bs u rest] du assms(3) Cons by auto
  qed
  finally show ?thesis .
qed

lemma number_text_scan:
  assumes "drop start bs = t @ rest" "number_text t" "number_ends rest"
  shows "number bs start = Inr (start + length t)"
proof -
  obtain s i f e where t: "t = s @ i @ f @ e" "s \<in> {[], ''-''}" "integer_text i" "fraction_text f" "exponent_text e"
    using assms(2) unfolding number_text_def by blast
  have er: "digits_end rest" "rest = [] \<or> hd rest \<noteq> CHR ''.''" "rest = [] \<or> hd rest \<notin> {CHR ''e'', CHR ''E''}"
    using assms(3) by (auto simp: number_ends_def digits_end_def)
  have e: "digits_end (e @ rest)" "e @ rest = [] \<or> hd (e @ rest) \<noteq> CHR ''.''"
    using t(5) er by (cases e; auto simp: exponent_text_def digits_end_def)+
  have f: "digits_end (f @ e @ rest)" using t(4) e by (cases f) (auto simp: fraction_text_def digits_end_def)
  let ?j = "start + length s"
  have sg: "(if input_at bs start = Some (CHR ''-'') then start + 1 else start) = ?j"
    using t(1,2,3) assms(1) by (cases i) (auto simp: input_at_drop integer_text_def digits_text_def)
  have d1: "drop ?j bs = i @ f @ e @ rest" by (rule drop_add_append) (simp add: assms(1) t(1))
  have d2: "drop (?j + length i) bs = f @ e @ rest" by (rule drop_add_append [OF d1])
  have d3: "drop (?j + length i + length f) bs = e @ rest" by (rule drop_add_append [OF d2])
  show ?thesis
    unfolding number_def sg
    using scan_integer_text [OF d1 t(3) f] scan_fraction_text [OF d2 t(4) e(1)] e(2) scan_exponent_text [OF d3 t(5) er(1)] er(3) t(1)
    by (simp add: add.assoc)
qed

lemma past_digits_drop:
  "drop i bs = takeWhile ascii_digit (drop i bs) @ drop (past_digits bs i) bs"
proof -
  have "drop (past_digits bs i) bs = dropWhile ascii_digit (drop i bs)"
    by (simp add: past_digits_def dropWhile_eq_drop add.commute)
  then show ?thesis by simp
qed

lemma scan_digits_parts:
  assumes "scan_digits bs i = Inr j"
  shows "\<exists>t. digits_text t \<and> drop i bs = t @ drop j bs \<and> j = i + length t"
proof -
  obtain b where b: "input_at bs i = Some b" "ascii_digit b" "j = past_digits bs i"
    using assms by (auto simp: scan_digits_def split: option.splits if_splits)
  let ?t = "takeWhile ascii_digit (drop i bs)"
  have "digits_text ?t" using b(1,2) set_takeWhileD by (fastforce simp: digits_text_def list_all_iff input_at_drop split: list.splits)
  then show ?thesis using b(3) past_digits_drop [of i bs] by (intro exI [of _ ?t]) (simp add: past_digits_def)
qed

lemma input_at_Some: "input_at bs i = Some b \<longleftrightarrow> drop i bs = b # drop (Suc i) bs"
  by (auto simp: input_at_def Cons_nth_drop_Suc nth_via_drop split: if_splits)

lemma scan_integer_parts:
  assumes "scan_integer bs i = Inr j"
  shows "\<exists>t. integer_text t \<and> drop i bs = t @ drop j bs \<and> j = i + length t"
proof -
  obtain b where b: "input_at bs i = Some b" using assms by (auto simp: scan_integer_def split: option.splits)
  show ?thesis
  proof (cases "b = CHR ''0''")
    case True
    then have "j = Suc i" using b assms by (simp add: scan_integer_def)
    moreover have "drop i bs = CHR ''0'' # drop (Suc i) bs" using b True input_at_Some by blast
    ultimately show ?thesis by (intro exI [of _ "''0''"]) (simp add: integer_text_def)
  next
    case False
    then have d: "ascii_digit b" "j = past_digits bs (Suc i)" using assms b by (auto simp: scan_integer_def split: if_splits)
    let ?t = "b # takeWhile ascii_digit (drop (Suc i) bs)"
    have "integer_text ?t" using False d(1) by (auto simp: integer_text_def digits_text_def list_all_iff dest: set_takeWhileD)
    moreover have "drop i bs = ?t @ drop j bs" using past_digits_drop [of "Suc i" bs] b d(2) by (simp add: input_at_Some)
    ultimately show ?thesis using d(2) by (intro exI [of _ ?t]) (simp add: past_digits_def)
  qed
qed

lemma scan_fraction_parts:
  assumes "scan_fraction bs i = Inr j"
  shows "\<exists>t. fraction_text t \<and> drop i bs = t @ drop j bs \<and> j = i + length t"
proof (cases "input_at bs i = Some (CHR ''.'')")
  case True
  then obtain t where t: "digits_text t" "drop (Suc i) bs = t @ drop j bs" "j = Suc i + length t"
    using scan_digits_parts [of bs "Suc i" j] assms by (auto simp: scan_fraction_def)
  have "drop i bs = CHR ''.'' # drop (Suc i) bs" using True by (simp add: input_at_Some)
  then show ?thesis using t by (intro exI [of _ "CHR ''.'' # t"]) (simp add: fraction_text_def)
next
  case False
  then show ?thesis using assms by (intro exI [of _ "[]"]) (simp add: scan_fraction_def fraction_text_def)
qed

lemma past_sign_parts: "\<exists>sg. sg \<in> {[], ''+'', ''-''} \<and> drop i bs = sg @ drop (past_sign bs i) bs \<and> past_sign bs i = i + length sg"
proof (cases "\<exists>c. input_at bs i = Some c \<and> c \<in> {CHR ''+'', CHR ''-''}")
  case True
  then obtain c where c: "input_at bs i = Some c" "c \<in> {CHR ''+'', CHR ''-''}" by blast
  then have "past_sign bs i = Suc i" "drop i bs = c # drop (Suc i) bs" by (auto simp: past_sign_def input_at_Some)
  then show ?thesis using c(2) by (intro exI [of _ "[c]"]) auto
next
  case False
  then show ?thesis by (intro exI [of _ "[]"]) (auto simp: past_sign_def)
qed

lemma scan_exponent_parts:
  assumes "scan_exponent bs i = Inr j"
  shows "\<exists>t. exponent_text t \<and> drop i bs = t @ drop j bs \<and> j = i + length t"
proof (cases "input_at bs i = Some (CHR ''e'') \<or> input_at bs i = Some (CHR ''E'')")
  case True
  then obtain c where c: "drop i bs = c # drop (Suc i) bs" "c \<in> {CHR ''e'', CHR ''E''}" by (auto simp: input_at_Some)
  obtain sg where sg: "sg \<in> {[], ''+'', ''-''}" "drop (Suc i) bs = sg @ drop (past_sign bs (Suc i)) bs"
      "past_sign bs (Suc i) = Suc i + length sg"
    using past_sign_parts [of "Suc i" bs] by blast
  have "scan_digits bs (past_sign bs (Suc i)) = Inr j" using True assms by (simp add: scan_exponent_def)
  then obtain t where t: "digits_text t" "drop (past_sign bs (Suc i)) bs = t @ drop j bs" "j = past_sign bs (Suc i) + length t"
    using scan_digits_parts by blast
  have e: "exponent_text (c # sg @ t)" using c(2) sg(1) t(1) by (cases t) (auto simp: exponent_text_def digits_text_def)
  have "drop i bs = (c # sg @ t) @ drop j bs" using c(1) sg(2) t(2) by simp
  then show ?thesis using e sg(3) t(3) by (intro exI [of _ "c # sg @ t"]) simp
next
  case False
  then show ?thesis using assms by (intro exI [of _ "[]"]) (simp add: scan_exponent_def exponent_text_def)
qed

lemma number_parts:
  assumes "number bs start = Inr j"
  shows "\<exists>t. number_text t \<and> drop start bs = t @ drop j bs \<and> j = start + length t"
proof -
  let ?i = "if input_at bs start = Some (CHR ''-'') then start + 1 else start"
  obtain a b where ab: "scan_integer bs ?i = Inr a" "scan_fraction bs a = Inr b" "scan_exponent bs b = Inr j"
    using assms by (auto simp: number_def split: sum.splits)
  obtain s where s: "s \<in> {[], ''-''}" "drop start bs = s @ drop ?i bs" "?i = start + length s"
    by (cases "input_at bs start = Some (CHR ''-'')") (auto simp: input_at_Some intro: that)
  obtain i f e where "integer_text i" "drop ?i bs = i @ drop a bs" "a = ?i + length i"
      "fraction_text f" "drop a bs = f @ drop b bs" "b = a + length f"
      "exponent_text e" "drop b bs = e @ drop j bs" "j = b + length e"
    using scan_integer_parts [OF ab(1)] scan_fraction_parts [OF ab(2)] scan_exponent_parts [OF ab(3)] by blast
  then show ?thesis using s unfolding number_text_def by (intro exI [of _ "s @ i @ f @ e"]) auto
qed

lemma valid_number_text: "valid_number t \<longleftrightarrow> number_text t"
proof
  assume "valid_number t"
  then show "number_text t" using number_parts [of t 0 "length t"] by (auto simp: valid_number_scan)
next
  assume "number_text t"
  then show "valid_number t" using number_text_scan [of 0 t t "[]"] by (simp add: valid_number_scan number_ends_def)
qed

end
