(* ===== verification/Json_Strings.thy ===== *)
theory Json_Strings
  imports Json_Wire
begin

text \<open>
  The strings of \<open>Json_Wire\<close>: what the writer puts is read back, and a string that a scan has not flagged is
  spelled as the writer would spell it.
\<close>

section \<open>A step of the scan\<close>

lemma emit_Nil [simp]: "emit out [] = out"
  by (cases out) (simp_all add: emit_def)

lemma emit_emit [simp]: "emit (emit out a) b = emit out (a @ b)"
  by (cases out) (simp_all add: emit_def)

lemma loop_plain:
  assumes "drop i bs = b # rest" "plain_byte b"
  shows "string_loop allow bs i out flag = string_loop allow bs (Suc i) (emit out [b]) flag"
proof -
  have "drop (Suc i) bs = rest" using assms(1) by (rule drop_Suc_Cons)
  then have plains: "takeWhile plain_byte (drop i bs) = b # takeWhile plain_byte (drop (Suc i) bs)" using assms by simp
  let ?ps = "takeWhile plain_byte (drop (Suc i) bs)"
  have at: "i + length (b # ?ps) = Suc i + length ?ps" "emit out (b # ?ps) = emit (emit out [b]) ?ps" by simp_all
  show ?thesis
    unfolding string_loop.simps [of allow bs i] string_loop.simps [of allow bs "Suc i"] by (simp only: plains at Let_def)
qed

lemma loop_special:
  assumes "drop i bs = b # rest" "\<not> plain_byte b"
  shows "string_loop allow bs i out flag =
     (if b = CHR 0x22 then (Inr (out, Suc i), flag)
      else if b = CHR 0x5C then
        (case input_at bs (Suc i) of
           None \<Rightarrow> (Inl (Truncated i), flag)
         | Some escape \<Rightarrow>
             (case simple_escape escape of
                Some (c, differs) \<Rightarrow> string_loop allow bs (Suc (Suc i)) (emit out [c]) (flag \<or> differs)
              | None \<Rightarrow>
                  if escape = CHR ''u''
                  then case unicode_escape allow bs i (Suc (Suc i)) of
                      Inl error \<Rightarrow> (Inl error, True)
                    | Inr (rune, j) \<Rightarrow> string_loop allow bs j (emit out (rune_bytes rune)) True
                  else (Inl (invalid bs (Suc i) InEscape), flag)))
      else if byte_val b \<le> 31 then (Inl (invalid bs i InString), flag)
      else if 0x80 \<le> byte_val b then
        (let (rune, width) = decode_utf8 (drop i bs) in
         if rune = RUNE_ERROR \<and> width = 1 \<and> \<not> allow then (Inl (InvalidUtf8 i), flag)
         else string_loop allow bs (i + width) (emit out (rune_bytes rune)) (flag \<or> rune = RUNE_ERROR \<and> width = 1))
      else string_loop allow bs (Suc i) (emit out [b]) flag)"
proof -
  have plains: "takeWhile plain_byte (drop i bs) = []" using assms by simp
  show ?thesis
    unfolding string_loop.simps [of allow bs i]
    by (simp only: plains Let_def list.size add_0_right emit_Nil input_at_Cons [OF assms(1)] option.case Suc_eq_plus1 [symmetric]
        add_2_eq_Suc')
qed

lemma loop_end: "drop i bs = [] \<Longrightarrow> string_loop allow bs i out flag = (Inl (Truncated i), flag)"
  unfolding string_loop.simps [of allow bs i] by (simp add: input_at_drop)

lemma not_plain: "\<not> plain_byte (CHR 0x22)" "\<not> plain_byte (CHR 0x5C)" "byte_val b \<le> 31 \<Longrightarrow> \<not> plain_byte b" "0x80 \<le> byte_val b \<Longrightarrow> \<not> plain_byte b"
  by (simp_all add: plain_byte_def)

lemma plain_val: "plain_byte b \<longleftrightarrow> 32 \<le> byte_val b \<and> byte_val b < 0x80 \<and> byte_val b \<noteq> 34 \<and> byte_val b \<noteq> 92"
proof -
  have c: "of_char (CHR 0x22) = (34 :: nat)" "of_char (CHR 0x5C) = (92 :: nat)" by simp_all
  have "b = CHR 0x22 \<longleftrightarrow> byte_val b = of_char (CHR 0x22)" "b = CHR 0x5C \<longleftrightarrow> byte_val b = of_char (CHR 0x5C)"
    by (rule of_char_eq_iff [symmetric])+
  then show ?thesis unfolding plain_byte_def c by blast
qed

lemma rune_bytes_scalar: "scalar r \<Longrightarrow> rune_bytes r = encode_utf8 r"
  by (simp add: rune_bytes_def char_from_u32_def scalar_def valid_rune_def)

lemma rune_bytes_error: "rune_bytes RUNE_ERROR = encode_utf8 RUNE_ERROR" "scalar RUNE_ERROR"
  by (simp_all add: rune_bytes_def char_from_u32_def RUNE_ERROR_def scalar_def valid_rune_def is_surrogate_def)

lemma encode_scalar [simp]: "scalar r \<Longrightarrow> encode_rune r = encode_utf8 r"
  by (simp add: encode_rune_scalar scalar_def)

section \<open>Reading a written character\<close>

text \<open>The control characters that the writer spells with \<open>\u\<close>, which a scan flags.\<close>

definition long_escape :: "int \<Rightarrow> bool" where
  "long_escape r \<longleftrightarrow> 0 \<le> r \<and> r \<le> 31 \<and> r \<notin> {8, 9, 10, 12, 13}"

lemma hex_digit_byte: "n < 16 \<Longrightarrow> hex_digit (hex_byte n) = Some n"
proof -
  assume "n < 16"
  then have "n \<in> set [0..<16]" by simp
  moreover have "\<forall>n \<in> set [0..<16]. hex_digit (hex_byte n) = Some n" by code_simp
  ultimately show ?thesis by blast
qed

lemma hex4_written:
  assumes "drop i bs = CHR ''0'' # CHR ''0'' # hex_byte a # hex_byte b # rest" "a < 16" "b < 16"
  shows "hex4 bs i slash = Inr (a * 16 + b)"
proof -
  have z: "hex_digit (CHR ''0'') = Some 0" by code_simp
  have d: "drop (Suc i) bs = CHR ''0'' # hex_byte a # hex_byte b # rest" using drop_Suc_Cons [OF assms(1)] .
  have d2: "drop (Suc (Suc i)) bs = hex_byte a # hex_byte b # rest" using drop_Suc_Cons [OF d] .
  have d3: "drop (Suc (Suc (Suc i))) bs = hex_byte b # rest" using drop_Suc_Cons [OF d2] .
  note at = input_at_Cons [OF assms(1)] input_at_Cons [OF d] input_at_Cons [OF d2] input_at_Cons [OF d3]
  show ?thesis using at z hex_digit_byte assms(2,3) by (simp add: hex4_def numeral_eq_Suc)
qed

lemma loop_simple:
  assumes "drop i bs = CHR 0x5C # e # rest" "simple_escape e = Some (c, differs)"
  shows "string_loop allow bs i out flag = string_loop allow bs (Suc (Suc i)) (emit out [c]) (flag \<or> differs)"
proof -
  have "input_at bs (Suc i) = Some e" using input_at_Cons [OF drop_Suc_Cons [OF assms(1)]] .
  then show ?thesis using loop_special [OF assms(1) not_plain(2)] assms(2) by simp
qed

lemma decode_ascii: "byte_val b < 0x80 \<Longrightarrow> decode_utf8 (b # rest) = (of_char b, 1)"
  by (simp add: decode_utf8_def)

lemma int_byte: "(of_char b :: int) = int (byte_val b)"
  by (metis of_nat_of_char)

lemma encode_ascii: "byte_val b < 0x80 \<Longrightarrow> encode_utf8 (of_char b) = [b]"
proof -
  assume "byte_val b < 0x80"
  then have "(of_char b :: int) < 0x80" unfolding int_byte by simp
  then show ?thesis by (simp add: encode_utf8_def)
qed

lemma encode_utf8_head:
  assumes "scalar r" "0x80 \<le> r"
  obtains b t where "encode_utf8 r = b # t" "0x80 \<le> byte_val b"
proof -
  obtain b t where b: "encode_utf8 r = b # t" by (cases "encode_utf8 r") (auto simp: encode_utf8_def split: if_splits)
  have "decode_utf8 (b # t) = (r, length (encode_utf8 r))" using decode_utf8_encode [of r "[]"] assms(1) b by (simp add: scalar_def valid_rune_def)
  then have "0x80 \<le> byte_val b" using decode_ascii [of b t] assms(2) int_byte [of b] by (cases "byte_val b < 0x80") auto
  then show ?thesis using b that by blast
qed

lemma loop_high:
  assumes "drop i bs = encode_utf8 r @ rest" "scalar r" "0x80 \<le> r"
  shows "string_loop allow bs i out flag = string_loop allow bs (i + length (encode_utf8 r)) (emit out (encode_utf8 r)) flag"
proof -
  obtain b t where b: "encode_utf8 r = b # t" "0x80 \<le> byte_val b" using encode_utf8_head [OF assms(2,3)] .
  have d: "drop i bs = b # t @ rest" using assms(1) b by simp
  have dec: "decode_utf8 (drop i bs) = (r, length (encode_utf8 r))"
    unfolding assms(1) using decode_utf8_encode assms(2) by (simp add: scalar_def valid_rune_def)
  have ne: "r = RUNE_ERROR \<Longrightarrow> length (encode_utf8 r) \<noteq> Suc 0" by (simp add: RUNE_ERROR_def encode_utf8_def)
  have "b \<noteq> CHR 0x22" "b \<noteq> CHR 0x5C" using b(2) by auto
  then have "string_loop allow bs i out flag = string_loop allow bs (i + length (encode_utf8 r)) (emit out (rune_bytes r)) (flag \<or> False)"
    using loop_special [OF d not_plain(4) [OF b(2)], of allow out flag] b(2) dec ne by (cases "r = RUNE_ERROR") simp_all
  then show ?thesis using rune_bytes_scalar [OF assms(2)] by simp
qed

lemma short_escapes:
  assumes "r \<in> {8, 9, 10, 12, 13, 34, 92}"
  shows "wire_rune r = [CHR 0x5C, wire_rune r ! 1] \<and> simple_escape (wire_rune r ! 1) = Some (char_of r, False) \<and> encode_utf8 r = [char_of r]"
proof -
  have "list_all (\<lambda>r. wire_rune r = [CHR 0x5C, wire_rune r ! 1] \<and>
      simple_escape (wire_rune r ! 1) = Some (char_of r, False) \<and> encode_utf8 r = [char_of r]) [8, 9, 10, 12, 13, 34, 92]"
    by code_simp
  then show ?thesis using assms by auto
qed

lemma loop_wire_rune:
  assumes "drop i bs = wire_rune r @ rest" "scalar r"
  shows "string_loop allow bs i out flag =
    string_loop allow bs (i + length (wire_rune r)) (emit out (encode_utf8 r)) (flag \<or> long_escape r)"
proof -
  have r: "0 \<le> r" using assms(2) by (simp add: scalar_def valid_rune_def)
  consider "r \<in> {8, 9, 10, 12, 13, 34, 92}" | "long_escape r" | "32 \<le> r" "r < 0x80" "r \<notin> {34, 92}" | "0x80 \<le> r"
    using r by (cases "r \<le> 31"; cases "r < 0x80") (auto simp: long_escape_def)
  then show ?thesis
  proof cases
    case 1
    then obtain e c where e: "wire_rune r = [CHR 0x5C, e]" "simple_escape e = Some (c, False)" "encode_utf8 r = [c]"
      using short_escapes by blast
    moreover have "\<not> long_escape r" using 1 by (auto simp: long_escape_def)
    ultimately show ?thesis using loop_simple [of i bs e rest c False] assms(1) by simp
  next
    case 2
    have w: "wire_rune r = [CHR 0x5C, CHR ''u'', CHR ''0'', CHR ''0'', hex_byte (nat r div 16), hex_byte (nat r mod 16)]"
      using 2 by (auto simp: wire_rune_def long_escape_def)
    have d: "drop (Suc (Suc i)) bs = CHR ''0'' # CHR ''0'' # hex_byte (nat r div 16) # hex_byte (nat r mod 16) # rest"
      using assms(1) w by (simp add: drop_Suc_Cons)
    have "nat r < 32" using 2 by (auto simp: long_escape_def)
    then have "hex4 bs (Suc (Suc i)) i = Inr (nat r)" using hex4_written [OF d] by simp
    then have u: "unicode_escape allow bs i (Suc (Suc i)) = Inr (r, i + 6)"
      using 2 by (auto simp: unicode_escape_def long_escape_def)
    have "simple_escape (CHR ''u'') = None" by (simp add: simple_escape_def)
    moreover have "input_at bs (Suc i) = Some (CHR ''u'')" using assms(1) w drop_Suc_Cons [of i bs] by (simp add: input_at_drop)
    ultimately have "string_loop allow bs i out flag = string_loop allow bs (i + 6) (emit out (encode_utf8 r)) True"
      using loop_special [of i bs "CHR 0x5C"] assms w u not_plain(2) rune_bytes_scalar [OF assms(2)] by simp
    moreover have "length (wire_rune r) = 6" by (simp add: w)
    ultimately show ?thesis using 2 by simp
  next
    case 3
    have w: "wire_rune r = [char_of r]" "encode_utf8 r = [char_of r]"
      using 3 assms(2) rune_bytes_scalar [of r] by (auto simp: wire_rune_def encode_utf8_def)
    have "byte_val (char_of r) = nat r" using 3 by simp
    then have "plain_byte (char_of r)" unfolding plain_val using 3 by auto
    moreover have "\<not> long_escape r" using 3 by (auto simp: long_escape_def)
    ultimately show ?thesis using loop_plain [of i bs "char_of r" rest] assms(1) w by simp
  next
    case 4
    have w: "wire_rune r = encode_utf8 r" using 4 rune_bytes_scalar [OF assms(2)] by (simp add: wire_rune_def)
    moreover have "\<not> long_escape r" using 4 by (auto simp: long_escape_def)
    ultimately show ?thesis using loop_high [OF assms(1) [unfolded w] assms(2) 4] by simp
  qed
qed

lemma loop_written:
  assumes "drop i bs = concat (map wire_rune rs) @ CHR 0x22 # rest" "list_all scalar rs"
  shows "string_loop allow bs i out flag =
    (Inr (emit out (encode_runes rs), i + length (concat (map wire_rune rs)) + 1), flag \<or> list_ex long_escape rs)"
  using assms
proof (induction rs arbitrary: i out flag)
  case Nil
  then show ?case using loop_special [of i bs "CHR 0x22" rest] not_plain(1) by simp
next
  case (Cons r rs)
  have d: "drop i bs = wire_rune r @ concat (map wire_rune rs) @ CHR 0x22 # rest" using Cons.prems(1) by simp
  have "drop (i + length (wire_rune r)) bs = concat (map wire_rune rs) @ CHR 0x22 # rest" by (rule drop_add_append [OF d])
  then show ?case using loop_wire_rune [OF d] Cons.IH [of "i + length (wire_rune r)"] Cons.prems(2) by (simp add: disj_assoc)
qed

section \<open>What the writer writes\<close>

text \<open>The characters of a text, with one replacement character for each malformed byte.\<close>

function lossy :: "bytes \<Rightarrow> int list" where
  "lossy bs = (if bs = [] then [] else let (rune, width) = decode_utf8 bs in rune # lossy (drop width bs))"
  by pat_completeness auto
termination
  by (relation "measure length") (auto dest: decode_utf8_progress [OF sym])

declare lossy.simps [simp del]

lemma lossy_scalar: "list_all scalar (lossy bs)"
proof (induction bs rule: lossy.induct)
  case (1 bs)
  obtain r w where rw: "decode_utf8 bs = (r, w)" by fastforce
  have "scalar r" if "bs \<noteq> []"
    using encode_decode_utf8 [OF rw that] rune_bytes_error(2) by (cases "(r, w) = (RUNE_ERROR, 1)") auto
  then show ?case using 1 [OF _ rw [symmetric] refl] rw by (subst lossy.simps) (auto simp: Let_def)
qed

lemma lossy_valid: "from_utf8 bs = Some s \<Longrightarrow> lossy bs = s"
proof (induction bs arbitrary: s rule: lossy.induct)
  case (1 bs)
  obtain r w where rw: "decode_utf8 bs = (r, w)" by fastforce
  show ?case
  proof (cases "bs = []")
    case True
    then show ?thesis using 1(2) by (simp add: lossy.simps from_utf8.simps)
  next
    case False
    then obtain s' where s': "from_utf8 (drop w bs) = Some s'" "s = r # s'"
      using 1(2) rw by (subst (asm) from_utf8.simps) (auto split: if_splits)
    then show ?thesis using 1(1) [OF False rw [symmetric] refl s'(1)] False rw by (subst lossy.simps) simp
  qed
qed

lemma wire_plain: "plain_byte b \<Longrightarrow> wire_rune (of_char b) = [b] \<and> encode_utf8 (of_char b) = [b] \<and> scalar (of_char b)"
proof -
  assume p: "plain_byte b"
  then have v: "32 \<le> byte_val b" "byte_val b < 0x80" "byte_val b \<noteq> 34" "byte_val b \<noteq> 92"
    by (simp_all add: plain_val)
  then have e: "encode_utf8 (of_char b) = [b]" using encode_ascii by blast
  have s: "scalar (of_char b)" unfolding int_byte scalar_def valid_rune_def is_surrogate_def using v(2) by simp
  show ?thesis using v e s rune_bytes_scalar [OF s] unfolding wire_rune_def int_byte by simp
qed

lemma append_plain:
  assumes "drop i bs = b # rest" "plain_byte b"
  shows "append_loop allow bs i out d = append_loop allow bs (Suc i) (out @ [b]) (emit d [b])"
proof -
  have dr: "drop (Suc i) bs = rest" using assms(1) by (rule drop_Suc_Cons)
  have len: "i < length bs" using assms(1) by (metis drop_all list.distinct(1) not_le)
  have plains: "takeWhile plain_byte (drop i bs) = b # takeWhile plain_byte rest" using assms by simp
  have l: "append_loop allow bs i out d =
      append_loop allow bs (Suc (i + length (takeWhile plain_byte rest))) (out @ b # takeWhile plain_byte rest) (emit d (b # takeWhile plain_byte rest))"
    using len plains by (subst append_loop.simps) (simp add: Let_def)
  show ?thesis
  proof (cases "takeWhile plain_byte rest = []")
    case True
    then show ?thesis using l by simp
  next
    case False
    then have "Suc i < length bs" using dr by (metis drop_all not_le takeWhile.simps(1))
    then have "append_loop allow bs (Suc i) (out @ [b]) (emit d [b]) =
        append_loop allow bs (Suc i + length (takeWhile plain_byte rest)) ((out @ [b]) @ takeWhile plain_byte rest) (emit (emit d [b]) (takeWhile plain_byte rest))"
      using False dr by (subst append_loop.simps) (simp add: Let_def)
    then show ?thesis using l by simp
  qed
qed

definition borrowed :: "bytes \<Rightarrow> nat \<Rightarrow> bytes option \<Rightarrow> bytes" where
  "borrowed bs i d = (case d of None \<Rightarrow> take i bs | Some t \<Rightarrow> t)"

text \<open>One character of the text, if it is not refused.\<close>

lemma append_rune_step:
  assumes "i < length bs" "decode_utf8 (drop i bs) = (r, w)" "allow \<or> (r, w) \<noteq> (RUNE_ERROR, 1)"
  shows "\<exists>d'. append_loop allow bs i out d = append_loop allow bs (i + w) (out @ wire_rune r) d' \<and>
    borrowed bs (i + w) d' = borrowed bs i d @ encode_utf8 r"
proof -
  have ne: "drop i bs \<noteq> []" using assms(1) by simp
  have valid: "encode_utf8 r = take w (drop i bs)" if "(r, w) \<noteq> (RUNE_ERROR, 1)"
    using encode_decode_utf8 [OF assms(2) ne that] by simp
  show ?thesis
  proof (cases "plain_byte (hd (drop i bs))")
    case True
    obtain b rest where b: "drop i bs = b # rest" "plain_byte b" using ne True by (cases "drop i bs") auto
    have rw: "r = of_char b" "w = 1" using assms(2) b decode_ascii [of b rest] by (auto simp: plain_byte_def)
    have "borrowed bs (i + w) (emit d [b]) = borrowed bs i d @ [b]"
      using b(1) rw(2) by (cases d) (simp_all add: borrowed_def emit_def take_Suc_conv_app_nth assms(1) nth_via_drop)
    then show ?thesis using append_plain [OF b] wire_plain [OF b(2)] rw by (intro exI [of _ "emit d [b]"]) simp
  next
    case False
    then have plains: "takeWhile plain_byte (drop i bs) = []" using ne by (cases "drop i bs") auto
    let ?d = "if r = RUNE_ERROR \<and> w = 1 then Some (borrowed bs i d @ rune_bytes r) else emit d (take w (drop i bs))"
    have "append_loop allow bs i out d = append_loop allow bs (i + w) (out @ wire_rune r) ?d"
      using assms plains by (subst append_loop.simps) (auto simp: borrowed_def split: option.split)
    moreover have "borrowed bs (i + w) ?d = borrowed bs i d @ encode_utf8 r"
      using valid rune_bytes_error(1) by (cases d) (auto simp: borrowed_def emit_def take_add)
    ultimately show ?thesis by blast
  qed
qed

lemma append_loop_lossy:
  assumes "i \<le> length bs" "allow \<or> from_utf8 (drop i bs) \<noteq> None"
  shows "\<exists>d'. append_loop allow bs i out d = (out @ concat (map wire_rune (lossy (drop i bs))), Inr d') \<and>
    borrowed bs (length bs) d' = borrowed bs i d @ encode_runes (lossy (drop i bs))"
  using assms
proof (induction "length bs - i" arbitrary: i out d rule: less_induct)
  case less
  show ?case
  proof (cases "i = length bs")
    case True
    then show ?thesis by (subst append_loop.simps) (simp add: lossy.simps)
  next
    case False
    then have i: "i < length bs" "drop i bs \<noteq> []" using less.prems by simp_all
    obtain r w where rw: "decode_utf8 (drop i bs) = (r, w)" by fastforce
    have w: "0 < w" "i + w \<le> length bs" using decode_utf8_progress [OF rw i(2)] by auto
    have ok: "allow \<or> (r, w) \<noteq> (RUNE_ERROR, 1)" "allow \<or> from_utf8 (drop (i + w) bs) \<noteq> None"
      using less.prems(2) rw i(2) by (auto simp: from_utf8.simps [of "drop i bs"] add.commute split: if_splits)
    obtain d' where d': "append_loop allow bs i out d = append_loop allow bs (i + w) (out @ wire_rune r) d'"
        "borrowed bs (i + w) d' = borrowed bs i d @ encode_utf8 r"
      using append_rune_step [OF i(1) rw ok(1)] by blast
    have l: "lossy (drop i bs) = r # lossy (drop (i + w) bs)"
      using i(2) rw by (subst lossy.simps) (simp add: add.commute)
    have "scalar r" using lossy_scalar [of "drop i bs"] l by simp
    then show ?thesis
      using less.hyps [of "i + w" "out @ wire_rune r" d'] w i d' ok(2) l by auto
  qed
qed

lemma append_loop_refuses:
  assumes "i \<le> length bs" "from_utf8 (drop i bs) = None"
  shows "\<exists>written offset. append_loop False bs i out d = (written, Inl offset)"
  using assms
proof (induction "length bs - i" arbitrary: i out d rule: less_induct)
  case less
  then have i: "i < length bs" "drop i bs \<noteq> []" by (auto simp: from_utf8.simps [of "[]"] le_less)
  obtain r w where rw: "decode_utf8 (drop i bs) = (r, w)" by fastforce
  have w: "0 < w" "i + w \<le> length bs" using decode_utf8_progress [OF rw i(2)] by auto
  show ?case
  proof (cases "(r, w) = (RUNE_ERROR, 1)")
    case True
    obtain b rest where b: "drop i bs = b # rest" using i(2) by (cases "drop i bs") auto
    have "\<not> plain_byte b"
    proof
      assume "plain_byte b"
      then have "RUNE_ERROR = of_char b" "byte_val b < 0x80" using rw True b decode_ascii [of b rest] by (auto simp: plain_byte_def)
      then show False using int_byte [of b] by (simp add: RUNE_ERROR_def)
    qed
    then show ?thesis using True rw i b by (subst append_loop.simps) simp
  next
    case False
    then have "from_utf8 (drop (i + w) bs) = None"
      using less.prems(2) rw i(2) by (auto simp: from_utf8.simps [of "drop i bs"] add.commute split: if_splits)
    moreover obtain d' where "append_loop False bs i out d = append_loop False bs (i + w) (out @ wire_rune r) d'"
      using append_rune_step [OF i(1) rw] False by blast
    ultimately show ?thesis using less.hyps [of "i + w"] w i by simp
  qed
qed

definition wire_string :: "int list \<Rightarrow> bytes" where
  "wire_string rs = CHR 0x22 # concat (map wire_rune rs) @ [CHR 0x22]"

lemma append_string_lossy:
  assumes "allow \<or> from_utf8 s \<noteq> None"
  shows "append_string allow out s = (out @ wire_string (lossy s), Inr (encode_runes (lossy s)))"
proof -
  obtain d where d: "append_loop allow s 0 (out @ [CHR 0x22]) None = ((out @ [CHR 0x22]) @ concat (map wire_rune (lossy s)), Inr d)"
      "borrowed s (length s) d = encode_runes (lossy s)"
    using append_loop_lossy [of 0 s allow "out @ [CHR 0x22]" None] assms by (auto simp: borrowed_def)
  then show ?thesis by (cases d) (simp_all add: append_string_def wire_string_def borrowed_def)
qed

text \<open>
  C16. The writer refuses a text exactly if malformed UTF-8 is not allowed and the text has some. What it
  writes for any other text is read back, wherever it stands and whatever the reader allows, up to the
  closing quote, as the text itself, or with a replacement character for each malformed byte.
\<close>

theorem json_string_roundtrip:
  "(if allow \<or> from_utf8 s \<noteq> None
    then \<exists>w flag'. append_string allow out s = (out @ w, Inr (encode_runes (lossy s))) \<and>
      string_into allow' (pre @ w @ rest) (length pre) (Some []) flag =
        (Inr (Some (encode_runes (lossy s)), length pre + length w), flag') \<and>
      (from_utf8 s = None \<or> encode_runes (lossy s) = s)
    else \<exists>written offset. append_string allow out s = (written, Inl offset))"
proof (cases "allow \<or> from_utf8 s \<noteq> None")
  case True
  let ?w = "wire_string (lossy s)"
  have d: "drop (Suc (length pre)) (pre @ ?w @ rest) = concat (map wire_rune (lossy s)) @ CHR 0x22 # rest"
    by (simp add: wire_string_def)
  have "string_into allow' (pre @ ?w @ rest) (length pre) (Some []) flag =
      (Inr (Some (encode_runes (lossy s)), length pre + length ?w), flag \<or> list_ex long_escape (lossy s))"
    using loop_written [OF d lossy_scalar] by (simp add: string_into_def wire_string_def emit_def)
  moreover have "from_utf8 s = None \<or> encode_runes (lossy s) = s" using lossy_valid from_utf8_Some by (cases "from_utf8 s") auto
  ultimately show ?thesis using append_string_lossy [OF True] True by auto
next
  case False
  then show ?thesis using append_loop_refuses [of 0 s "out @ [CHR 0x22]" None] by (auto simp: append_string_def)
qed

section \<open>A string that was not flagged\<close>

lemma flag_stays: "string_loop allow bs i out True = (Inr (out', e), flag) \<Longrightarrow> flag"
proof (induction "length bs - i" arbitrary: i out rule: less_induct)
  case less
  show ?case
  proof (cases "drop i bs")
    case Nil
    then show ?thesis using less.prems loop_end by simp
  next
    case (Cons b rest)
    then have i: "i < length bs" by (metis drop_all list.distinct(1) not_le)
    show ?thesis
    proof (cases "plain_byte b")
      case True
      then show ?thesis using less.hyps [of "Suc i" "emit out [b]"] less.prems loop_plain [OF Cons True, of allow out] i by simp
    next
      case False
      obtain r w where rw: "decode_utf8 (drop i bs) = (r, w)" by fastforce
      have w: "0 < w" using decode_utf8_progress [OF rw] Cons by simp
      have u: "i < j" if "unicode_escape allow bs i (Suc (Suc i)) = Inr (rune, j)" for rune j
        using unicode_escape_progress [OF that] by simp
      have "flag \<or> (\<exists>j out2. i < j \<and> string_loop allow bs j out2 True = (Inr (out', e), flag))"
        using less.prems w rw u less_add_same_cancel1 [of i w] lessI [of i] less_SucI [OF lessI [of i]] unfolding loop_special [OF Cons False]
        by (auto split: if_splits option.splits sum.splits simp del: less_add_same_cancel1)
      then show ?thesis using less.hyps i by (meson diff_less_mono2)
    qed
  qed
qed

lemma wire_of_simple:
  assumes "simple_escape e = Some (c, False)"
  shows "wire_rune (of_char c) = [CHR 0x5C, e] \<and> encode_utf8 (of_char c) = [c] \<and> scalar (of_char c)"
proof -
  have e: "e \<in> set [CHR 0x22, CHR 0x5C, CHR ''b'', CHR ''f'', CHR ''n'', CHR ''r'', CHR ''t'']"
    using assms by (auto simp: simple_escape_def split: if_splits)
  have "list_all (\<lambda>e. case simple_escape e of None \<Rightarrow> False
      | Some (c, _) \<Rightarrow> wire_rune (of_char c) = [CHR 0x5C, e] \<and> encode_utf8 (of_char c) = [c] \<and>
          0 \<le> (of_char c :: int) \<and> (of_char c :: int) < 0x80)
      [CHR 0x22, CHR 0x5C, CHR ''b'', CHR ''f'', CHR ''n'', CHR ''r'', CHR ''t'']"
    by code_simp
  then have "wire_rune (of_char c) = [CHR 0x5C, e] \<and> encode_utf8 (of_char c) = [c] \<and> 0 \<le> (of_char c :: int) \<and> (of_char c :: int) < 0x80"
    using e assms unfolding list_all_iff by fastforce
  then show ?thesis by (simp add: scalar_def valid_rune_def is_surrogate_def)
qed

text \<open>An unflagged scan goes on behind a character in the writer's spelling.\<close>

definition rune_read :: "bool \<Rightarrow> bytes \<Rightarrow> nat \<Rightarrow> bytes option \<Rightarrow> bytes option \<times> nat \<Rightarrow> int \<Rightarrow> bool" where
  "rune_read allow bs i out result r \<longleftrightarrow>
     scalar r \<and> wire_rune r \<noteq> [] \<and> drop i bs = wire_rune r @ drop (i + length (wire_rune r)) bs \<and>
     string_loop allow bs (i + length (wire_rune r)) (emit out (encode_utf8 r)) False = (Inr (fst result, snd result), False)"

lemma never_unflagged: "string_loop allow bs j out True \<noteq> (Inr (out', e), False)"
  using flag_stays by blast

lemma unflagged_plain:
  assumes "drop i bs = b # rest" "plain_byte b" "string_loop allow bs i out False = (Inr (out', e), False)"
  shows "rune_read allow bs i out (out', e) (of_char b)"
  using wire_plain [OF assms(2)] loop_plain [OF assms(1,2), of allow out False] assms(1,3) drop_Suc_Cons [OF assms(1)]
  by (simp add: rune_read_def)

lemma unflagged_escape:
  assumes "drop i bs = CHR 0x5C # rest" "string_loop allow bs i out False = (Inr (out', e), False)"
  shows "\<exists>r. rune_read allow bs i out (out', e) r"
proof -
  note sp = assms(2) [unfolded loop_special [OF assms(1) not_plain(2)]]
  obtain x where x: "input_at bs (Suc i) = Some x" using sp by (cases "input_at bs (Suc i)") simp_all
  obtain c where c: "simple_escape x = Some (c, False)"
  proof (cases "simple_escape x")
    case None
    then show ?thesis using sp x never_unflagged [of allow bs] by (cases "unicode_escape allow bs i (Suc (Suc i))") (auto split: if_splits)
  next
    case (Some p)
    obtain c differs where p: "p = (c, differs)" by fastforce
    then show ?thesis using sp x Some never_unflagged [of allow bs] that by (cases differs) simp_all
  qed
  have dx: "drop i bs = CHR 0x5C # x # drop (Suc (Suc i)) bs"
    using assms(1) drop_Suc_Cons [OF assms(1)] x unfolding input_at_Some by simp
  have "string_loop allow bs (Suc (Suc i)) (emit out [c]) False = (Inr (out', e), False)"
    using loop_simple [OF dx c, of allow out False] assms(2) by simp
  then show ?thesis using wire_of_simple [OF c] dx by (intro exI [of _ "of_char c"]) (simp add: rune_read_def)
qed

lemma unflagged_high:
  assumes "drop i bs = b # rest" "0x80 \<le> byte_val b" "string_loop allow bs i out False = (Inr (out', e), False)"
  shows "\<exists>r. rune_read allow bs i out (out', e) r"
proof -
  obtain r w where rw: "decode_utf8 (drop i bs) = (r, w)" by fastforce
  have b: "b \<noteq> CHR 0x22" "b \<noteq> CHR 0x5C" "\<not> byte_val b \<le> 31" using assms(2) by auto
  have sp: "(if r = RUNE_ERROR \<and> w = 1 \<and> \<not> allow then (Inl (InvalidUtf8 i), False)
      else string_loop allow bs (i + w) (emit out (rune_bytes r)) (r = RUNE_ERROR \<and> w = 1)) = (Inr (out', e), False)"
    using assms(3) unfolding loop_special [OF assms(1) not_plain(4) [OF assms(2)]] rw Let_def prod.case
    using b assms(2) by (simp only: if_False if_True simp_thms)
  have ne: "(r, w) \<noteq> (RUNE_ERROR, 1)" using sp never_unflagged [of allow bs] by (cases allow) auto
  have enc: "encode_utf8 r = take w (drop i bs)" "scalar r" using encode_decode_utf8 [OF rw _ ne] assms(1) by simp_all
  have w: "0 < w" "w \<le> length (drop i bs)" using decode_utf8_progress [OF rw] assms(1) by simp_all
  have r: "0x80 \<le> r"
  proof (rule ccontr)
    assume "\<not> 0x80 \<le> r"
    then have lt: "take w (drop i bs) = [char_of r]" "0 \<le> r" "r < 0x80"
      using enc by (simp_all add: encode_utf8_def scalar_def valid_rune_def)
    then have "b = char_of r" using assms(1) w by (cases w) auto
    then have "byte_val b = nat r" using lt(2,3) by simp
    then show False using assms(2) lt(3) by simp
  qed
  have wr: "wire_rune r = take w (drop i bs)" using r rune_bytes_scalar [OF enc(2)] enc(1) by (simp add: wire_rune_def)
  have "string_loop allow bs (i + w) (emit out (encode_utf8 r)) False = (Inr (out', e), False)"
    using sp ne rune_bytes_scalar [OF enc(2)] by (cases "r = RUNE_ERROR") simp_all
  moreover have "length (wire_rune r) = w" using wr w by simp
  moreover have "drop i bs = take w (drop i bs) @ drop (i + w) bs" by (metis append_take_drop_id drop_drop add.commute)
  ultimately show ?thesis using wr enc(2) w by (intro exI [of _ r]) (auto simp: rune_read_def)
qed

lemma unflagged_rune:
  assumes "drop i bs = b # rest" "b \<noteq> CHR 0x22" "string_loop allow bs i out False = (Inr (out', e), False)"
  shows "\<exists>r. rune_read allow bs i out (out', e) r"
proof -
  have "\<not> byte_val b \<le> 31"
  proof
    assume c: "byte_val b \<le> 31"
    then have "b \<noteq> CHR 0x5C" by auto
    then show False using loop_special [OF assms(1) not_plain(3) [OF c], of allow out False] c assms(2,3) by simp
  qed
  then consider "plain_byte b" | "b = CHR 0x5C" | "0x80 \<le> byte_val b" using assms(2) by (cases "byte_val b < 0x80") (auto simp: plain_byte_def)
  then show ?thesis
  proof cases
    case 1
    then show ?thesis using unflagged_plain [OF assms(1) 1 assms(3)] by blast
  next
    case 2
    then show ?thesis using unflagged_escape assms(1,3) by blast
  next
    case 3
    then show ?thesis by (rule unflagged_high [OF assms(1) _ assms(3)])
  qed
qed

lemma unflagged_string:
  "string_loop allow bs i out False = (Inr (out', e), False) \<Longrightarrow>
     \<exists>rs. list_all scalar rs \<and> out' = emit out (encode_runes rs) \<and>
       drop i bs = concat (map wire_rune rs) @ CHR 0x22 # drop e bs \<and> e = i + length (concat (map wire_rune rs)) + 1"
proof (induction "length bs - i" arbitrary: i out rule: less_induct)
  case less
  show ?case
  proof (cases "drop i bs")
    case Nil
    then show ?thesis using less.prems loop_end by simp
  next
    case (Cons b rest)
    then have i: "i < length bs" by (metis drop_all list.distinct(1) not_le)
    show ?thesis
    proof (cases "b = CHR 0x22")
      case True
      then show ?thesis
        using loop_special [OF Cons, of allow out False] not_plain(1) less.prems Cons drop_Suc_Cons [OF Cons]
        by (intro exI [of _ "[]"]) auto
    next
      case False
      then obtain r where "rune_read allow bs i out (out', e) r" using unflagged_rune [OF Cons _ less.prems] by blast
      then have h: "string_loop allow bs (i + length (wire_rune r)) (emit out (encode_utf8 r)) False = (Inr (out', e), False)"
          "drop i bs = wire_rune r @ drop (i + length (wire_rune r)) bs" "scalar r" "wire_rune r \<noteq> []"
        by (simp_all add: rune_read_def)
      have "length bs - (i + length (wire_rune r)) < length bs - i" using h(4) i by (simp flip: length_greater_0_conv)
      then obtain rs where "list_all scalar rs" "out' = emit (emit out (encode_utf8 r)) (encode_runes rs)"
          "drop (i + length (wire_rune r)) bs = concat (map wire_rune rs) @ CHR 0x22 # drop e bs"
          "e = i + length (wire_rune r) + length (concat (map wire_rune rs)) + 1"
        using less.hyps [OF _ h(1)] by blast
      then show ?thesis using h(2,3) by (intro exI [of _ "r # rs"]) simp
    qed
  qed
qed

text \<open>
  If a scan of a string has not set the flag, the writer spells the text it read exactly as the input
  did, whether the scan has decoded the text or only validated it.
\<close>

theorem unflagged_string_is_canonical:
  assumes "string_into allow bs start out False = (Inr (out', e), False)" "input_at bs start = Some (CHR 0x22)"
  shows "\<exists>s. out' = emit out s \<and> append_string False pre s = (pre @ take (e - start) (drop start bs), Inr s) \<and> start < e \<and> e \<le> length bs"
proof -
  obtain rs where rs: "list_all scalar rs" "out' = emit out (encode_runes rs)"
      "drop (Suc start) bs = concat (map wire_rune rs) @ CHR 0x22 # drop e bs" "e = Suc start + length (concat (map wire_rune rs)) + 1"
    using unflagged_string [of allow bs "Suc start" out out' e] assms(1) by (auto simp: string_into_def)
  have lossy: "lossy (encode_runes rs) = rs" using lossy_valid from_utf8_encode rs(1) by blast
  have "drop start bs = wire_string rs @ drop e bs" using assms(2) rs(3) by (simp add: input_at_Some wire_string_def)
  moreover have "length (wire_string rs) = e - start" using rs(4) by (simp add: wire_string_def)
  ultimately have "take (e - start) (drop start bs) = wire_string rs" by simp
  moreover have "e \<le> length bs"
  proof -
    have "length (drop (Suc start) bs) = length (concat (map wire_rune rs)) + Suc (length (drop e bs))" unfolding rs(3) by simp
    then show ?thesis using rs(4) by simp
  qed
  moreover have "append_string False pre (encode_runes rs) = (pre @ wire_string rs, Inr (encode_runes rs))"
    using append_string_lossy [of False "encode_runes rs" pre] lossy from_utf8_encode [OF rs(1)] by simp
  ultimately show ?thesis using rs(2,4) by auto
qed

theorem unflagged_string_is_canonical_witness:
  "append_string False [] ''a'' = (take 3 (drop 0 [CHR 0x22, CHR ''a'', CHR 0x22, CHR ''x'']), Inr ''a'')"
proof -
  let ?bs = "[CHR 0x22, CHR ''a'', CHR 0x22, CHR ''x'']"
  have s: "string_into True ?bs 0 (Some []) False = (Inr (Some ''a'', 3), False)" by code_simp
  have "input_at ?bs 0 = Some (CHR 0x22)" by code_simp
  from unflagged_string_is_canonical [OF s this, of "[]"] show ?thesis by (auto simp: emit_def)
qed

theorem json_string_roundtrip_witness:
  "\<exists>w flag'. append_string True [] [CHR 0x0A, CHR 0xFF] = (w, Inr [CHR 0x0A, CHR 0xEF, CHR 0xBF, CHR 0xBD]) \<and>
    string_into False ([CHR ''x''] @ w @ []) 1 (Some []) False = (Inr (Some [CHR 0x0A, CHR 0xEF, CHR 0xBF, CHR 0xBD], 1 + length w), flag')"
proof -
  have l: "encode_runes (lossy [CHR 0x0A, CHR 0xFF]) = [CHR 0x0A, CHR 0xEF, CHR 0xBF, CHR 0xBD]" by code_simp
  show ?thesis
    using json_string_roundtrip [of True "[CHR 0x0A, CHR 0xFF]" "[]" False "[CHR ''x'']" "[]" False] unfolding l by auto
qed

end
