(* ===== verification/Spec2Isabelle.thy ===== *)
theory Spec2Isabelle
  imports Source_Map_Roundtrip Base64 Positions Path_Extensions Semver_Range Glob
    Text_Edits Patterns Ordered_Map Link_Store Go_Sort_Correct Source_Mapper Build_Run Comments
    Ref_Count_Cache Event_List Base_Proto Bfs Json_Strings
begin

text \<open>
  A verification development for \<open>tsr\<close>, a Rust implementation of the TypeScript compiler and its
  language server (\<open>src/crates\<close>). The program is a port: its data layer keeps the byte strings,
  machine integers, panics and iteration orders of the original, and the compiler above it relies on
  them. This development models that layer: strings and positions, paths, source maps, versions,
  globs, text edits, trivia and comments, and the containers, the sort and the search of \<open>tsr_core\<close>; and
  on top of it the parts that run threads or face the outside without the syntax tree: project builds,
  the shared cache of the project system, the event list of the watchers and the framing of messages.

  \<^bold>\<open>Conventions.\<close> A byte string is a list of \<^typ>\<open>char\<close>, one byte each. \<open>isize\<close> and \<open>u32\<close> are words
  where bits or wrap-around matter (\<open>Source_Map_*\<close>, \<open>Semver\<close>, \<open>Link_Store\<close>), and \<^typ>\<open>int\<close> with
  \<open>wrap32\<close> or \<open>wrap64\<close> at every narrowing where sizes are mixed (\<open>Line_Map\<close>, \<open>Positions\<close>,
  \<open>Text_Edits\<close>). A panic is \<^term>\<open>None\<close>, a \<open>Result\<close> is a sum or an option, and a loop is a recursive
  function with its termination proof. Loops whose end does not show in their arguments are partial
  functions: the live iterations of the ordered containers, whose callbacks can add keys while the loop
  runs, and which are shown to return for callbacks that do not; the scan of \<open>Positions\<close>; and the loading
  and the walk of \<open>Build_Graph\<close>, which are shown to return. No definition of the code has fuel. Threads
  are interleavings of atomic steps, given as a schedule or as an inductive relation.
  Tables that are generated or belong to the Unicode data (lower case, case folding) are arguments.

  \<^bold>\<open>Theories.\<close>
  \<^item> \<open>Prelude\<close>: the slice operations of the standard library that the sources call, and the lemmas on
    lists, words and bytes that everything shares.
  \<^item> \<open>Interfaces\<close>: the contracts as locales, that is \<open>codec\<close>, \<open>stream_codec\<close> and \<open>comparison\<close>, with
    what their clients learn. Interpretations: the Base64, WTF-8 and UTF-8 codecs, and the
    comparisons of bytes, strings, versions and ranges. \<open>Ordered_Map\<close> and \<open>Link_Store\<close> state their own
    contracts, \<open>ordered_dictionary\<close> and \<open>store\<close>, and provide them.
  \<^item> \<open>Source_Map_Vlq\<close>, \<open>Source_Map_Decoder\<close>, \<open>Source_Map_Generator\<close>, \<open>Source_Map_Roundtrip\<close>:
    \<open>tsr_sourcemap/src/decoder.rs\<close> and \<open>generator.rs\<close>. The generator's record is the struct, one
    definition per method that changes it, and the step relation of \<open>Source_Map_Roundtrip\<close> runs over all of
    these, \<open>add_source\<close> included; the JSON text and the data URL of the finished map are left out. The
    lemmas show that the decoder reads back every segment the generator was given, that committing
    appends the pending segment and nothing else, and that no assertion of the generator can fail.
  \<^item> \<open>Base64\<close>: \<open>tsr_sourcemap/src/base64.rs\<close>, encoder and decoder, inverse to each other.
  \<^item> \<open>Wtf8\<close>, \<open>Strings\<close>: \<open>tsr_jsstring/src/wtf8.rs\<close> and the UTF-8 strings of the standard library.
    Decoding inverts encoding for all code points, surrogates included, and joining surrogate pairs
    keeps the UTF-16 units.
  \<^item> \<open>Line_Map\<close>, \<open>Positions\<close>: \<open>line_map.rs\<close>, \<open>scanner_positions.rs\<close>, \<open>lsp.rs\<close>, \<open>position_map.rs\<close>. Line
    starts increase and are found by both searches; byte offsets survive the trip through line and
    character in UTF-8 and UTF-16. The bound of the theorems, texts below \<open>2^29\<close> bytes, keeps every
    \<open>i32\<close> product of the code from wrapping.
  \<^item> \<open>Paths\<close>, \<open>Path_Components\<close>, \<open>Path_Extensions\<close>: \<open>tsr_core/src/path.rs\<close> and \<open>tsr_tspath/src\<close>. Four
    normalisations of the code agree with one reduction of components, relative paths invert
    combination, and the comparator of paths is shown not to come from one order.
  \<^item> \<open>Semver\<close>, \<open>Semver_Range\<close>: \<open>tsr_semver/src\<close>. Precedence is a total preorder that only ignores
    build metadata; versions and ranges are read back from their text; caret and tilde ranges hold
    exactly the versions they should, with all three numbers or with wildcards.
  \<^item> \<open>Glob\<close>: \<open>tsr_glob/src/lib.rs\<close>. The matcher decides the language of the pattern, given as an
    inductive denotation, on texts without a trailing slash; a parsed glob without negated ranges prints
    as the text it was parsed from (a negated range loses its mark when it is printed).
  \<^item> \<open>Text_Edits\<close>: \<open>TextRange\<close> of \<open>tsr_core/src/lib.rs\<close>, \<open>ranges.rs\<close> and \<open>text_change.rs\<close>. One pass over
    sorted edits is applying them one at a time; the error value is returned exactly on the other lists.
  \<^item> \<open>Patterns\<close>: \<open>tsr_core/src/pattern.rs\<close>, the patterns with one star.
  \<^item> \<open>Ordered_Map\<close>: \<open>collections/ordered_map.rs\<close> and \<open>ordered_set.rs\<close>, refining association lists along
    every sequence of operations.
  \<^item> \<open>Link_Store\<close>: \<open>linkstore.rs\<close> and \<open>stack.rs\<close>. The paged store and the hash map cannot be told apart by
    their values.
  \<^item> \<open>Go_Sort\<close>, \<open>Go_Sort_Correct\<close>: \<open>tsr_core/src/go_sort.rs\<close>. The sort returns a permutation with every
    comparison function and a sorted one with every order, and never reads out of range, also where its
    partial insertion sort runs below the range it was given.
  \<^item> \<open>Go_Sort_Natural\<close>, \<open>Source_Mapper\<close>: the sort commutes with renaming, so it also sorts where the
    comparison is an order on the elements only; the document position mapper of
    \<open>tsr_sourcemap/src/source_mapper.rs\<close> uses it. Its queries answer with the closest mapping. The host
    of the mapper is an argument; a wrapped difference of positions is excluded by its texts being
    shorter than \<open>2^62\<close> bytes.
  \<^item> \<open>Build_Graph\<close>, \<open>Build_Order\<close>: \<open>tsr_build/src/graph.rs\<close>. The configurations are loaded in batches and a
    depth-first walk orders the projects. The walk is a partial function; it is shown to return, with an
    order in which every project comes behind those it waits for, and with an error exactly when there is
    a cycle. The contract of the order is the locale \<open>build_plan\<close>.
  \<^item> \<open>Build_Run\<close>: the builder threads of \<open>build_or_clean\<close> in \<open>tsr_build/src/lib.rs\<close>, as a state with one entry
    per thread and events for the steps between the points where threads meet. From the contract of the
    order follow that the threads never block each other for ever, that a project is built behind those
    it waits for, that reports come in order, and that every build has the outcome of a sequential build of the
    projects in order, though it reads the outcomes upstream when it runs. A cancellation of the context is an
    event that may come at any time.
  \<^item> \<open>Trivia\<close>, \<open>Comments\<close>: \<open>tsr_scanner/src/trivia.rs\<close>. An iteration of \<open>skip_trivia_ex\<close> is one definition, and
    its loop is shown to return inside of the text, to stop where no trivia starts and to stay there. The
    comment iterator's \<open>next\<close> follows the same moves, and it gives every comment of its stretch of the text,
    which is described by an inductive predicate on the text.
  \<^item> \<open>Bfs\<close>: \<open>tsr_core/src/bfs.rs\<close> over \<open>Ordered_Map\<close>. The threads of a level are program counters over a shared
    visited set and two atomic minima. Every schedule of a level ends, and they all end like a
    sequential run; from that follow the answer of the search and its independence of the schedule.
    The bound of the theorems, levels with fewer jobs than an \<open>i64\<close> can count, keeps an index apart from the
    mark for a minimum that was not set.
  \<^item> \<open>Ref_Count_Cache\<close>: \<open>tsr_project/src/ref_count_cache.rs\<close> as a state machine of calls on threads. The
    invariant ties counts to holders; calls wait for each other for ever only if producers use the
    cache themselves, and \<open>nested_producers_deadlock\<close> shows that they then can. The notifications of the
    condition variable are not represented: a waiting call may go on once the state allows it.
  \<^item> \<open>Event_List\<close>: \<open>tsr_fswatch/src/event.rs\<close>. What a subscription learns is compared with whether the path
    exists after the recorded operations.
  \<^item> \<open>Base_Proto\<close>: \<open>tsr_jsonrpc/src/base_proto.rs\<close>, an instance of \<open>stream_codec\<close>: frames are read back, and
    a frame that was cut is refused.
  \<^item> \<open>Json_Wire\<close>, \<open>Json_Strings\<close>: \<open>tsr_json/src/wire.rs\<close>. Strings that the writer puts are read back, a string that
    a scan has not flagged is spelled as the writer would, and the two scanners of numbers accept the
    grammar of JSON numbers.

  \<^bold>\<open>Not modelled.\<close> The JSON text of a finished source map, the search for common parents, the case
  conversions of JavaScript strings, and the wording of error messages; the syntax tree and its arena
  (generated tables and memory layout); the tokens of the scanner, parser, binder, checker, transformers
  and printer, which work on that tree; module resolution and program loading, the backends of file
  systems and watchers, the request handlers of the servers and the command line, which are driven by
  the operating system; threads and locks of the standard library, other than the interleavings of
  \<open>Build_Run\<close>, \<open>Bfs\<close> and \<open>Ref_Count_Cache\<close>.
\<close>

end
